(* ===== verification/Zlib_Prelude.thy ===== *)
theory Zlib_Prelude
  imports Main "HOL-Library.Word"
begin

text \<open>
  Shared vocabulary of the development: the names of the C integer types, the collections of
  rewrite rules the component theories fill, and generic lemmas on lists, words and bits that
  more than one component uses.

  A byte buffer with its length is a \<open>byte list\<close>; the null pointer \<open>Z_NULL\<close> is \<open>None\<close> where
  the code tests for it.  Data that the code combines bitwise or modulo its width is a word;
  counters and array indices are naturals, and every subtraction on them is written under the
  guard the code has.
\<close>

unbundle bit_operations_syntax

type_synonym byte = "8 word"
type_synonym ush = "16 word"
type_synonym z_crc_t = "32 word"

named_theorems zlib_defs \<open>definitions that are unfolded freely in proofs about a component\<close>
named_theorems bits_simps \<open>rules that move between words, naturals and lists of bits\<close>

section \<open>Lists\<close>

lemma foldl_take_drop: "foldl f (foldl f s (take n xs)) (drop n xs) = foldl f s xs"
  by (metis append_take_drop_id foldl_append)

lemma upt_split: "a \<le> l \<Longrightarrow> l < b \<Longrightarrow> [a..<b] = [a..<l] @ l # [Suc l..<b]"
  using upt_add_eq_append[of a l "b - l"] by (simp add: upt_conv_Cons)

lemma map_upt_nth: "map f [a..<b] = ys \<Longrightarrow> i < b - a \<Longrightarrow> f (a + i) = ys ! i"
  by auto

lemma list_all_upt: "list_all P [a..<b] \<Longrightarrow> a \<le> k \<Longrightarrow> k < b \<Longrightarrow> P k"
  by (simp add: list_all_iff)

lemma foldl_invariant:
  assumes "P s" and "\<And>s x. P s \<Longrightarrow> P (f s x)"
  shows "P (foldl f s xs)"
  using assms by (induction xs arbitrary: s) auto

lemma take_Suc_nth: "n < length xs \<Longrightarrow> take (Suc n) xs = take n xs @ [xs ! n]"
  by (rule take_Suc_conv_app_nth)

section \<open>Words as naturals\<close>

lemma unat_less_exp: "unat (w :: 'a::len word) < 2 ^ LENGTH('a)"
  by (rule unsigned_less)

lemma byte_unat_less: "unat (b :: byte) < 256"
  using unat_less_exp[of b] by simp

lemma byte_unat_le: "unat (b :: byte) \<le> 255"
  using byte_unat_less[of b] by simp

lemma unat_add_small:
  "unat (a :: 'a::len word) + unat b < 2 ^ LENGTH('a) \<Longrightarrow> unat (a + b) = unat a + unat b"
  by (simp add: unat_add_lem)

lemma unat_mult_small:
  "unat (a :: 'a::len word) * unat b < 2 ^ LENGTH('a) \<Longrightarrow> unat (a * b) = unat a * unat b"
  by (simp add: unat_mult_lem)

lemma unat_sub_small: "b \<le> a \<Longrightarrow> unat (a - b) = unat a - unat (b :: 'a::len word)"
  by (rule unat_sub)

lemma unat_numeral_small:
  "numeral n < (2 :: nat) ^ LENGTH('a) \<Longrightarrow> unat (numeral n :: 'a::len word) = numeral n"
  by (metis of_nat_numeral unat_of_nat take_bit_nat_eq_self take_bit_eq_mod)

lemma unat_ucast_byte:
  "8 \<le> LENGTH('a) \<Longrightarrow> unat (ucast (b :: byte) :: 'a::len word) = unat b"
  using byte_unat_less[of b] power_increasing[of 8 "LENGTH('a)" "2::nat"]
  by (simp add: unsigned_ucast_eq take_bit_nat_eq_self_iff)

lemma take_bit_unat_self: "unat (w :: 'a::len word) < 2 ^ n \<Longrightarrow> take_bit n w = w"
  by (metis take_bit_nat_eq_self unsigned_take_bit_eq unsigned_word_eqI)

lemma not_bit_if_unat_less:
  assumes "unat (w :: 'a::len word) < 2 ^ n" "n \<le> m"
  shows "\<not> bit w m"
  using take_bit_unat_self[OF assms(1)] assms(2)
  by (metis bit_take_bit_iff not_le)

lemma and_mask16: "w AND 0xffff = take_bit 16 (w :: 'a::len word)"
  by (simp add: take_bit_eq_mask mask_eq_exp_minus_1)

lemma unat_take_bit_mod: "unat (take_bit n w :: 'a::len word) = unat w mod 2 ^ n"
  by (simp only: unsigned_take_bit_eq take_bit_eq_mod[where ?'a = nat])

lemma unat_drop_bit_div: "unat (drop_bit n w :: 'a::len word) = unat w div 2 ^ n"
  by (simp only: unat_drop_bit_eq drop_bit_eq_div[where ?'a = nat])

lemma or_push_bit_eq_add:
  assumes "unat (a :: 'a::len word) < 2 ^ n"
  shows "a OR push_bit n s = a + push_bit n s"
proof -
  have "a AND push_bit n s = 0"
    using not_bit_if_unat_less[OF assms] by (auto simp: bit_eq_iff bit_simps)
  then show ?thesis by (simp add: disjunctive_add_eq_or)
qed

lemma byte_high_bit [simp]: "8 \<le> n \<Longrightarrow> \<not> bit (b :: byte) n"
  using bit_imp_le_length[of b n] by auto

end
