(* ===== verification/Checksum.thy ===== *)
theory Checksum
  imports Zlib_Prelude
begin

text \<open>
  The interface of a running check value, as \<open>inflate\<close> and \<open>deflate\<close> use \<open>adler32\<close> and \<open>crc32\<close>:
  the value is updated buffer by buffer, whatever the buffers' boundaries.  The theories of the
  two check values interpret both locales on the code's functions.
\<close>

locale checksum =
  fixes init :: 'c and upd :: "'c \<Rightarrow> byte list \<Rightarrow> 'c" and valid :: "'c \<Rightarrow> bool"
  assumes valid_init: "valid init"
    and valid_upd: "valid c \<Longrightarrow> valid (upd c xs)"
    and upd_Nil: "valid c \<Longrightarrow> upd c [] = c"
    and upd_append: "valid c \<Longrightarrow> upd c (xs @ ys) = upd (upd c xs) ys"
begin

lemma valid_chunks: "valid c \<Longrightarrow> valid (foldl upd c bufs)"
  by (rule foldl_invariant) (auto intro: valid_upd)

text \<open>Updating buffer by buffer gives the check value of all the data at once.\<close>

lemma upd_chunks: "valid c \<Longrightarrow> foldl upd c bufs = upd c (concat bufs)"
  by (induction bufs arbitrary: c) (simp_all add: upd_Nil upd_append valid_upd)

text \<open>So two ways of cutting the same data give the same value.\<close>

lemma upd_chunks_cong:
  "valid c \<Longrightarrow> concat bufs = concat bufs' \<Longrightarrow> foldl upd c bufs = foldl upd c bufs'"
  by (simp add: upd_chunks)

end

text \<open>A check value whose parts can be computed independently and combined by length.\<close>

locale checksum_combine = checksum +
  fixes combine :: "'c \<Rightarrow> 'c \<Rightarrow> int \<Rightarrow> 'c"
  assumes combine_append:
    "valid c \<Longrightarrow> combine (upd c xs) (upd init ys) (int (length ys)) = upd c (xs @ ys)"
begin

lemma combine_upd: "valid c \<Longrightarrow> combine c (upd init ys) (int (length ys)) = upd c ys"
  using combine_append[of c "[]" ys] by (simp add: upd_Nil)

lemma combine_chunks:
  "valid c \<Longrightarrow> foldl (\<lambda>c ys. combine c (upd init ys) (int (length ys))) c bufs = upd c (concat bufs)"
  by (induction bufs arbitrary: c) (simp_all add: upd_Nil upd_append valid_upd combine_upd)

end

end
