(* ===== verification/Adler32.thy ===== *)
theory Adler32
  imports Checksum
begin

text \<open>
  The Adler-32 check value of \<open>adler32.c\<close>.

  The C type \<open>unsigned long\<close> is a word of any length \<open>'w\<close>; the code only needs it to have 32
  bits or more, and the theorems assume exactly that, so they hold for the 32 bit \<open>long\<close> of
  Windows and for the 64 bit \<open>long\<close> of LP64 systems.  The reference definition is the one of
  RFC 1950: two sums modulo 65521, reduced after every byte.  The theorems show that the
  deferred reductions of the code (one per 5552 bytes, and conditional subtractions for short
  buffers) compute it, that the value can be computed piecewise, and that
  \<open>adler32_combine_\<close> (here \<open>adler32_combine_len\<close>) gives the value of a concatenation.
\<close>

section \<open>The code\<close>

definition BASE :: "'w::len word" where
  "BASE = 65521"

definition NMAX :: nat where
  "NMAX = 5552"

text \<open>\<open>DO1 \<dots> DO16\<close>: the unrolled sums; \<open>st\<close> is the pair of the C variables \<open>adler\<close>, \<open>sum2\<close>.\<close>

fun DO1 :: "byte list \<Rightarrow> nat \<Rightarrow> 'w::len word \<times> 'w word \<Rightarrow> 'w word \<times> 'w word" where
  "DO1 buf i (adler, sum2) =
     (let adler = adler + ucast (buf ! i); sum2 = sum2 + adler in (adler, sum2))"

definition DO2 :: "byte list \<Rightarrow> nat \<Rightarrow> 'w::len word \<times> 'w word \<Rightarrow> 'w word \<times> 'w word" where
  "DO2 buf i st = DO1 buf (i + 1) (DO1 buf i st)"

definition DO4 :: "byte list \<Rightarrow> nat \<Rightarrow> 'w::len word \<times> 'w word \<Rightarrow> 'w word \<times> 'w word" where
  "DO4 buf i st = DO2 buf (i + 2) (DO2 buf i st)"

definition DO8 :: "byte list \<Rightarrow> nat \<Rightarrow> 'w::len word \<times> 'w word \<Rightarrow> 'w word \<times> 'w word" where
  "DO8 buf i st = DO4 buf (i + 4) (DO4 buf i st)"

definition DO16 :: "byte list \<Rightarrow> 'w::len word \<times> 'w word \<Rightarrow> 'w word \<times> 'w word" where
  "DO16 buf st = DO8 buf 8 (DO8 buf 0 st)"

definition MOD :: "'w::len word \<Rightarrow> 'w word" where
  "MOD a = a mod BASE"

text \<open>\<open>while (len--) { adler += *buf++; sum2 += adler; }\<close>\<close>

fun sum_bytes :: "byte list \<Rightarrow> 'w::len word \<times> 'w word \<Rightarrow> 'w word \<times> 'w word" where
  "sum_bytes [] st = st"
| "sum_bytes (b # buf) (adler, sum2) =
     (let adler = adler + ucast b; sum2 = sum2 + adler in sum_bytes buf (adler, sum2))"

text \<open>\<open>do { DO16(buf); buf += 16; } while (--n)\<close>, entered with \<open>n > 0\<close>; the rest of the buffer
  is returned.\<close>

fun do16_times :: "nat \<Rightarrow> byte list \<Rightarrow> 'w::len word \<times> 'w word \<Rightarrow> byte list \<times> 'w word \<times> 'w word" where
  "do16_times 0 buf st = (buf, st)"
| "do16_times (Suc n) buf st = do16_times n (drop 16 buf) (DO16 buf st)"

text \<open>\<open>while (len >= 16)\<close> of the last part.\<close>

fun do16_while :: "byte list \<Rightarrow> 'w::len word \<times> 'w word \<Rightarrow> byte list \<times> 'w word \<times> 'w word" where
  "do16_while buf st =
     (if length buf \<ge> 16 then do16_while (drop 16 buf) (DO16 buf st) else (buf, st))"

declare do16_while.simps [simp del]

text \<open>\<open>while (len >= NMAX)\<close>: whole blocks, one pair of reductions each.\<close>

lemma do16_times_rest: "fst (do16_times n buf st) = drop (16 * n) buf"
  by (induction n arbitrary: buf st) (simp_all add: add.commute)

function nmax_blocks :: "byte list \<Rightarrow> 'w::len word \<times> 'w word \<Rightarrow> byte list \<times> 'w word \<times> 'w word" where
  "nmax_blocks buf st =
     (if length buf \<ge> NMAX then
        (let (buf, adler, sum2) = do16_times (NMAX div 16) buf st
         in nmax_blocks buf (MOD adler, MOD sum2))
      else (buf, st))"
  by pat_completeness auto
termination
proof (relation "measure (length \<circ> fst)", goal_cases)
  case (2 buf st p rest q adler sum2)
  then have "rest = drop (16 * (NMAX div 16)) buf"
    using do16_times_rest[of "NMAX div 16" buf st] by (metis fst_conv)
  with 2 show ?case by (simp add: NMAX_def)
qed simp

declare nmax_blocks.simps [simp del]

text \<open>
  \<open>adler32_z(adler, buf, len)\<close>; a buffer \<open>Some buf\<close> holds the \<open>len\<close> bytes, \<open>None\<close> is \<open>Z_NULL\<close>
  (with \<open>len\<close> zero, the only documented use).
\<close>

definition adler32_z :: "'w::len word \<Rightarrow> byte list option \<Rightarrow> 'w word" where
  "adler32_z adler0 bufp =
     (let sum2 = drop_bit 16 adler0 AND 0xffff; adler = adler0 AND 0xffff in
      case bufp of None \<Rightarrow> 1
      | Some buf \<Rightarrow>
        if length buf = 1 then
          (let adler = adler + ucast (buf ! 0);
               adler = (if adler \<ge> BASE then adler - BASE else adler);
               sum2 = sum2 + adler;
               sum2 = (if sum2 \<ge> BASE then sum2 - BASE else sum2)
           in adler OR push_bit 16 sum2)
        else if length buf < 16 then
          (let (adler, sum2) = sum_bytes buf (adler, sum2);
               adler = (if adler \<ge> BASE then adler - BASE else adler);
               sum2 = MOD sum2
           in adler OR push_bit 16 sum2)
        else
          (let (buf, adler, sum2) = nmax_blocks buf (adler, sum2);
               (adler, sum2) =
                 (if buf \<noteq> [] then
                    (let (buf, adler, sum2) = do16_while buf (adler, sum2);
                         (adler, sum2) = sum_bytes buf (adler, sum2)
                     in (MOD adler, MOD sum2))
                  else (adler, sum2))
           in adler OR push_bit 16 sum2))"

definition adler32 :: "'w::len word \<Rightarrow> byte list option \<Rightarrow> 'w word" where
  "adler32 adler buf = adler32_z adler buf"

text \<open>\<open>adler32_combine_(adler1, adler2, len2)\<close>; \<open>len2\<close> is a signed \<open>z_off64_t\<close>, \<open>rem\<close> its residue.\<close>

definition adler32_combine_len :: "'w::len word \<Rightarrow> 'w word \<Rightarrow> int \<Rightarrow> 'w word" where
  "adler32_combine_len adler1 adler2 len2 =
     (if len2 < 0 then 0xffffffff
      else
       (let len2 = len2 mod 65521;
            rem = word_of_int len2;
            sum1 = adler1 AND 0xffff;
            sum2 = rem * sum1;
            sum2 = MOD sum2;
            sum1 = sum1 + ((adler2 AND 0xffff) + BASE - 1);
            sum2 = sum2 + ((drop_bit 16 adler1 AND 0xffff) + (drop_bit 16 adler2 AND 0xffff)
                           + BASE - rem);
            sum1 = (if sum1 \<ge> BASE then sum1 - BASE else sum1);
            sum1 = (if sum1 \<ge> BASE then sum1 - BASE else sum1);
            sum2 = (if sum2 \<ge> push_bit 1 BASE then sum2 - push_bit 1 BASE else sum2);
            sum2 = (if sum2 \<ge> BASE then sum2 - BASE else sum2)
        in sum1 OR push_bit 16 sum2))"

definition adler32_combine :: "'w::len word \<Rightarrow> 'w word \<Rightarrow> int \<Rightarrow> 'w word" where
  "adler32_combine adler1 adler2 len2 = adler32_combine_len adler1 adler2 len2"

definition adler32_combine64 :: "'w::len word \<Rightarrow> 'w word \<Rightarrow> int \<Rightarrow> 'w word" where
  "adler32_combine64 adler1 adler2 len2 = adler32_combine_len adler1 adler2 len2"

section \<open>Reference definition\<close>

text \<open>RFC 1950, section 8: the two sums are reduced after every byte.\<close>

fun adler_step :: "nat \<times> nat \<Rightarrow> byte \<Rightarrow> nat \<times> nat" where
  "adler_step (a, s) b =
     (let a = (a + unat b) mod 65521 in (a, (s + a) mod 65521))"

definition adler_ref :: "nat \<times> nat \<Rightarrow> byte list \<Rightarrow> nat \<times> nat" where
  "adler_ref st bs = foldl adler_step st bs"

definition adler_val :: "nat \<times> nat \<Rightarrow> 'w::len word" where
  "adler_val st = of_nat (fst st + 65536 * snd st)"

definition adler_ok :: "nat \<times> nat \<Rightarrow> bool" where
  "adler_ok st \<longleftrightarrow> fst st < 65521 \<and> snd st < 65521"

section \<open>The sums without reduction\<close>

fun nat_sums :: "byte list \<Rightarrow> nat \<times> nat \<Rightarrow> nat \<times> nat" where
  "nat_sums [] st = st"
| "nat_sums (b # bs) (a, s) = nat_sums bs (a + unat b, s + (a + unat b))"

lemma sum_bytes_append: "sum_bytes (xs @ ys) st = sum_bytes ys (sum_bytes xs st)"
  by (induction xs st rule: sum_bytes.induct) (simp_all add: Let_def)

lemma DO1_sum_bytes: "DO1 buf i st = sum_bytes [buf ! i] st"
  by (cases st) (simp add: Let_def)

lemma take16: "16 \<le> length buf \<Longrightarrow> take 16 buf = map ((!) buf) [0..<16]"
  by (rule nth_equalityI) simp_all

lemma DO16_sum_bytes: "16 \<le> length buf \<Longrightarrow> DO16 buf st = sum_bytes (take 16 buf) st"
proof (cases st)
  case (Pair a s)
  assume "16 \<le> length buf"
  moreover have "[0..<16] = [0,1,2,3,4,5,6,7,8,9,10,11,12,13,14,15]"
    by (simp add: upt_conv_Cons eval_nat_numeral)
  ultimately have "take 16 buf = map ((!) buf) [0,1,2,3,4,5,6,7,8,9,10,11,12,13,14,15]"
    by (simp only: take16)
  then show ?thesis
    by (simp add: Pair DO16_def DO8_def DO4_def DO2_def Let_def eval_nat_numeral)
qed

lemma do16_times_sum_bytes:
  "16 * n \<le> length buf \<Longrightarrow> do16_times n buf st = (drop (16 * n) buf, sum_bytes (take (16 * n) buf) st)"
proof (induction n arbitrary: buf st)
  case (Suc n)
  have "take (16 + 16 * n) buf = take 16 buf @ take (16 * n) (drop 16 buf)"
    by (simp add: take_add)
  with Suc show ?case
    by (simp add: DO16_sum_bytes sum_bytes_append add.commute)
qed simp

lemma do16_while_sum_bytes:
  "(case do16_while buf st of (rest, st') \<Rightarrow> sum_bytes rest st') = sum_bytes buf st"
proof (induction buf st rule: do16_while.induct)
  case (1 buf st)
  show ?case
  proof (cases "16 \<le> length buf")
    case True
    then have "sum_bytes buf st = sum_bytes (drop 16 buf) (DO16 buf st)"
      by (metis DO16_sum_bytes append_take_drop_id sum_bytes_append)
    with 1 True show ?thesis by (simp add: do16_while.simps[of buf])
  qed (simp add: do16_while.simps[of buf])
qed

lemma nat_sums_append: "nat_sums (xs @ ys) st = nat_sums ys (nat_sums xs st)"
  by (induction xs st rule: nat_sums.induct) simp_all

lemma nat_sums_mono:
  "fst st \<le> fst (nat_sums bs st)" "snd st \<le> snd (nat_sums bs st)"
  by (induction bs st rule: nat_sums.induct) auto

lemma nat_sums_bound:
  "fst (nat_sums bs (a, s)) \<le> a + 255 * length bs"
  "2 * snd (nat_sums bs (a, s)) \<le> 2 * s + 2 * length bs * a + 255 * length bs * (length bs + 1)"
proof (induction bs arbitrary: a s)
  case (Cons b bs)
  let ?n = "length bs"
  note b = byte_unat_le[of b]
  { case 1 show ?case using Cons(1)[of "a + unat b" "s + (a + unat b)"] b by simp }
  { case 2
    have "2 * snd (nat_sums (b # bs) (a, s)) \<le>
        2 * (s + (a + unat b)) + 2 * ?n * (a + unat b) + 255 * ?n * (?n + 1)"
      using Cons(2)[of "a + unat b" "s + (a + unat b)"] by simp
    also have "\<dots> \<le> 2 * (s + (a + 255)) + 2 * ?n * (a + 255) + 255 * ?n * (?n + 1)"
      using b by (intro add_mono mult_mono) auto
    also have "\<dots> = 2 * s + 2 * length (b # bs) * a + 255 * length (b # bs) * (length (b # bs) + 1)"
      by (simp add: algebra_simps)
    finally show ?case . }
qed simp_all

lemma sum_bytes_unat:
  fixes adler sum2 :: "'w::len word"
  assumes "8 \<le> LENGTH('w)"
    and "fst (nat_sums bs (unat adler, unat sum2)) < 2 ^ LENGTH('w)"
    and "snd (nat_sums bs (unat adler, unat sum2)) < 2 ^ LENGTH('w)"
  shows "(map_prod unat unat) (sum_bytes bs (adler, sum2)) = nat_sums bs (unat adler, unat sum2)"
  using assms(2,3)
proof (induction bs arbitrary: adler sum2)
  case (Cons b bs)
  have a: "unat (adler + ucast b) = unat adler + unat b"
    using Cons.prems nat_sums_mono(1)[of "(unat adler + unat b, unat sum2 + (unat adler + unat b))" bs]
    by (subst unat_add_small) (simp_all add: unat_ucast_byte[OF assms(1)])
  have s: "unat (sum2 + (adler + ucast b)) = unat sum2 + (unat adler + unat b)"
    using Cons.prems nat_sums_mono(2)[of "(unat adler + unat b, unat sum2 + (unat adler + unat b))" bs]
    by (subst unat_add_small) (simp_all add: a)
  show ?case using Cons.IH[of "adler + ucast b" "sum2 + (adler + ucast b)"] Cons.prems
    by (simp add: Let_def a s)
qed simp

lemma adler_ref_nat_sums:
  "adler_ref (a mod 65521, s mod 65521) bs =
     map_prod (\<lambda>x. x mod 65521) (\<lambda>x. x mod 65521) (nat_sums bs (a, s))"
  unfolding adler_ref_def
proof (induction bs arbitrary: a s)
  case (Cons b bs)
  show ?case
    using Cons.IH[of "a + unat b" "s + (a + unat b)"]
    by (simp add: Let_def mod_simps)
qed simp

section \<open>One deferred reduction per block is enough\<close>

lemma nat_sums_small:
  assumes "length bs \<le> NMAX" "a < 65521" "s < 65521"
  shows "fst (nat_sums bs (a, s)) < 2 ^ 32" "snd (nat_sums bs (a, s)) < 2 ^ 32"
proof -
  have n: "length bs \<le> 5552" using assms(1) by (simp add: NMAX_def)
  show "fst (nat_sums bs (a, s)) < 2 ^ 32"
    using nat_sums_bound(1)[of bs a s] n assms(2) by simp
  have "2 * length bs * a \<le> 2 * 5552 * 65520"
    using n assms(2) by (intro mult_mono) auto
  moreover have "255 * length bs * (length bs + 1) \<le> 255 * 5552 * 5553"
    using n by (intro mult_mono) auto
  ultimately have "2 * snd (nat_sums bs (a, s)) \<le> 2 * 65520 + 2 * 5552 * 65520 + 255 * 5552 * 5553"
    using nat_sums_bound(2)[of bs a s] assms(3) by linarith
  then show "snd (nat_sums bs (a, s)) < 2 ^ 32" by simp
qed

lemma exp32_le: "32 \<le> L \<Longrightarrow> (2::nat) ^ 32 \<le> 2 ^ L"
  by (rule power_increasing) simp_all

lemma unat_BASE: "32 \<le> LENGTH('w) \<Longrightarrow> unat (BASE :: 'w::len word) = 65521"
  unfolding BASE_def by (rule unat_numeral_small) (use exp32_le[of "LENGTH('w)"] in simp)

lemma unat_MOD: "32 \<le> LENGTH('w) \<Longrightarrow> unat (MOD a :: 'w::len word) = unat a mod 65521"
  by (simp add: MOD_def unat_mod_distrib unat_BASE)

lemma sum_bytes_block:
  fixes adler sum2 :: "'w::len word"
  assumes "32 \<le> LENGTH('w)" "length bs \<le> NMAX" "unat adler < 65521" "unat sum2 < 65521"
    and "sum_bytes bs (adler, sum2) = (adler', sum2')"
  shows "(unat adler', unat sum2') = nat_sums bs (unat adler, unat sum2)"
    and "(unat adler' mod 65521, unat sum2' mod 65521) = adler_ref (unat adler, unat sum2) bs"
proof -
  show *: "(unat adler', unat sum2') = nat_sums bs (unat adler, unat sum2)"
    using sum_bytes_unat[of bs adler sum2] nat_sums_small[OF assms(2-4)]
      exp32_le[OF assms(1)] assms(1,5)
    by simp
  show "(unat adler' mod 65521, unat sum2' mod 65521) = adler_ref (unat adler, unat sum2) bs"
    using adler_ref_nat_sums[of "unat adler" "unat sum2" bs] assms(3,4) *[symmetric] by simp
qed

lemma adler_step_ok: "adler_ok st \<Longrightarrow> adler_ok (adler_step st b)"
  by (cases st) (simp add: adler_ok_def Let_def)

lemma adler_ref_ok: "adler_ok st \<Longrightarrow> adler_ok (adler_ref st bs)"
  unfolding adler_ref_def by (rule foldl_invariant) (auto simp: adler_step_ok)

lemma adler_ref_append: "adler_ref st (xs @ ys) = adler_ref (adler_ref st xs) ys"
  by (simp add: adler_ref_def)

lemma nmax_blocks_spec:
  fixes adler sum2 :: "'w::len word"
  assumes "32 \<le> LENGTH('w)" "unat adler < 65521" "unat sum2 < 65521"
  shows "\<exists>pre rest adler' sum2'. nmax_blocks buf (adler, sum2) = (rest, adler', sum2') \<and>
     buf = pre @ rest \<and> length rest < NMAX \<and>
     (unat adler', unat sum2') = adler_ref (unat adler, unat sum2) pre"
  using assms(2,3)
proof (induction "length buf" arbitrary: buf adler sum2 rule: less_induct)
  case less
  show ?case
  proof (cases "NMAX \<le> length buf")
    case False
    then show ?thesis
      by (intro exI[of _ "[]"] exI[of _ buf]) (simp add: nmax_blocks.simps[of buf] adler_ref_def)
  next
    case True
    let ?blk = "take NMAX buf" and ?rest = "drop NMAX buf"
    obtain a1 s1 where sb: "sum_bytes ?blk (adler, sum2) = (a1, s1)" by fastforce
    have times: "do16_times (NMAX div 16) buf (adler, sum2) = (?rest, a1, s1)"
      using do16_times_sum_bytes[of "NMAX div 16" buf "(adler, sum2)"] True sb
      by (simp add: NMAX_def)
    have blk: "(unat (MOD a1), unat (MOD s1)) = adler_ref (unat adler, unat sum2) ?blk"
      using sum_bytes_block(2)[OF assms(1) _ less.prems sb] by (simp add: unat_MOD[OF assms(1)])
    have small: "unat (MOD a1) < 65521" "unat (MOD s1) < 65521"
      by (simp_all add: unat_MOD[OF assms(1)])
    have "length ?rest < length buf" using True by (simp add: NMAX_def)
    from less.hyps[OF this small] obtain pre rest a2 s2 where
      rec: "nmax_blocks ?rest (MOD a1, MOD s1) = (rest, a2, s2)" "?rest = pre @ rest"
      "length rest < NMAX" "(unat a2, unat s2) = adler_ref (unat (MOD a1), unat (MOD s1)) pre"
      by blast
    have "nmax_blocks buf (adler, sum2) = (rest, a2, s2)"
      by (subst nmax_blocks.simps) (simp add: True times rec(1))
    moreover have "buf = (?blk @ pre) @ rest"
      unfolding append_assoc rec(2)[symmetric] by simp
    moreover have "(unat a2, unat s2) = adler_ref (unat adler, unat sum2) (?blk @ pre)"
      by (simp only: adler_ref_append blk[symmetric] rec(4))
    ultimately show ?thesis using rec(3) by blast
  qed
qed

section \<open>Packing and unpacking the check value\<close>

lemma adler_val_unat:
  assumes "32 \<le> LENGTH('w)" "fst st < 65536" "snd st < 65536"
  shows "unat (adler_val st :: 'w::len word) = fst st + 65536 * snd st"
proof -
  have "fst st + 65536 * snd st < 2 ^ 32" using assms(2,3) by simp
  then have "fst st + 65536 * snd st < 2 ^ LENGTH('w)" using exp32_le[OF assms(1)] by linarith
  then show ?thesis unfolding adler_val_def by (simp only: unat_of_nat mod_less)
qed

lemma adler_ok_less: "adler_ok st \<Longrightarrow> fst st < 65536 \<and> snd st < 65536"
  by (auto simp: adler_ok_def)

lemma unat_adler_lo:
  "32 \<le> LENGTH('w) \<Longrightarrow> adler_ok st \<Longrightarrow> unat ((adler_val st :: 'w::len word) AND 0xffff) = fst st"
  using adler_ok_less[of st]
  by (simp only: and_mask16 unat_take_bit_mod adler_val_unat) simp

lemma unat_adler_hi:
  "32 \<le> LENGTH('w) \<Longrightarrow> adler_ok st \<Longrightarrow>
     unat (drop_bit 16 (adler_val st :: 'w::len word) AND 0xffff) = snd st"
  using adler_ok_less[of st]
  by (simp only: and_mask16 unat_take_bit_mod unat_drop_bit_div adler_val_unat) simp

lemma adler_val_pack:
  fixes a s :: "'w::len word"
  assumes "(unat a, unat s) = st" "adler_ok st"
  shows "a OR push_bit 16 s = adler_val st"
proof -
  have "unat a < 2 ^ 16" using assms by (auto simp: adler_ok_def)
  then have "a OR push_bit 16 s = a + push_bit 16 s" by (rule or_push_bit_eq_add)
  then show ?thesis
    using assms(1) by (auto simp: adler_val_def push_bit_eq_mult mult.commute)
qed

lemma unat_cond_sub_gen:
  "unat m = k \<Longrightarrow> unat (if x \<ge> m then x - m else x) = (if k \<le> unat x then unat x - k else unat x)"
  by (simp add: word_le_nat_alt unat_sub)

lemma unat_cond_sub:
  fixes x :: "'w::len word"
  assumes "32 \<le> LENGTH('w)"
  shows "unat (if x \<ge> BASE then x - BASE else x) =
    (if 65521 \<le> unat x then unat x - 65521 else unat x)"
  by (rule unat_cond_sub_gen[OF unat_BASE[OF assms]])

lemma cond_sub_mod: "(x::nat) < 2 * B \<Longrightarrow> (if B \<le> x then x - B else x) = x mod B"
  by (auto simp: le_mod_geq)

section \<open>Correctness of \<open>adler32_z\<close>\<close>

lemma add_byte_unat:
  fixes a :: "'w::len word"
  assumes "32 \<le> LENGTH('w)" "unat a < 65521"
  shows "unat (a + ucast (b :: byte)) = unat a + unat b"
  using assms byte_unat_less[of b] exp32_le[OF assms(1)]
  by (subst unat_add_small) (simp_all add: unat_ucast_byte)

lemma add_reduced_unat:
  fixes a s :: "'w::len word"
  assumes "32 \<le> LENGTH('w)" "unat a < 65521" "unat s < 65521"
  shows "unat (s + a) = unat s + unat a"
  using assms exp32_le[OF assms(1)] by (subst unat_add_small) simp_all

lemma adler_one_byte:
  fixes adler sum2 :: "'w::len word"
  assumes L: "32 \<le> LENGTH('w)" and small: "unat adler < 65521" "unat sum2 < 65521"
    and a': "a' = (if adler + ucast b \<ge> BASE then adler + ucast b - BASE else adler + ucast b)"
    and s': "s' = (if sum2 + a' \<ge> BASE then sum2 + a' - BASE else sum2 + a')"
  shows "(unat a', unat s') = adler_step (unat adler, unat sum2) b"
proof -
  have ua: "unat a' = (unat adler + unat b) mod 65521"
    using small(1) byte_unat_less[of b]
    by (simp only: a' unat_cond_sub[OF L] add_byte_unat[OF L small(1)]) (rule cond_sub_mod, simp)
  then have lt: "unat a' < 65521" by simp
  have "unat s' = (unat sum2 + unat a') mod 65521"
    using small(2) lt
    by (simp only: s' unat_cond_sub[OF L] add_reduced_unat[OF L lt small(2)]) (rule cond_sub_mod, simp)
  with ua show ?thesis by (simp add: Let_def)
qed

lemma adler_short:
  fixes adler sum2 :: "'w::len word"
  assumes L: "32 \<le> LENGTH('w)" and small: "unat adler < 65521" "unat sum2 < 65521"
    and len: "length buf < 16" and sb: "sum_bytes buf (adler, sum2) = (a, s)"
  shows "(unat (if a \<ge> BASE then a - BASE else a), unat (MOD s)) = adler_ref (unat adler, unat sum2) buf"
proof -
  have n: "length buf \<le> NMAX" using len by (simp add: NMAX_def)
  have "unat a \<le> unat adler + 255 * length buf"
    using nat_sums_bound(1)[of buf "unat adler" "unat sum2"]
    by (simp add: sum_bytes_block(1)[OF L n small sb, symmetric])
  then have "unat a < 2 * 65521" using small(1) len by simp
  then show ?thesis
    by (simp only: unat_cond_sub[OF L] cond_sub_mod unat_MOD[OF L] sum_bytes_block(2)[OF L n small sb])
qed

lemma adler_long:
  fixes adler sum2 :: "'w::len word"
  assumes L: "32 \<le> LENGTH('w)" and small: "unat adler < 65521" "unat sum2 < 65521"
    and nb: "nmax_blocks buf (adler, sum2) = (rest, a1, s1)"
    and fin: "(a2, s2) = (if rest \<noteq> [] then
                    (let (buf, adler, sum2) = do16_while rest (a1, s1);
                         (adler, sum2) = sum_bytes buf (adler, sum2)
                     in (MOD adler, MOD sum2))
                  else (a1, s1))"
  shows "(unat a2, unat s2) = adler_ref (unat adler, unat sum2) buf"
proof -
  obtain pre where pre: "buf = pre @ rest" "length rest < NMAX"
    "(unat a1, unat s1) = adler_ref (unat adler, unat sum2) pre"
    using nmax_blocks_spec[OF L small, of buf] nb by auto
  have ok: "adler_ok (unat a1, unat s1)"
    unfolding pre(3) by (rule adler_ref_ok) (simp add: adler_ok_def small)
  obtain a s where sb: "sum_bytes rest (a1, s1) = (a, s)" by fastforce
  have "(a2, s2) = (if rest \<noteq> [] then (MOD a, MOD s) else (a1, s1))"
    using fin do16_while_sum_bytes[of rest "(a1, s1)"] sb by (auto split: prod.splits)
  moreover have "(unat (MOD a), unat (MOD s)) = adler_ref (unat a1, unat s1) rest"
    using sum_bytes_block(2)[OF L _ _ _ sb] pre(2) ok by (simp add: adler_ok_def unat_MOD[OF L])
  ultimately show ?thesis
    using pre by (cases "rest = []") (auto simp: adler_ref_append)
qed

lemma adler32_z_spec:
  fixes c :: "'w::len word"
  assumes "32 \<le> LENGTH('w)" and "adler_ok st" and "c = adler_val st"
  shows "adler32_z c (Some buf) = adler_val (adler_ref st buf)"
proof -
  note L = assms(1)
  define adler sum2 where "adler = c AND 0xffff" and "sum2 = drop_bit 16 c AND 0xffff"
  have st: "(unat adler, unat sum2) = st"
    using unat_adler_lo[OF L assms(2)] unat_adler_hi[OF L assms(2)]
    by (simp add: adler_def sum2_def assms(3))
  have small: "unat adler < 65521" "unat sum2 < 65521"
    using assms(2) st by (auto simp: adler_ok_def)
  note pack = adler_val_pack[OF _ adler_ref_ok[OF assms(2)], of _ _ buf]
  consider "length buf = 1" | "length buf \<noteq> 1" "length buf < 16" | "16 \<le> length buf" by linarith
  then show ?thesis
  proof cases
    case 1
    then obtain b where b: "buf = [b]" by (auto simp: length_Suc_conv)
    obtain a' s' where a': "a' = (if adler + ucast b \<ge> BASE then adler + ucast b - BASE else adler + ucast b)"
      and s': "s' = (if sum2 + a' \<ge> BASE then sum2 + a' - BASE else sum2 + a')" by blast
    have "adler32_z c (Some buf) = a' OR push_bit 16 s'"
      unfolding adler32_z_def adler_def[symmetric] sum2_def[symmetric] Let_def a' s'
      by (simp add: b split del: if_split cong: if_cong)
    also have "\<dots> = adler_val (adler_ref st buf)"
      using adler_one_byte[OF L small a' s'] st by (intro pack) (simp add: b adler_ref_def)
    finally show ?thesis .
  next
    case 2
    obtain a s where sb: "sum_bytes buf (adler, sum2) = (a, s)" by fastforce
    show ?thesis
      unfolding adler32_z_def adler_def[symmetric] sum2_def[symmetric] Let_def
      using 2 sb adler_short[OF L small 2(2) sb] st
      by (simp del: One_nat_def split del: if_split) (rule pack, simp split del: if_split)
  next
    case 3
    obtain rest a1 s1 where nb: "nmax_blocks buf (adler, sum2) = (rest, a1, s1)"
      by (cases "nmax_blocks buf (adler, sum2)") auto
    let ?fin = "if rest \<noteq> [] then
                    (let (buf, adler, sum2) = do16_while rest (a1, s1);
                         (adler, sum2) = sum_bytes buf (adler, sum2)
                     in (MOD adler, MOD sum2))
                  else (a1, s1)"
    obtain a2 s2 where fin: "(a2, s2) = ?fin" by (metis surj_pair)
    have "adler32_z c (Some buf) = (case ?fin of (x, y) \<Rightarrow> x OR push_bit 16 y)"
      unfolding adler32_z_def adler_def[symmetric] sum2_def[symmetric]
      using 3 by (simp add: nb Let_def split del: if_split cong: if_cong)
    also have "\<dots> = a2 OR push_bit 16 s2" by (simp only: fin[symmetric] prod.case)
    also have "\<dots> = adler_val (adler_ref st buf)"
      using adler_long[OF L small nb fin] st by (intro pack) simp
    finally show ?thesis .
  qed
qed

text \<open>
  C28: for a check value whose two halves are reduced (which every value the code returns is) and
  any buffer, \<open>adler32_z\<close> returns the check value of RFC 1950, for an \<open>unsigned long\<close> of 32 bits
  or more: no intermediate sum overflows it.
\<close>

theorem adler32_z_correct:
  fixes c :: "'w::len word"
  assumes "32 \<le> LENGTH('w)" and "adler_ok st" and "c = adler_val st"
  shows "adler32_z c (Some buf) = adler_val (adler_ref st buf)"
  using assms by (rule adler32_z_spec)

theorem adler32_z_correct_witness:
  "adler32_z (1 :: 32 word) (Some [0x57, 0x69, 0x6b, 0x69]) = adler_val (adler_ref (1, 0) [0x57, 0x69, 0x6b, 0x69])
   \<and> adler_ref (1, 0) [0x57, 0x69, 0x6b, 0x69] = (405, 986)"
proof -
  have "(1 :: 32 word) = adler_val (1, 0)" by (simp add: adler_val_def)
  then have "adler32_z (1 :: 32 word) (Some [0x57, 0x69, 0x6b, 0x69])
      = adler_val (adler_ref (1, 0) [0x57, 0x69, 0x6b, 0x69])"
    by (intro adler32_z_correct) (simp_all add: adler_ok_def)
  then show ?thesis by (simp add: adler_ref_def Let_def)
qed

section \<open>Concatenation\<close>

lemma nat_sums_affine:
  "nat_sums bs (a, s) =
     (a + fst (nat_sums bs (0, 0)), s + length bs * a + snd (nat_sums bs (0, 0)))"
proof (induction bs arbitrary: a s)
  case (Cons b bs)
  have "nat_sums (b # bs) (a, s) = nat_sums bs (a + unat b, s + (a + unat b))"
    and "nat_sums (b # bs) (0, 0) = nat_sums bs (unat b, unat b)" by simp_all
  then show ?case
    using Cons.IH[of "a + unat b" "s + (a + unat b)"] Cons.IH[of "unat b" "unat b"]
    by (simp add: algebra_simps)
qed simp

lemma adler_ref_concat:
  assumes "adler_ok (a, s)" and "adler_ref (1, 0) ys = (a2, s2)"
  shows "adler_ref (a, s) ys =
    ((a + (a2 + 65521 - 1)) mod 65521,
     (length ys mod 65521 * a mod 65521 + (s + s2 + 65521 - length ys mod 65521)) mod 65521)"
proof -
  let ?S = "fst (nat_sums ys (0, 0))" and ?W = "snd (nat_sums ys (0, 0))" and ?n = "length ys"
  have ref: "adler_ref (a, s) ys = ((a + ?S) mod 65521, (s + ?n * a + ?W) mod 65521)"
    using adler_ref_nat_sums[of a s ys] nat_sums_affine[of ys a s] assms(1) by (simp add: adler_ok_def)
  have "adler_ref (1, 0) ys = ((1 + ?S) mod 65521, (?n + ?W) mod 65521)"
    using adler_ref_nat_sums[of 1 0 ys] nat_sums_affine[of ys 1 0] by simp
  then have 2: "a2 = (1 + ?S) mod 65521" "s2 = (?n + ?W) mod 65521" using assms(2) by auto
  have "int (a + (a2 + 65521 - 1)) = (int a - 1 + int a2) + 65521" by simp
  then have "int ((a + (a2 + 65521 - 1)) mod 65521) = (int a - 1 + int a2) mod 65521"
    by (simp only: zmod_int of_nat_numeral mod_add_self2)
  also have "\<dots> = (int a - 1 + (1 + int ?S) mod 65521) mod 65521" by (simp add: 2 zmod_int)
  also have "\<dots> = (int a - 1 + (1 + int ?S)) mod 65521" by (rule mod_add_right_eq)
  also have "\<dots> = int ((a + ?S) mod 65521)" by (simp add: zmod_int)
  finally have A: "(a + (a2 + 65521 - 1)) mod 65521 = (a + ?S) mod 65521"
    by (simp only: of_nat_eq_iff)
  let ?r = "?n mod 65521"
  have r: "?r < 65521" by simp
  have "int (?r * a mod 65521 + (s + s2 + 65521 - ?r)) =
      int ?r * int a mod 65521 + (int s + int s2 - int ?r) + 65521"
    using r by (simp add: zmod_int)
  then have "int ((?r * a mod 65521 + (s + s2 + 65521 - ?r)) mod 65521) =
      (int ?r * int a mod 65521 + (int s + int s2 - int ?r)) mod 65521"
    by (simp only: zmod_int of_nat_numeral mod_add_self2)
  also have "\<dots> = ((int ?n mod 65521) * int a mod 65521
      + (int s + (int ?n + int ?W) mod 65521 - int ?n mod 65521)) mod 65521"
    by (simp add: 2 zmod_int)
  also have "\<dots> = (int ?n * int a + (int s + (int ?n + int ?W) - int ?n)) mod 65521"
    by (intro mod_add_cong mod_diff_cong refl) (simp_all only: mod_mod_trivial mod_mult_left_eq)
  also have "\<dots> = int ((s + ?n * a + ?W) mod 65521)" by (simp add: zmod_int algebra_simps)
  finally have B: "(?r * a mod 65521 + (s + s2 + 65521 - ?r)) mod 65521 = (s + ?n * a + ?W) mod 65521"
    by (simp only: of_nat_eq_iff)
  show ?thesis by (simp only: ref A B)
qed

lemma unat_rem:
  "32 \<le> LENGTH('w) \<Longrightarrow> unat (word_of_int (int n mod 65521) :: 'w::len word) = n mod 65521"
proof -
  assume L: "32 \<le> LENGTH('w)"
  have "(word_of_int (int n mod 65521) :: 'w word) = of_nat (n mod 65521)"
    by (metis of_int_of_nat_eq of_nat_mod of_nat_numeral)
  moreover have "n mod 65521 < 2 ^ 32" using mod_less_divisor[of 65521 n] by simp
  ultimately show ?thesis using exp32_le[OF L] by (simp only: unat_of_nat) (simp del: mod_less_divisor)
qed

lemma unat_add_bounded:
  fixes x y :: "'w::len word"
  assumes "32 \<le> LENGTH('w)" "unat x = m" "unat y = n" "m + n < 2 ^ 32"
  shows "unat (x + y) = m + n"
  using assms exp32_le[OF assms(1)] by (subst unat_add_small) simp_all

lemma unat_sub_bounded:
  fixes x y :: "'w::len word"
  assumes "unat x = m" "unat y = n" "n \<le> m"
  shows "unat (x - y) = m - n"
  using assms by (simp add: unat_sub word_le_nat_alt)

lemma combine_sum1:
  fixes x y :: "'w::len word"
  assumes L: "32 \<le> LENGTH('w)" and xy: "unat x = a" "unat y = a2" "a < 65521" "a2 < 65521"
    and s1: "s1 = x + (y + BASE - 1)"
    and s2: "s2 = (if s1 \<ge> BASE then s1 - BASE else s1)"
  shows "unat (if s2 \<ge> BASE then s2 - BASE else s2) = (a + (a2 + 65521 - 1)) mod 65521"
proof -
  have "unat (y + BASE) = a2 + 65521"
    using xy by (intro unat_add_bounded[OF L] unat_BASE[OF L]) simp_all
  then have "unat (y + BASE - 1) = a2 + 65521 - 1" by (rule unat_sub_bounded) simp_all
  then have u1: "unat s1 = a + (a2 + 65521 - 1)"
    unfolding s1 using xy by (intro unat_add_bounded[OF L]) simp_all
  have u2: "unat s2 = (if 65521 \<le> unat s1 then unat s1 - 65521 else unat s1)"
    unfolding s2 by (rule unat_cond_sub[OF L])
  then have "unat s2 mod 65521 = unat s1 mod 65521" by (simp add: le_mod_geq)
  moreover have "unat s2 < 2 * 65521" using u1 u2 xy by auto
  ultimately show ?thesis by (simp only: unat_cond_sub[OF L] cond_sub_mod u1)
qed

lemma combine_sum2:
  fixes p x y r :: "'w::len word"
  assumes L: "32 \<le> LENGTH('w)" and xy: "unat p = q" "unat x = b" "unat y = b2" "unat r = m"
    "q < 65521" "b < 65521" "b2 < 65521" "m < 65521"
    and t1: "t1 = p + (x + y + BASE - r)"
    and t2: "t2 = (if t1 \<ge> push_bit 1 BASE then t1 - push_bit 1 BASE else t1)"
  shows "unat (if t2 \<ge> BASE then t2 - BASE else t2) = (q + (b + b2 + 65521 - m)) mod 65521"
proof -
  have "unat (x + y) = b + b2" using xy by (intro unat_add_bounded[OF L]) simp_all
  then have "unat (x + y + BASE) = b + b2 + 65521"
    using xy by (intro unat_add_bounded[OF L] unat_BASE[OF L]) simp_all
  then have "unat (x + y + BASE - r) = b + b2 + 65521 - m"
    using xy by (intro unat_sub_bounded) simp_all
  then have u1: "unat t1 = q + (b + b2 + 65521 - m)"
    unfolding t1 using xy by (intro unat_add_bounded[OF L]) simp_all
  have B: "unat (push_bit 1 BASE :: 'w word) = 131042"
    using unat_add_bounded[OF L unat_BASE[OF L] unat_BASE[OF L]]
    by (simp add: push_bit_eq_mult mult_2_right)
  have u2: "unat t2 = (if 131042 \<le> unat t1 then unat t1 - 131042 else unat t1)"
    unfolding t2 by (rule unat_cond_sub_gen[OF B])
  then have "unat t2 mod 65521 = unat t1 mod 65521"
    using mod_mult_self2[of "unat t1 - 131042" 65521 2] by (auto simp: not_le)
  moreover have "unat t2 < 2 * 65521" using u1 u2 xy by auto
  ultimately show ?thesis by (simp only: unat_cond_sub[OF L] cond_sub_mod u1)
qed

lemma adler32_combine_val:
  fixes c1 c2 :: "'w::len word"
  assumes L: "32 \<le> LENGTH('w)" and ok: "adler_ok (a, s)" "adler_ok (a2, s2)"
    and c: "c1 = adler_val (a, s)" "c2 = adler_val (a2, s2)"
  shows "adler32_combine_len c1 c2 (int n) =
    adler_val ((a + (a2 + 65521 - 1)) mod 65521,
     (n mod 65521 * a mod 65521 + (s + s2 + 65521 - n mod 65521)) mod 65521)"
proof -
  define r :: "'w word" where "r = word_of_int (int n mod 65521)"
  define x y where "x = c1 AND 0xffff" and "y = c2 AND 0xffff"
  define xs ys where "xs = drop_bit 16 c1 AND 0xffff" and "ys = drop_bit 16 c2 AND 0xffff"
  have u: "unat x = a" "unat y = a2" "unat xs = s" "unat ys = s2" "unat r = n mod 65521"
    unfolding x_def y_def xs_def ys_def r_def c
    using unat_adler_lo[OF L ok(1)] unat_adler_lo[OF L ok(2)] unat_adler_hi[OF L ok(1)]
      unat_adler_hi[OF L ok(2)] unat_rem[OF L, of n] by simp_all
  have lt: "a < 65521" "s < 65521" "a2 < 65521" "s2 < 65521" using ok by (simp_all add: adler_ok_def)
  have "n mod 65521 * a \<le> 65520 * 65520"
    using lt(1) by (intro mult_mono) (simp_all add: less_Suc_eq_le[symmetric])
  then have "unat (r * x) = n mod 65521 * a"
    using u exp32_le[OF L] by (subst unat_mult_small) simp_all
  then have p: "unat (MOD (r * x)) = n mod 65521 * a mod 65521" by (simp add: unat_MOD[OF L])
  note 1 = combine_sum1[OF L u(1,2) lt(1,3) refl refl]
  note 2 = combine_sum2[OF L p u(3,4,5) _ lt(2,4) _ refl refl]
  show ?thesis
    unfolding adler32_combine_len_def Let_def r_def[symmetric] x_def[symmetric] y_def[symmetric]
      xs_def[symmetric] ys_def[symmetric]
    using 1 2 by (simp add: adler_ok_def split del: if_split) (rule adler_val_pack, simp_all add: adler_ok_def split del: if_split)
qed

lemma adler32_combine_spec:
  fixes c :: "'w::len word"
  assumes "32 \<le> LENGTH('w)" and "adler_ok st" and "c = adler_val st"
  shows "adler32_combine (adler32_z c (Some xs)) (adler32_z 1 (Some ys)) (int (length ys))
    = adler32_z c (Some (xs @ ys))"
proof -
  have one: "(1 :: 'w word) = adler_val (1, 0)" by (simp add: adler_val_def)
  have ok1: "adler_ok (1, 0)" by (simp add: adler_ok_def)
  obtain a s where a: "adler_ref st xs = (a, s)" by fastforce
  obtain a2 s2 where a2: "adler_ref (1, 0) ys = (a2, s2)" by fastforce
  have ok: "adler_ok (a, s)" "adler_ok (a2, s2)"
    using adler_ref_ok[OF assms(2), of xs] adler_ref_ok[OF ok1, of ys] a a2 by simp_all
  have c: "adler32_z c (Some xs) = adler_val (a, s)" "adler32_z 1 (Some ys) = (adler_val (a2, s2) :: 'w word)"
    "adler32_z c (Some (xs @ ys)) = adler_val (adler_ref (a, s) ys)"
    using adler32_z_spec[OF assms] adler32_z_spec[OF assms(1) ok1 one] a a2
    by (simp_all add: adler_ref_append)
  show ?thesis
    unfolding adler32_combine_def c adler32_combine_val[OF assms(1) ok refl refl]
    by (simp only: adler_ref_concat[OF ok(1) a2])
qed

text \<open>
  C29: \<open>adler32_combine\<close> of the check values of two buffers, with the length of the second, is the
  check value of their concatenation.
\<close>

theorem adler32_combine_correct:
  fixes c :: "'w::len word"
  assumes "32 \<le> LENGTH('w)" and "adler_ok st" and "c = adler_val st"
  shows "adler32_combine (adler32_z c (Some xs)) (adler32_z 1 (Some ys)) (int (length ys))
    = adler32_z c (Some (xs @ ys))"
  using assms by (rule adler32_combine_spec)

theorem adler32_combine_correct_witness:
  "adler32_combine (adler32_z 1 (Some [1, 2])) (adler32_z 1 (Some [3])) 1
     = adler32_z (1 :: 64 word) (Some [1, 2, 3])"
  using adler32_combine_correct[of "(1, 0)" "1 :: 64 word" "[1, 2]" "[3]"]
  by (simp add: adler_ok_def adler_val_def)

section \<open>The check value interface\<close>

definition adler_valid :: "'w::len word \<Rightarrow> bool" where
  "adler_valid c \<longleftrightarrow> unat c mod 65536 < 65521 \<and> unat c div 65536 < 65521"

lemma adler_valid_iff:
  assumes "32 \<le> LENGTH('w)"
  shows "adler_valid (c :: 'w::len word) \<longleftrightarrow> (\<exists>st. adler_ok st \<and> c = adler_val st)"
proof
  assume v: "adler_valid c"
  let ?st = "(unat c mod 65536, unat c div 65536)"
  have "c = of_nat (fst ?st + 65536 * snd ?st)" by (simp add: mult.commute del: of_nat_add of_nat_mult)
  then have "c = adler_val ?st" unfolding adler_val_def .
  moreover have "adler_ok ?st" using v by (simp add: adler_valid_def adler_ok_def)
  ultimately show "\<exists>st. adler_ok st \<and> c = adler_val st" by blast
next
  assume "\<exists>st. adler_ok st \<and> c = adler_val st"
  then show "adler_valid c"
    using adler_val_unat[OF assms] adler_ok_less by (fastforce simp: adler_valid_def adler_ok_def)
qed

lemma adler_checksum_combine:
  assumes L: "32 \<le> LENGTH('w::len)"
  shows "checksum_combine (1 :: 'w word) (\<lambda>c bs. adler32 c (Some bs)) adler_valid adler32_combine"
proof
  have one: "(1 :: 'w word) = adler_val (1, 0)" by (simp add: adler_val_def)
  then show "adler_valid (1 :: 'w word)"
    unfolding adler_valid_iff[OF L] by (intro exI[of _ "(1, 0)"]) (simp add: adler_ok_def)
next
  fix c :: "'w word" and xs ys
  assume "adler_valid c"
  then obtain st where st: "adler_ok st" "c = adler_val st" by (auto simp: adler_valid_iff[OF L])
  note z = adler32_z_spec[OF L, folded adler32_def]
  show "adler_valid (adler32 c (Some xs))"
    unfolding adler_valid_iff[OF L] using z[OF st] adler_ref_ok[OF st(1)] by blast
  show "adler32 c (Some []) = c" using z[OF st, of "[]"] st by (simp add: adler_ref_def)
  show "adler32 c (Some (xs @ ys)) = adler32 (adler32 c (Some xs)) (Some ys)"
    using z[OF st] z[OF adler_ref_ok[OF st(1)] refl] by (simp add: adler_ref_append)
  show "adler32_combine (adler32 c (Some xs)) (adler32 1 (Some ys)) (int (length ys)) = adler32 c (Some (xs @ ys))"
    using adler32_combine_spec[OF L st] by (simp add: adler32_def)
qed

text \<open>The interface holds for an \<open>unsigned long\<close> of 32 bits and of 64 bits.\<close>

interpretation adler32w: checksum_combine "1 :: 32 word" "\<lambda>c bs. adler32 c (Some bs)" adler_valid adler32_combine
  by (rule adler_checksum_combine) simp

interpretation adler64w: checksum_combine "1 :: 64 word" "\<lambda>c bs. adler32 c (Some bs)" adler_valid adler32_combine
  by (rule adler_checksum_combine) simp

text \<open>
  C30: the check value of data that arrives in any number of buffers, starting from 1, is the one
  of all the data at once; and when each buffer's value is computed on its own and combined by
  length, the result is the same.
\<close>

theorem adler32_chunks:
  "foldl (\<lambda>c bs. adler32 c (Some bs)) 1 bufs = adler32 (1 :: 64 word) (Some (concat bufs))
   \<and> foldl (\<lambda>c bs. adler32_combine c (adler32 1 (Some bs)) (int (length bs))) 1 bufs
     = adler32 (1 :: 64 word) (Some (concat bufs))"
  using adler64w.upd_chunks[OF adler64w.valid_init] adler64w.combine_chunks[OF adler64w.valid_init]
  by simp

end
