(* ===== verification/Crc32.thy ===== *)
theory Crc32
  imports Checksum
begin

text \<open>
  The CRC-32 of \<open>crc32.c\<close>: the generated tables, the byte-wise loop, the two word-wise loops
  (\<open>BYFOUR\<close>) for little- and big-endian machines, and the combination of two check values by
  matrices over GF(2).

  The reference definition is the shift register the comment of \<open>make_crc_table\<close> describes: one
  step per bit.  The C type \<open>unsigned long\<close> is a word of any length \<open>'w\<close>; the register itself is
  a 32 bit \<open>z_crc_t\<close>.  The byte order of the machine and the address of the buffer, on which the
  word-wise loops depend, are parameters.
\<close>

section \<open>Tables\<close>

text \<open>The exponents of the polynomial, and the exclusive-or pattern made from them.\<close>

definition crc_exponents :: "nat list" where
  "crc_exponents = [0,1,2,4,5,7,8,10,11,12,16,22,23,26]"

definition crc_poly :: z_crc_t where
  "crc_poly = foldl (\<lambda>poly p. poly OR push_bit (31 - p) 1) 0 crc_exponents"

text \<open>\<open>c = c & 1 ? poly ^ (c >> 1) : c >> 1\<close>\<close>

definition crc_bit :: "z_crc_t \<Rightarrow> z_crc_t" where
  "crc_bit c = (if c AND 1 \<noteq> 0 then crc_poly XOR drop_bit 1 c else drop_bit 1 c)"

fun crc_bits :: "nat \<Rightarrow> z_crc_t \<Rightarrow> z_crc_t" where
  "crc_bits 0 c = c"
| "crc_bits (Suc k) c = crc_bits k (crc_bit c)"

text \<open>\<open>ZSWAP32\<close> of \<open>zutil.h\<close>, on a 32 bit value.\<close>

definition ZSWAP32 :: "z_crc_t \<Rightarrow> z_crc_t" where
  "ZSWAP32 q = (drop_bit 24 q AND 0xff) + (drop_bit 8 q AND 0xff00) +
               push_bit 8 (q AND 0xff00) + push_bit 24 (q AND 0xff)"

text \<open>
  \<open>make_crc_table\<close>: table 0 holds the register after each byte value, tables 1 to 3 the same
  followed by one to three zero bytes, tables 4 to 7 the byte reversals of tables 0 to 3.
\<close>

definition crc_table0 :: "z_crc_t list" where
  "crc_table0 = map (\<lambda>n. crc_bits 8 (of_nat n)) [0..<256]"

definition crc_next_entry :: "z_crc_t list \<Rightarrow> z_crc_t \<Rightarrow> z_crc_t" where
  "crc_next_entry t0 c = t0 ! unat (c AND 0xff) XOR drop_bit 8 c"

definition make_crc_table :: "z_crc_t list list" where
  "make_crc_table =
     (let t0 = crc_table0;
          t1 = map (crc_next_entry t0) t0;
          t2 = map (crc_next_entry t0) t1;
          t3 = map (crc_next_entry t0) t2
      in [t0, t1, t2, t3, map ZSWAP32 t0, map ZSWAP32 t1, map ZSWAP32 t2, map ZSWAP32 t3])"

definition crc_table :: "nat \<Rightarrow> nat \<Rightarrow> z_crc_t" where
  "crc_table k n = make_crc_table ! k ! n"

section \<open>The loops\<close>

text \<open>\<open>DO1\<close>, and the lines with which the word-wise loops handle single bytes.\<close>

definition crc_do1 :: "z_crc_t \<Rightarrow> byte \<Rightarrow> z_crc_t" where
  "crc_do1 c b = crc_table 0 (unat ((c XOR ucast b) AND 0xff)) XOR drop_bit 8 c"

text \<open>A 32 bit load from the buffer on a little-endian and on a big-endian machine.\<close>

fun load_little :: "byte list \<Rightarrow> z_crc_t" where
  "load_little (b0 # b1 # b2 # b3 # _) =
     ucast b0 OR push_bit 8 (ucast b1) OR push_bit 16 (ucast b2) OR push_bit 24 (ucast b3)"
| "load_little _ = 0"

fun load_big :: "byte list \<Rightarrow> z_crc_t" where
  "load_big (b0 # b1 # b2 # b3 # _) =
     ucast b3 OR push_bit 8 (ucast b2) OR push_bit 16 (ucast b1) OR push_bit 24 (ucast b0)"
| "load_big _ = 0"

definition DOLIT4 :: "z_crc_t \<Rightarrow> z_crc_t \<Rightarrow> z_crc_t" where
  "DOLIT4 c w =
     (let c = c XOR w
      in crc_table 3 (unat (c AND 0xff)) XOR crc_table 2 (unat (drop_bit 8 c AND 0xff)) XOR
         crc_table 1 (unat (drop_bit 16 c AND 0xff)) XOR crc_table 0 (unat (drop_bit 24 c)))"

definition DOBIG4 :: "z_crc_t \<Rightarrow> z_crc_t \<Rightarrow> z_crc_t" where
  "DOBIG4 c w =
     (let c = c XOR w
      in crc_table 4 (unat (c AND 0xff)) XOR crc_table 5 (unat (drop_bit 8 c AND 0xff)) XOR
         crc_table 6 (unat (drop_bit 16 c AND 0xff)) XOR crc_table 7 (unat (drop_bit 24 c)))"

definition big_do1 :: "z_crc_t \<Rightarrow> byte \<Rightarrow> z_crc_t" where
  "big_do1 c b = crc_table 4 (unat (drop_bit 24 c XOR ucast b)) XOR push_bit 8 c"

text \<open>
  \<open>while (len && ((ptrdiff_t)buf & 3))\<close>: single bytes up to an address divisible by four; \<open>one\<close> is
  the code's step for one byte.
\<close>

fun align_loop :: "(z_crc_t \<Rightarrow> byte \<Rightarrow> z_crc_t) \<Rightarrow> nat \<Rightarrow> z_crc_t \<Rightarrow> byte list \<Rightarrow> z_crc_t \<times> byte list" where
  "align_loop one addr c [] = (c, [])"
| "align_loop one addr c (b # buf) =
     (if addr mod 4 \<noteq> 0 then align_loop one (addr + 1) (one c b) buf else (c, b # buf))"

text \<open>The unrolled \<open>while (len >= 32)\<close> loop and the \<open>while (len >= 4)\<close> loop.\<close>

fun step4_times :: "(z_crc_t \<Rightarrow> byte list \<Rightarrow> z_crc_t) \<Rightarrow> nat \<Rightarrow> z_crc_t \<Rightarrow> byte list \<Rightarrow> z_crc_t" where
  "step4_times four 0 c buf = c"
| "step4_times four (Suc k) c buf = step4_times four k (four c buf) (drop 4 buf)"

fun loop32 :: "(z_crc_t \<Rightarrow> byte list \<Rightarrow> z_crc_t) \<Rightarrow> z_crc_t \<Rightarrow> byte list \<Rightarrow> z_crc_t \<times> byte list" where
  "loop32 four c buf =
     (if length buf \<ge> 32 then loop32 four (step4_times four 8 c buf) (drop 32 buf) else (c, buf))"

declare loop32.simps [simp del]

fun loop4 :: "(z_crc_t \<Rightarrow> byte list \<Rightarrow> z_crc_t) \<Rightarrow> z_crc_t \<Rightarrow> byte list \<Rightarrow> z_crc_t \<times> byte list" where
  "loop4 four c buf =
     (if length buf \<ge> 4 then loop4 four (four c buf) (drop 4 buf) else (c, buf))"

declare loop4.simps [simp del]

definition crc32_little :: "nat \<Rightarrow> 'w::len word \<Rightarrow> byte list \<Rightarrow> 'w word" where
  "crc32_little addr crc buf =
     (let c = ucast crc :: z_crc_t;
          c = NOT c;
          (c, buf) = align_loop crc_do1 addr c buf;
          (c, buf) = loop32 (\<lambda>c buf. DOLIT4 c (load_little buf)) c buf;
          (c, buf) = loop4 (\<lambda>c buf. DOLIT4 c (load_little buf)) c buf;
          c = foldl crc_do1 c buf;
          c = NOT c
      in ucast c)"

definition crc32_big :: "nat \<Rightarrow> 'w::len word \<Rightarrow> byte list \<Rightarrow> 'w word" where
  "crc32_big addr crc buf =
     (let c = ZSWAP32 (ucast crc);
          c = NOT c;
          (c, buf) = align_loop big_do1 addr c buf;
          (c, buf) = loop32 (\<lambda>c buf. DOBIG4 c (load_big buf)) c buf;
          (c, buf) = loop4 (\<lambda>c buf. DOBIG4 c (load_big buf)) c buf;
          c = foldl big_do1 c buf;
          c = NOT c
      in ucast (ZSWAP32 c))"

text \<open>
  \<open>crc32_z(crc, buf, len)\<close> with \<open>BYFOUR\<close>: \<open>little\<close> says that the first byte of the 32 bit value 1 is
  not zero, \<open>addr\<close> is the address of the buffer.
\<close>

definition crc32_z :: "bool \<Rightarrow> nat \<Rightarrow> 'w::len word \<Rightarrow> byte list option \<Rightarrow> 'w word" where
  "crc32_z little addr crc bufp =
     (case bufp of None \<Rightarrow> 0
      | Some buf \<Rightarrow> if little then crc32_little addr crc buf else crc32_big addr crc buf)"

definition crc32 :: "bool \<Rightarrow> nat \<Rightarrow> 'w::len word \<Rightarrow> byte list option \<Rightarrow> 'w word" where
  "crc32 little addr crc bufp = crc32_z little addr crc bufp"

text \<open>As the streams call it; the value does not depend on the machine's byte order.\<close>

definition crc32_upd :: "64 word \<Rightarrow> byte list \<Rightarrow> 64 word" where
  "crc32_upd c bs = crc32 True 0 c (Some bs)"

text \<open>The loop of \<open>crc32_z\<close> without \<open>BYFOUR\<close> (\<open>while (len >= 8) DO8\<close>, then single bytes), on an
  \<open>unsigned long\<close> register.\<close>

definition crc_do1_long :: "'w::len word \<Rightarrow> byte \<Rightarrow> 'w word" where
  "crc_do1_long crc b =
     ucast (crc_table 0 (unat ((ucast crc XOR ucast b :: 32 word) AND 0xff))) XOR drop_bit 8 crc"

fun do8_loop :: "'w::len word \<Rightarrow> byte list \<Rightarrow> 'w word \<times> byte list" where
  "do8_loop crc buf =
     (if length buf \<ge> 8 then do8_loop (foldl crc_do1_long crc (take 8 buf)) (drop 8 buf) else (crc, buf))"

declare do8_loop.simps [simp del]

definition crc32_z_bytes :: "'w::len word \<Rightarrow> byte list option \<Rightarrow> 'w word" where
  "crc32_z_bytes crc bufp =
     (case bufp of None \<Rightarrow> 0
      | Some buf \<Rightarrow>
        (let crc = crc XOR 0xffffffff;
             (crc, buf) = do8_loop crc buf;
             crc = foldl crc_do1_long crc buf
         in crc XOR 0xffffffff))"

section \<open>Combination\<close>

text \<open>
  \<open>gf2_matrix_times\<close>: the matrix is read through a pointer that advances once per bit of \<open>vec\<close>;
  reading past its 32 rows is \<open>None\<close>.
\<close>

definition GF2_DIM :: nat where
  "GF2_DIM = 32"

fun gf2_times_loop :: "'w::len word list \<Rightarrow> 'w word \<Rightarrow> 'w word \<Rightarrow> 'w word option" where
  "gf2_times_loop [] vec acc = (if vec = 0 then Some acc else None)"
| "gf2_times_loop (row # mat) vec acc =
     (if vec = 0 then Some acc
      else gf2_times_loop mat (drop_bit 1 vec) (if vec AND 1 \<noteq> 0 then acc XOR row else acc))"

definition gf2_matrix_times :: "'w::len word list \<Rightarrow> 'w word \<Rightarrow> 'w word option" where
  "gf2_matrix_times mat vec = gf2_times_loop mat vec 0"

definition gf2_matrix_square :: "'w::len word list \<Rightarrow> 'w word list option" where
  "gf2_matrix_square mat = those (map (\<lambda>n. gf2_matrix_times mat (mat ! n)) [0..<GF2_DIM])"

text \<open>The loop \<open>do { \<dots> } while (len2 != 0)\<close>, entered with \<open>len2 > 0\<close>.\<close>

function combine_loop :: "'w::len word list \<Rightarrow> 'w word \<Rightarrow> nat \<Rightarrow> 'w word option" where
  "combine_loop oddm crc1 len2 =
     (case gf2_matrix_square oddm of None \<Rightarrow> None
      | Some evenm \<Rightarrow>
        (case (if len2 mod 2 = 1 then gf2_matrix_times evenm crc1 else Some crc1) of None \<Rightarrow> None
         | Some crc1 \<Rightarrow>
           if len2 div 2 = 0 then Some crc1
           else
             (case gf2_matrix_square evenm of None \<Rightarrow> None
              | Some oddm \<Rightarrow>
                (case (if len2 div 2 mod 2 = 1 then gf2_matrix_times oddm crc1 else Some crc1) of
                   None \<Rightarrow> None
                 | Some crc1 \<Rightarrow>
                   if len2 div 2 div 2 = 0 then Some crc1
                   else combine_loop oddm crc1 (len2 div 2 div 2)))))"
  by pat_completeness auto
termination by (relation "measure (\<lambda>(oddm, crc1, len2). len2)") auto

declare combine_loop.simps [simp del]

text \<open>The operator for one zero bit: \<open>odd[0]\<close> is the polynomial, \<open>odd[n]\<close> is \<open>1 << (n - 1)\<close>.\<close>

definition gf2_one_bit :: "'w::len word list" where
  "gf2_one_bit = 0xedb88320 # map (\<lambda>n. push_bit n 1) [0..<GF2_DIM - 1]"

definition crc32_combine_len :: "'w::len word \<Rightarrow> 'w word \<Rightarrow> int \<Rightarrow> 'w word option" where
  "crc32_combine_len crc1 crc2 len2 =
     (if len2 \<le> 0 then Some crc1
      else
        (case gf2_matrix_square gf2_one_bit of None \<Rightarrow> None
         | Some evenm \<Rightarrow>
           (case gf2_matrix_square evenm of None \<Rightarrow> None
            | Some oddm \<Rightarrow> map_option (\<lambda>crc1. crc1 XOR crc2) (combine_loop oddm crc1 (nat len2)))))"

definition crc32_combine :: "'w::len word \<Rightarrow> 'w word \<Rightarrow> int \<Rightarrow> 'w word option" where
  "crc32_combine crc1 crc2 len2 = crc32_combine_len crc1 crc2 len2"

definition crc32_combine64 :: "'w::len word \<Rightarrow> 'w word \<Rightarrow> int \<Rightarrow> 'w word option" where
  "crc32_combine64 crc1 crc2 len2 = crc32_combine_len crc1 crc2 len2"

section \<open>Reference definition\<close>

text \<open>The shift register: add the byte at the low end, then eight single-bit steps.\<close>

definition crc_byte :: "z_crc_t \<Rightarrow> byte \<Rightarrow> z_crc_t" where
  "crc_byte c b = crc_bits 8 (c XOR ucast b)"

definition crc_reg :: "z_crc_t \<Rightarrow> byte list \<Rightarrow> z_crc_t" where
  "crc_reg c bs = foldl crc_byte c bs"

definition crc_ref :: "z_crc_t \<Rightarrow> byte list \<Rightarrow> z_crc_t" where
  "crc_ref c bs = NOT (crc_reg (NOT c) bs)"

section \<open>Linearity of the shift register\<close>

lemma crc_poly_eq: "crc_poly = 0xedb88320"
  by (simp add: crc_poly_def crc_exponents_def)

lemma crc_bit_alt: "crc_bit c = (if bit c 0 then crc_poly else 0) XOR drop_bit 1 c"
  by (simp add: crc_bit_def and_one_eq bit_0 odd_iff_mod_2_eq_one)

lemma crc_bit_xor: "crc_bit (a XOR b) = crc_bit a XOR crc_bit b"
  by (simp add: crc_bit_alt bit_xor_iff drop_bit_xor xor.assoc xor.left_commute xor.commute)

lemma crc_bits_xor: "crc_bits k (a XOR b) = crc_bits k a XOR crc_bits k b"
  by (induction k arbitrary: a b) (simp_all add: crc_bit_xor)

lemma crc_bits_zero [simp]: "crc_bits k 0 = 0"
  using crc_bits_xor[of k 0 0] by simp

lemma crc_bits_add: "crc_bits (j + k) c = crc_bits k (crc_bits j c)"
  by (induction j arbitrary: c) simp_all

lemma crc_bits_shift: "(\<And>i. i < k \<Longrightarrow> \<not> bit c i) \<Longrightarrow> crc_bits k c = drop_bit k c"
proof (induction k arbitrary: c)
  case (Suc k)
  have "crc_bit c = drop_bit 1 c" using Suc.prems[of 0] by (simp add: crc_bit_alt)
  moreover have "\<not> bit (drop_bit 1 c) i" if "i < k" for i
    using Suc.prems[of "Suc i"] that by (simp add: bit_drop_bit_eq)
  ultimately show ?case using Suc.IH[of "drop_bit 1 c"] by simp
qed simp

lemma split_word: "c = take_bit k c XOR push_bit k (drop_bit k (c :: 32 word))"
  by (auto simp: bit_simps intro!: bit_eqI)

lemma crc_bits_split: "crc_bits k c = crc_bits k (take_bit k c) XOR drop_bit k c"
proof -
  have "crc_bits k c = crc_bits k (take_bit k c) XOR crc_bits k (push_bit k (drop_bit k c))"
    by (subst split_word[of c k]) (rule crc_bits_xor)
  also have "crc_bits k (push_bit k (drop_bit k c)) = drop_bit k (push_bit k (drop_bit k c))"
    by (rule crc_bits_shift) (simp add: bit_push_bit_iff)
  also have "\<dots> = drop_bit k c" using bit_imp_le_length[of c] by (auto simp: bit_simps intro!: bit_eqI)
  finally show ?thesis .
qed

section \<open>What the tables hold\<close>

lemma and_ff: "w AND 0xff = take_bit 8 (w :: 'a::len word)"
  by (simp add: take_bit_eq_mask mask_eq_exp_minus_1)

lemma unat_take8_less: "unat (take_bit 8 (w :: 'a::len word)) < 256"
  by (simp add: unat_take_bit_mod)

lemma crc_table0_nth: "n < 256 \<Longrightarrow> crc_table0 ! n = crc_bits 8 (of_nat n)"
  by (simp add: crc_table0_def)

lemma length_crc_table0: "length crc_table0 = 256"
  by (simp add: crc_table0_def)

lemma crc_next_entry: "crc_next_entry crc_table0 c = crc_bits 8 c"
  by (simp add: crc_next_entry_def and_ff crc_table0_nth unat_take8_less crc_bits_split[of 8 c])

lemma crc_table_nth:
  "n < 256 \<Longrightarrow> k < 4 \<Longrightarrow> crc_table k n = crc_bits (8 * (k + 1)) (of_nat n)"
proof -
  assume n: "n < 256" and "k < 4"
  then consider "k = 0" | "k = 1" | "k = 2" | "k = 3" by linarith
  moreover have "crc_bits 16 c = crc_bits 8 (crc_bits 8 c)"
    "crc_bits 24 c = crc_bits 8 (crc_bits 8 (crc_bits 8 c))"
    "crc_bits 32 c = crc_bits 8 (crc_bits 8 (crc_bits 8 (crc_bits 8 c)))" for c
    using crc_bits_add[of 8 8] crc_bits_add[of 8 16] crc_bits_add[of 8 24] by simp_all
  ultimately show ?thesis
    using n by cases (simp_all add: crc_table_def make_crc_table_def Let_def crc_next_entry
        crc_table0_nth length_crc_table0)
qed

lemma crc_table_swap:
  "n < 256 \<Longrightarrow> k < 4 \<Longrightarrow> crc_table (k + 4) n = ZSWAP32 (crc_table k n)"
proof -
  assume n: "n < 256" and "k < 4"
  then consider "k = 0" | "k = 1" | "k = 2" | "k = 3" by linarith
  then show ?thesis
    using n by cases (simp_all add: crc_table_def make_crc_table_def Let_def length_crc_table0)
qed

lemma crc_do1_byte: "crc_do1 c b = crc_byte c b"
proof -
  have "drop_bit 8 (c XOR ucast b) = drop_bit 8 c"
    using bit_imp_le_length[of b] by (force simp: bit_simps intro!: bit_eqI)
  then show ?thesis
    using crc_bits_split[of 8 "c XOR ucast b"]
    by (simp add: crc_do1_def crc_byte_def and_ff crc_table_nth unat_take8_less del: take_bit_xor)
qed

section \<open>Four bytes at a time\<close>

lemma drop_push_small:
  assumes "unat (x :: 32 word) < 2 ^ (32 - m)"
  shows "drop_bit m (push_bit m x) = x"
proof (rule bit_eqI)
  fix n
  have "n < 32 - m" if "bit x n" using not_bit_if_unat_less[OF assms, of n] that by force
  then show "bit (drop_bit m (push_bit m x)) n = bit x n" by (auto simp: bit_simps)
qed

text \<open>Adding \<open>x\<close> after \<open>m\<close> steps is adding \<open>x\<close>, shifted, before them.\<close>

lemma crc_bits_add_late:
  assumes "unat (x :: 32 word) < 2 ^ (32 - m)"
  shows "crc_bits m y XOR x = crc_bits m (y XOR push_bit m x)"
proof -
  have "crc_bits m (push_bit m x) = drop_bit m (push_bit m x)"
    by (rule crc_bits_shift) (simp add: bit_push_bit_iff)
  then show ?thesis by (simp add: crc_bits_xor drop_push_small[OF assms])
qed

lemma crc_bits_add_shifted:
  assumes "unat (x :: 32 word) < 2 ^ (32 - m)"
  shows "crc_bits (m + j) (push_bit m x) = crc_bits j x"
  using crc_bits_add_late[OF assms, of 0] by (simp add: crc_bits_add)

lemma unat_ucast_byte32: "unat (ucast (b :: byte) :: 32 word) = unat b"
  by (rule unat_ucast_byte) simp

lemma byte_shift_small: "m \<le> 24 \<Longrightarrow> unat (ucast (b :: byte) :: 32 word) < 2 ^ (32 - m)"
proof -
  assume "m \<le> 24"
  then have "(2::nat) ^ 8 \<le> 2 ^ (32 - m)" by (intro power_increasing) simp_all
  then show ?thesis using byte_unat_less[of b] by (simp add: unat_ucast_byte32)
qed

lemma byte_part_small: "unat (take_bit 8 (w :: 32 word)) < 2 ^ 24" "unat (take_bit 8 w) < 2 ^ 16"
  "unat (drop_bit 24 w) < 2 ^ 8"
  using unat_less_exp[of w] unat_take8_less[of w] by (simp_all add: unat_drop_bit_div)

lemma crc_bits_32: "crc_bits 32 c =
    crc_bits 32 (take_bit 8 c) XOR crc_bits 24 (take_bit 8 (drop_bit 8 c)) XOR
    crc_bits 16 (take_bit 8 (drop_bit 16 c)) XOR crc_bits 8 (drop_bit 24 c)"
proof -
  have parts: "c = take_bit 8 c XOR push_bit 8 (take_bit 8 (drop_bit 8 c)) XOR
      push_bit 16 (take_bit 8 (drop_bit 16 c)) XOR push_bit 24 (drop_bit 24 c)"
    by (rule bit_eqI) (auto simp: bit_simps)
  show ?thesis
    using crc_bits_add_shifted[of "take_bit 8 (drop_bit 8 c)" 8 24]
      crc_bits_add_shifted[of "take_bit 8 (drop_bit 16 c)" 16 16]
      crc_bits_add_shifted[of "drop_bit 24 c" 24 8] byte_part_small
    by (subst parts) (simp only: crc_bits_xor, simp)
qed

lemma load_little_split:
  "load_little (b0 # b1 # b2 # b3 # bs) = ucast b0 XOR push_bit 8 (ucast b1) XOR
     push_bit 16 (ucast b2) XOR push_bit 24 (ucast b3)"
  by (rule bit_eqI) (auto simp: bit_simps)

lemma crc_reg_4: "crc_reg c [b0, b1, b2, b3] = crc_bits 32 (c XOR load_little (b0 # b1 # b2 # b3 # bs))"
proof -
  have late: "crc_bits m y XOR ucast b = crc_bits m (y XOR push_bit m (ucast b))" if "m \<le> 24"
    for m y and b :: byte
    by (rule crc_bits_add_late[OF byte_shift_small[OF that]])
  have B: "crc_bits 8 (crc_bits 8 x) = crc_bits 16 x" "crc_bits 8 (crc_bits 16 x) = crc_bits 24 x"
    "crc_bits 8 (crc_bits 24 x) = crc_bits 32 x" for x
    using crc_bits_add[of 8 8 x] crc_bits_add[of 16 8 x] crc_bits_add[of 24 8 x] by simp_all
  show ?thesis
    by (simp add: crc_reg_def crc_byte_def load_little_split late B xor.assoc del: load_little.simps)
qed

lemma DOLIT4_crc_bits: "DOLIT4 c w = crc_bits 32 (c XOR w)"
  unfolding DOLIT4_def Let_def and_ff
  using crc_bits_32[of "c XOR w"] byte_part_small(3)[of "c XOR w"]
  by (simp add: crc_table_nth unat_take8_less del: take_bit_xor drop_bit_xor)

section \<open>Byte order\<close>

lemma ZSWAP32_bytes: "ZSWAP32 q =
    take_bit 8 (drop_bit 24 q) XOR push_bit 8 (take_bit 8 (drop_bit 16 q)) XOR
    push_bit 16 (take_bit 8 (drop_bit 8 q)) XOR push_bit 24 (take_bit 8 q)"
proof -
  have m: "drop_bit 8 q AND 0xff00 = push_bit 8 (take_bit 8 (drop_bit 16 q))"
    "push_bit 8 (q AND 0xff00) = push_bit 16 (take_bit 8 (drop_bit 8 q))"
  proof -
    have e: "(0xff00 :: 32 word) = push_bit 8 (mask 8)" by (simp add: mask_eq_exp_minus_1)
    show "drop_bit 8 q AND 0xff00 = push_bit 8 (take_bit 8 (drop_bit 16 q))"
      "push_bit 8 (q AND 0xff00) = push_bit 16 (take_bit 8 (drop_bit 8 q))"
      unfolding e
      by (rule bit_eqI, simp only: bit_and_iff bit_push_bit_iff bit_mask_iff bit_drop_bit_eq
          bit_take_bit_iff, auto)+
  qed
  have dis: "x + y = x XOR y" if "x AND y = 0" for x y :: "32 word"
    using that by (simp add: disjunctive_add_eq_xor)
  let ?a = "take_bit 8 (drop_bit 24 q)" and ?b = "push_bit 8 (take_bit 8 (drop_bit 16 q))"
    and ?c = "push_bit 16 (take_bit 8 (drop_bit 8 q))" and ?d = "push_bit 24 (take_bit 8 q)"
  have "?a AND ?b = 0" "(?a XOR ?b) AND ?c = 0" "(?a XOR ?b XOR ?c) AND ?d = 0"
    by (auto simp: bit_simps intro!: bit_eqI)
  then have "?a + ?b + ?c + ?d = ?a XOR ?b XOR ?c XOR ?d" by (simp only: dis xor.assoc)
  then show ?thesis by (simp only: ZSWAP32_def m and_ff)
qed

lemma ZSWAP32_xor: "ZSWAP32 (x XOR y) = ZSWAP32 x XOR ZSWAP32 y"
  by (simp add: ZSWAP32_bytes push_bit_xor ac_simps xor.left_commute)

lemma take_drop24: "take_bit 8 (drop_bit 24 q) = drop_bit 24 (q :: 32 word)"
  by (rule take_bit_unat_self[OF byte_part_small(3)])

lemma ZSWAP32_parts:
  "take_bit 8 (ZSWAP32 q) = drop_bit 24 q"
  "take_bit 8 (drop_bit 8 (ZSWAP32 q)) = take_bit 8 (drop_bit 16 q)"
  "take_bit 8 (drop_bit 16 (ZSWAP32 q)) = take_bit 8 (drop_bit 8 q)"
  "drop_bit 24 (ZSWAP32 q) = take_bit 8 q"
  by (subst take_drop24[symmetric]) (auto simp: ZSWAP32_bytes bit_simps intro!: bit_eqI)

lemma word_of_bytes: "take_bit 8 q XOR push_bit 8 (take_bit 8 (drop_bit 8 q)) XOR
    push_bit 16 (take_bit 8 (drop_bit 16 q)) XOR push_bit 24 (drop_bit 24 q) = (q :: 32 word)"
  by (rule bit_eqI) (auto simp: bit_simps)

lemma ZSWAP32_twice [simp]: "ZSWAP32 (ZSWAP32 q) = q"
  by (subst ZSWAP32_bytes) (simp only: ZSWAP32_parts word_of_bytes take_drop24 take_bit_take_bit min.idem)

lemma ZSWAP32_push8: "ZSWAP32 (push_bit 8 c) = drop_bit 8 (ZSWAP32 c)"
proof -
  have "take_bit 8 (drop_bit 24 (push_bit 8 c)) = take_bit 8 (drop_bit 16 c)"
    "take_bit 8 (drop_bit 16 (push_bit 8 c)) = take_bit 8 (drop_bit 8 c)"
    "take_bit 8 (drop_bit 8 (push_bit 8 c)) = take_bit 8 c" "take_bit 8 (push_bit 8 c) = 0"
    by (auto simp: bit_simps intro!: bit_eqI)
  moreover have "drop_bit 8 (take_bit 8 x) = 0" "drop_bit 8 (push_bit 8 (take_bit 8 x)) = take_bit 8 x"
    "drop_bit 8 (push_bit 16 (take_bit 8 x)) = push_bit 8 (take_bit 8 x)"
    "drop_bit 8 (push_bit 24 (take_bit 8 x)) = push_bit 16 (take_bit 8 x)" for x :: "32 word"
    by (auto simp: bit_simps intro!: bit_eqI)
  ultimately show ?thesis
    by (simp only: ZSWAP32_bytes drop_bit_xor) (simp add: xor.assoc)
qed

lemma ZSWAP32_not: "ZSWAP32 (NOT c) = NOT (ZSWAP32 c)"
proof -
  have "ZSWAP32 0xffffffff = 0xffffffff" by (simp add: ZSWAP32_def)
  moreover have "NOT x = x XOR 0xffffffff" for x :: "32 word"
  proof -
    have "(0xffffffff :: 32 word) = NOT 0" by simp
    then show ?thesis by (metis bit.xor_compl_right xor.right_neutral)
  qed
  ultimately show ?thesis by (simp only: ZSWAP32_xor)
qed

lemma load_big_bytes:
  fixes b0 b1 b2 b3 :: byte and bs :: "byte list"
  defines "w \<equiv> load_big (b0 # b1 # b2 # b3 # bs)"
  shows "take_bit 8 (drop_bit 24 w) = ucast b0" "take_bit 8 (drop_bit 16 w) = ucast b1"
    "take_bit 8 (drop_bit 8 w) = ucast b2" "take_bit 8 w = ucast b3"
  unfolding w_def using bit_imp_le_length[of b0] by (auto simp: bit_simps intro!: bit_eqI)

lemma ZSWAP32_load: "ZSWAP32 (load_big (b0 # b1 # b2 # b3 # bs)) = load_little (b0 # b1 # b2 # b3 # bs)"
  by (simp only: ZSWAP32_bytes load_big_bytes load_little_split)


section \<open>The word-wise loops\<close>

text \<open>
  What the loops need of their two steps: \<open>one\<close> adds a byte to the register and \<open>four\<close> adds four,
  where the register is kept in a representation that \<open>A\<close> translates.  The little-endian loop keeps
  it as it is, the big-endian loop byte-reversed.
\<close>

locale crc_stepper =
  fixes one :: "z_crc_t \<Rightarrow> byte \<Rightarrow> z_crc_t"
    and four :: "z_crc_t \<Rightarrow> byte list \<Rightarrow> z_crc_t"
    and A :: "z_crc_t \<Rightarrow> z_crc_t"
  assumes one_step: "A (one c b) = crc_byte (A c) b"
    and four_step: "4 \<le> length buf \<Longrightarrow> A (four c buf) = crc_reg (A c) (take 4 buf)"
begin

lemma fold_one: "A (foldl one c buf) = crc_reg (A c) buf"
  by (induction buf arbitrary: c) (simp_all add: one_step crc_reg_def)

lemma align_loop_reg: "align_loop one addr c buf = (c', buf') \<Longrightarrow> crc_reg (A c') buf' = crc_reg (A c) buf"
  by (induction buf arbitrary: addr c) (auto simp: one_step crc_reg_def split: if_splits)

lemma reg_take_drop: "crc_reg (crc_reg c (take n buf)) (drop n buf) = crc_reg c buf"
  by (simp add: crc_reg_def foldl_append[symmetric] del: foldl_append)

lemma step4_times_reg: "4 * k \<le> length buf \<Longrightarrow>
    A (step4_times four k c buf) = crc_reg (A c) (take (4 * k) buf)"
proof (induction k arbitrary: c buf)
  case (Suc k)
  have "crc_reg (crc_reg (A c) (take 4 buf)) (take (4 * k) (drop 4 buf)) =
      crc_reg (A c) (take 4 buf @ take (4 * k) (drop 4 buf))" by (simp add: crc_reg_def)
  also have "take 4 buf @ take (4 * k) (drop 4 buf) = take (4 * Suc k) buf"
    by (simp add: take_add)
  finally show ?case using Suc by (simp add: four_step)
qed (simp add: crc_reg_def)

lemma loop32_reg: "loop32 four c buf = (c', buf') \<Longrightarrow> crc_reg (A c') buf' = crc_reg (A c) buf"
proof (induction buf arbitrary: c rule: measure_induct_rule[of length])
  case (less buf)
  show ?case
  proof (cases "length buf \<ge> 32")
    case True
    then have "crc_reg (A c') buf' = crc_reg (A (step4_times four 8 c buf)) (drop 32 buf)"
      using less by (simp add: loop32.simps[of four c buf])
    then show ?thesis using True step4_times_reg[of 8 buf c] reg_take_drop by simp
  next
    case False
    then show ?thesis using less(2) by (simp add: loop32.simps[of four c buf])
  qed
qed

lemma loop4_reg: "loop4 four c buf = (c', buf') \<Longrightarrow> crc_reg (A c') buf' = crc_reg (A c) buf"
proof (induction buf arbitrary: c rule: measure_induct_rule[of length])
  case (less buf)
  show ?case
  proof (cases "length buf \<ge> 4")
    case True
    then have "crc_reg (A c') buf' = crc_reg (A (four c buf)) (drop 4 buf)"
      using less by (simp add: loop4.simps[of four c buf])
    then show ?thesis using True four_step reg_take_drop by simp
  next
    case False
    then show ?thesis using less(2) by (simp add: loop4.simps[of four c buf])
  qed
qed

text \<open>All the loops of one of the word-wise functions, in the order in which it runs them.\<close>

lemma all_loops:
  assumes "align_loop one addr c buf = (c1, buf1)" "loop32 four c1 buf1 = (c2, buf2)"
    "loop4 four c2 buf2 = (c3, buf3)"
  shows "A (foldl one c3 buf3) = crc_reg (A c) buf"
  using align_loop_reg[OF assms(1)] loop32_reg[OF assms(2)] loop4_reg[OF assms(3)]
  by (simp add: fold_one)

end

lemma take4_cases:
  assumes "4 \<le> length buf"
  obtains b0 b1 b2 b3 bs where "buf = b0 # b1 # b2 # b3 # bs" "take 4 buf = [b0, b1, b2, b3]"
proof -
  obtain b0 b1 b2 b3 bs where "buf = b0 # b1 # b2 # b3 # bs"
    using assms by (cases buf; cases "tl buf"; cases "tl (tl buf)"; cases "tl (tl (tl buf))") auto
  then show ?thesis using that by simp
qed

lemma DOLIT4_reg: "4 \<le> length buf \<Longrightarrow> DOLIT4 c (load_little buf) = crc_reg c (take 4 buf)"
  by (erule take4_cases) (simp only: DOLIT4_crc_bits, rule crc_reg_4[symmetric])

interpretation little: crc_stepper crc_do1 "\<lambda>c buf. DOLIT4 c (load_little buf)" "\<lambda>c. c"
  by unfold_locales (simp_all add: crc_do1_byte DOLIT4_reg)

lemma big_do1_byte: "ZSWAP32 (big_do1 c b) = crc_byte (ZSWAP32 c) b"
proof -
  let ?n = "drop_bit 24 c XOR ucast b :: 32 word"
  have n: "take_bit 8 ?n = ?n"
    by (simp only: take_bit_xor take_drop24) (auto simp: bit_simps intro!: bit_eqI)
  have "unat ?n < 256" using unat_take8_less[of ?n] by (simp only: n)
  then have "ZSWAP32 (big_do1 c b) = crc_table 0 (unat ?n) XOR drop_bit 8 (ZSWAP32 c)"
    using crc_table_swap[of "unat ?n" 0] by (simp add: big_do1_def ZSWAP32_xor ZSWAP32_push8)
  also have "?n = (ZSWAP32 c XOR ucast b) AND 0xff"
    using n by (simp only: and_ff take_bit_xor ZSWAP32_parts take_drop24)
  finally show ?thesis by (simp add: crc_do1_byte[symmetric] crc_do1_def)
qed

lemma DOBIG4_swap: "ZSWAP32 (DOBIG4 c w) = DOLIT4 (ZSWAP32 c) (ZSWAP32 w)"
proof -
  let ?x = "c XOR w"
  have t: "ZSWAP32 (crc_table (k + 4) n) = crc_table k n" if "n < 256" "k < 4" for k n
    using crc_table_swap[OF that] by simp
  have "ZSWAP32 (DOBIG4 c w) =
     crc_table 0 (unat (take_bit 8 ?x)) XOR crc_table 1 (unat (take_bit 8 (drop_bit 8 ?x))) XOR
     crc_table 2 (unat (take_bit 8 (drop_bit 16 ?x))) XOR crc_table 3 (unat (drop_bit 24 ?x))"
    using t[of _ 0] t[of _ 1] t[of _ 2] t[of _ 3] byte_part_small(3)[of ?x]
    by (simp add: DOBIG4_def Let_def ZSWAP32_xor and_ff unat_take8_less del: take_bit_xor drop_bit_xor)
  also have "\<dots> = DOLIT4 (ZSWAP32 c) (ZSWAP32 w)"
    unfolding DOLIT4_def Let_def ZSWAP32_xor[symmetric] and_ff ZSWAP32_parts
    by (simp only: xor.assoc xor.commute xor.left_commute)
  finally show ?thesis .
qed

lemma DOBIG4_reg: "4 \<le> length buf \<Longrightarrow> ZSWAP32 (DOBIG4 c (load_big buf)) = crc_reg (ZSWAP32 c) (take 4 buf)"
  by (erule take4_cases) (simp only: DOBIG4_swap ZSWAP32_load DOLIT4_crc_bits, rule crc_reg_4[symmetric])

interpretation big: crc_stepper big_do1 "\<lambda>c buf. DOBIG4 c (load_big buf)" ZSWAP32
  by unfold_locales (simp_all add: big_do1_byte DOBIG4_reg)

lemma crc32_little_spec: "crc32_little addr crc buf = ucast (crc_ref (ucast crc) buf)"
  using little.all_loops[of addr "NOT (ucast crc)" buf]
  by (simp add: crc32_little_def crc_ref_def Let_def split: prod.splits)

lemma crc32_big_spec: "crc32_big addr crc buf = ucast (crc_ref (ucast crc) buf)"
  using big.all_loops[of addr "NOT (ZSWAP32 (ucast crc))" buf]
  by (simp add: crc32_big_def crc_ref_def Let_def ZSWAP32_not split: prod.splits)

lemma crc32_z_spec: "crc32_z little addr crc (Some buf) = ucast (crc_ref (ucast crc) buf)"
  by (simp add: crc32_z_def crc32_little_spec crc32_big_spec)


text \<open>
  C16: on a little-endian and on a big-endian machine and from any buffer address, \<open>crc32_z\<close> returns
  what the shift register of the polynomial gives, one bit at a time; for a null buffer it returns
  the initial value 0.
\<close>

theorem crc32_z_correct:
  "crc32_z little addr crc (Some buf) = ucast (crc_ref (ucast crc) buf)
   \<and> crc32_z little addr crc None = 0"
  by (simp add: crc32_z_spec) (simp add: crc32_z_def)

section \<open>The byte-wise loop\<close>

lemma ucast_xor32: "ucast (a XOR b) = (ucast a XOR ucast (b :: 32 word) :: 'w::len word)"
  by (rule bit_eqI) (auto simp: bit_simps)

lemma ucast_ucast32: "32 \<le> LENGTH('w) \<Longrightarrow> ucast (ucast (r :: 32 word) :: 'w::len word) = r"
  by (rule bit_eqI) (auto simp: bit_simps)

lemma ucast_drop32: "32 \<le> LENGTH('w) \<Longrightarrow> drop_bit k (ucast (r :: 32 word) :: 'w::len word) = ucast (drop_bit k r)"
proof (rule bit_eqI)
  fix n assume "32 \<le> LENGTH('w)"
  then show "bit (drop_bit k (ucast r :: 'w word)) n = bit (ucast (drop_bit k r) :: 'w word) n"
    using bit_imp_le_length[of r "k + n"] by (auto simp: bit_simps)
qed

lemma fold_do1_long:
  assumes "32 \<le> LENGTH('w)"
  shows "foldl crc_do1_long (ucast r :: 'w::len word) buf = ucast (crc_reg r buf)"
  using assms
  by (induction buf arbitrary: r)
    (simp_all add: crc_do1_long_def ucast_ucast32 ucast_drop32 ucast_xor32[symmetric]
      crc_do1_def[symmetric] crc_do1_byte crc_reg_def)

lemma do8_loop_fold: "do8_loop crc buf = (crc', buf') \<Longrightarrow> foldl crc_do1_long crc' buf' = foldl crc_do1_long crc buf"
proof (induction buf arbitrary: crc rule: measure_induct_rule[of length])
  case (less buf)
  show ?case
  proof (cases "length buf \<ge> 8")
    case True
    then have "foldl crc_do1_long crc' buf' = foldl crc_do1_long (foldl crc_do1_long crc (take 8 buf)) (drop 8 buf)"
      using less by (simp add: do8_loop.simps[of crc buf])
    then show ?thesis by (simp add: foldl_append[symmetric] del: foldl_append)
  next
    case False
    then show ?thesis using less(2) by (simp add: do8_loop.simps[of crc buf])
  qed
qed

lemma ucast_not32: "32 \<le> LENGTH('w) \<Longrightarrow> (ucast (r :: 32 word) :: 'w::len word) XOR 0xffffffff = ucast (NOT r)"
proof -
  assume L: "32 \<le> LENGTH('w)"
  have m: "(0xffffffff :: 'w word) = mask 32" by (simp add: mask_eq_exp_minus_1)
  show ?thesis
    unfolding m using L by - (rule bit_eqI, auto simp: bit_simps simp del: mask_numeral dest: bit_imp_le_length)
qed

lemma crc32_z_bytes_spec:
  assumes "32 \<le> LENGTH('w)"
  shows "crc32_z_bytes (ucast r :: 'w::len word) (Some buf) = ucast (crc_ref r buf)"
proof -
  obtain crc1 buf1 where l: "do8_loop (ucast (NOT r) :: 'w word) buf = (crc1, buf1)" by fastforce
  show ?thesis
    using do8_loop_fold[OF l] assms
    by (simp add: crc32_z_bytes_def ucast_not32 l fold_do1_long crc_ref_def)
qed

text \<open>
  C17: the byte-wise loop (the code without \<open>BYFOUR\<close>) and the word-wise loops compute the same
  value for every 32 bit check value, whatever the byte order, the address and the data.
\<close>

theorem crc32_z_bytes_eq:
  assumes "32 \<le> LENGTH('w)"
  shows "crc32_z_bytes (ucast (r :: 32 word) :: 'w::len word) (Some buf)
    = crc32_z little addr (ucast r) (Some buf)"
  using assms by (simp add: crc32_z_bytes_spec crc32_z_spec ucast_ucast32)

theorem crc32_z_bytes_eq_witness:
  "crc32_z_bytes (ucast (5 :: 32 word) :: 64 word) (Some [1, 2, 3])
    = crc32_z False 3 (ucast (5 :: 32 word)) (Some [1, 2, 3])"
  using crc32_z_bytes_eq[where 'w = 64, of 5 "[1, 2, 3]" False 3] by simp

section \<open>Matrices over GF(2)\<close>

text \<open>A list of rows represents a linear function on the register.\<close>

definition gf2_linear :: "(z_crc_t \<Rightarrow> z_crc_t) \<Rightarrow> bool" where
  "gf2_linear f \<longleftrightarrow> (\<forall>x y. f (x XOR y) = f x XOR f y)"

definition gf2_rows :: "'w::len word list \<Rightarrow> (z_crc_t \<Rightarrow> z_crc_t) \<Rightarrow> bool" where
  "gf2_rows mat f \<longleftrightarrow> length mat = 32 \<and> (\<forall>n<32. mat ! n = ucast (f (push_bit n 1)))"

lemma gf2_linear_zero: "gf2_linear f \<Longrightarrow> f 0 = 0"
  by (metis gf2_linear_def xor_self_eq)

lemma crc_bits_linear: "gf2_linear (crc_bits k)"
  by (simp add: gf2_linear_def crc_bits_xor)

lemma word_low_bit: "v = (if bit v 0 then 1 else 0) XOR push_bit 1 (drop_bit 1 (v :: 32 word))"
proof (rule bit_eqI)
  fix n
  show "bit v n = bit ((if bit v 0 then 1 else 0) XOR push_bit 1 (drop_bit 1 v)) n"
    by (cases n) (simp_all only: bit_xor_iff bit_push_bit_iff bit_drop_bit_eq, auto simp: bit_simps dest: bit_imp_le_length)
qed

lemma gf2_times_loop_rows:
  assumes L: "32 \<le> LENGTH('w)"
  shows "gf2_linear f \<Longrightarrow> (\<forall>n<length mat. mat ! n = ucast (f (push_bit n 1))) \<Longrightarrow>
    unat v < 2 ^ length mat \<Longrightarrow>
    gf2_times_loop mat (ucast v :: 'w::len word) acc = Some (acc XOR ucast (f v))"
proof (induction mat arbitrary: f v acc)
  case Nil
  then have "v = 0" by (simp add: unat_eq_0)
  then show ?case using Nil(1) by (simp add: gf2_linear_zero)
next
  case (Cons row mat)
  let ?v = "drop_bit 1 v" and ?g = "\<lambda>x. f (push_bit 1 x)"
  have g: "gf2_linear ?g" using Cons.prems(1) by (simp add: gf2_linear_def push_bit_xor del: push_bit_Suc push_bit_of_1 push_bit_numeral)
  have "mat ! n = ucast (?g (push_bit n 1))" if "n < length mat" for n
    using Cons.prems(2)[rule_format, of "Suc n"] that by (simp add: mult.commute)
  moreover have "unat ?v < 2 ^ length mat" using Cons.prems(3) by (simp add: unat_drop_bit_div)
  ultimately have IH: "gf2_times_loop mat (ucast ?v :: 'w word) acc' = Some (acc' XOR ucast (?g ?v))" for acc'
    using Cons.IH[OF g] by blast
  have row: "row = ucast (f 1)" using Cons.prems(2)[rule_format, of 0] by simp
  have fv: "f v = (if bit v 0 then f 1 else 0) XOR ?g ?v"
    using Cons.prems(1) word_low_bit[of v] gf2_linear_zero[OF Cons.prems(1)]
    by (metis (full_types) gf2_linear_def)
  have zero: "(ucast v :: 'w word) = 0 \<longleftrightarrow> v = 0" using ucast_ucast32[OF L, of v] by (metis ucast_0)
  have odd: "(ucast v :: 'w word) AND 1 \<noteq> 0 \<longleftrightarrow> bit v 0"
    by (simp add: and_one_eq odd_iff_mod_2_eq_one[symmetric] bit_0[symmetric] bit_ucast_iff)
  show ?case
  proof (cases "v = 0")
    case True
    then show ?thesis using Cons.prems(1) by (simp add: gf2_linear_zero)
  next
    case False
    then show ?thesis
      using IH by (simp add: zero odd row fv ucast_drop32[OF L] ucast_xor32 xor.assoc del: bit_0)
  qed
qed


lemma gf2_matrix_times_rows:
  assumes "32 \<le> LENGTH('w)" "gf2_linear f" "gf2_rows mat f"
  shows "gf2_matrix_times mat (ucast v :: 'w::len word) = Some (ucast (f v))"
  using gf2_times_loop_rows[OF assms(1,2), of mat v 0] assms(3) unat_less_exp[of v]
  by (simp add: gf2_matrix_times_def gf2_rows_def)

lemma those_map_Some: "(\<And>x. x \<in> set xs \<Longrightarrow> f x = Some (g x)) \<Longrightarrow> those (map f xs) = Some (map g xs)"
  by (induction xs) simp_all

lemma gf2_matrix_square_rows:
  assumes L: "32 \<le> LENGTH('w)" and f: "gf2_linear f" and m: "gf2_rows mat f"
  shows "\<exists>mat2 :: 'w::len word list. gf2_matrix_square mat = Some mat2 \<and> gf2_rows mat2 (f \<circ> f)"
proof -
  have "gf2_matrix_times mat (mat ! n) = Some (ucast (f (f (push_bit n 1))))" if "n < 32" for n
    using gf2_matrix_times_rows[OF L f m] m that by (simp add: gf2_rows_def)
  then have "gf2_matrix_square mat = Some (map (\<lambda>n. ucast (f (f (push_bit n 1)))) [0..<32])"
    unfolding gf2_matrix_square_def GF2_DIM_def by (intro those_map_Some) simp
  then show ?thesis by (simp add: gf2_rows_def)
qed

lemma gf2_square_crc_bits:
  assumes "32 \<le> LENGTH('w)" "gf2_rows mat (crc_bits k)"
  obtains mat2 :: "'w::len word list" where "gf2_matrix_square mat = Some mat2" "gf2_rows mat2 (crc_bits (k + k))"
proof -
  have "crc_bits k \<circ> crc_bits k = crc_bits (k + k)" by (rule ext) (simp add: crc_bits_add)
  then show ?thesis using gf2_matrix_square_rows[OF assms(1) crc_bits_linear assms(2)] that by auto
qed

lemma gf2_one_bit_rows: "gf2_rows (gf2_one_bit :: 'w::len word list) (crc_bits 1)"
proof -
  have "gf2_one_bit ! n = (ucast (crc_bits 1 (push_bit n 1)) :: 'w word)" if "n < 32" for n
  proof (cases n)
    case 0
    then show ?thesis by (simp add: gf2_one_bit_def crc_bit_alt crc_poly_eq bit_0)
  next
    case (Suc k)
    have "crc_bits 1 (push_bit n 1) = drop_bit 1 (push_bit n 1)"
      by (rule crc_bits_shift) (simp only: Suc bit_push_bit_iff, simp)
    also have "\<dots> = push_bit k 1" using that Suc by (auto simp: bit_simps intro!: bit_eqI)
    finally have e: "crc_bits 1 (push_bit n 1) = push_bit k 1" .
    have "(ucast (push_bit k 1 :: 32 word) :: 'w word) = push_bit k 1"
      using that Suc by (auto simp: bit_simps intro!: bit_eqI)
    then show ?thesis using that by (simp only: e) (simp add: gf2_one_bit_def GF2_DIM_def Suc)
  qed
  then show ?thesis by (simp add: gf2_rows_def gf2_one_bit_def GF2_DIM_def)
qed

lemma combine_times:
  assumes "32 \<le> LENGTH('w)" "gf2_rows mat (crc_bits j)"
  shows "(if len mod 2 = 1 then gf2_matrix_times mat (ucast c) else Some (ucast c))
    = Some (ucast (crc_bits (j * (len mod 2)) c) :: 'w::len word)"
proof (cases "len mod 2 = 1")
  case False
  then have "len mod 2 = 0" by linarith
  then show ?thesis by simp
qed (simp add: gf2_matrix_times_rows[OF assms(1) crc_bits_linear assms(2)])

lemma combine_loop_spec:
  assumes L: "32 \<le> LENGTH('w)"
  shows "gf2_rows oddm (crc_bits k) \<Longrightarrow>
    combine_loop oddm (ucast c :: 'w::len word) len = Some (ucast (crc_bits (2 * k * len) c))"
proof (induction len arbitrary: oddm k c rule: less_induct)
  case (less len)
  obtain evenm where e: "gf2_matrix_square oddm = Some evenm" "gf2_rows evenm (crc_bits (k + k))"
    using gf2_square_crc_bits[OF L less.prems] by blast
  obtain oddm2 where o: "gf2_matrix_square evenm = Some oddm2" "gf2_rows oddm2 (crc_bits (k + k + (k + k)))"
    using gf2_square_crc_bits[OF L e(2)] by blast
  let ?l2 = "len div 2" and ?l4 = "len div 2 div 2"
  let ?c1 = "crc_bits ((k + k) * (len mod 2)) c"
  let ?c2 = "crc_bits ((k + k + (k + k)) * (?l2 mod 2)) ?c1"
  have unf: "combine_loop oddm (ucast c :: 'w word) len =
    (if ?l2 = 0 then Some (ucast ?c1) else if ?l4 = 0 then Some (ucast ?c2)
     else combine_loop oddm2 (ucast ?c2) ?l4)"
    by (subst combine_loop.simps)
      (simp only: e o combine_times[OF L e(2)] combine_times[OF L o(2)] option.case)
  have "len = len mod 2 + 2 * (?l2 mod 2) + 4 * ?l4" by presburger
  moreover have "2 * k * (a + 2 * b + 4 * d) = (k + k) * a + (k + k + (k + k)) * b + 2 * (k + k + (k + k)) * d"
    for a b d by (simp add: algebra_simps)
  ultimately have len: "2 * k * len = (k + k) * (len mod 2) + (k + k + (k + k)) * (?l2 mod 2)
      + 2 * (k + k + (k + k)) * ?l4" by metis
  have c2: "crc_bits j ?c2 = crc_bits ((k + k) * (len mod 2) + (k + k + (k + k)) * (?l2 mod 2) + j) c" for j
    by (simp only: crc_bits_add)
  show ?case
  proof (cases "?l4 = 0")
    case True
    show ?thesis
    proof (cases "?l2 = 0")
      case True
      then have "len mod 2 = len" by presburger
      then show ?thesis using True unfolding unf by (simp add: mult_2 distrib_right)
    next
      case False
      then have 2: "?l2 = 1" "?l2 \<noteq> 0" using True by presburger+
      then show ?thesis using c2[of 0] len 2 True unfolding unf by simp
    qed
  next
    case False
    then have lt: "?l4 < len" "?l2 \<noteq> 0" by auto
    show ?thesis
      unfolding unf using len False lt less.IH[OF lt(1) o(2), of ?c2] c2 by simp
  qed
qed

lemma crc32_combine_len_spec:
  assumes L: "32 \<le> LENGTH('w)"
  shows "crc32_combine_len (ucast c1 :: 'w::len word) (ucast c2) (int len)
    = Some (ucast (if len = 0 then c1 else crc_bits (8 * len) c1 XOR c2))"
proof -
  obtain evenm :: "'w word list" where e: "gf2_matrix_square gf2_one_bit = Some evenm"
    "gf2_rows evenm (crc_bits (1 + 1))"
    using gf2_square_crc_bits[OF L gf2_one_bit_rows] by blast
  obtain oddm where o: "gf2_matrix_square evenm = Some oddm" "gf2_rows oddm (crc_bits (1 + 1 + (1 + 1)))"
    using gf2_square_crc_bits[OF L e(2)] by blast
  show ?thesis
    using combine_loop_spec[OF L o(2), of c1 len]
    by (simp add: crc32_combine_len_def e o ucast_xor32)
qed

lemma crc_reg_linear: "crc_reg (a XOR b) ys = crc_bits (8 * length ys) a XOR crc_reg b ys"
  by (induction ys arbitrary: a b)
    (simp_all add: crc_reg_def crc_byte_def crc_bits_xor crc_bits_add xor.assoc)

lemma crc_ref_linear: "crc_ref c ys = crc_bits (8 * length ys) c XOR crc_ref 0 ys"
  using crc_reg_linear[of c "NOT 0" ys] by (simp add: crc_ref_def)

lemma crc_ref_append: "crc_ref c (xs @ ys) = crc_ref (crc_ref c xs) ys"
  by (simp add: crc_ref_def crc_reg_def)

lemma crc_ref_Nil [simp]: "crc_ref c [] = c"
  by (simp add: crc_ref_def crc_reg_def)

lemma crc32_combine_spec:
  assumes "32 \<le> LENGTH('w)"
  shows "crc32_combine (ucast c :: 'w::len word) (ucast (crc_ref 0 ys)) (int (length ys))
    = Some (ucast (crc_ref c ys))"
  using crc_ref_linear[of c ys]
  by (simp add: crc32_combine_def crc32_combine_len_spec[OF assms])

text \<open>
  C18: \<open>crc32_combine\<close> never reads past its matrices, and from the check values of two pieces of data
  and the length of the second it computes the check value of their concatenation.
\<close>

theorem crc32_combine_correct:
  assumes "32 \<le> LENGTH('w)"
  shows "crc32_combine (crc32_z little a1 (ucast (c :: 32 word)) (Some xs)) (crc32_z little a2 0 (Some ys))
      (int (length ys)) = Some (crc32_z little a3 (ucast c :: 'w::len word) (Some (xs @ ys)))"
  using crc32_combine_spec[OF assms, of "crc_ref c xs" ys] assms
  by (simp add: crc32_z_spec ucast_ucast32 crc_ref_append)

theorem crc32_combine_correct_witness:
  "crc32_combine (crc32_z True 0 (ucast (0 :: 32 word)) (Some [1])) (crc32_z True 1 0 (Some [2, 3])) 2
    = Some (crc32_z True 4 (ucast (0 :: 32 word) :: 64 word) (Some [1, 2, 3]))"
  using crc32_combine_correct[where 'w = 64, of True 0 0 "[1]" 1 "[2, 3]" 4] by simp

section \<open>The check value interface\<close>

definition crc_valid :: "'w::len word \<Rightarrow> bool" where
  "crc_valid c \<longleftrightarrow> ucast (ucast c :: z_crc_t) = c"

lemma crc_checksum_combine:
  assumes L: "32 \<le> LENGTH('w::len)"
  shows "checksum_combine (0 :: 'w word) (\<lambda>c bs. crc32 little addr c (Some bs)) crc_valid
    (\<lambda>c1 c2 len. the (crc32_combine c1 c2 len))"
proof
  show "crc_valid (0 :: 'w word)" by (simp add: crc_valid_def)
next
  fix c :: "'w word" and xs ys
  assume "crc_valid c"
  then obtain r :: "32 word" where c: "c = ucast r" by (metis crc_valid_def)
  note s = crc32_def crc32_z_spec ucast_ucast32[OF L]
  show "crc_valid (crc32 little addr c (Some xs))" by (simp add: s crc_valid_def)
  show "crc32 little addr c (Some []) = c" by (simp add: s c)
  show "crc32 little addr c (Some (xs @ ys)) = crc32 little addr (crc32 little addr c (Some xs)) (Some ys)"
    by (simp add: s crc_ref_append)
  show "the (crc32_combine (crc32 little addr c (Some xs)) (crc32 little addr 0 (Some ys)) (int (length ys)))
    = crc32 little addr c (Some (xs @ ys))"
    by (simp add: s crc32_combine_spec[OF L] crc_ref_append)
qed

interpretation crc32w: checksum_combine "0 :: 32 word" "\<lambda>c bs. crc32 little addr c (Some bs)" crc_valid
    "\<lambda>c1 c2 len. the (crc32_combine c1 c2 len)" for little addr
  by (rule crc_checksum_combine) simp

interpretation crc64w: checksum_combine "0 :: 64 word" "\<lambda>c bs. crc32 little addr c (Some bs)" crc_valid
    "\<lambda>c1 c2 len. the (crc32_combine c1 c2 len)" for little addr
  by (rule crc_checksum_combine) simp

text \<open>
  C19: the check value of data that arrives in any number of buffers is the one of all the data, and
  combining the buffers' own check values gives it too.
\<close>

theorem crc32_chunks:
  "foldl (\<lambda>c bs. crc32 little addr c (Some bs)) 0 bufs = crc32 little addr (0 :: 64 word) (Some (concat bufs))
   \<and> foldl (\<lambda>c bs. the (crc32_combine c (crc32 little addr 0 (Some bs)) (int (length bs)))) 0 bufs
     = crc32 little addr (0 :: 64 word) (Some (concat bufs))"
  using crc64w.upd_chunks[OF crc64w.valid_init] crc64w.combine_chunks[OF crc64w.valid_init]
  by simp

end
