(* ===== verification/Canonical.thy ===== *)
theory Canonical
  imports Zlib_Prelude
begin

text \<open>
  Canonical prefix codes, the reference that the encoder (\<open>gen_codes\<close> of \<open>trees.c\<close>) and the decoder
  (\<open>inflate_table\<close> of \<open>inftrees.c\<close>) are both compared with.  Lengths are at most 15 bits.

  The codes of a sorted list of lengths are laid out one after the other on the line of the 15 bit
  numbers: a code of \<open>l\<close> bits takes an interval of \<open>2 ^ (15 - l)\<close> numbers.  The bit stream presents
  a code from its most significant bit on in the low bits of the buffer, so that numbers on the
  line are bit reversals of buffer contents.
\<close>

section \<open>Bit reversal\<close>

fun rbits :: "nat \<Rightarrow> nat \<Rightarrow> nat" where
  "rbits 0 x = 0"
| "rbits (Suc n) x = (x mod 2) * 2 ^ n + rbits n (x div 2)"


lemma rbits_less: "rbits n x < 2 ^ n"
proof (induction n arbitrary: x)
  case (Suc n)
  show ?case
    using Suc[of "x div 2"] by (cases "even x") (simp_all add: odd_iff_mod_2_eq_one)
qed simp

lemma mod_Suc_exp: "(x :: nat) mod 2 ^ Suc n = 2 * (x div 2 mod 2 ^ n) + x mod 2"
  by (simp add: mod_mult2_eq)

lemma rbits_mod: "rbits n (x mod 2 ^ n) = rbits n x"
proof (induction n arbitrary: x)
  case (Suc n)
  have "x mod 2 ^ Suc n mod 2 = x mod 2" "x mod 2 ^ Suc n div 2 = x div 2 mod 2 ^ n"
    unfolding mod_Suc_exp by simp_all
  then show ?case using Suc by simp
qed simp

lemma rbits_add: "rbits (m + n) x = rbits m x * 2 ^ n + rbits n (x div 2 ^ m)"
  by (induction m arbitrary: x) (simp_all add: div_mult2_eq power_add algebra_simps)

lemma rbits_snoc: "rbits (Suc n) x = 2 * rbits n x + x div 2 ^ n mod 2"
  using rbits_add[of n 1 x] by simp

lemma rbits_twice: "rbits n (rbits n x) = x mod 2 ^ n"
proof (induction n arbitrary: x)
  case (Suc n)
  have "rbits (Suc n) (rbits (Suc n) x) = 2 * rbits n (rbits (Suc n) x) + rbits (Suc n) x div 2 ^ n mod 2"
    by (rule rbits_snoc)
  also have "rbits (Suc n) x div 2 ^ n = x mod 2" using rbits_less[of n "x div 2"] by simp
  also have "rbits n (rbits (Suc n) x) = rbits n (rbits n (x div 2))"
    by (subst rbits_mod[symmetric]) (simp add: rbits_less)
  finally show ?case using Suc[of "x div 2"] unfolding mod_Suc_exp by simp
qed simp

lemma rbits_eq_iff: "c < 2 ^ l \<Longrightarrow> t mod 2 ^ l = rbits l c \<longleftrightarrow> rbits l t = c"
  by (metis mod_less rbits_mod rbits_twice)

lemma rbits_div: "l \<le> n \<Longrightarrow> rbits n t div 2 ^ (n - l) = rbits l t"
  using rbits_add[of l "n - l" t] rbits_less[of "n - l" "t div 2 ^ l"] by simp

lemma rbits_shift: "l \<le> n \<Longrightarrow> c < 2 ^ l \<Longrightarrow> rbits n (c * 2 ^ (n - l)) = rbits l c"
proof -
  assume "l \<le> n" "c < 2 ^ l"
  then have "rbits n (c * 2 ^ (n - l)) = rbits ((n - l) + l) (c * 2 ^ (n - l))" by simp
  also have "\<dots> = rbits (n - l) (c * 2 ^ (n - l)) * 2 ^ l + rbits l c"
    by (subst rbits_add) simp
  also have "rbits (n - l) (c * 2 ^ (n - l)) = rbits (n - l) 0"
    by (subst rbits_mod[symmetric]) simp
  also have "rbits k 0 = 0" for k by (induction k) simp_all
  finally show ?thesis by simp
qed

section \<open>Layout of the codes\<close>

definition MAXBITS :: nat where
  "MAXBITS = 15"

text \<open>The first number of the interval of code \<open>i\<close>, and the code as the stream presents it.\<close>

definition code_pos :: "nat list \<Rightarrow> nat \<Rightarrow> nat" where
  "code_pos ls i = sum_list (map (\<lambda>l. 2 ^ (15 - l)) (take i ls))"

definition hcode :: "nat list \<Rightarrow> nat \<Rightarrow> nat" where
  "hcode ls i = rbits (ls ! i) (code_pos ls i div 2 ^ (15 - ls ! i))"

text \<open>The next bits of the stream, in the low bits of \<open>t\<close>, begin with code \<open>i\<close>.\<close>

definition code_matches :: "nat list \<Rightarrow> nat \<Rightarrow> nat \<Rightarrow> bool" where
  "code_matches ls i t \<longleftrightarrow> t mod 2 ^ (ls ! i) = hcode ls i"

text \<open>A sorted list of code lengths that is not over-subscribed (Kraft's inequality).\<close>

definition code_lens :: "nat list \<Rightarrow> bool" where
  "code_lens ls \<longleftrightarrow> sorted ls \<and> (\<forall>l\<in>set ls. 1 \<le> l \<and> l \<le> 15) \<and> code_pos ls (length ls) \<le> 2 ^ 15"

lemma code_pos_0 [simp]: "code_pos ls 0 = 0"
  by (simp add: code_pos_def)

lemma code_pos_Suc: "i < length ls \<Longrightarrow> code_pos ls (Suc i) = code_pos ls i + 2 ^ (15 - ls ! i)"
  by (simp add: code_pos_def take_Suc_conv_app_nth)

lemma code_pos_add: "code_pos ls (i + k) = code_pos ls i + sum_list (map (\<lambda>l. 2 ^ (15 - l)) (take k (drop i ls)))"
  by (simp add: code_pos_def take_add)

lemma code_pos_mono: "i \<le> j \<Longrightarrow> code_pos ls i \<le> code_pos ls j"
  using code_pos_add[of ls i "j - i"] by simp

lemma code_lens_nth: "code_lens ls \<Longrightarrow> i < length ls \<Longrightarrow> 1 \<le> ls ! i \<and> ls ! i \<le> 15"
  by (simp add: code_lens_def)

lemma code_lens_mono: "code_lens ls \<Longrightarrow> i \<le> j \<Longrightarrow> j < length ls \<Longrightarrow> ls ! i \<le> ls ! j"
  by (simp add: code_lens_def sorted_nth_mono)

lemma code_pos_le: "code_lens ls \<Longrightarrow> i \<le> length ls \<Longrightarrow> code_pos ls i \<le> 2 ^ 15"
  using code_pos_mono[of i "length ls" ls] by (simp add: code_lens_def)

lemma code_pos_strict: "code_lens ls \<Longrightarrow> i < j \<Longrightarrow> j \<le> length ls \<Longrightarrow> code_pos ls i < code_pos ls j"
proof -
  assume "i < j" "j \<le> length ls"
  then have "code_pos ls i < code_pos ls (Suc i)" by (simp add: code_pos_Suc)
  also have "\<dots> \<le> code_pos ls j" using \<open>i < j\<close> by (intro code_pos_mono) simp
  finally show ?thesis .
qed

lemma code_pos_less: "code_lens ls \<Longrightarrow> i < length ls \<Longrightarrow> code_pos ls i < 2 ^ 15"
  using code_pos_strict[of ls i "length ls"] by (simp add: code_lens_def)

lemma code_pos_dvd:
  "code_lens ls \<Longrightarrow> i \<le> length ls \<Longrightarrow> (\<And>j. j < i \<Longrightarrow> ls ! j \<le> l) \<Longrightarrow> 2 ^ (15 - l) dvd code_pos ls i"
proof (induction i)
  case (Suc i)
  have "ls ! i \<le> l" using Suc.prems(3) by blast
  then have "(2::nat) ^ (15 - l) dvd 2 ^ (15 - ls ! i)" by (intro le_imp_power_dvd) simp
  then show ?case using Suc by (simp add: code_pos_Suc)
qed simp

lemma code_pos_dvd_self: "code_lens ls \<Longrightarrow> i < length ls \<Longrightarrow> 2 ^ (15 - ls ! i) dvd code_pos ls i"
  by (rule code_pos_dvd) (simp_all add: code_lens_mono)

lemma exp15_split: "l \<le> 15 \<Longrightarrow> (2::nat) ^ 15 = 2 ^ l * 2 ^ (15 - l)"
  by (simp add: power_add[symmetric])

lemma code_value_less: "code_lens ls \<Longrightarrow> i < length ls \<Longrightarrow> code_pos ls i div 2 ^ (15 - ls ! i) < 2 ^ (ls ! i)"
  using code_pos_less[of ls i] exp15_split[of "ls ! i"] code_lens_nth[of ls i]
  by (simp add: less_mult_imp_div_less)

lemma div_eq_iff_interval: "0 < w \<Longrightarrow> x div w = c \<longleftrightarrow> w * c \<le> x \<and> x < w * c + (w :: nat)"
  by (metis add.commute div_nat_eqI dividend_less_times_div mult.commute mult_Suc times_div_less_eq_dividend)

text \<open>A code matches exactly when the number on the line lies in its interval.\<close>

lemma code_matches_iff:
  assumes "code_lens ls" "i < length ls"
  shows "code_matches ls i t \<longleftrightarrow> code_pos ls i \<le> rbits 15 t \<and> rbits 15 t < code_pos ls (Suc i)"
proof -
  let ?l = "ls ! i" and ?w = "2 ^ (15 - ls ! i) :: nat"
  obtain c where c: "code_pos ls i = ?w * c" using code_pos_dvd_self[OF assms] by blast
  have "code_matches ls i t \<longleftrightarrow> rbits ?l t = c"
    using rbits_eq_iff[OF code_value_less[OF assms]] by (simp add: code_matches_def hcode_def c)
  also have "\<dots> \<longleftrightarrow> rbits 15 t div ?w = c" using rbits_div[of ?l 15 t] code_lens_nth[OF assms] by simp
  also have "\<dots> \<longleftrightarrow> ?w * c \<le> rbits 15 t \<and> rbits 15 t < ?w * c + ?w"
    by (rule div_eq_iff_interval) simp
  finally show ?thesis by (simp add: c code_pos_Suc[OF assms(2)])
qed

lemma code_matches_unique:
  assumes "code_lens ls" "i < length ls" "j < length ls" "code_matches ls i t" "code_matches ls j t"
  shows "i = j"
proof (rule ccontr)
  assume "i \<noteq> j"
  then have "code_pos ls (Suc i) \<le> code_pos ls j \<or> code_pos ls (Suc j) \<le> code_pos ls i"
    by (metis code_pos_mono linorder_neqE_nat Suc_leI)
  then show False using assms by (auto simp: code_matches_iff)
qed

text \<open>A complete code covers every input.\<close>

lemma code_matches_total:
  assumes "code_lens ls" "code_pos ls (length ls) = 2 ^ 15"
  shows "\<exists>i<length ls. code_matches ls i t"
proof -
  let ?x = "rbits 15 t"
  have less: "?x < code_pos ls (length ls)" using rbits_less[of 15 t] assms by simp
  define k where "k = (LEAST k. ?x < code_pos ls k)"
  have k: "?x < code_pos ls k" "k \<le> length ls"
    unfolding k_def using less by (auto intro: LeastI Least_le)
  then obtain i where i: "k = Suc i" by (cases k) auto
  then have "\<not> ?x < code_pos ls i" unfolding k_def using not_less_Least by (metis lessI)
  then show ?thesis using k i assms by (intro exI[of _ i]) (simp add: code_matches_iff)
qed

end
