(* ===== verification/Checked_Memory.thy ===== *)
theory Checked_Memory
  imports Zlib_Prelude "HOL-Library.Monad_Syntax"
begin

text \<open>
  Arrays with checked access, and loops over them, in the option monad.  An access outside an array
  is undefined behaviour in C; here it makes the whole computation \<open>None\<close>, so that a theorem that an
  operation returns \<open>Some\<close> also shows that none of its accesses is out of bounds.
\<close>

section \<open>Access\<close>

definition rd :: "'a list \<Rightarrow> nat \<Rightarrow> 'a option" where
  "rd xs i = (if i < length xs then Some (xs ! i) else None)"

definition wr :: "'a list \<Rightarrow> nat \<Rightarrow> 'a \<Rightarrow> 'a list option" where
  "wr xs i v = (if i < length xs then Some (xs[i := v]) else None)"

lemma rd_Some [simp]: "i < length xs \<Longrightarrow> rd xs i = Some (xs ! i)"
  by (simp add: rd_def)

lemma wr_Some [simp]: "i < length xs \<Longrightarrow> wr xs i v = Some (xs[i := v])"
  by (simp add: wr_def)

lemma rd_eq_Some: "rd xs i = Some v \<longleftrightarrow> i < length xs \<and> v = xs ! i"
  by (auto simp: rd_def)

lemma wr_eq_Some: "wr xs i v = Some ys \<longleftrightarrow> i < length xs \<and> ys = xs[i := v]"
  by (auto simp: wr_def)

text \<open>\<open>zmemcpy(dst + off, src, n)\<close>\<close>

definition memcpy :: "byte list \<Rightarrow> nat \<Rightarrow> byte list \<Rightarrow> nat \<Rightarrow> byte list option" where
  "memcpy dst off src n = (if off + n \<le> length dst \<and> n \<le> length src then Some (take off dst @ take n src @ drop (off + n) dst) else None)"

section \<open>Loops\<close>

text \<open>A \<open>for\<close> loop over the values of its counter, stopping at the first failing step.\<close>

fun foldM :: "('s \<Rightarrow> 'x \<Rightarrow> 's option) \<Rightarrow> 's \<Rightarrow> 'x list \<Rightarrow> 's option" where
  "foldM f s [] = Some s"
| "foldM f s (x # xs) = f s x \<bind> (\<lambda>s. foldM f s xs)"

lemma foldM_append: "foldM f s (xs @ ys) = foldM f s xs \<bind> (\<lambda>s. foldM f s ys)"
  by (induction xs arbitrary: s) (simp_all split: bind_splits)

text \<open>An invariant indexed by the number of steps done shows that the loop succeeds.\<close>

lemma foldM_inv:
  assumes "I 0 s" and "\<And>i s. i < length xs \<Longrightarrow> I i s \<Longrightarrow> \<exists>s'. f s (xs ! i) = Some s' \<and> I (Suc i) s'"
  shows "\<exists>s'. foldM f s xs = Some s' \<and> I (length xs) s'"
  using assms
proof (induction xs arbitrary: s I)
  case (Cons x xs)
  obtain s1 where s1: "f s x = Some s1" "I 1 s1" using Cons.prems(2)[of 0 s] Cons.prems(1) by auto
  have "\<exists>s'. foldM f s1 xs = Some s' \<and> I (Suc (length xs)) s'"
    using Cons.IH[of "\<lambda>i. I (Suc i)" s1] s1(2) Cons.prems(2)[of "Suc _"] by simp
  then show ?case using s1 by simp
qed simp

lemma foldM_upt_inv:
  assumes "I a s" and "a \<le> b" and "\<And>i s. a \<le> i \<Longrightarrow> i < b \<Longrightarrow> I i s \<Longrightarrow> \<exists>s'. f s i = Some s' \<and> I (Suc i) s'"
  shows "\<exists>s'. foldM f s [a..<b] = Some s' \<and> I b s'"
  using foldM_inv[of "\<lambda>k. I (a + k)" s "[a..<b]" f] assms by (auto simp del: upt_Suc)

lemma foldM_set_inv:
  assumes "I s" and "\<And>x s. x \<in> set xs \<Longrightarrow> I s \<Longrightarrow> \<exists>s'. f s x = Some s' \<and> I s'"
  shows "\<exists>s'. foldM f s xs = Some s' \<and> I s'"
  using foldM_inv[of "\<lambda>_. I" s xs f] assms by auto

end
