(* ===== verification/Inftrees.thy ===== *)
theory Inftrees
  imports Canonical Checked_Memory
begin

text \<open>
  The decoding tables of \<open>inftrees.c\<close>: \<open>inflate_table\<close> with its loops in the order of the code, and
  the theorem that looking up the next bits of the stream in the table finds the symbol whose
  canonical code they begin with.

  The memory behind \<open>*table\<close> and the array \<open>work\<close> are lists; a read or write outside of them, or of
  a constant array, makes the result \<open>None\<close>.  The local arrays \<open>count\<close> and \<open>offs\<close> have an element for
  every length up to \<open>MAXBITS\<close> and are only indexed with such lengths: a length above \<open>MAXBITS\<close>, with which
  the code would count beyond the end of \<open>count\<close>, makes the result \<open>None\<close> as well.
\<close>

section \<open>Data\<close>

text \<open>\<open>struct code\<close>, \<open>enum codetype\<close> and the sizes of the dynamic tables.\<close>

record code =
  code_op :: nat
  code_bits :: nat
  code_val :: nat

datatype codetype = CODES | LENS | DISTS

definition ENOUGH_LENS :: nat where
  "ENOUGH_LENS = 852"

definition ENOUGH_DISTS :: nat where
  "ENOUGH_DISTS = 592"

definition ENOUGH :: nat where
  "ENOUGH = ENOUGH_LENS + ENOUGH_DISTS"

definition lbase :: "nat list" where
  "lbase = [3, 4, 5, 6, 7, 8, 9, 10, 11, 13, 15, 17, 19, 23, 27, 31,
     35, 43, 51, 59, 67, 83, 99, 115, 131, 163, 195, 227, 258, 0, 0]"

definition lext :: "nat list" where
  "lext = [16, 16, 16, 16, 16, 16, 16, 16, 17, 17, 17, 17, 18, 18, 18, 18,
     19, 19, 19, 19, 20, 20, 20, 20, 21, 21, 21, 21, 16, 77, 202]"

definition dbase :: "nat list" where
  "dbase = [1, 2, 3, 4, 5, 7, 9, 13, 17, 25, 33, 49, 65, 97, 129, 193,
     257, 385, 513, 769, 1025, 1537, 2049, 3073, 4097, 6145,
     8193, 12289, 16385, 24577, 0, 0]"

definition dext :: "nat list" where
  "dext = [16, 16, 16, 16, 17, 17, 18, 18, 19, 19, 20, 20, 21, 21, 22, 22,
     23, 23, 24, 24, 25, 25, 26, 26, 27, 27,
     28, 28, 29, 29, 64, 64]"

text \<open>The casts to \<open>unsigned char\<close> and \<open>unsigned short\<close>.\<close>

definition uchar :: "nat \<Rightarrow> nat" where
  "uchar x = x mod 256"

definition ushort :: "nat \<Rightarrow> nat" where
  "ushort x = x mod 65536"

section \<open>Counting and sorting the symbols\<close>

definition count_lens :: "nat list \<Rightarrow> nat list" where
  "count_lens lens = foldl (\<lambda>count l. count[l := count ! l + 1]) (replicate (MAXBITS + 1) 0) lens"

text \<open>\<open>for (max = MAXBITS; max >= 1; max--) if (count[max] != 0) break;\<close>\<close>

fun find_max :: "nat list \<Rightarrow> nat \<Rightarrow> nat" where
  "find_max count 0 = 0"
| "find_max count (Suc m) = (if count ! Suc m \<noteq> 0 then Suc m else find_max count m)"

text \<open>\<open>for (min = 1; min < max; min++) if (count[min] != 0) break;\<close>\<close>

function find_min :: "nat list \<Rightarrow> nat \<Rightarrow> nat \<Rightarrow> nat" where
  "find_min count mx mn =
     (if mn < mx then (if count ! mn \<noteq> 0 then mn else find_min count mx (mn + 1)) else mn)"
  by pat_completeness auto
termination by (relation "measure (\<lambda>(count, mx, mn). mx - mn)") auto

declare find_min.simps [simp del]

text \<open>The check for an over-subscribed set of lengths; \<open>None\<close> is \<open>return -1\<close>.\<close>

fun left_loop :: "nat list \<Rightarrow> int \<Rightarrow> int option" where
  "left_loop [] left = Some left"
| "left_loop (c # count) left =
     (let left = 2 * left - int c in if left < 0 then None else left_loop count left)"

definition make_offs :: "nat list \<Rightarrow> nat list" where
  "make_offs count = foldl (\<lambda>offs len. offs[len + 1 := offs ! len + count ! len])
     (replicate (MAXBITS + 1) 0) [1..<MAXBITS]"

text \<open>\<open>if (lens[sym] != 0) work[offs[lens[sym]]++] = sym\<close>\<close>

definition sort_sym :: "nat list \<Rightarrow> nat list \<times> nat list \<Rightarrow> nat \<Rightarrow> (nat list \<times> nat list) option" where
  "sort_sym lens st sy =
     (case st of (offs, work) \<Rightarrow> do {
        l \<leftarrow> rd lens sy;
        if l \<noteq> 0 then do {
          at \<leftarrow> rd offs l;
          work \<leftarrow> wr work at (ushort sy);
          Some (offs[l := at + 1], work) }
        else Some (offs, work) })"

definition sort_syms :: "nat list \<Rightarrow> nat list \<Rightarrow> nat list \<Rightarrow> nat list option" where
  "sort_syms lens offs work = map_option snd (foldM (sort_sym lens) (offs, work) [0..<length lens])"

section \<open>Filling the tables\<close>

text \<open>The table entry for symbol number \<open>sym\<close> of the sorted list.\<close>

definition match_of :: "codetype \<Rightarrow> nat" where
  "match_of type = (case type of CODES \<Rightarrow> 20 | LENS \<Rightarrow> 257 | DISTS \<Rightarrow> 0)"

definition base_of :: "codetype \<Rightarrow> nat list \<Rightarrow> nat list" where
  "base_of type work = (case type of CODES \<Rightarrow> work | LENS \<Rightarrow> lbase | DISTS \<Rightarrow> dbase)"

definition extra_of :: "codetype \<Rightarrow> nat list \<Rightarrow> nat list" where
  "extra_of type work = (case type of CODES \<Rightarrow> work | LENS \<Rightarrow> lext | DISTS \<Rightarrow> dext)"

definition make_entry :: "codetype \<Rightarrow> nat list \<Rightarrow> nat \<Rightarrow> nat \<Rightarrow> code option" where
  "make_entry type work sy bits =
     (if sy \<ge> length work then None
      else let w = work ! sy; match = match_of type
        in if w + 1 < match then Some \<lparr>code_op = 0, code_bits = uchar bits, code_val = w\<rparr>
           else if w \<ge> match then
             (if w - match \<ge> length (extra_of type work) \<or> w - match \<ge> length (base_of type work) then None
              else Some \<lparr>code_op = uchar (extra_of type work ! (w - match)), code_bits = uchar bits,
                         code_val = base_of type work ! (w - match)\<rparr>)
           else Some \<lparr>code_op = 32 + 64, code_bits = uchar bits, code_val = 0\<rparr>)"

text \<open>\<open>do { fill -= incr; next[(huff >> drop) + fill] = here; } while (fill != 0);\<close>\<close>

function fill_loop :: "code \<Rightarrow> nat \<Rightarrow> nat \<Rightarrow> nat \<Rightarrow> code list \<Rightarrow> code list option" where
  "fill_loop here at incr fill tab =
     (if incr = 0 \<or> fill < incr \<or> at + (fill - incr) \<ge> length tab then None
      else
        let fill = fill - incr; tab = tab[at + fill := here]
        in if fill \<noteq> 0 then fill_loop here at incr fill tab else Some tab)"
  by pat_completeness auto
termination by (relation "measure (\<lambda>(here, at, incr, fill, tab). fill)") auto

declare fill_loop.simps [simp del]

text \<open>The backwards increment of the code \<open>huff\<close>.\<close>

function incr_loop :: "nat \<Rightarrow> nat \<Rightarrow> nat" where
  "incr_loop huff incr = (if huff AND incr \<noteq> 0 then incr_loop huff (incr div 2) else incr)"
  by pat_completeness auto
termination
proof (relation "measure snd")
  fix huff incr :: nat
  assume "huff AND incr \<noteq> 0"
  then have "incr \<noteq> 0" by (metis and_zero_eq)
  then show "((huff, incr div 2), huff, incr) \<in> measure snd" by simp
qed simp

declare incr_loop.simps [simp del]

definition back_incr :: "nat \<Rightarrow> nat \<Rightarrow> nat" where
  "back_incr len huff =
     (let incr = incr_loop huff (2 ^ (len - 1))
      in if incr \<noteq> 0 then (huff AND (incr - 1)) + incr else 0)"

text \<open>The number of index bits of a new sub-table.\<close>

function curr_loop :: "nat list \<Rightarrow> nat \<Rightarrow> nat \<Rightarrow> nat \<Rightarrow> int \<Rightarrow> nat" where
  "curr_loop count dr mx cu left =
     (if cu + dr < mx then
        let left = left - int (count ! (cu + dr))
        in if left \<le> 0 then cu else curr_loop count dr mx (cu + 1) (2 * left)
      else cu)"
  by pat_completeness auto
termination by (relation "measure (\<lambda>(count, dr, mx, cu, left). mx - (cu + dr))") auto

declare curr_loop.simps [simp del]

text \<open>The variables of the large loop; \<open>next\<close> is an offset from \<open>*table\<close>.\<close>

record tstate =
  t_huff :: nat
  t_sym :: nat
  t_len :: nat
  t_next :: nat
  t_curr :: nat
  t_drop :: nat
  t_low :: int
  t_used :: nat
  t_count :: "nat list"
  t_tab :: "code list"

definition too_much :: "codetype \<Rightarrow> nat \<Rightarrow> bool" where
  "too_much type used \<longleftrightarrow>
     (type = LENS \<and> used > ENOUGH_LENS) \<or> (type = DISTS \<and> used > ENOUGH_DISTS)"

text \<open>How one pass of the loop ends: an access out of bounds, \<open>return 1\<close>, \<open>break\<close>, or the next pass.\<close>

datatype pass = Trap | Return1 tstate | Break tstate | Continue tstate

definition write_code :: "codetype \<Rightarrow> nat list \<Rightarrow> tstate \<Rightarrow> tstate option" where
  "write_code type work st =
     (case make_entry type work (t_sym st) (t_len st - t_drop st) of None \<Rightarrow> None
      | Some here \<Rightarrow>
        map_option (\<lambda>tab. st\<lparr>t_tab := tab\<rparr>)
          (fill_loop here (t_next st + drop_bit (t_drop st) (t_huff st))
            (2 ^ (t_len st - t_drop st)) (2 ^ t_curr st) (t_tab st)))"

definition new_subtable :: "codetype \<Rightarrow> nat \<Rightarrow> nat \<Rightarrow> tstate \<Rightarrow> pass" where
  "new_subtable type root mx st =
     (let drop = (if t_drop st = 0 then root else t_drop st);
          next = t_next st + 2 ^ t_curr st;
          curr = curr_loop (t_count st) drop mx (t_len st - drop) (2 ^ (t_len st - drop));
          used = t_used st + 2 ^ curr;
          st = st\<lparr>t_drop := drop, t_next := next, t_curr := curr, t_used := used\<rparr>
      in if too_much type used then Return1 st
         else
           let low = t_huff st AND (2 ^ root - 1)
           in if low \<ge> length (t_tab st) then Trap
              else Continue (st\<lparr>t_low := int low,
                     t_tab := (t_tab st)[low := \<lparr>code_op = uchar curr, code_bits = uchar root,
                                                 code_val = ushort next\<rparr>]\<rparr>))"

definition table_pass :: "codetype \<Rightarrow> nat list \<Rightarrow> nat list \<Rightarrow> nat \<Rightarrow> nat \<Rightarrow> tstate \<Rightarrow> pass" where
  "table_pass type lens work root mx st =
     (case write_code type work st of None \<Rightarrow> Trap
      | Some st \<Rightarrow>
        let len = t_len st; c = t_count st ! len - 1;
            st = st\<lparr>t_huff := back_incr len (t_huff st), t_sym := t_sym st + 1,
                    t_count := (t_count st)[len := c]\<rparr>
        in if c = 0 \<and> len = mx then Break st
           else if c = 0 \<and> (t_sym st \<ge> length work \<or> work ! t_sym st \<ge> length lens) then Trap
           else
             let st = (if c = 0 then st\<lparr>t_len := lens ! (work ! t_sym st)\<rparr> else st)
             in if t_len st > root \<and> int (t_huff st AND (2 ^ root - 1)) \<noteq> t_low st
                then new_subtable type root mx st else Continue st)"

lemma write_code_sym: "write_code type work st = Some st' \<Longrightarrow> t_sym st' = t_sym st"
  by (auto simp: write_code_def split: option.splits)

lemma new_subtable_sym: "new_subtable type root mx st = Continue st' \<Longrightarrow> t_sym st' = t_sym st"
  by (auto simp: new_subtable_def Let_def split: if_splits)

lemma table_pass_sym: "table_pass type lens work root mx st = Continue st' \<Longrightarrow> t_sym st' = t_sym st + 1"
  by (auto simp: table_pass_def Let_def write_code_sym dest!: new_subtable_sym
      split: option.splits if_splits)

lemma table_pass_bound:
  "table_pass type lens work root mx st = Continue st' \<Longrightarrow> t_sym st < length work \<and> t_sym st' = t_sym st + 1"
  by (rule conjI[OF _ table_pass_sym]) (auto simp: table_pass_def write_code_def make_entry_def Let_def split: option.splits if_splits)

function table_loop :: "codetype \<Rightarrow> nat list \<Rightarrow> nat list \<Rightarrow> nat \<Rightarrow> nat \<Rightarrow> tstate \<Rightarrow> pass" where
  "table_loop type lens work root mx st =
     (case table_pass type lens work root mx st of
        Continue st' \<Rightarrow> table_loop type lens work root mx st'
      | r \<Rightarrow> r)"
  by pat_completeness auto
termination
  by (relation "measure (\<lambda>(type, lens, work, root, mx, st). length work - t_sym st)")
    (auto dest!: table_pass_bound)

declare table_loop.simps [simp del]

text \<open>
  \<open>inflate_table(type, lens, codes, table, bits, work)\<close> with \<open>lens\<close> the \<open>codes\<close> lengths, \<open>tab\<close> the
  memory behind \<open>*table\<close>.  The result is the value returned, the memory, by how much \<open>*table\<close>
  advanced, and \<open>*bits\<close>.
\<close>

definition inflate_table ::
  "codetype \<Rightarrow> nat list \<Rightarrow> code list \<Rightarrow> nat \<Rightarrow> nat list \<Rightarrow> (int \<times> code list \<times> nat \<times> nat) option" where
  "inflate_table type lens tab bits work =
     (if list_ex (\<lambda>l. MAXBITS < l) lens then None
      else let count = count_lens lens;
          mx = find_max count MAXBITS;
          root = (if bits > mx then mx else bits)
      in if mx = 0 then
           let here = \<lparr>code_op = 64, code_bits = 1, code_val = 0\<rparr>
           in if length tab < 2 then None else Some (0, tab[0 := here, 1 := here], 2, 1)
         else
           let mn = find_min count mx 1;
               root = (if root < mn then mn else root)
           in case left_loop (tl count) 1 of None \<Rightarrow> Some (- 1, tab, 0, bits)
              | Some left \<Rightarrow>
                if left > 0 \<and> (type = CODES \<or> mx \<noteq> 1) then Some (- 1, tab, 0, bits)
                else if too_much type (2 ^ root) then Some (1, tab, 0, bits)
                else case sort_syms lens (make_offs count) work of None \<Rightarrow> None
                | Some work \<Rightarrow>
                  case table_loop type lens work root mx
                       \<lparr>t_huff = 0, t_sym = 0, t_len = mn, t_next = 0, t_curr = root, t_drop = 0,
                        t_low = 2 ^ 32 - 1, t_used = 2 ^ root, t_count = count, t_tab = tab\<rparr> of
                     Trap \<Rightarrow> None
                   | Continue st \<Rightarrow> None
                   | Return1 st \<Rightarrow> Some (1, t_tab st, 0, bits)
                   | Break st \<Rightarrow>
                     if t_huff st \<noteq> 0 then
                       if t_next st + t_huff st \<ge> length (t_tab st) then None
                       else Some (0, (t_tab st)[t_next st + t_huff st :=
                              \<lparr>code_op = 64, code_bits = uchar (t_len st - t_drop st), code_val = 0\<rparr>],
                              t_used st, root)
                     else Some (0, t_tab st, t_used st, root))"


section \<open>The backwards increment\<close>

lemma and_exp_iff: "huff AND 2 ^ k \<noteq> 0 \<longleftrightarrow> odd (huff div 2 ^ k)" for huff :: nat
  by (metis and_exp_eq_0_iff_not_bit bit_iff_odd)

lemma and_mask_nat: "x AND (2 ^ k - 1) = x mod 2 ^ k" for x :: nat
  by (metis mask_eq_exp_minus_1 take_bit_eq_mask take_bit_eq_mod)

lemma incr_loop_0: "incr_loop huff 0 = 0"
  by (simp add: incr_loop.simps)

lemma incr_loop_one: "incr_loop huff 1 = (if odd huff then 0 else 1)"
  by (subst incr_loop.simps) (simp add: and_one_eq odd_iff_mod_2_eq_one incr_loop_0)

lemma incr_loop_Suc:
  "incr_loop huff (2 ^ Suc k) = (if odd (huff div 2 ^ Suc k) then incr_loop huff (2 ^ k) else 2 ^ Suc k)"
  by (subst incr_loop.simps) (simp only: and_exp_iff, simp)

lemma back_incr_step:
  "back_incr (Suc (Suc l)) huff =
     (if odd (huff div 2 ^ Suc l) then back_incr (Suc l) huff else huff mod 2 ^ Suc l + 2 ^ Suc l)"
  unfolding back_incr_def diff_Suc_1 incr_loop_Suc
  using and_mask_nat[of huff "Suc l"] by (simp add: Let_def del: power_Suc)

lemma back_incr_rbits:
  "back_incr (Suc l) huff =
     (if rbits (Suc l) huff + 1 < 2 ^ Suc l then rbits (Suc l) (rbits (Suc l) huff + 1) else 0)"
proof (induction l)
  case 0
  then show ?case using incr_loop_one[of huff] by (simp add: back_incr_def odd_iff_mod_2_eq_one)
next
  case (Suc l)
  let ?c = "rbits (Suc l) huff"
  have c: "rbits (Suc (Suc l)) huff = 2 * ?c + huff div 2 ^ Suc l mod 2" by (rule rbits_snoc)
  have less: "?c < 2 ^ Suc l" by (rule rbits_less)
  show ?case
  proof (cases "odd (huff div 2 ^ Suc l)")
    case True
    then have "huff div 2 ^ Suc l mod 2 = 1" by (simp add: odd_iff_mod_2_eq_one)
    then have "rbits (Suc (Suc l)) huff + 1 = 2 * (?c + 1)" by (simp only: c) simp
    moreover have "rbits (Suc (Suc l)) (2 * (?c + 1)) = rbits (Suc l) (?c + 1)" by simp
    ultimately show ?thesis using True Suc unfolding back_incr_step
      by (metis mult_less_cancel1 power_Suc zero_less_numeral)
  next
    case False
    then have "huff div 2 ^ Suc l mod 2 = 0" by presburger
    then have "rbits (Suc (Suc l)) huff + 1 = Suc (2 * ?c)" by (simp only: c)
    moreover have "rbits (Suc (Suc l)) (Suc (2 * ?c)) = 2 ^ Suc l + rbits (Suc l) ?c"
      by (subst rbits.simps) (simp del: rbits.simps)
    moreover have "Suc (2 * ?c) < 2 ^ Suc (Suc l)" using less by simp
    ultimately show ?thesis
      using False rbits_twice[of "Suc l" huff] unfolding back_incr_step by (simp del: rbits.simps power_Suc)
  qed
qed

text \<open>So the increment steps from one canonical code to the next, even across a change of length.\<close>

lemma back_incr_hcode:
  assumes "code_lens ls" "Suc i < length ls"
  shows "back_incr (ls ! i) (hcode ls i) = hcode ls (Suc i)"
proof -
  let ?l = "ls ! i" and ?l' = "ls ! Suc i" and ?w = "2 ^ (15 - ls ! i) :: nat"
  have i: "i < length ls" using assms by simp
  have l: "1 \<le> ?l" "?l \<le> ?l'" "?l' \<le> 15"
    using code_lens_nth[OF assms(1)] code_lens_mono[OF assms(1), of i "Suc i"] assms(2) i by auto
  obtain c where c: "code_pos ls i = ?w * c" using code_pos_dvd_self[OF assms(1) i] by blast
  have step: "code_pos ls (Suc i) = ?w * (c + 1)" using c by (simp add: code_pos_Suc[OF i])
  moreover have "code_pos ls (Suc i) < 2 ^ 15" using code_pos_less[OF assms(1,2)] .
  ultimately have less: "c + 1 < 2 ^ ?l"
    using exp15_split[of ?l] l by (metis le_trans mult.commute mult_less_cancel2)
  then have "hcode ls i = rbits ?l c" using c by (simp add: hcode_def)
  then have "rbits ?l (hcode ls i) = c" using less by (simp add: rbits_twice)
  then have "back_incr ?l (hcode ls i) = rbits ?l (c + 1)"
    using back_incr_rbits[of "?l - 1" "hcode ls i"] less l by simp
  moreover have "code_pos ls (Suc i) div 2 ^ (15 - ?l') = (c + 1) * 2 ^ (?l' - ?l)"
  proof -
    have "?w = 2 ^ (?l' - ?l) * 2 ^ (15 - ?l')" using l by (simp add: power_add[symmetric])
    then show ?thesis by (simp add: step)
  qed
  ultimately show ?thesis using rbits_shift[OF l(2) less] by (simp add: hcode_def)
qed


section \<open>What the filling loop writes\<close>

lemma fill_loop_multiples:
  assumes "0 < incr" "at + k * incr < length tab"
  shows "\<exists>tab'. fill_loop here at incr (Suc k * incr) tab = Some tab' \<and> length tab' = length tab
    \<and> (\<forall>x. tab' ! x = (if \<exists>m\<le>k. x = at + m * incr then here else tab ! x))"
  using assms
proof (induction k arbitrary: tab)
  case 0
  then show ?case by (subst fill_loop.simps) (simp add: nth_list_update)
next
  case (Suc k)
  let ?tab = "tab[at + Suc k * incr := here]"
  have "at + k * incr < length ?tab" using Suc.prems by simp
  then obtain tab' where t: "fill_loop here at incr (Suc k * incr) ?tab = Some tab'"
    "length tab' = length tab" "\<And>x. tab' ! x = (if \<exists>m\<le>k. x = at + m * incr then here else ?tab ! x)"
    using Suc.IH[of ?tab] Suc.prems by auto
  have "fill_loop here at incr (Suc (Suc k) * incr) tab = fill_loop here at incr (Suc k * incr) ?tab"
    using Suc.prems by (subst fill_loop.simps) (simp add: Let_def)
  moreover have "tab' ! x = (if \<exists>m\<le>Suc k. x = at + m * incr then here else tab ! x)" for x
    using t(3)[of x] Suc.prems(2) by (auto simp: nth_list_update le_Suc_eq)
  ultimately show ?case using t(1,2) by (intro exI[of _ tab'] conjI allI) simp_all
qed

text \<open>It fills the entries of the table at \<open>next\<close> whose low \<open>a\<close> index bits are \<open>h\<close>.\<close>

lemma fill_loop_spec:
  assumes "a \<le> c" "h < 2 ^ a" "nx + 2 ^ c \<le> length tab"
  obtains tab' where "fill_loop here (nx + h) (2 ^ a) (2 ^ c) tab = Some tab'" "length tab' = length tab"
    "\<And>y. y < 2 ^ c \<Longrightarrow> y mod 2 ^ a = h \<Longrightarrow> tab' ! (nx + y) = here"
    "\<And>x. (\<And>y. y < 2 ^ c \<Longrightarrow> x = nx + y \<Longrightarrow> y mod 2 ^ a \<noteq> h) \<Longrightarrow> tab' ! x = tab ! x"
proof -
  obtain k where k0: "(2::nat) ^ (c - a) = Suc k" by (metis gr0_conv_Suc zero_less_numeral zero_less_power)
  have c: "(2::nat) ^ c = 2 ^ (c - a) * 2 ^ a" using assms(1) by (simp add: power_add[symmetric])
  then have k: "(2::nat) ^ c = Suc k * 2 ^ a" by (simp add: k0)
  then have "nx + h + k * 2 ^ a < length tab" using assms by simp
  then obtain tab' where t: "fill_loop here (nx + h) (2 ^ a) (2 ^ c) tab = Some tab'" "length tab' = length tab"
    "\<And>x. tab' ! x = (if \<exists>m\<le>k. x = nx + h + m * 2 ^ a then here else tab ! x)"
    unfolding k using fill_loop_multiples[of "2 ^ a" "nx + h" k tab here] by auto
  have hit: "tab' ! (nx + y) = here" if "y < 2 ^ c" "y mod 2 ^ a = h" for y
  proof -
    have "y = y div 2 ^ a * 2 ^ a + h" using that(2) by (metis div_mult_mod_eq)
    moreover have "y div 2 ^ a < 2 ^ (c - a)" using that(1) unfolding c by (rule less_mult_imp_div_less)
    ultimately have "\<exists>m\<le>k. nx + y = nx + h + m * 2 ^ a"
      by (intro exI[of _ "y div 2 ^ a"]) (simp add: k0)
    then show ?thesis using t(3) by simp
  qed
  have miss: "tab' ! x = tab ! x" if "\<And>y. y < 2 ^ c \<Longrightarrow> x = nx + y \<Longrightarrow> y mod 2 ^ a \<noteq> h" for x
  proof -
    have "x \<noteq> nx + h + m * 2 ^ a" if "m \<le> k" for m
    proof
      assume x: "x = nx + h + m * 2 ^ a"
      have "m * 2 ^ a \<le> k * 2 ^ a" using that by simp
      then have "h + m * 2 ^ a < 2 ^ c" using assms(2) unfolding k by (simp add: add_less_le_mono)
      then show False using \<open>\<And>y. y < 2 ^ c \<Longrightarrow> x = nx + y \<Longrightarrow> y mod 2 ^ a \<noteq> h\<close>[of "h + m * 2 ^ a"] x assms(2)
        by simp
    qed
    then show ?thesis using t(3)[of x] by auto
  qed
  show ?thesis using that t(1,2) hit miss by blast
qed

section \<open>Code prefixes\<close>

lemma rbits_mod_prefix: "r \<le> l \<Longrightarrow> rbits l c mod 2 ^ r = rbits r (c div 2 ^ (l - r))"
  using rbits_add[of "l - r" r c] rbits_less[of r "c div 2 ^ (l - r)"] by simp

text \<open>The first \<open>r\<close> bits of a longer code: the block of \<open>2 ^ (15 - r)\<close> numbers it lies in.\<close>

lemma hcode_prefix:
  assumes "code_lens ls" "j < length ls" "r \<le> ls ! j"
  shows "hcode ls j mod 2 ^ r = rbits r (code_pos ls j div 2 ^ (15 - r))"
proof -
  have l: "ls ! j \<le> 15" using code_lens_nth[OF assms(1,2)] by simp
  have "(2::nat) ^ (15 - r) = 2 ^ (15 - ls ! j) * 2 ^ (ls ! j - r)"
    using l assms(3) by (simp add: power_add[symmetric])
  then show ?thesis
    using rbits_mod_prefix[OF assms(3)] by (simp add: hcode_def div_mult2_eq)
qed

lemma block_less: "code_lens ls \<Longrightarrow> j < length ls \<Longrightarrow> r \<le> 15 \<Longrightarrow> code_pos ls j div 2 ^ (15 - r) < 2 ^ r"
  using code_pos_less[of ls j] exp15_split[of r] by (simp add: less_mult_imp_div_less)

lemma same_prefix_iff:
  assumes "code_lens ls" "i < length ls" "j < length ls" "r \<le> ls ! i" "r \<le> ls ! j"
  shows "hcode ls i mod 2 ^ r = hcode ls j mod 2 ^ r \<longleftrightarrow>
    code_pos ls i div 2 ^ (15 - r) = code_pos ls j div 2 ^ (15 - r)"
proof -
  have "r \<le> 15" using code_lens_nth[OF assms(1,2)] assms(4) by simp
  then have "code_pos ls i div 2 ^ (15 - r) < 2 ^ r" "code_pos ls j div 2 ^ (15 - r) < 2 ^ r"
    using block_less[OF assms(1)] assms(2,3) by blast+
  moreover have "rbits r x = rbits r y \<longleftrightarrow> x = y" if "x < 2 ^ r" "y < 2 ^ r" for x y
    using that by (metis mod_less rbits_twice)
  ultimately show ?thesis using hcode_prefix[OF assms(1)] assms(2-) by simp
qed

text \<open>Codes with the same prefix are neighbours.\<close>

lemma same_prefix_between:
  assumes "code_lens ls" "i \<le> j" "j \<le> k" "k < length ls" "r \<le> ls ! i"
    and "hcode ls i mod 2 ^ r = hcode ls k mod 2 ^ r"
  shows "hcode ls j mod 2 ^ r = hcode ls k mod 2 ^ r"
proof -
  have r: "r \<le> ls ! j" "r \<le> ls ! k"
    using code_lens_mono[OF assms(1), of i] assms(2-5) by (metis le_trans order_trans le_less_trans)+
  have "code_pos ls i div 2 ^ (15 - r) \<le> code_pos ls j div 2 ^ (15 - r)"
    "code_pos ls j div 2 ^ (15 - r) \<le> code_pos ls k div 2 ^ (15 - r)"
    using code_pos_mono assms(2,3) div_le_mono by blast+
  then show ?thesis
    using same_prefix_iff[OF assms(1), of i k r] same_prefix_iff[OF assms(1), of j k r] assms r by auto
qed

lemma hcode_less: "hcode ls i < 2 ^ (ls ! i)"
  by (simp add: hcode_def rbits_less)

lemma hcode_matches: "code_matches ls i (hcode ls i)"
  by (simp add: code_matches_def hcode_less)


section \<open>Counting and sorting\<close>

text \<open>The symbols with a code, by length and within a length in symbol order.\<close>

definition syms_of_len :: "nat list \<Rightarrow> nat \<Rightarrow> nat list" where
  "syms_of_len lens l = filter (\<lambda>s. lens ! s = l) [0..<length lens]"

definition sorted_syms :: "nat list \<Rightarrow> nat list" where
  "sorted_syms lens = concat (map (syms_of_len lens) [1..<16])"

text \<open>The Kraft sum of the lengths, as a multiple of \<open>2 ^ -15\<close>.\<close>

definition kraft :: "nat list \<Rightarrow> nat" where
  "kraft lens = sum_list (map (\<lambda>l. 2 ^ (15 - l)) (filter (\<lambda>l. l \<noteq> 0) lens))"

lemma length_syms_of_len: "length (syms_of_len lens l) = count_list lens l"
proof -
  have "filter ((=) l) lens = map ((!) lens) (syms_of_len lens l)"
  proof -
    have "(\<lambda>s. lens ! s = l) = (=) l \<circ> (!) lens" by auto
    then show ?thesis unfolding syms_of_len_def by (metis filter_map map_nth)
  qed
  then have "length (filter ((=) l) lens) = length (syms_of_len lens l)" by simp
  then show ?thesis by (simp add: count_list_eq_length_filter)
qed

lemma count_lens_nth:
  "\<forall>l\<in>set lens. l \<le> 15 \<Longrightarrow> length (count_lens lens) = 16
    \<and> (\<forall>l\<le>15. count_lens lens ! l = count_list lens l)"
  by (induction lens rule: rev_induct)
    (auto simp: count_lens_def MAXBITS_def nth_list_update)

lemma find_max_spec: "(\<forall>l. find_max count m < l \<and> l \<le> m \<longrightarrow> count ! l = 0)
    \<and> find_max count m \<le> m \<and> (find_max count m \<noteq> 0 \<longrightarrow> count ! find_max count m \<noteq> 0)"
  by (induction m) (auto simp: le_Suc_eq)

lemma find_min_spec:
  "mn \<le> mx \<Longrightarrow> (\<forall>l. mn \<le> l \<and> l < find_min count mx mn \<longrightarrow> count ! l = 0)
    \<and> mn \<le> find_min count mx mn \<and> find_min count mx mn \<le> mx
    \<and> (count ! mx \<noteq> 0 \<longrightarrow> count ! find_min count mx mn \<noteq> 0)"
proof (induction count mx mn rule: find_min.induct)
  case (1 count mx mn)
  show ?case
  proof (cases "mn < mx \<and> count ! mn = 0")
    case True
    have e: "find_min count mx mn = find_min count mx (mn + 1)"
      by (subst find_min.simps) (simp add: True)
    have "count ! l = 0" if "mn \<le> l" "l < find_min count mx (mn + 1)" for l
      using 1 True that by (cases "l = mn") auto
    then show ?thesis unfolding e using 1 True by auto
  next
    case False
    then have "find_min count mx mn = mn" by (subst find_min.simps) simp
    then show ?thesis using 1(2) False by auto
  qed
qed

text \<open>The check for over-subscription computes what the Kraft sum leaves free.\<close>

fun weight :: "nat list \<Rightarrow> nat" where
  "weight [] = 0"
| "weight (c # cs) = c * 2 ^ length cs + weight cs"

lemma left_loop_spec:
  "0 \<le> left \<Longrightarrow> left_loop cs left =
     (if int (weight cs) \<le> left * 2 ^ length cs then Some (left * 2 ^ length cs - int (weight cs)) else None)"
proof (induction cs arbitrary: left)
  case (Cons c cs)
  show ?case
  proof (cases "2 * left - int c < 0")
    case True
    then have "2 * left * 2 ^ length cs < int c * 2 ^ length cs" by simp
    moreover have "int (weight (c # cs)) = int c * 2 ^ length cs + int (weight cs)"
      "left * 2 ^ length (c # cs) = 2 * left * 2 ^ length cs" by simp_all
    ultimately have "\<not> int (weight (c # cs)) \<le> left * 2 ^ length (c # cs)" by linarith
    then show ?thesis using True by (simp add: Let_def)
  next
    case False
    then show ?thesis using Cons.IH[of "2 * left - int c"] by (simp add: Let_def algebra_simps)
  qed
qed simp

lemma weight_map: "weight (map f [a..<a + n]) = (\<Sum>i<n. f (a + i) * 2 ^ (n - 1 - i))"
proof (induction n arbitrary: a)
  case (Suc n)
  have u: "[a..<a + Suc n] = a # [Suc a..<Suc a + n]" by (simp add: upt_conv_Cons)
  show ?case unfolding u using Suc[of "Suc a"]
    by (subst sum.lessThan_Suc_shift) (simp del: upt_Suc sum.lessThan_Suc)
qed simp

lemma kraft_count: "\<forall>l\<in>set lens. l \<le> 15 \<Longrightarrow> kraft lens = (\<Sum>l\<in>{1..15}. count_list lens l * 2 ^ (15 - l))"
proof (induction lens)
  case (Cons x lens)
  have "(\<Sum>l\<in>{1..15}. count_list (x # lens) l * 2 ^ (15 - l)) =
    (\<Sum>l\<in>{1..15}. count_list lens l * 2 ^ (15 - l) + (if l = x then 2 ^ (15 - l) else 0))"
    by (rule sum.cong) auto
  also have "\<dots> = (\<Sum>l\<in>{1..15}. count_list lens l * 2 ^ (15 - l)) + (if x = 0 then 0 else 2 ^ (15 - x))"
    using Cons.prems by (simp add: sum.distrib sum.delta)
  finally show ?case using Cons by (simp add: kraft_def)
qed (simp add: kraft_def)

lemma left_loop_kraft:
  assumes "\<forall>l\<in>set lens. l \<le> 15"
  shows "left_loop (tl (count_lens lens)) 1 =
    (if kraft lens \<le> 2 ^ 15 then Some (2 ^ 15 - int (kraft lens)) else None)"
proof -
  note c = count_lens_nth[OF assms]
  have tl: "tl (count_lens lens) = map (count_list lens) [1..<1 + 15]"
    using c by (intro nth_equalityI) (simp_all add: nth_tl)
  have "weight (tl (count_lens lens)) = (\<Sum>i<15. count_list lens (1 + i) * 2 ^ (15 - (1 + i)))"
    unfolding tl weight_map by simp
  also have "\<dots> = (\<Sum>l\<in>{1..15}. count_list lens l * 2 ^ (15 - l))"
    by (rule sum.reindex_bij_witness[of _ "\<lambda>l. l - 1" "\<lambda>i. 1 + i"]) auto
  also have "\<dots> = kraft lens" using kraft_count[OF assms] by simp
  finally have "weight (tl (count_lens lens)) = kraft lens" .
  moreover have "length (tl (count_lens lens)) = 15" using c by simp
  ultimately show ?thesis using left_loop_spec[of 1 "tl (count_lens lens)"] by simp
qed


text \<open>The index of the first symbol of length \<open>l\<close> in the sorted list.\<close>

definition start_of :: "nat list \<Rightarrow> nat \<Rightarrow> nat" where
  "start_of lens l = (\<Sum>k\<in>{1..<l}. count_list lens k)"

lemma start_of_Suc: "1 \<le> l \<Longrightarrow> start_of lens (Suc l) = start_of lens l + count_list lens l"
  by (simp add: start_of_def sum.atLeastLessThan_Suc)

lemma length_blocks: "length (concat (map (syms_of_len lens) [1..<l])) = start_of lens l"
proof (induction l)
  case (Suc l)
  then show ?case
    by (cases "1 \<le> l") (simp_all add: start_of_Suc length_syms_of_len, simp add: start_of_def)
qed (simp add: start_of_def)

lemma start_of_mono: "l \<le> m \<Longrightarrow> start_of lens l \<le> start_of lens m"
  unfolding start_of_def by (rule sum_mono2) auto

lemma make_offs_spec:
  assumes "\<forall>l\<in>set lens. l \<le> 15"
  shows "length (make_offs (count_lens lens)) = 16
    \<and> (\<forall>l. 1 \<le> l \<and> l \<le> 15 \<longrightarrow> make_offs (count_lens lens) ! l = start_of lens l)"
proof -
  let ?f = "\<lambda>offs len. offs[len + 1 := offs ! len + count_lens lens ! len]"
  let ?o = "\<lambda>m. foldl ?f (replicate 16 0) [1..<m]"
  have "length (?o m) = 16 \<and> (\<forall>l. 1 \<le> l \<and> l \<le> m \<longrightarrow> ?o m ! l = start_of lens l)" if "1 \<le> m" "m \<le> 15" for m
    using that
  proof (induction m rule: nat_induct_at_least)
    case base
    then show ?case by (auto simp: start_of_def le_Suc_eq)
  next
    case (Suc m)
    then show ?case
      using count_lens_nth[OF assms]
      by (auto simp: nth_list_update start_of_Suc le_Suc_eq)
  qed
  from this[of 15] show ?thesis by (simp add: make_offs_def MAXBITS_def del: upt_Suc)
qed

lemma block_nth:
  assumes "1 \<le> l" "l \<le> 15" "k < count_list lens l"
  shows "start_of lens l + k < length (sorted_syms lens)
    \<and> sorted_syms lens ! (start_of lens l + k) = syms_of_len lens l ! k"
proof -
  have u: "[1..<16] = [1..<l] @ l # [Suc l..<16]"
    using assms by (intro upt_split) simp_all
  show ?thesis
    unfolding sorted_syms_def u using length_blocks[of lens l] assms
    by (simp add: nth_append length_syms_of_len del: upt_Suc)
qed

lemma block_cases:
  assumes "p < length (sorted_syms lens)"
  obtains l k where "1 \<le> l" "l \<le> 15" "k < count_list lens l" "p = start_of lens l + k"
proof -
  have "\<exists>l k. 1 \<le> l \<and> l < m \<and> k < count_list lens l \<and> p = start_of lens l + k"
    if "p < start_of lens m" for m
    using that
  proof (induction m)
    case (Suc m)
    show ?case
    proof (cases "p < start_of lens m")
      case False
      then have "1 \<le> m" using Suc.prems by (cases m) (auto simp: start_of_def)
      then show ?thesis using Suc.prems False
        by (intro exI[of _ m] exI[of _ "p - start_of lens m"]) (auto simp: start_of_Suc)
    qed (use Suc less_Suc_eq in blast)
  qed (simp add: start_of_def)
  moreover have "p < start_of lens 16" using assms by (simp only: sorted_syms_def length_blocks)
  ultimately show ?thesis using that by fastforce
qed

lemma length_sorted_syms: "length (sorted_syms lens) = start_of lens 16"
  unfolding sorted_syms_def by (rule length_blocks)

text \<open>What \<open>offs\<close> and \<open>work\<close> hold when the first \<open>s\<close> symbols have been entered.\<close>

definition sort_inv :: "nat list \<Rightarrow> nat \<Rightarrow> nat list \<times> nat list \<Rightarrow> bool" where
  "sort_inv lens s st \<longleftrightarrow> (case st of (offs, work) \<Rightarrow> length offs = 16 \<and> length work \<ge> length (sorted_syms lens)
     \<and> (\<forall>l. 1 \<le> l \<and> l \<le> 15 \<longrightarrow>
          offs ! l = start_of lens l + length (filter (\<lambda>x. lens ! x = l) [0..<s])
        \<and> (\<forall>k<length (filter (\<lambda>x. lens ! x = l) [0..<s]).
             work ! (start_of lens l + k) = filter (\<lambda>x. lens ! x = l) [0..<s] ! k)))"

lemma filter_prefix_len: "s < length (lens :: nat list) \<Longrightarrow> lens ! s = l \<Longrightarrow>
    length (filter (\<lambda>x. lens ! x = l) [0..<s]) < count_list lens l"
proof -
  assume s: "s < length lens" "lens ! s = l"
  then have u: "[0..<length lens] = [0..<s] @ s # [Suc s..<length lens]"
    by (intro upt_split) simp_all
  have "count_list lens l = length (filter (\<lambda>x. lens ! x = l) ([0..<s] @ s # [Suc s..<length lens]))"
    by (simp only: length_syms_of_len[symmetric] syms_of_len_def u)
  then show ?thesis using s by simp
qed

lemma blocks_disjoint:
  assumes "1 \<le> l" "1 \<le> m" "k < count_list lens l" "j < count_list lens m"
    "start_of lens l + k = start_of lens m + j"
  shows "l = m"
proof (rule ccontr)
  have "start_of lens l + count_list lens l \<le> start_of lens m" if "l < m" "1 \<le> l" for l m
    using start_of_mono[of "Suc l" m lens] start_of_Suc that by simp
  moreover assume "l \<noteq> m"
  ultimately show False using assms by (metis add_less_cancel_left leD le_add1 less_le_trans nat_neq_iff)
qed


lemma sort_sym_inv:
  assumes inv: "sort_inv lens s st" and s: "s < length lens" "length lens \<le> 65536" and le: "\<forall>l\<in>set lens. l \<le> 15"
  shows "\<exists>st'. sort_sym lens st s = Some st' \<and> sort_inv lens (Suc s) st'"
proof -
  obtain offs work where st: "st = (offs, work)" by fastforce
  let ?l = "lens ! s" and ?f = "\<lambda>l s. filter (\<lambda>x. lens ! x = l) [0..<s]"
  have f: "?f l (Suc s) = (if l = ?l then ?f l s @ [s] else ?f l s)" for l by simp
  have l15: "?l \<le> 15" using le s by simp
  show ?thesis
  proof (cases "?l = 0")
    case True
    then show ?thesis using inv s by (simp add: sort_inv_def sort_sym_def st)
  next
    case False
    let ?p = "start_of lens ?l + length (?f ?l s)"
    have o: "offs ! l = start_of lens l + length (?f l s)" if "1 \<le> l" "l \<le> 15" for l
      using inv that by (simp add: sort_inv_def st)
    have w: "work ! (start_of lens l + k) = ?f l s ! k" if "1 \<le> l" "l \<le> 15" "k < length (?f l s)" for l k
      using inv that by (simp add: sort_inv_def st)
    have lenf: "length (?f l s) \<le> count_list lens l" for l
      using s unfolding length_syms_of_len[symmetric] syms_of_len_def
      by (subst (2) upt_split[of 0 s]) simp_all
    have cnt: "length (?f ?l s) < count_list lens ?l" by (rule filter_prefix_len) (use s in simp_all)
    have p: "?p < length work"
      using block_nth[of ?l "length (?f ?l s)" lens] cnt False l15 inv by (simp add: sort_inv_def st)
    have other: "start_of lens l + k \<noteq> ?p" if "1 \<le> l" "l \<noteq> ?l \<and> k < length (?f l s) \<or> l = ?l \<and> k < length (?f l s)" for l k
      using blocks_disjoint[of l ?l k lens "length (?f ?l s)"] that lenf[of l] cnt False by auto
    have "length offs = 16" using inv by (simp add: sort_inv_def st)
    then have "sort_sym lens st s = Some (offs[?l := ?p + 1], work[?p := s])"
      using False o[of ?l] l15 s p by (simp add: sort_sym_def st ushort_def)
    moreover have "work[?p := s] ! (start_of lens l + k) = ?f l (Suc s) ! k"
      if "1 \<le> l" "l \<le> 15" "k < length (?f l (Suc s))" for l k
      using that p w[of l k] other[of l k] unfolding f
      by (auto simp: nth_append nth_list_update less_Suc_eq split: if_splits)
    ultimately show ?thesis
      using inv o False l15 by (auto simp: sort_inv_def st f nth_list_update)
  qed
qed

text \<open>The counting sort leaves the sorted symbols at the front of \<open>work\<close>.\<close>

lemma sort_syms_spec:
  assumes le: "\<forall>l\<in>set lens. l \<le> 15" and n: "length lens \<le> 65536" and w: "length lens \<le> length work"
  shows "\<exists>wk. sort_syms lens (make_offs (count_lens lens)) work = Some wk \<and> length wk = length work
    \<and> length (sorted_syms lens) \<le> length work \<and> take (length (sorted_syms lens)) wk = sorted_syms lens"
proof -
  have "length (sorted_syms lens) = (\<Sum>k\<in>{1..<16}. count_list lens k)"
    by (simp add: length_sorted_syms start_of_def)
  also have "\<dots> \<le> length lens"
  proof -
    have "(\<Sum>k\<in>{1..<16}. count_list lens k) \<le> (\<Sum>k\<in>{..15}. count_list lens k)" by (rule sum_mono2) auto
    also have "\<dots> = length lens"
      using sum_count_set[of lens "{..15}"] le by auto
    finally show ?thesis .
  qed
  finally have len: "length (sorted_syms lens) \<le> length work" using w by simp
  have keep: "sort_sym lens st x = Some st' \<Longrightarrow> length (snd st') = length (snd st)" for st st' x
    by (auto simp: sort_sym_def wr_eq_Some split: prod.splits bind_splits if_splits)
  let ?I = "\<lambda>s st. sort_inv lens s st \<and> length (snd st) = length work"
  have "\<exists>st. foldM (sort_sym lens) (make_offs (count_lens lens), work) [0..<length lens] = Some st \<and> ?I (length lens) st"
  proof (rule foldM_upt_inv[where I = ?I])
    show "?I 0 (make_offs (count_lens lens), work)" using make_offs_spec[OF le] len by (simp add: sort_inv_def)
    fix s st assume "s < length lens" "?I s st"
    then show "\<exists>st'. sort_sym lens st s = Some st' \<and> ?I (Suc s) st'"
      using sort_sym_inv[of lens s st] n le keep[of st s] by fastforce
  qed simp
  then obtain st where st: "foldM (sort_sym lens) (make_offs (count_lens lens), work) [0..<length lens] = Some st"
    and inv: "sort_inv lens (length lens) st" "length (snd st) = length work" by blast
  have "snd st ! p = sorted_syms lens ! p" if p: "p < length (sorted_syms lens)" for p
  proof -
    obtain l k where lk: "1 \<le> l" "l \<le> 15" "k < count_list lens l" "p = start_of lens l + k"
      using block_cases[OF p] .
    then have "snd st ! p = syms_of_len lens l ! k"
      using inv(1) by (auto simp: sort_inv_def syms_of_len_def[symmetric] length_syms_of_len split: prod.splits)
    then show ?thesis using block_nth[OF lk(1-3)] lk(4) by simp
  qed
  then have "take (length (sorted_syms lens)) (snd st) = sorted_syms lens" using len inv(2) by (auto intro!: nth_equalityI)
  then show ?thesis using st len inv(2) by (simp add: sort_syms_def)
qed


section \<open>The lengths in sorted order\<close>

definition sorted_lens :: "nat list \<Rightarrow> nat list" where
  "sorted_lens lens = map ((!) lens) (sorted_syms lens)"

lemma map_block: "map ((!) lens) (syms_of_len lens l) = replicate (count_list lens l) l"
  unfolding length_syms_of_len[symmetric]
  by (rule replicate_eqI[symmetric, THEN sym]) (auto simp: syms_of_len_def)

lemma sorted_lens_blocks: "sorted_lens lens = concat (map (\<lambda>l. replicate (count_list lens l) l) [1..<16])"
  unfolding sorted_lens_def sorted_syms_def map_concat by (simp add: map_block comp_def del: upt_Suc)

lemma sorted_blocks: "sorted (concat (map (\<lambda>l. replicate (f l) l) [a..<b]))"
  by (induction b) (auto simp: sorted_append)

lemma sorted_lens_sorted: "sorted (sorted_lens lens)"
  unfolding sorted_lens_blocks by (rule sorted_blocks)

lemma sorted_lens_range: "l \<in> set (sorted_lens lens) \<Longrightarrow> 1 \<le> l \<and> l \<le> 15"
  by (auto simp: sorted_lens_blocks)

lemma length_sorted_lens [simp]: "length (sorted_lens lens) = length (sorted_syms lens)"
  by (simp add: sorted_lens_def)

lemma count_blocks: "count_list (concat (map (\<lambda>l. replicate (f l) l) [a..<b])) x = (if a \<le> x \<and> x < b then f x else 0)"
proof (induction b)
  case (Suc b)
  have "count_list (replicate n y) x = (if x = y then n else 0)" for n y
    by (induction n) auto
  then show ?case using Suc by (auto simp: less_Suc_eq)
qed simp

lemma sorted_lens_count: "1 \<le> l \<Longrightarrow> l \<le> 15 \<Longrightarrow> count_list (sorted_lens lens) l = count_list lens l"
  unfolding sorted_lens_blocks count_blocks by simp

lemma sum_blocks: "sum_list (map g (concat (map (\<lambda>l. replicate (f l) l) [a..<b]))) = (\<Sum>l\<in>{a..<b}. f l * g l :: nat)"
proof (induction b)
  case (Suc b)
  then show ?case by (cases "a \<le> b") (simp_all add: sum_list_replicate)
qed simp

lemma sorted_lens_kraft:
  assumes "\<forall>l\<in>set lens. l \<le> 15"
  shows "code_pos (sorted_lens lens) (length (sorted_syms lens)) = kraft lens"
proof -
  have r: "{1..<16} = {1..15::nat}" by auto
  have "sum_list (map (\<lambda>l. 2 ^ (15 - l)) (sorted_lens lens)) = (\<Sum>l\<in>{1..<16}. count_list lens l * 2 ^ (15 - l))"
    unfolding sorted_lens_blocks by (rule sum_blocks)
  then show ?thesis unfolding r by (simp add: code_pos_def kraft_count[OF assms])
qed

lemma sorted_lens_code_lens:
  assumes "\<forall>l\<in>set lens. l \<le> 15" "kraft lens \<le> 2 ^ 15"
  shows "code_lens (sorted_lens lens)"
  using sorted_lens_sorted sorted_lens_range sorted_lens_kraft[OF assms(1)] assms(2)
  by (simp add: code_lens_def)

text \<open>How far the codes of at most \<open>m\<close> bits among the remaining lengths reach.\<close>

definition weight_upto :: "nat list \<Rightarrow> nat \<Rightarrow> nat" where
  "weight_upto L m = sum_list (map (\<lambda>l. 2 ^ (15 - l)) (filter (\<lambda>l. l \<le> m) L))"

lemma weight_upto_Suc: "weight_upto L (Suc m) = weight_upto L m + count_list L (Suc m) * 2 ^ (15 - Suc m)"
  unfolding weight_upto_def by (induction L) auto

lemma weight_upto_0: "(\<And>l. l \<in> set L \<Longrightarrow> m < l) \<Longrightarrow> weight_upto L m = 0"
  unfolding weight_upto_def by (induction L) force+

lemma weight_upto_pos:
  assumes "code_lens ls" "i \<le> j" "j < length ls" "m < ls ! j"
  shows "code_pos ls i + weight_upto (drop i ls) m \<le> code_pos ls j"
proof -
  have "drop i ls = take (j - i) (drop i ls) @ drop j ls"
    using assms(2) by (metis append_take_drop_id drop_drop le_add_diff_inverse2)
  moreover have "filter (\<lambda>l. l \<le> m) (drop j ls) = []"
  proof -
    have "m < l" if l: "l \<in> set (drop j ls)" for l
    proof -
      obtain k where "k < length ls - j" "l = ls ! (j + k)" using l by (auto simp: in_set_conv_nth)
      then have "ls ! j \<le> l" using code_lens_mono[OF assms(1), of j "j + k"] by simp
      then show ?thesis using assms(4) by simp
    qed
    then show ?thesis by (force simp: filter_empty_conv)
  qed
  ultimately have "weight_upto (drop i ls) m = weight_upto (take (j - i) (drop i ls)) m"
    unfolding weight_upto_def by (metis append.right_neutral filter_append)
  also have "\<dots> \<le> sum_list (map (\<lambda>l. 2 ^ (15 - l)) (take (j - i) (drop i ls)))"
    unfolding weight_upto_def by (rule sum_list_filter_le_nat)
  finally show ?thesis using code_pos_add[of ls i "j - i"] assms(2) by simp
qed


text \<open>
  The size chosen for a sub-table: either it takes the longest codes, or the remaining codes that
  fit it fill the whole block of the root entry.
\<close>

lemma curr_loop_spec:
  assumes "\<forall>l. 1 \<le> l \<and> l \<le> 15 \<longrightarrow> count ! l = count_list L l" "mx \<le> 15" "1 \<le> dr + cu" "dr + cu \<le> mx"
    "left * 2 ^ (15 - (dr + cu)) = 2 ^ (15 - dr) - int (weight_upto L (dr + cu - 1))"
  defines "c \<equiv> curr_loop count dr mx cu left"
  shows "cu \<le> c \<and> dr + c \<le> mx \<and> (dr + c = mx \<or> 2 ^ (15 - dr) \<le> weight_upto L (dr + c))
    \<and> (\<forall>k. cu \<le> k \<and> k < c \<longrightarrow> weight_upto L (dr + k) < 2 ^ (15 - dr))"
  using assms(3-5) unfolding c_def
proof (induction "mx - (dr + cu)" arbitrary: cu left)
  case 0
  then show ?case by (subst (1 2 3 4 5) curr_loop.simps) simp
next
  case (Suc k)
  let ?m = "dr + cu"
  let ?left = "left - int (count ! ?m)"
  have m: "1 \<le> ?m" "?m < mx" "?m \<le> 15" using Suc.hyps(2) Suc.prems assms(2) by simp_all
  have "weight_upto L ?m = weight_upto L (?m - 1) + count_list L ?m * 2 ^ (15 - ?m)"
    using weight_upto_Suc[of L "?m - 1"] m(1) by (cases ?m) simp_all
  then have l: "?left * 2 ^ (15 - ?m) = 2 ^ (15 - dr) - int (weight_upto L ?m)"
    using Suc.prems(3) assms(1) m by (simp add: left_diff_distrib)
  show ?case
  proof (cases "?left \<le> 0")
    case True
    then have "?left * 2 ^ (15 - ?m) \<le> 0" by (simp add: mult_le_0_iff)
    then have "int (2 ^ (15 - dr)) \<le> int (weight_upto L ?m)" using l by simp
    moreover have "curr_loop count dr mx cu left = cu"
      using True m by (subst curr_loop.simps) (simp add: add.commute)
    ultimately show ?thesis using m by simp
  next
    case False
    have e: "curr_loop count dr mx cu left = curr_loop count dr mx (cu + 1) (2 * ?left)"
      using False m by (subst curr_loop.simps) (simp add: add.commute Let_def)
    have "15 - ?m = Suc (15 - Suc ?m)" using m assms(2) by simp
    then have "2 * ?left * 2 ^ (15 - (dr + (cu + 1))) = 2 ^ (15 - dr) - int (weight_upto L (dr + (cu + 1) - 1))"
      using l by (simp add: algebra_simps)
    moreover have "k = mx - (dr + (cu + 1))" "1 \<le> dr + (cu + 1)" "dr + (cu + 1) \<le> mx" using Suc.hyps(2) m by simp_all
    ultimately have ih: "cu + 1 \<le> curr_loop count dr mx cu left \<and> dr + curr_loop count dr mx cu left \<le> mx
        \<and> (dr + curr_loop count dr mx cu left = mx \<or> 2 ^ (15 - dr) \<le> weight_upto L (dr + curr_loop count dr mx cu left))
        \<and> (\<forall>k. cu + 1 \<le> k \<and> k < curr_loop count dr mx cu left \<longrightarrow> weight_upto L (dr + k) < 2 ^ (15 - dr))"
      unfolding e using Suc.hyps(1)[of "cu + 1" "2 * ?left"] by blast
    have "0 < ?left * 2 ^ (15 - ?m)" using False by simp
    then have "weight_upto L (dr + cu) < 2 ^ (15 - dr)" unfolding l by simp
    then have "weight_upto L (dr + k) < 2 ^ (15 - dr)" if "cu \<le> k" "k < curr_loop count dr mx cu left" for k
      using ih that by (cases "k = cu") simp_all
    then show ?thesis using ih by simp
  qed
qed

lemma subtable_fits:
  assumes ls: "code_lens ls" and ij: "i \<le> j" "j < length ls" and r: "r \<le> ls ! i"
    and fill: "2 ^ (15 - r) \<le> weight_upto (drop i ls) m"
    and same: "hcode ls i mod 2 ^ r = hcode ls j mod 2 ^ r"
  shows "ls ! j \<le> m"
proof (rule ccontr)
  assume "\<not> ls ! j \<le> m"
  then have "code_pos ls i + 2 ^ (15 - r) \<le> code_pos ls j"
    using weight_upto_pos[OF ls ij, of m] fill by simp
  then have "(code_pos ls i + 2 ^ (15 - r)) div 2 ^ (15 - r) \<le> code_pos ls j div 2 ^ (15 - r)"
    by (rule div_le_mono)
  moreover have "(x + 2 ^ k) div 2 ^ k = x div 2 ^ k + 1" for x k :: nat
    by (rule div_add_self2) simp
  ultimately have "code_pos ls i div 2 ^ (15 - r) + 1 \<le> code_pos ls j div 2 ^ (15 - r)" by (simp only:)
  then have "code_pos ls i div 2 ^ (15 - r) < code_pos ls j div 2 ^ (15 - r)" by (simp only: Suc_eq_plus1[symmetric] Suc_le_eq)
  moreover have "r \<le> ls ! j" using r code_lens_mono[OF ls ij] by simp
  ultimately show False using same_prefix_iff[OF ls _ ij(2) r] ij same by simp
qed

section \<open>The large loop\<close>

text \<open>What a table entry says of a symbol.\<close>

definition sym_op :: "codetype \<Rightarrow> nat \<Rightarrow> nat" where
  "sym_op type s = (case type of CODES \<Rightarrow> 0
     | LENS \<Rightarrow> if s < 256 then 0 else if s = 256 then 96 else lext ! (s - 257)
     | DISTS \<Rightarrow> dext ! s)"

definition sym_val :: "codetype \<Rightarrow> nat \<Rightarrow> nat" where
  "sym_val type s = (case type of CODES \<Rightarrow> s
     | LENS \<Rightarrow> if s < 256 then s else if s = 256 then 0 else lbase ! (s - 257)
     | DISTS \<Rightarrow> dbase ! s)"

definition max_codes :: "codetype \<Rightarrow> nat" where
  "max_codes type = (case type of CODES \<Rightarrow> 19 | LENS \<Rightarrow> 288 | DISTS \<Rightarrow> 32)"

definition sym_entry :: "codetype \<Rightarrow> nat \<Rightarrow> nat \<Rightarrow> code" where
  "sym_entry type s b = \<lparr>code_op = sym_op type s, code_bits = b, code_val = sym_val type s\<rparr>"

lemma lext_range: "k < 31 \<Longrightarrow> lext ! k < 256 \<and> lext ! k \<noteq> 0 \<and> lext ! k AND 0xf0 \<noteq> 0"
proof -
  have "list_all (\<lambda>x. x < 256 \<and> x \<noteq> 0 \<and> x AND 0xf0 \<noteq> 0) lext" by (simp add: lext_def)
  moreover assume "k < 31"
  ultimately show ?thesis by (simp add: list_all_length lext_def)
qed

lemma dext_range: "k < 32 \<Longrightarrow> dext ! k < 256 \<and> dext ! k \<noteq> 0 \<and> dext ! k AND 0xf0 \<noteq> 0"
proof -
  have "list_all (\<lambda>x. x < 256 \<and> x \<noteq> 0 \<and> x AND 0xf0 \<noteq> 0) dext" by (simp add: dext_def)
  moreover assume "k < 32"
  ultimately show ?thesis by (simp add: list_all_length dext_def)
qed

lemma make_entry_spec:
  assumes "i < length work" "work ! i < max_codes type" "b \<le> 15"
  shows "make_entry type work i b = Some (sym_entry type (work ! i) b)"
proof (cases type)
  case LENS
  have "work ! i - 257 < 31" using assms(2) LENS by (simp add: max_codes_def)
  moreover have "length lext = 31" "length lbase = 31" by (simp_all add: lext_def lbase_def)
  ultimately show ?thesis using assms LENS lext_range[of "work ! i - 257"]
    by (auto simp: make_entry_def match_of_def extra_of_def base_of_def sym_entry_def sym_op_def
        sym_val_def uchar_def Let_def)
next
  case DISTS
  have "length dext = 32" "length dbase = 32" by (simp_all add: dext_def dbase_def)
  then show ?thesis using assms DISTS dext_range[of "work ! i"]
    by (auto simp: make_entry_def match_of_def extra_of_def base_of_def sym_entry_def sym_op_def
        sym_val_def uchar_def max_codes_def Let_def)
qed (use assms in \<open>auto simp: make_entry_def match_of_def sym_entry_def sym_op_def sym_val_def
        uchar_def max_codes_def Let_def\<close>)

text \<open>No entry of a symbol looks like the link to a sub-table.\<close>

definition is_link :: "code \<Rightarrow> bool" where
  "is_link e \<longleftrightarrow> code_op e \<noteq> 0 \<and> code_op e AND 0xf0 = 0"

lemma sym_entry_not_link: "s < max_codes type \<Longrightarrow> \<not> is_link (sym_entry type s b)"
  using lext_range[of "s - 257"] dext_range[of s]
  by (cases type) (auto simp: is_link_def sym_entry_def sym_op_def max_codes_def)


text \<open>
  The tables hold code \<open>j\<close>: a code that fits the root table at every index that begins with it, a
  longer code through the link at its first \<open>root\<close> bits.  The sub-table lies before \<open>nx\<close>, or it is
  the one being filled, for the root index \<open>lo\<close>, at \<open>nx\<close> with \<open>cu\<close> index bits.
\<close>

definition short_done :: "(nat \<Rightarrow> nat \<Rightarrow> code) \<Rightarrow> nat list \<Rightarrow> nat \<Rightarrow> code list \<Rightarrow> nat \<Rightarrow> bool" where
  "short_done E ls root tab j \<longleftrightarrow>
     (\<forall>x<2 ^ root. x mod 2 ^ (ls ! j) = hcode ls j \<longrightarrow> tab ! x = E j (ls ! j))"

definition long_done :: "(nat \<Rightarrow> nat \<Rightarrow> code) \<Rightarrow> nat list \<Rightarrow> nat \<Rightarrow> code list \<Rightarrow> nat \<Rightarrow> nat \<Rightarrow> nat \<Rightarrow> nat \<Rightarrow> bool" where
  "long_done E ls root tab nx lo cu j \<longleftrightarrow>
     (\<exists>op val. tab ! (hcode ls j mod 2 ^ root) = \<lparr>code_op = op, code_bits = root, code_val = val\<rparr>
        \<and> 1 \<le> op \<and> op \<le> 15 \<and> ls ! j \<le> root + op \<and> 2 ^ root \<le> val
        \<and> (val + 2 ^ op \<le> nx \<or> hcode ls j mod 2 ^ root = lo \<and> val = nx \<and> op = cu)
        \<and> (\<forall>y<2 ^ op. y mod 2 ^ (ls ! j - root) = hcode ls j div 2 ^ root \<longrightarrow>
             tab ! (val + y) = E j (ls ! j - root)))"

definition code_done :: "(nat \<Rightarrow> nat \<Rightarrow> code) \<Rightarrow> nat list \<Rightarrow> nat \<Rightarrow> code list \<Rightarrow> nat \<Rightarrow> nat \<Rightarrow> nat \<Rightarrow> nat \<Rightarrow> bool" where
  "code_done E ls root tab nx lo cu j \<longleftrightarrow>
     (if ls ! j \<le> root then short_done E ls root tab j else long_done E ls root tab nx lo cu j)"

lemma mod_prefix: "r \<le> l \<Longrightarrow> x mod 2 ^ l mod 2 ^ r = (x :: nat) mod 2 ^ r"
  by (simp add: mod_mod_cancel le_imp_power_dvd)

lemma join_prefix:
  fixes q y :: nat
  assumes "r \<le> l" "q < 2 ^ r"
  shows "(q + 2 ^ r * y) mod 2 ^ l = q + 2 ^ r * (y mod 2 ^ (l - r))"
proof -
  have l: "(2::nat) ^ l = 2 ^ r * 2 ^ (l - r)" using assms(1) by (simp add: power_add[symmetric])
  have "(q + 2 ^ r * y) div 2 ^ r = y" "(q + 2 ^ r * y) mod 2 ^ r = q" using assms(2) by simp_all
  then show ?thesis unfolding l mod_mult2_eq by simp
qed

text \<open>Writing code \<open>i\<close> into the root table.\<close>

lemma done_write_root:
  assumes ls: "code_lens ls" and i: "i < length ls" "ls ! i \<le> root"
    and hit: "\<And>y. y < 2 ^ root \<Longrightarrow> y mod 2 ^ (ls ! i) = hcode ls i \<Longrightarrow> tab' ! y = E i (ls ! i)"
    and miss: "\<And>x. (x < 2 ^ root \<Longrightarrow> x mod 2 ^ (ls ! i) \<noteq> hcode ls i) \<Longrightarrow> tab' ! x = tab ! x"
    and old: "\<And>j. j < i \<Longrightarrow> code_done E ls root tab nx lo cu j"
    and j: "j \<le> i"
  shows "code_done E ls root tab' nx lo cu j"
proof (cases "j = i")
  case True
  then show ?thesis using i hit by (simp add: code_done_def short_done_def)
next
  case False
  then have ji: "j < i" using j by simp
  then have short: "ls ! j \<le> root" using code_lens_mono[OF ls, of j i] i by simp
  have "tab' ! x = E j (ls ! j)" if x: "x < 2 ^ root" "x mod 2 ^ (ls ! j) = hcode ls j" for x
  proof -
    have "x mod 2 ^ (ls ! i) \<noteq> hcode ls i"
      using code_matches_unique[OF ls, of j i x] x ji i by (auto simp: code_matches_def)
    then have "tab' ! x = tab ! x" by (rule miss)
    then show ?thesis using old[OF ji] short x by (simp add: code_done_def short_done_def)
  qed
  then show ?thesis using short by (simp add: code_done_def short_done_def)
qed

text \<open>Writing code \<open>i\<close> into the current sub-table.\<close>

lemma done_write_sub:
  assumes ls: "code_lens ls" and i: "i < length ls" "root < ls ! i" "ls ! i \<le> root + cu"
    and cu: "cu \<le> 15" "2 ^ root \<le> nx"
    and link: "tab ! lo = \<lparr>code_op = cu, code_bits = root, code_val = nx\<rparr>" "lo = hcode ls i mod 2 ^ root"
    and hit: "\<And>y. y < 2 ^ cu \<Longrightarrow> y mod 2 ^ (ls ! i - root) = hcode ls i div 2 ^ root \<Longrightarrow>
      tab' ! (nx + y) = E i (ls ! i - root)"
    and miss: "\<And>x. (\<And>y. y < 2 ^ cu \<Longrightarrow> x = nx + y \<Longrightarrow> y mod 2 ^ (ls ! i - root) \<noteq> hcode ls i div 2 ^ root)
      \<Longrightarrow> tab' ! x = tab ! x"
    and old: "\<And>j. j < i \<Longrightarrow> code_done E ls root tab nx lo cu j"
    and j: "j \<le> i"
  shows "code_done E ls root tab' nx lo cu j"
proof -
  have low: "tab' ! x = tab ! x" if "x < 2 ^ root" for x
    by (rule miss) (use that cu in simp)
  have q: "hcode ls k mod 2 ^ root < 2 ^ root" for k by simp
  have op: "1 \<le> cu" using i by simp
  consider "j = i" | "j < i" "ls ! j \<le> root" | "j < i" "root < ls ! j" using j by linarith
  then show ?thesis
  proof cases
    case 1
    then show ?thesis
      using i op cu link hit low[OF q] by (auto simp: code_done_def long_done_def)
  next
    case 2
    then show ?thesis using old[of j] low by (auto simp: code_done_def short_done_def)
  next
    case 3
    then obtain op val where
      e: "tab ! (hcode ls j mod 2 ^ root) = \<lparr>code_op = op, code_bits = root, code_val = val\<rparr>"
      "1 \<le> op" "op \<le> 15" "ls ! j \<le> root + op" "2 ^ root \<le> val"
      "val + 2 ^ op \<le> nx \<or> hcode ls j mod 2 ^ root = lo \<and> val = nx \<and> op = cu" and
      y: "\<And>y. y < 2 ^ op \<Longrightarrow> y mod 2 ^ (ls ! j - root) = hcode ls j div 2 ^ root \<Longrightarrow> tab ! (val + y) = E j (ls ! j - root)"
      using old[of j] by (auto simp: code_done_def long_done_def)
    have "tab' ! (val + y) = tab ! (val + y)"
      if yj: "y < 2 ^ op" "y mod 2 ^ (ls ! j - root) = hcode ls j div 2 ^ root" for y
    proof (rule miss)
      fix z assume z: "z < 2 ^ cu" "val + y = nx + z"
      show "z mod 2 ^ (ls ! i - root) \<noteq> hcode ls i div 2 ^ root"
      proof
        assume zi: "z mod 2 ^ (ls ! i - root) = hcode ls i div 2 ^ root"
        have c: "hcode ls j mod 2 ^ root = lo" "z = y" using e(6) z yj(1) by auto
        let ?t = "lo + 2 ^ root * y"
        have lo: "lo < 2 ^ root" by (simp add: link(2))
        have "lo + 2 ^ root * (hcode ls j div 2 ^ root) = hcode ls j" using mod_mult_div_eq[of "hcode ls j"] c(1) by metis
        moreover have "lo + 2 ^ root * (hcode ls i div 2 ^ root) = hcode ls i" by (simp add: link(2))
        ultimately have "code_matches ls i ?t" "code_matches ls j ?t"
          using join_prefix[OF _ lo, of "ls ! i" y] join_prefix[OF _ lo, of "ls ! j" y] zi yj(2) c(2) i(2) 3(2)
          by (simp_all add: code_matches_def)
        then show False using code_matches_unique[OF ls] i(1) 3(1) by (metis less_irrefl less_trans)
      qed
    qed
    then show ?thesis using 3(2) e y low[OF q] by (auto simp: code_done_def long_done_def)
  qed
qed


text \<open>Linking a new sub-table into the root table for code \<open>i\<close>.\<close>

lemma done_new_link:
  assumes ls: "code_lens ls" and i: "i < length ls" "root < ls ! i" "0 < i"
    and new: "root < ls ! (i - 1) \<Longrightarrow> lo = hcode ls (i - 1) mod 2 ^ root" "hcode ls i mod 2 ^ root \<noteq> lo"
    and tab: "tab' = tab[hcode ls i mod 2 ^ root := e]" "2 ^ root \<le> nx + 2 ^ cu"
    and old: "\<And>j. j < i \<Longrightarrow> code_done E ls root tab nx lo cu j"
    and j: "j < i"
  shows "code_done E ls root tab' (nx + 2 ^ cu) (hcode ls i mod 2 ^ root) cu' j"
proof (cases "ls ! j \<le> root")
  case True
  have "x \<noteq> hcode ls i mod 2 ^ root" if x: "x mod 2 ^ (ls ! j) = hcode ls j" for x
  proof
    assume "x = hcode ls i mod 2 ^ root"
    then have "code_matches ls j (hcode ls i)"
      using x mod_prefix[OF True, of "hcode ls i"] by (simp add: code_matches_def)
    then have "j = i" using j i(1) by (intro code_matches_unique[OF ls _ i(1) _ hcode_matches]) simp_all
    then show False using j by simp
  qed
  then have "tab' ! x = tab ! x" if "x mod 2 ^ (ls ! j) = hcode ls j" for x
    using that tab(1) by (metis nth_list_update_neq)
  then show ?thesis using True old[OF j] by (simp add: code_done_def short_done_def)
next
  case False
  then obtain op val where
    e: "tab ! (hcode ls j mod 2 ^ root) = \<lparr>code_op = op, code_bits = root, code_val = val\<rparr>"
    "1 \<le> op" "op \<le> 15" "ls ! j \<le> root + op" "2 ^ root \<le> val"
    "val + 2 ^ op \<le> nx \<or> hcode ls j mod 2 ^ root = lo \<and> val = nx \<and> op = cu" and
    y: "\<And>y. y < 2 ^ op \<Longrightarrow> y mod 2 ^ (ls ! j - root) = hcode ls j div 2 ^ root \<Longrightarrow> tab ! (val + y) = E j (ls ! j - root)"
    using old[OF j] by (auto simp: code_done_def long_done_def)
  have "hcode ls j mod 2 ^ root \<noteq> hcode ls i mod 2 ^ root"
  proof
    assume "hcode ls j mod 2 ^ root = hcode ls i mod 2 ^ root"
    then have "hcode ls (i - 1) mod 2 ^ root = hcode ls i mod 2 ^ root"
      using same_prefix_between[OF ls, of j "i - 1" i root] j i False by simp
    moreover have "ls ! j \<le> ls ! (i - 1)" by (rule code_lens_mono[OF ls]) (use j i in simp_all)
    then have "root < ls ! (i - 1)" using False by simp
    ultimately show False using new by simp
  qed
  moreover have "tab' ! (val + y) = tab ! (val + y)" for y
  proof -
    have "hcode ls i mod 2 ^ root < 2 ^ root" by simp
    then have "val + y \<noteq> hcode ls i mod 2 ^ root" using e(5) by linarith
    then show ?thesis using tab(1) by simp
  qed
  moreover have "val + 2 ^ op \<le> nx + 2 ^ cu" using e(6) by auto
  ultimately show ?thesis using False e y tab(1) by (auto simp: code_done_def long_done_def)
qed

text \<open>Looking up the next bits, as \<open>inflate\<close> does: through the link if the root entry is one.\<close>

definition lookup :: "code list \<Rightarrow> nat \<Rightarrow> nat \<Rightarrow> code \<times> nat" where
  "lookup tab root t =
     (let e = tab ! (t mod 2 ^ root)
      in if is_link e
         then let e2 = tab ! (code_val e + t div 2 ^ root mod 2 ^ code_op e) in (e2, code_bits e + code_bits e2)
         else (e, code_bits e))"

lemma and_f0_link: "1 \<le> op \<Longrightarrow> op \<le> 15 \<Longrightarrow> is_link \<lparr>code_op = op, code_bits = b, code_val = v\<rparr>"
proof -
  assume "1 \<le> op" "op \<le> 15"
  then have "take_bit 4 op = op" by (simp add: take_bit_nat_eq_self)
  moreover have "take_bit 4 op AND push_bit 4 15 = 0"
    by (rule bit_eqI) (simp only: bit_and_iff bit_take_bit_iff bit_push_bit_iff, auto)
  ultimately have "op AND 0xf0 = 0" by (simp add: push_bit_eq_mult)
  then show ?thesis using \<open>1 \<le> op\<close> by (simp add: is_link_def)
qed

lemma lookup_done:
  assumes ls: "code_lens ls" and j: "j < length ls" and d: "code_done E ls root tab nx lo cu j"
    and t: "code_matches ls j t" and E: "\<And>b. \<not> is_link (E j b)" "\<And>b. code_bits (E j b) = b"
  shows "\<exists>b. lookup tab root t = (E j b, ls ! j)"
proof (cases "ls ! j \<le> root")
  case True
  have "t mod 2 ^ root mod 2 ^ (ls ! j) = hcode ls j"
    using t mod_prefix[OF True] by (simp add: code_matches_def)
  then have "tab ! (t mod 2 ^ root) = E j (ls ! j)" using d True by (simp add: code_done_def short_done_def)
  then have "lookup tab root t = (E j (ls ! j), ls ! j)" using E by (simp add: lookup_def Let_def)
  then show ?thesis by blast
next
  case False
  let ?q = "hcode ls j mod 2 ^ root"
  obtain op val where
    e: "tab ! ?q = \<lparr>code_op = op, code_bits = root, code_val = val\<rparr>" "1 \<le> op" "op \<le> 15" "ls ! j \<le> root + op" and
    y: "\<And>y. y < 2 ^ op \<Longrightarrow> y mod 2 ^ (ls ! j - root) = hcode ls j div 2 ^ root \<Longrightarrow> tab ! (val + y) = E j (ls ! j - root)"
    using d False by (auto simp: code_done_def long_done_def)
  have q: "t mod 2 ^ root = ?q"
    using t mod_prefix[of root "ls ! j" t] False by (simp add: code_matches_def)
  let ?y = "t div 2 ^ root mod 2 ^ op"
  have "?y mod 2 ^ (ls ! j - root) = t div 2 ^ root mod 2 ^ (ls ! j - root)"
    using e(4) by (simp add: mod_prefix)
  also have "\<dots> = t mod 2 ^ (ls ! j) div 2 ^ root"
  proof -
    have "(2::nat) ^ (ls ! j) = 2 ^ root * 2 ^ (ls ! j - root)" using False by (simp add: power_add[symmetric])
    then show ?thesis by (simp add: mod_mult2_eq)
  qed
  also have "\<dots> = hcode ls j div 2 ^ root" using t by (simp add: code_matches_def)
  finally have "tab ! (val + ?y) = E j (ls ! j - root)" using y[of ?y] by simp
  then have "lookup tab root t = (E j (ls ! j - root), ls ! j)"
    using and_f0_link[OF e(2,3)] e(1) q False E by (simp add: lookup_def Let_def)
  then show ?thesis by blast
qed

text \<open>The loop's invariant before code \<open>i\<close> is written.\<close>

definition table_inv :: "codetype \<Rightarrow> nat list \<Rightarrow> nat list \<Rightarrow> nat \<Rightarrow> nat \<Rightarrow> nat \<Rightarrow> nat \<Rightarrow> tstate \<Rightarrow> bool" where
  "table_inv type ls w root mx M i st \<longleftrightarrow>
     t_sym st = i \<and> i < length ls \<and> t_len st = ls ! i \<and> t_huff st = hcode ls i
   \<and> length (t_count st) = 16 \<and> (\<forall>l. 1 \<le> l \<and> l \<le> 15 \<longrightarrow> t_count st ! l = count_list (drop i ls) l)
   \<and> length (t_tab st) = M \<and> t_next st + 2 ^ t_curr st = t_used st \<and> t_used st \<le> M \<and> \<not> too_much type (t_used st)
   \<and> (\<forall>j<i. code_done (\<lambda>j. sym_entry type (w ! j)) ls root (t_tab st) (t_next st) (nat (t_low st)) (t_curr st) j)
   \<and> (if ls ! i \<le> root
      then t_drop st = 0 \<and> t_next st = 0 \<and> t_curr st = root \<and> t_low st = 2 ^ 32 - 1
      else t_drop st = root \<and> 2 ^ root \<le> t_next st \<and> root + t_curr st \<le> mx
         \<and> t_low st = int (hcode ls i mod 2 ^ root)
         \<and> t_tab st ! nat (t_low st) = \<lparr>code_op = t_curr st, code_bits = root, code_val = t_next st\<rparr>
         \<and> (\<forall>j. i \<le> j \<and> j < length ls \<and> int (hcode ls j mod 2 ^ root) = t_low st \<longrightarrow> ls ! j \<le> root + t_curr st))"

text \<open>What holds when code \<open>i\<close> has been written.\<close>

definition table_written :: "codetype \<Rightarrow> nat list \<Rightarrow> nat list \<Rightarrow> nat \<Rightarrow> nat \<Rightarrow> nat \<Rightarrow> nat \<Rightarrow> tstate \<Rightarrow> code list \<Rightarrow> bool" where
  "table_written type ls w root mx M i st tab' \<longleftrightarrow> length tab' = M
   \<and> (\<forall>j\<le>i. code_done (\<lambda>j. sym_entry type (w ! j)) ls root tab' (t_next st) (nat (t_low st)) (t_curr st) j)
   \<and> (root < ls ! i \<longrightarrow> tab' ! nat (t_low st) = \<lparr>code_op = t_curr st, code_bits = root, code_val = t_next st\<rparr>)"


lemma write_code_inv:
  assumes ls: "code_lens ls" and inv: "table_inv type ls w root mx M i st"
    and w: "i < length work" "work ! i = w ! i" "w ! i < max_codes type" and mx: "mx \<le> 15"
  shows "\<exists>tab'. write_code type work st = Some (st\<lparr>t_tab := tab'\<rparr>) \<and> table_written type ls w root mx M i st tab'"
proof -
  let ?E = "\<lambda>j. sym_entry type (w ! j)" and ?l = "ls ! i"
  note i = inv[unfolded table_inv_def]
  have l: "1 \<le> ?l" "?l \<le> 15" using code_lens_nth[OF ls] i by auto
  have e: "make_entry type work i b = Some (?E i b)" if "b \<le> 15" for b
    using make_entry_spec[of i work type b] w that by simp
  have old: "\<And>j. j < i \<Longrightarrow> code_done ?E ls root (t_tab st) (t_next st) (nat (t_low st)) (t_curr st) j"
    using i by blast
  have room: "t_next st + 2 ^ t_curr st \<le> length (t_tab st)" using i by linarith
  show ?thesis
  proof (cases "?l \<le> root")
    case True
    have r: "t_drop st = 0" "t_next st = 0" "t_curr st = root" using i True by simp_all
    obtain tab' where f: "fill_loop (?E i ?l) (0 + hcode ls i) (2 ^ ?l) (2 ^ root) (t_tab st) = Some tab'"
      "length tab' = length (t_tab st)"
      "\<And>y. y < 2 ^ root \<Longrightarrow> y mod 2 ^ ?l = hcode ls i \<Longrightarrow> tab' ! (0 + y) = ?E i ?l"
      "\<And>x. (\<And>y. y < 2 ^ root \<Longrightarrow> x = 0 + y \<Longrightarrow> y mod 2 ^ ?l \<noteq> hcode ls i) \<Longrightarrow> tab' ! x = t_tab st ! x"
      using fill_loop_spec[OF True hcode_less, of 0 "t_tab st"] room r by auto
    have "write_code type work st = Some (st\<lparr>t_tab := tab'\<rparr>)"
      using f(1) i r e[OF l(2)] by (simp add: write_code_def)
    moreover have "code_done ?E ls root tab' (t_next st) (nat (t_low st)) (t_curr st) j" if "j \<le> i" for j
      by (rule done_write_root[OF ls _ True _ _ old that]) (use f(3,4) i in auto)
    ultimately show ?thesis using f(2) i True by (auto simp: table_written_def)
  next
    case False
    then have r: "t_drop st = root" "2 ^ root \<le> t_next st" "t_low st = int (hcode ls i mod 2 ^ root)"
      "t_tab st ! nat (t_low st) = \<lparr>code_op = t_curr st, code_bits = root, code_val = t_next st\<rparr>"
      "root + t_curr st \<le> mx" "?l \<le> root + t_curr st" using i by auto
    have h: "hcode ls i div 2 ^ root < 2 ^ (?l - root)"
    proof -
      have "(2::nat) ^ ?l = 2 ^ (?l - root) * 2 ^ root" using False by (simp add: power_add[symmetric])
      then show ?thesis using hcode_less[of ls i] by (simp add: less_mult_imp_div_less)
    qed
    have "?l - root \<le> t_curr st" using r(6) by simp
    then obtain tab' where f: "fill_loop (?E i (?l - root)) (t_next st + hcode ls i div 2 ^ root) (2 ^ (?l - root))
        (2 ^ t_curr st) (t_tab st) = Some tab'" "length tab' = length (t_tab st)"
      "\<And>y. y < 2 ^ t_curr st \<Longrightarrow> y mod 2 ^ (?l - root) = hcode ls i div 2 ^ root \<Longrightarrow>
        tab' ! (t_next st + y) = ?E i (?l - root)"
      "\<And>x. (\<And>y. y < 2 ^ t_curr st \<Longrightarrow> x = t_next st + y \<Longrightarrow> y mod 2 ^ (?l - root) \<noteq> hcode ls i div 2 ^ root)
        \<Longrightarrow> tab' ! x = t_tab st ! x"
      using fill_loop_spec[OF _ h room] by metis
    have "?l - root \<le> 15" using l(2) by simp
    then have "write_code type work st = Some (st\<lparr>t_tab := tab'\<rparr>)"
      using f(1) i r(1) e[of "?l - root"] by (simp add: write_code_def drop_bit_eq_div)
    moreover have "code_done ?E ls root tab' (t_next st) (nat (t_low st)) (t_curr st) j" if "j \<le> i" for j
      by (rule done_write_sub[OF ls _ _ r(6) _ r(2,4) _ f(3,4) old that]) (use False i r mx in auto)
    moreover have "tab' ! nat (t_low st) = t_tab st ! nat (t_low st)"
    proof (rule f(4))
      fix y assume y: "nat (t_low st) = t_next st + y"
      have "nat (t_low st) < 2 ^ root" unfolding r(3) by simp
      then show "y mod 2 ^ (?l - root) \<noteq> hcode ls i div 2 ^ root" using y r(2) by linarith
    qed
    ultimately show ?thesis using f(2) i r by (auto simp: table_written_def)
  qed
qed


text \<open>What the loop relies on: the sorted symbols and lengths, and room for what the checks let pass.\<close>

definition table_ctx :: "codetype \<Rightarrow> nat list \<Rightarrow> nat list \<Rightarrow> nat list \<Rightarrow> nat list \<Rightarrow> nat \<Rightarrow> nat \<Rightarrow> nat \<Rightarrow> bool" where
  "table_ctx type lens work ls w root mx M \<longleftrightarrow> code_lens ls \<and> ls \<noteq> [] \<and> length w = length ls
   \<and> length ls \<le> length work \<and> (\<forall>i<length ls. work ! i = w ! i \<and> w ! i < length lens \<and> ls ! i = lens ! (w ! i))
   \<and> length lens \<le> max_codes type \<and> mx = last ls \<and> 1 \<le> root \<and> root \<le> mx \<and> M \<le> 65536
   \<and> (case type of CODES \<Rightarrow> mx \<le> root | LENS \<Rightarrow> 852 \<le> M | DISTS \<Rightarrow> 592 \<le> M)"

definition table_final :: "codetype \<Rightarrow> nat list \<Rightarrow> nat list \<Rightarrow> nat \<Rightarrow> nat \<Rightarrow> tstate \<Rightarrow> bool" where
  "table_final type ls w root M st \<longleftrightarrow> length (t_tab st) = M \<and> t_used st \<le> M \<and> 2 ^ root \<le> t_used st
   \<and> \<not> too_much type (t_used st) \<and> t_next st + 2 ^ t_curr st = t_used st
   \<and> t_huff st = back_incr (last ls) (hcode ls (length ls - 1)) \<and> t_len st = last ls
   \<and> (last ls \<le> root \<longrightarrow> t_drop st = 0 \<and> t_next st = 0)
   \<and> (\<forall>j<length ls. code_done (\<lambda>j. sym_entry type (w ! j)) ls root (t_tab st) (t_next st) (nat (t_low st)) (t_curr st) j)"

lemma ctx_max: "table_ctx type lens work ls w root mx M \<Longrightarrow> i < length ls \<Longrightarrow> ls ! i \<le> mx"
  using code_lens_mono[of ls i "length ls - 1"] by (auto simp: table_ctx_def last_conv_nth)

lemma ctx_mx15: "table_ctx type lens work ls w root mx M \<Longrightarrow> 1 \<le> mx \<and> mx \<le> 15"
  using code_lens_nth[of ls "length ls - 1"] by (auto simp: table_ctx_def last_conv_nth)

lemma not_too_much: "table_ctx type lens work ls w root mx M \<Longrightarrow> root < mx \<Longrightarrow> \<not> too_much type used \<Longrightarrow> used \<le> M"
  by (cases type) (auto simp: table_ctx_def too_much_def ENOUGH_LENS_def ENOUGH_DISTS_def)

text \<open>The state after the code was incremented and the counts were updated.\<close>

definition table_moved :: "codetype \<Rightarrow> nat list \<Rightarrow> nat list \<Rightarrow> nat \<Rightarrow> nat \<Rightarrow> nat \<Rightarrow> nat \<Rightarrow> tstate \<Rightarrow> bool" where
  "table_moved type ls w root mx M i st \<longleftrightarrow>
     t_sym st = i \<and> 0 < i \<and> i < length ls \<and> t_len st = ls ! i \<and> t_huff st = hcode ls i
   \<and> length (t_count st) = 16 \<and> (\<forall>l. 1 \<le> l \<and> l \<le> 15 \<longrightarrow> t_count st ! l = count_list (drop i ls) l)
   \<and> length (t_tab st) = M \<and> t_next st + 2 ^ t_curr st = t_used st \<and> t_used st \<le> M \<and> \<not> too_much type (t_used st)
   \<and> (\<forall>j<i. code_done (\<lambda>j. sym_entry type (w ! j)) ls root (t_tab st) (t_next st) (nat (t_low st)) (t_curr st) j)
   \<and> (if ls ! (i - 1) \<le> root
      then t_drop st = 0 \<and> t_next st = 0 \<and> t_curr st = root \<and> t_low st = 2 ^ 32 - 1
      else t_drop st = root \<and> 2 ^ root \<le> t_next st \<and> root + t_curr st \<le> mx
         \<and> t_low st = int (hcode ls (i - 1) mod 2 ^ root)
         \<and> t_tab st ! nat (t_low st) = \<lparr>code_op = t_curr st, code_bits = root, code_val = t_next st\<rparr>
         \<and> (\<forall>j. i - 1 \<le> j \<and> j < length ls \<and> int (hcode ls j mod 2 ^ root) = t_low st \<longrightarrow> ls ! j \<le> root + t_curr st))"

lemma root_mod_less: "root \<le> 15 \<Longrightarrow> int (x mod 2 ^ root) \<noteq> 2 ^ 32 - 1"
proof -
  assume "root \<le> 15"
  then have "(2::nat) ^ root \<le> 2 ^ 15" by (intro power_increasing) simp_all
  then have "x mod 2 ^ root < 2 ^ 15" by (rule less_le_trans[OF mod_less_divisor, rotated]) simp
  then show ?thesis by simp
qed

text \<open>The size chosen for a new sub-table.\<close>

lemma moved_curr:
  assumes ctx: "table_ctx type lens work ls w root mx M" and mv: "table_moved type ls w root mx M i st" and new: "root < ls ! i"
  defines "cu \<equiv> curr_loop (t_count st) root mx (ls ! i - root) (2 ^ (ls ! i - root))"
  shows "ls ! i - root \<le> cu" "root + cu \<le> mx" "root + cu = mx \<or> 2 ^ (15 - root) \<le> weight_upto (drop i ls) (root + cu)"
    "\<And>k. ls ! i - root \<le> k \<Longrightarrow> k < cu \<Longrightarrow> weight_upto (drop i ls) (root + k) < 2 ^ (15 - root)"
proof -
  note m = mv[unfolded table_moved_def]
  have ls: "code_lens ls" using ctx by (simp add: table_ctx_def)
  have i: "i < length ls" using m by auto
  have r: "1 \<le> root" "mx \<le> 15" "ls ! i \<le> mx" using ctx ctx_mx15[OF ctx] ctx_max[OF ctx i] by (auto simp: table_ctx_def)
  let ?L = "drop i ls"
  have "weight_upto ?L (ls ! i - 1) = 0"
  proof (rule weight_upto_0)
    fix l assume "l \<in> set ?L"
    then obtain k where k: "k < length ls - i" "l = ls ! (i + k)" by (auto simp: in_set_conv_nth)
    then have "ls ! i \<le> l" using code_lens_mono[OF ls, of i "i + k"] by simp
    then show "ls ! i - 1 < l" using new by simp
  qed
  moreover have "(2::int) ^ (ls ! i - root) * 2 ^ (15 - ls ! i) = 2 ^ (15 - root)"
    using new r by (simp add: power_add[symmetric])
  ultimately have c: "ls ! i - root \<le> cu \<and> root + cu \<le> mx \<and> (root + cu = mx \<or> 2 ^ (15 - root) \<le> weight_upto ?L (root + cu))
      \<and> (\<forall>k. ls ! i - root \<le> k \<and> k < cu \<longrightarrow> weight_upto ?L (root + k) < 2 ^ (15 - root))"
    unfolding cu_def using curr_loop_spec[of "t_count st" ?L mx root "ls ! i - root" "2 ^ (ls ! i - root)"] m new r by auto
  then show "ls ! i - root \<le> cu" "root + cu \<le> mx" "root + cu = mx \<or> 2 ^ (15 - root) \<le> weight_upto (drop i ls) (root + cu)"
    "\<And>k. ls ! i - root \<le> k \<Longrightarrow> k < cu \<Longrightarrow> weight_upto (drop i ls) (root + k) < 2 ^ (15 - root)" by blast+
qed

lemma new_subtable_inv:
  assumes ctx: "table_ctx type lens work ls w root mx M" and mv: "table_moved type ls w root mx M i st"
    and new: "ls ! i > root" "int (t_huff st mod 2 ^ root) \<noteq> t_low st"
  shows "(\<exists>st'. new_subtable type root mx st = Return1 st')
    \<or> (\<exists>st'. new_subtable type root mx st = Continue st' \<and> table_inv type ls w root mx M i st')"
proof -
  note m = mv[unfolded table_moved_def]
  have ls: "code_lens ls" using ctx by (simp add: table_ctx_def)
  have i: "i < length ls" "0 < i" using m by auto
  let ?E = "\<lambda>j. sym_entry type (w ! j)" and ?L = "drop i ls" and ?q = "hcode ls i mod 2 ^ root"
  have r: "1 \<le> root" "root \<le> mx" "mx \<le> 15" "ls ! i \<le> mx" "M \<le> 65536"
    using ctx ctx_mx15[OF ctx] ctx_max[OF ctx i(1)] by (auto simp: table_ctx_def)
  have dr: "(if t_drop st = 0 then root else t_drop st) = root" using m by (auto split: if_splits)
  have low0: "0 \<le> t_low st" using m by (auto split: if_splits)
  let ?nx = "t_next st + 2 ^ t_curr st"
  have nx: "2 ^ root \<le> ?nx" using m by (auto split: if_splits)
  define cu where "cu = curr_loop (t_count st) root mx (ls ! i - root) (2 ^ (ls ! i - root))"
  note cu = moved_curr(1-3)[OF ctx mv new(1), folded cu_def]
  show ?thesis
  proof (cases "too_much type (t_used st + 2 ^ cu)")
    case True
    then show ?thesis using m dr by (simp add: new_subtable_def Let_def cu_def)
  next
    case False
    then have used: "t_used st + 2 ^ cu \<le> M"
      using not_too_much[OF ctx] new(1) r by simp
    have q: "?q < length (t_tab st)"
    proof -
      have "?q < 2 ^ root" by simp
      then show ?thesis using nx m used by linarith
    qed
    have "?nx < 65536" using m used r(5) zero_less_power[of "2::nat" cu] by linarith
    then have cast: "ushort ?nx = ?nx" "uchar cu = cu" "uchar root = root"
      using r cu(2) by (simp_all add: ushort_def uchar_def)
    let ?e = "\<lparr>code_op = cu, code_bits = root, code_val = ?nx\<rparr>"
    let ?st = "st\<lparr>t_drop := root, t_next := ?nx, t_curr := cu, t_used := t_used st + 2 ^ cu,
      t_low := int ?q, t_tab := (t_tab st)[?q := ?e]\<rparr>"
    have "new_subtable type root mx st = Continue ?st"
      using m dr False q and_mask_nat[of "hcode ls i" root] cast
      by (simp add: new_subtable_def Let_def cu_def[symmetric])
    moreover have "code_done ?E ls root ((t_tab st)[?q := ?e]) ?nx ?q cu j" if "j < i" for j
      by (rule done_new_link[OF ls i(1) new(1) i(2) _ _ refl nx _ that, of "nat (t_low st)"])
        (use m new low0 in \<open>auto simp: nat_eq_iff\<close>)
    moreover have "ls ! j \<le> root + cu" if "i \<le> j" "j < length ls" "hcode ls j mod 2 ^ root = ?q" for j
      using subtable_fits[OF ls that(1,2), of root "root + cu"] ctx_max[OF ctx that(2)] that(3) cu(3) new(1)
      by auto
    ultimately show ?thesis
      using m i cu q nx used new(1) False by (auto simp: table_inv_def)
  qed
qed


lemma moved_continue:
  assumes ctx: "table_ctx type lens work ls w root mx M" and mv: "table_moved type ls w root mx M i st"
    and old: "\<not> (ls ! i > root \<and> int (t_huff st mod 2 ^ root) \<noteq> t_low st)"
  shows "table_inv type ls w root mx M i st"
proof -
  note m = mv[unfolded table_moved_def]
  have ls: "code_lens ls" using ctx by (simp add: table_ctx_def)
  have i: "i < length ls" "0 < i" using m by auto
  have mono: "ls ! (i - 1) \<le> ls ! i" by (rule code_lens_mono[OF ls]) (use i in simp_all)
  have root: "root \<le> 15" using ctx ctx_mx15[OF ctx] by (auto simp: table_ctx_def)
  show ?thesis
  proof (cases "ls ! i \<le> root")
    case True
    then show ?thesis using m mono by (auto simp: table_inv_def)
  next
    case False
    then have low: "int (hcode ls i mod 2 ^ root) = t_low st" using old m by simp
    then have "\<not> ls ! (i - 1) \<le> root" using m root_mod_less[OF root, of "hcode ls i"] by auto
    then show ?thesis using False m low by (auto simp: table_inv_def)
  qed
qed

lemma table_pass_next:
  assumes "write_code type work st = Some (st\<lparr>t_tab := tab'\<rparr>)" "t_count st ! t_len st - 1 = c"
    "\<not> (c = 0 \<and> t_len st = mx)" "\<not> (c = 0 \<and> (t_sym st + 1 \<ge> length work \<or> work ! (t_sym st + 1) \<ge> length lens))"
  shows "table_pass type lens work root mx st =
    (let st1 = st\<lparr>t_tab := tab', t_huff := back_incr (t_len st) (t_huff st), t_sym := t_sym st + 1,
           t_count := (t_count st)[t_len st := c]\<rparr>;
         st2 = (if c = 0 then st1\<lparr>t_len := lens ! (work ! (t_sym st + 1))\<rparr> else st1)
     in if t_len st2 > root \<and> int (t_huff st2 AND (2 ^ root - 1)) \<noteq> t_low st2
        then new_subtable type root mx st2 else Continue st2)"
proof (cases "c = 0")
  case True
  then have "t_len st \<noteq> mx" "\<not> length work \<le> Suc (t_sym st)" "\<not> length lens \<le> work ! Suc (t_sym st)"
    "t_count st ! t_len st - Suc 0 = 0" using assms(2-4) by simp_all
  then show ?thesis using assms(1) True by (simp add: table_pass_def Let_def del: diff_is_0_eq diff_is_0_eq')
next
  case False
  then show ?thesis using assms(1,2) by (auto simp: table_pass_def Let_def)
qed

lemma table_pass_moved:
  assumes ctx: "table_ctx type lens work ls w root mx M" and inv: "table_inv type ls w root mx M i st"
  shows "if Suc i = length ls then \<exists>st'. table_pass type lens work root mx st = Break st' \<and> table_final type ls w root M st'
    else \<exists>st'. table_moved type ls w root mx M (Suc i) st' \<and> t_used st' = t_used st \<and> t_curr st' = t_curr st
      \<and> table_pass type lens work root mx st =
        (if ls ! Suc i > root \<and> int (t_huff st' mod 2 ^ root) \<noteq> t_low st' then new_subtable type root mx st' else Continue st')"
proof -
  note i = inv[unfolded table_inv_def]
  have ls: "code_lens ls" and n: "i < length ls" using ctx i by (auto simp: table_ctx_def)
  have c: "\<And>k. k < length ls \<Longrightarrow> work ! k = w ! k \<and> w ! k < length lens \<and> ls ! k = lens ! (w ! k) \<and> k < length work"
    using ctx by (auto simp: table_ctx_def)
  have "w ! i < max_codes type" using c[OF n] ctx by (simp add: table_ctx_def)
  then obtain tab' where tab': "write_code type work st = Some (st\<lparr>t_tab := tab'\<rparr>)"
    "table_written type ls w root mx M i st tab'"
    using write_code_inv[OF ls inv, of work] c[OF n] ctx_mx15[OF ctx] by blast
  note w = tab'(2)[unfolded table_written_def]
  let ?l = "ls ! i" and ?c = "t_count st ! (ls ! i) - 1"
  have l: "1 \<le> ?l" "?l \<le> 15" using code_lens_nth[OF ls n] by auto
  have d: "drop i ls = ?l # drop (Suc i) ls" using n by (simp add: Cons_nth_drop_Suc)
  have cnt: "?c = count_list (drop (Suc i) ls) ?l" using i l d by simp
  have cnts: "(t_count st)[?l := ?c] ! k = count_list (drop (Suc i) ls) k" if "1 \<le> k" "k \<le> 15" for k
    using that i d cnt l by (auto simp: nth_list_update)
  let ?st = "st\<lparr>t_tab := tab', t_huff := back_incr ?l (hcode ls i), t_sym := Suc i, t_count := (t_count st)[?l := ?c]\<rparr>"
  show ?thesis
  proof (cases "Suc i = length ls")
    case True
    then have last: "last ls = ?l" by (metis diff_Suc_1 last_conv_nth length_0_conv nat.distinct(1))
    have i1: "length ls - 1 = i" using True by simp
    have mx: "?c = 0" "mx = ?l" using last cnt True ctx by (simp_all add: table_ctx_def)
    have "t_len st = ?l" "t_huff st = hcode ls i" "t_sym st = i" using i by simp_all
    then have "table_pass type lens work root mx st = Break ?st"
      using tab'(1) mx by (simp add: table_pass_def Let_def del: diff_is_0_eq diff_is_0_eq')
    moreover have "2 ^ root \<le> t_used st" using i by (auto split: if_splits)
    then have "table_final type ls w root M ?st" using w i True last unfolding table_final_def i1
      by (auto simp: less_Suc_eq_le[symmetric] split: if_splits)
    ultimately show ?thesis using True by auto
  next
    case False
    then have n': "Suc i < length ls" using n by simp
    have mono: "?l \<le> ls ! Suc i" by (rule code_lens_mono[OF ls _ n']) simp
    have same: "?c \<noteq> 0 \<Longrightarrow> ls ! Suc i = ?l"
    proof -
      assume "?c \<noteq> 0"
      then have "?l \<in> set (drop (Suc i) ls)" using cnt by (metis count_list_0_iff)
      then obtain k where "k < length ls - Suc i" "?l = ls ! (Suc i + k)" by (auto simp: in_set_conv_nth)
      then show ?thesis using code_lens_mono[OF ls, of "Suc i" "Suc i + k"] mono by simp
    qed
    have not_last: "\<not> (?c = 0 \<and> ?l = mx)"
    proof
      assume a: "?c = 0 \<and> ?l = mx"
      then have "ls ! Suc i = ?l" using mono ctx_max[OF ctx n'] by simp
      moreover have "ls ! Suc i \<in> set (drop (Suc i) ls)" using n' by (metis Cons_nth_drop_Suc list.set_intros(1))
      ultimately show False using a cnt by (metis count_list_0_iff)
    qed
    have len: "(if ?c = 0 then ?st\<lparr>t_len := lens ! (work ! Suc i)\<rparr> else ?st) = ?st\<lparr>t_len := ls ! Suc i\<rparr>"
      using c[OF n'] same i by (cases "?c = 0") simp_all
    let ?st' = "?st\<lparr>t_len := ls ! Suc i\<rparr>"
    have in_work: "\<not> (?c = 0 \<and> (Suc i \<ge> length work \<or> work ! Suc i \<ge> length lens))" using c[OF n'] by auto
    have f: "t_len st = ?l" "t_huff st = hcode ls i" "t_sym st = i" using i by simp_all
    have "table_pass type lens work root mx st =
        (let st2 = (if ?c = 0 then ?st\<lparr>t_len := lens ! (work ! Suc i)\<rparr> else ?st)
         in if t_len st2 > root \<and> int (t_huff st2 AND (2 ^ root - 1)) \<noteq> t_low st2
            then new_subtable type root mx st2 else Continue st2)"
      using table_pass_next[OF tab'(1), of "?c" mx lens root, unfolded f Suc_eq_plus1[symmetric], OF refl not_last in_work]
      by (simp only: Let_def)
    then have pass: "table_pass type lens work root mx st =
        (if ls ! Suc i > root \<and> int (t_huff ?st' mod 2 ^ root) \<noteq> t_low ?st'
         then new_subtable type root mx ?st' else Continue ?st')"
      unfolding len Let_def using and_mask_nat[of "back_incr ?l (hcode ls i)" root] by simp
    have huff: "back_incr ?l (hcode ls i) = hcode ls (Suc i)" by (rule back_incr_hcode[OF ls n'])
    have "table_moved type ls w root mx M (Suc i) ?st'"
      using i n' huff w cnts by (auto simp: table_moved_def less_Suc_eq_le)
    then show ?thesis unfolding if_not_P[OF False] using pass by (intro exI[of _ ?st'] conjI) simp_all
  qed
qed

lemma table_pass_inv:
  assumes ctx: "table_ctx type lens work ls w root mx M" and inv: "table_inv type ls w root mx M i st"
  shows "(Suc i = length ls \<and> (\<exists>st'. table_pass type lens work root mx st = Break st' \<and> table_final type ls w root M st'))
    \<or> (\<exists>st'. table_pass type lens work root mx st = Return1 st')
    \<or> (\<exists>st'. table_pass type lens work root mx st = Continue st' \<and> table_inv type ls w root mx M (Suc i) st')"
proof (cases "Suc i = length ls")
  case False
  then obtain st' where m: "table_moved type ls w root mx M (Suc i) st'" "table_pass type lens work root mx st =
      (if ls ! Suc i > root \<and> int (t_huff st' mod 2 ^ root) \<noteq> t_low st' then new_subtable type root mx st' else Continue st')"
    using table_pass_moved[OF ctx inv] by auto
  then show ?thesis using new_subtable_inv[OF ctx m(1)] moved_continue[OF ctx m(1)] by auto
qed (use table_pass_moved[OF ctx inv] in simp)

lemma table_loop_inv:
  assumes ctx: "table_ctx type lens work ls w root mx M"
  shows "table_inv type ls w root mx M i st \<Longrightarrow>
    (\<exists>st'. table_loop type lens work root mx st = Return1 st')
    \<or> (\<exists>st'. table_loop type lens work root mx st = Break st' \<and> table_final type ls w root M st')"
proof (induction "length ls - i" arbitrary: i st)
  case 0
  then show ?case by (simp add: table_inv_def)
next
  case (Suc k)
  have k: "k = length ls - Suc i" using Suc.hyps(2) by simp
  note loop = table_loop.simps[of type lens work root mx st]
  consider st' where "table_pass type lens work root mx st = Break st'" "table_final type ls w root M st'"
    | st' where "table_pass type lens work root mx st = Return1 st'"
    | st' where "table_pass type lens work root mx st = Continue st'" "table_inv type ls w root mx M (Suc i) st'"
    using table_pass_inv[OF ctx Suc.prems] by blast
  then show ?case
  proof cases
    case (3 st')
    then show ?thesis using Suc.hyps(1)[OF k 3(2)] by (simp add: loop)
  qed (simp_all add: loop)
qed


section \<open>The canonical code of a symbol\<close>

text \<open>
  The code of RFC 1951, section 3.2.2: the first code of each length, and from there on one code
  after the other in symbol order.  \<open>canon_code\<close> is the code as the stream presents it, its first
  bit lowest.
\<close>

fun first_code :: "nat list \<Rightarrow> nat \<Rightarrow> nat" where
  "first_code lens 0 = 0"
| "first_code lens (Suc b) = (first_code lens b + (if b = 0 then 0 else count_list lens b)) * 2"

definition canon_value :: "nat list \<Rightarrow> nat \<Rightarrow> nat" where
  "canon_value lens s = first_code lens (lens ! s) + count_list (take s lens) (lens ! s)"

definition canon_code :: "nat list \<Rightarrow> nat \<Rightarrow> nat" where
  "canon_code lens s = rbits (lens ! s) (canon_value lens s)"

definition sym_index :: "nat list \<Rightarrow> nat \<Rightarrow> nat" where
  "sym_index lens s = start_of lens (lens ! s) + count_list (take s lens) (lens ! s)"

lemma code_pos_start: "1 \<le> l \<Longrightarrow> l \<le> 15 \<Longrightarrow> code_pos (sorted_lens lens) (start_of lens l) = first_code lens l * 2 ^ (15 - l)"
proof (induction l rule: nat_induct_at_least)
  case base
  then show ?case by (simp add: start_of_def)
next
  case (Suc l)
  have blk: "take (count_list lens l) (drop (start_of lens l) (sorted_lens lens)) = replicate (count_list lens l) l"
  proof -
    have "[1..<16] = [1..<l] @ l # [Suc l..<16]" by (rule upt_split) (use Suc in simp_all)
    then have "sorted_syms lens = concat (map (syms_of_len lens) [1..<l]) @ syms_of_len lens l
        @ concat (map (syms_of_len lens) [Suc l..<16])" by (simp only: sorted_syms_def map_append concat_append) simp
    then show ?thesis
      unfolding sorted_lens_def using length_blocks[of lens l] map_block[of lens l]
      by (simp add: length_syms_of_len[symmetric])
  qed
  have "(2::nat) ^ (15 - l) = 2 * 2 ^ (15 - Suc l)"
    using Suc.prems by (metis Suc_diff_Suc Suc_le_lessD power_Suc)
  then show ?case
    using Suc by (simp add: start_of_Suc code_pos_add blk sum_list_replicate algebra_simps)
qed

lemma count_take_filter: "s \<le> length lens \<Longrightarrow>
    length (filter (\<lambda>x. lens ! x = l) [0..<s]) = count_list (take s (lens :: nat list)) l"
proof (induction s)
  case (Suc s)
  then have "take (Suc s) lens = take s lens @ [lens ! s]" by (simp add: take_Suc_conv_app_nth)
  then show ?case using Suc by simp
qed simp

lemma sym_index:
  assumes "s < length lens" "1 \<le> lens ! s" "lens ! s \<le> 15"
  shows "sym_index lens s < length (sorted_syms lens)" "sorted_syms lens ! sym_index lens s = s"
    "sorted_lens lens ! sym_index lens s = lens ! s" "hcode (sorted_lens lens) (sym_index lens s) = canon_code lens s"
proof -
  let ?l = "lens ! s" and ?k = "count_list (take s lens) (lens ! s)"
  have k: "?k < count_list lens ?l" using filter_prefix_len[OF assms(1) refl] count_take_filter[of s lens ?l] assms(1) by simp
  note b = block_nth[OF assms(2,3) k]
  then show i: "sym_index lens s < length (sorted_syms lens)" by (simp add: sym_index_def)
  have "[0..<length lens] = [0..<s] @ s # [Suc s..<length lens]" by (rule upt_split) (use assms in simp_all)
  then have "syms_of_len lens ?l = filter (\<lambda>x. lens ! x = ?l) [0..<s] @ s # filter (\<lambda>x. lens ! x = ?l) [Suc s..<length lens]"
    by (simp add: syms_of_len_def)
  then have "syms_of_len lens ?l ! ?k = s"
    using count_take_filter[of s lens ?l] assms(1) by (simp add: nth_append)
  then show s: "sorted_syms lens ! sym_index lens s = s" using b by (simp add: sym_index_def)
  then show l: "sorted_lens lens ! sym_index lens s = ?l" using i by (simp add: sorted_lens_def)
  have "code_pos (sorted_lens lens) (start_of lens ?l + j) = (first_code lens ?l + j) * 2 ^ (15 - ?l)"
    if "j \<le> count_list lens ?l" for j
    using that
  proof (induction j)
    case 0
    then show ?case using code_pos_start[OF assms(2,3)] by simp
  next
    case (Suc j)
    then have "sorted_lens lens ! (start_of lens ?l + j) = ?l" "start_of lens ?l + j < length (sorted_lens lens)"
      using block_nth[OF assms(2,3), of j] length_syms_of_len[of lens ?l] nth_mem[of j "syms_of_len lens ?l"]
      by (auto simp: sorted_lens_def syms_of_len_def)
    then show ?case using Suc code_pos_Suc[of "start_of lens ?l + j" "sorted_lens lens"] by (simp add: algebra_simps)
  qed
  then have "code_pos (sorted_lens lens) (sym_index lens s) = canon_value lens s * 2 ^ (15 - ?l)"
    using k by (simp add: sym_index_def canon_value_def)
  then show "hcode (sorted_lens lens) (sym_index lens s) = canon_code lens s"
    by (simp add: hcode_def l canon_code_def)
qed

lemma sym_index_surj:
  assumes "i < length (sorted_syms lens)"
  obtains s where "s < length lens" "1 \<le> lens ! s" "lens ! s \<le> 15" "sym_index lens s = i"
proof -
  obtain l k where lk: "1 \<le> l" "l \<le> 15" "k < count_list lens l" "i = start_of lens l + k"
    using block_cases[OF assms] .
  let ?s = "syms_of_len lens l ! k"
  have "?s \<in> set (syms_of_len lens l)" using lk(3) length_syms_of_len[of lens l] by simp
  then have s: "?s < length lens" "lens ! ?s = l" by (auto simp: syms_of_len_def)
  let ?k = "count_list (take ?s lens) l"
  have r: "1 \<le> lens ! ?s" "lens ! ?s \<le> 15" using s lk by simp_all
  have "?k < count_list lens l"
    using filter_prefix_len[OF s] count_take_filter[of ?s lens l] s(1) by simp
  moreover have "syms_of_len lens l ! ?k = ?s"
    using sym_index(2)[OF s(1) r] block_nth[OF lk(1,2) calculation] by (simp add: sym_index_def s(2))
  ultimately have "?k = k"
    using nth_eq_iff_index_eq[of "syms_of_len lens l" ?k k] lk(3)
    by (simp add: length_syms_of_len[symmetric] syms_of_len_def)
  then have "sym_index lens ?s = i" by (simp add: sym_index_def s(2) lk(4))
  then show ?thesis using that s(1) r by blast
qed


section \<open>Correctness of inflate_table\<close>

text \<open>
  How \<open>inflate\<close> and \<open>infback\<close> call it: lengths of at most 15 bits for no more symbols than the type
  has, and memory of the size the type's check guards (for the code length code, which has no
  check, of the size of the root table).
\<close>

definition table_args :: "codetype \<Rightarrow> nat list \<Rightarrow> code list \<Rightarrow> nat \<Rightarrow> nat list \<Rightarrow> bool" where
  "table_args type lens tab bits work \<longleftrightarrow>
     (\<forall>l\<in>set lens. l \<le> 15) \<and> length lens \<le> max_codes type \<and> length lens \<le> length work \<and> 1 \<le> bits
   \<and> 2 \<le> length tab \<and> length tab \<le> 65536
   \<and> (case type of CODES \<Rightarrow> (\<forall>l\<in>set lens. l \<le> bits) \<and> 2 ^ bits \<le> length tab
      | LENS \<Rightarrow> 852 \<le> length tab | DISTS \<Rightarrow> 592 \<le> length tab)"

text \<open>A set of lengths that is refused: over-subscribed, or incomplete other than a single one bit code.\<close>

definition bad_lens :: "codetype \<Rightarrow> nat list \<Rightarrow> bool" where
  "bad_lens type lens \<longleftrightarrow> (\<exists>l\<in>set lens. l \<noteq> 0) \<and>
     (kraft lens > 2 ^ 15 \<or> kraft lens < 2 ^ 15 \<and> (type = CODES \<or> (\<exists>l\<in>set lens. l > 1)))"

lemma max_codes_le: "max_codes type \<le> 288"
  by (cases type) (simp_all add: max_codes_def)

lemma find_max_facts:
  assumes le: "\<forall>l\<in>set lens. l \<le> 15"
  defines "mx \<equiv> find_max (count_lens lens) MAXBITS"
  shows "mx \<le> 15" "\<forall>l\<in>set lens. l \<le> mx" "mx \<noteq> 0 \<Longrightarrow> mx \<in> set lens"
proof -
  note c = count_lens_nth[OF le] and m = find_max_spec[of "count_lens lens" 15]
  show mx: "mx \<le> 15" using m by (simp add: mx_def MAXBITS_def)
  show "\<forall>l\<in>set lens. l \<le> mx"
  proof (rule ballI, rule ccontr)
    fix l assume l: "l \<in> set lens" "\<not> l \<le> mx"
    then have "count_lens lens ! l = 0" "l \<le> 15" using m le by (auto simp: mx_def MAXBITS_def)
    then show False using c l(1) by (simp add: count_list_0_iff)
  qed
  show "mx \<in> set lens" if "mx \<noteq> 0"
    using m that c mx by (metis MAXBITS_def count_list_0_iff mx_def)
qed

lemma sorted_syms_nonempty: "\<forall>l\<in>set lens. l \<le> 15 \<Longrightarrow> x \<in> set lens \<Longrightarrow> x \<noteq> 0 \<Longrightarrow> sorted_syms lens \<noteq> []"
  using sym_index(1)[of _ lens] by (fastforce simp: in_set_conv_nth)

lemma sorted_lens_set:
  assumes "\<forall>l\<in>set lens. l \<le> 15" "1 \<le> l" "l \<le> 15"
  shows "l \<in> set (sorted_lens lens) \<longleftrightarrow> l \<in> set lens"
  using sorted_lens_count[OF assms(2,3)] by (metis count_list_0_iff)

lemma table_start:
  assumes args: "table_args type lens tab bits work" and kraft: "kraft lens \<le> 2 ^ 15"
  defines "mx \<equiv> find_max (count_lens lens) MAXBITS"
  defines "mn \<equiv> find_min (count_lens lens) mx 1"
  defines "root0 \<equiv> (if bits > mx then mx else bits)"
  defines "root \<equiv> (if root0 < mn then mn else root0)"
  assumes mx: "mx \<noteq> 0" and room: "\<not> too_much type (2 ^ root)"
    and wk: "sort_syms lens (make_offs (count_lens lens)) work = Some wk"
  shows "table_ctx type lens wk (sorted_lens lens) (sorted_syms lens) root mx (length tab)
    \<and> table_inv type (sorted_lens lens) (sorted_syms lens) root mx (length tab) 0
       \<lparr>t_huff = 0, t_sym = 0, t_len = mn, t_next = 0, t_curr = root, t_drop = 0,
        t_low = 2 ^ 32 - 1, t_used = 2 ^ root, t_count = count_lens lens, t_tab = tab\<rparr>"
proof -
  let ?ls = "sorted_lens lens" and ?w = "sorted_syms lens"
  have le: "\<forall>l\<in>set lens. l \<le> 15" and lw: "length lens \<le> length work" "length lens \<le> max_codes type"
    and b: "1 \<le> bits" using args by (simp_all add: table_args_def)
  note c = count_lens_nth[OF le] and m = find_max_facts[OF le, folded mx_def]
  have ls: "code_lens ?ls" by (rule sorted_lens_code_lens[OF le kraft])
  have ne: "?w \<noteq> []" using sorted_syms_nonempty[OF le m(3)[OF mx] mx] .
  have cm: "count_lens lens ! mx \<noteq> 0" using c m(1) m(3)[OF mx] by (metis count_list_0_iff)
  have mn: "1 \<le> mn" "mn \<le> mx" "count_lens lens ! mn \<noteq> 0"
    "\<And>l. 1 \<le> l \<Longrightarrow> l < mn \<Longrightarrow> count_lens lens ! l = 0"
    using find_min_spec[of 1 mx "count_lens lens"] cm mx by (auto simp: mn_def)
  have r: "mn \<le> root" "root \<le> mx" "1 \<le> root" using mn by (auto simp: root_def root0_def)
  have last: "mx = last ?ls"
  proof (rule antisym)
    have "mx \<in> set ?ls" using sorted_lens_set[OF le _ m(1)] m(3)[OF mx] mx by simp
    then obtain k where k: "k < length ?ls" "?ls ! k = mx" by (auto simp: in_set_conv_nth)
    have "?ls ! k \<le> ?ls ! (length ?ls - 1)" by (rule code_lens_mono[OF ls]) (use k in auto)
    then show "mx \<le> last ?ls" using k ne by (simp add: last_conv_nth sorted_lens_def)
    have "last ?ls \<in> set ?ls" by (rule last_in_set) (use ne in \<open>simp add: sorted_lens_def\<close>)
    then show "last ?ls \<le> mx" using sorted_lens_set[OF le] sorted_lens_range m(2) by blast
  qed
  have first: "mn = ?ls ! 0"
  proof (rule antisym)
    have "?ls ! 0 \<in> set ?ls" using ne by (simp add: sorted_lens_def)
    then have "1 \<le> ?ls ! 0" "?ls ! 0 \<le> 15" "count_lens lens ! (?ls ! 0) \<noteq> 0"
      using sorted_lens_range[of "?ls ! 0" lens] c sorted_lens_set[OF le, of "?ls ! 0"] by (auto simp: count_list_0_iff)
    then show "mn \<le> ?ls ! 0" using mn(4) not_le by blast
    have "mn \<in> set lens" using mn(2,3) c m(1) by (metis count_list_0_iff le_trans)
    then have "mn \<in> set ?ls" using sorted_lens_set[OF le, of mn] mn(1,2) m(1) by simp
    then obtain k where k: "k < length ?ls" "?ls ! k = mn" by (auto simp: in_set_conv_nth)
    have "?ls ! 0 \<le> ?ls ! k" by (rule code_lens_mono[OF ls]) (use k in auto)
    then show "?ls ! 0 \<le> mn" using k by simp
  qed
  have sort: "length wk = length work" "length ?w \<le> length work" "take (length ?w) wk = ?w"
    using sort_syms_spec[OF le _ lw(1)] lw(2) max_codes_le[of type] wk by auto
  have w: "wk ! i = ?w ! i \<and> ?w ! i < length lens \<and> ?ls ! i = lens ! (?w ! i)" if "i < length ?w" for i
  proof -
    have "?w ! i < length lens" using sym_index_surj[OF that] sym_index(2) by metis
    then show ?thesis using sort(3) that by (metis nth_take nth_map sorted_lens_def)
  qed
  have room': "2 ^ root \<le> length tab"
  proof (cases type)
    case CODES
    then have "(2::nat) ^ root \<le> 2 ^ bits" "2 ^ bits \<le> length tab"
      using args m(3)[OF mx] r(2) by (auto simp: table_args_def intro!: power_increasing)
    then show ?thesis by (rule le_trans)
  qed (use args room in \<open>auto simp: table_args_def too_much_def ENOUGH_LENS_def ENOUGH_DISTS_def\<close>)
  have codes: "type = CODES \<Longrightarrow> mx \<le> root"
    using args m(3)[OF mx] by (auto simp: table_args_def root_def root0_def)
  have "table_ctx type lens wk ?ls ?w root mx (length tab)"
    using ls ne w sort lw r last codes args by (cases type) (auto simp: table_ctx_def table_args_def sorted_lens_def)
  moreover have "hcode ?ls 0 = 0" using rbits_shift[of 0 "?ls ! 0" 0] by (simp add: hcode_def)
  moreover have "0 < length ?w" using ne by simp
  ultimately show ?thesis
    using first r(1) c sorted_lens_count room' room by (auto simp: table_inv_def)
qed


lemma bad_lens_max:
  assumes "\<forall>l\<in>set lens. l \<le> 15"
  defines "mx \<equiv> find_max (count_lens lens) MAXBITS"
  shows "mx = 0 \<longleftrightarrow> (\<forall>l\<in>set lens. l = 0)" "mx \<noteq> 0 \<Longrightarrow> mx \<noteq> 1 \<longleftrightarrow> (\<exists>l\<in>set lens. l > 1)"
proof -
  note m = find_max_facts[OF assms(1), folded mx_def]
  show "mx = 0 \<longleftrightarrow> (\<forall>l\<in>set lens. l = 0)" using m(2,3) by (metis le_zero_eq)
  show "mx \<noteq> 1 \<longleftrightarrow> (\<exists>l\<in>set lens. l > 1)" if "mx \<noteq> 0"
    using m(2) m(3)[OF that] that by (metis One_nat_def Suc_lessI leD le_less_trans less_one neq0_conv not_le)
qed

text \<open>After the last code of a complete set, the increment gives 0.\<close>

lemma back_incr_last:
  assumes ls: "code_lens ls" "ls \<noteq> []" and full: "code_pos ls (length ls) = 2 ^ 15"
  shows "back_incr (last ls) (hcode ls (length ls - 1)) = 0"
proof -
  let ?i = "length ls - 1" and ?l = "last ls"
  have i: "?i < length ls" "Suc ?i = length ls" and l: "ls ! ?i = ?l" using ls by (auto simp: last_conv_nth)
  have lr: "1 \<le> ?l" "?l \<le> 15" using code_lens_nth[OF ls(1) i(1)] unfolding l by simp_all
  obtain c where c: "code_pos ls ?i = 2 ^ (15 - ?l) * c" using code_pos_dvd_self[OF ls(1) i(1)] l by auto
  then have "2 ^ (15 - ?l) * (c + 1) = 2 ^ 15" using code_pos_Suc[OF i(1), unfolded l] full i(2) by simp
  then have e: "c + 1 = 2 ^ ?l" using exp15_split[OF lr(2)] by (metis mult.commute nat_mult_eq_cancel1 zero_less_numeral zero_less_power)
  then have "rbits ?l (hcode ls ?i) = c" using c unfolding hcode_def l by (simp add: rbits_twice)
  then show ?thesis using back_incr_rbits[of "?l - 1" "hcode ls ?i"] e lr by simp
qed

text \<open>The only incomplete set that is accepted has a single code of one bit.\<close>

lemma single_code:
  assumes ls: "code_lens ls" "ls \<noteq> []" and one: "last ls = 1" and free: "code_pos ls (length ls) < 2 ^ 15"
  shows "ls = [1]" "back_incr (last ls) (hcode ls (length ls - 1)) = 1"
proof -
  have "ls ! i = 1" if i: "i < length ls" for i
  proof -
    have "ls ! i \<le> ls ! (length ls - 1)" by (rule code_lens_mono[OF ls(1)]) (use i in simp_all)
    then show ?thesis using code_lens_nth[OF ls(1) i] one ls(2) by (simp add: last_conv_nth)
  qed
  then have r: "ls = replicate (length ls) 1" by (intro nth_equalityI) auto
  have "code_pos ls (length ls) = length ls * 2 ^ 14"
    by (subst (1) r) (simp add: code_pos_def sum_list_replicate)
  then have "length ls = 1" using free ls(2) by (cases "length ls") auto
  then show e: "ls = [1]" using r by simp
  show "back_incr (last ls) (hcode ls (length ls - 1)) = 1"
    using back_incr_rbits[of 0 0] by (simp add: e hcode_def)
qed

text \<open>
  Everything about a call: it accesses no memory out of bounds; all lengths zero make the table that
  forces an error; a refused set of lengths returns -1; otherwise the result is 1 when the table
  would be larger than its bound, or 0 with a table that holds every code.
\<close>

lemma inflate_table_cases:
  assumes args: "table_args type lens tab bits work"
  shows "\<exists>ret tab' used bits'. inflate_table type lens tab bits work = Some (ret, tab', used, bits')
    \<and> (if \<forall>l\<in>set lens. l = 0 then
         ret = 0 \<and> used = 2 \<and> bits' = 1 \<and> length tab' = length tab
         \<and> tab' ! 0 = \<lparr>code_op = 64, code_bits = 1, code_val = 0\<rparr> \<and> tab' ! 1 = \<lparr>code_op = 64, code_bits = 1, code_val = 0\<rparr>
       else if bad_lens type lens then ret = - 1 \<and> tab' = tab
       else ret = 1 \<or>
         (\<exists>st. ret = 0 \<and> used = t_used st \<and> used \<le> length tab \<and> 2 ^ bits' \<le> used \<and> 1 \<le> bits' \<and> bits' \<le> 15
           \<and> table_final type (sorted_lens lens) (sorted_syms lens) bits' (length tab) st
           \<and> last (sorted_lens lens) = find_max (count_lens lens) MAXBITS \<and> bits' \<le> last (sorted_lens lens)
           \<and> (if t_huff st = 0 then tab' = t_tab st
              else tab' = (t_tab st)[t_next st + t_huff st :=
                \<lparr>code_op = 64, code_bits = uchar (t_len st - t_drop st), code_val = 0\<rparr>])))"
proof -
  have le: "\<forall>l\<in>set lens. l \<le> 15" and two: "2 \<le> length tab" using args by (simp_all add: table_args_def)
  then have nb: "\<not> list_ex (\<lambda>l. MAXBITS < l) lens" by (auto simp: list_ex_iff MAXBITS_def)
  let ?c = "count_lens lens"
  define mx where "mx = find_max ?c MAXBITS"
  define mn where "mn = find_min ?c mx 1"
  define root0 where "root0 = (if bits > mx then mx else bits)"
  define root where "root = (if root0 < mn then mn else root0)"
  obtain wk where wk: "sort_syms lens (make_offs ?c) work = Some wk"
    using sort_syms_spec[OF le, of work] args max_codes_le[of type] by (auto simp: table_args_def)
  define st0 where "st0 = \<lparr>t_huff = 0, t_sym = 0, t_len = mn, t_next = 0, t_curr = root, t_drop = 0,
    t_low = 2 ^ 32 - 1, t_used = 2 ^ root, t_count = ?c, t_tab = tab\<rparr>"
  note bm = bad_lens_max[OF le, folded mx_def]
  note left = left_loop_kraft[OF le]
  have unf: "inflate_table type lens tab bits work =
    (case left_loop (tl ?c) 1 of None \<Rightarrow> Some (- 1, tab, 0, bits)
     | Some left \<Rightarrow>
       if left > 0 \<and> (type = CODES \<or> mx \<noteq> 1) then Some (- 1, tab, 0, bits)
       else if too_much type (2 ^ root) then Some (1, tab, 0, bits)
       else case table_loop type lens wk root mx st0 of Trap \<Rightarrow> None | Continue st \<Rightarrow> None
         | Return1 st \<Rightarrow> Some (1, t_tab st, 0, bits)
         | Break st \<Rightarrow>
           if t_huff st \<noteq> 0 then
             if t_next st + t_huff st \<ge> length (t_tab st) then None
             else Some (0, (t_tab st)[t_next st + t_huff st :=
                    \<lparr>code_op = 64, code_bits = uchar (t_len st - t_drop st), code_val = 0\<rparr>],
                    t_used st, root)
           else Some (0, t_tab st, t_used st, root))" if "mx \<noteq> 0"
    unfolding inflate_table_def Let_def mx_def[symmetric] mn_def[symmetric] root0_def[symmetric]
      root_def[symmetric] st0_def[symmetric] using that wk nb by (simp only: if_False option.case)
  show ?thesis
  proof (cases "mx = 0")
    case True
    have "tab \<noteq> []" "1 < length tab" using two by auto
    then show ?thesis
      using bm(1) two True nb by (auto simp: inflate_table_def mx_def[symmetric] nth_list_update Let_def)
  next
    case False
    have bad: "bad_lens type lens \<longleftrightarrow> kraft lens > 2 ^ 15 \<or> kraft lens < 2 ^ 15 \<and> (type = CODES \<or> mx \<noteq> 1)"
      using bm(1) bm(2)[OF False] False by (auto simp: bad_lens_def)
    show ?thesis
    proof (cases "bad_lens type lens")
      case True
      then have "left_loop (tl ?c) 1 = None \<or> (\<exists>l>0. left_loop (tl ?c) 1 = Some l \<and> (type = CODES \<or> mx \<noteq> 1))"
        unfolding left bad by auto
      then have "inflate_table type lens tab bits work = Some (- 1, tab, 0, bits)"
        using unf[OF False] by auto
      then show ?thesis using True bm(1) False by auto
    next
      case good: False
      then have k: "kraft lens \<le> 2 ^ 15" unfolding bad by linarith
      show ?thesis
      proof (cases "too_much type (2 ^ root)")
        case True
        then have "inflate_table type lens tab bits work = Some (1, tab, 0, bits)"
          using good k unfolding bad unf[OF False] left by auto
        then show ?thesis using good bm(1) False by auto
      next
        case room: False
        note ts = table_start[OF args k, folded mx_def, folded mn_def root0_def, folded root_def, OF False room wk]
        then have ctx: "table_ctx type lens wk (sorted_lens lens) (sorted_syms lens) root mx (length tab)" by blast
        have "(\<exists>st'. table_loop type lens wk root mx st0 = Return1 st')
          \<or> (\<exists>st'. table_loop type lens wk root mx st0 = Break st' \<and>
                table_final type (sorted_lens lens) (sorted_syms lens) root (length tab) st')"
          using table_loop_inv[OF ctx] ts unfolding st0_def by blast
        then consider st' where "table_loop type lens wk root mx st0 = Return1 st'"
          | st' where "table_loop type lens wk root mx st0 = Break st'"
            "table_final type (sorted_lens lens) (sorted_syms lens) root (length tab) st'" by blast
        then show ?thesis
        proof cases
          case (1 st')
          then have "inflate_table type lens tab bits work = Some (1, t_tab st', 0, bits)"
            using good k room unfolding bad unf[OF False] left by auto
          then show ?thesis using good bm(1) False by auto
        next
          case (2 st')
          let ?ls = "sorted_lens lens"
          have c: "code_lens ?ls" "?ls \<noteq> []" "mx = last ?ls" "1 \<le> root" "root \<le> mx" "mx \<le> 15"
            using ctx ctx_mx15[OF ctx] by (auto simp: table_ctx_def)
          have "t_huff st' = 0 \<or> \<not> length (t_tab st') \<le> t_next st' + t_huff st'"
          proof (cases "code_pos ?ls (length ?ls) = 2 ^ 15")
            case True
            then show ?thesis using back_incr_last[OF c(1,2)] 2(2) by (simp add: table_final_def)
          next
            case False
            then have "code_pos ?ls (length ?ls) < 2 ^ 15" "mx = 1"
              using k good sorted_lens_kraft[OF le] unfolding bad by auto
            then show ?thesis using single_code(2)[OF c(1,2)] c 2(2) two by (simp add: table_final_def)
          qed
          then have "inflate_table type lens tab bits work = Some (0,
              if t_huff st' = 0 then t_tab st' else (t_tab st')[t_next st' + t_huff st' :=
                \<lparr>code_op = 64, code_bits = uchar (t_len st' - t_drop st'), code_val = 0\<rparr>], t_used st', root)"
            using good k room 2(1) unfolding bad unf[OF False] left by auto
          moreover have "t_used st' \<le> length tab" "2 ^ root \<le> t_used st'" using 2(2) by (simp_all add: table_final_def)
          ultimately show ?thesis using good bm(1) False 2(2) c unfolding mx_def[symmetric] by auto
        qed
      qed
    qed
  qed
qed


lemma inflate_table_lookup:
  assumes args: "table_args type lens tab bits work"
    and ok: "inflate_table type lens tab bits work = Some (0, tab', used, root)"
    and s: "s < length lens" "lens ! s \<noteq> 0" "t mod 2 ^ (lens ! s) = canon_code lens s"
  shows "\<exists>b. lookup tab' root t = (sym_entry type s b, lens ! s)"
proof -
  let ?ls = "sorted_lens lens" and ?w = "sorted_syms lens"
  have le: "\<forall>l\<in>set lens. l \<le> 15" using args by (simp add: table_args_def)
  have "lens ! s \<in> set lens" using s(1) by (rule nth_mem)
  then have nz: "\<not> (\<forall>l\<in>set lens. l = 0)" using s(2) by (metis)
  from inflate_table_cases[OF args, unfolded if_not_P[OF nz]] obtain ret tb us bt
    where r: "inflate_table type lens tab bits work = Some (ret, tb, us, bt)"
    and c: "if bad_lens type lens then ret = - 1 \<and> tb = tab
       else ret = 1 \<or>
         (\<exists>st. ret = 0 \<and> us = t_used st \<and> us \<le> length tab \<and> 2 ^ bt \<le> us \<and> 1 \<le> bt \<and> bt \<le> 15
           \<and> table_final type ?ls ?w bt (length tab) st
           \<and> last ?ls = find_max (count_lens lens) MAXBITS \<and> bt \<le> last ?ls
           \<and> (if t_huff st = 0 then tb = t_tab st
              else tb = (t_tab st)[t_next st + t_huff st :=
                \<lparr>code_op = 64, code_bits = uchar (t_len st - t_drop st), code_val = 0\<rparr>]))"
    by (elim exE conjE)
  have eq: "ret = 0" "tb = tab'" "bt = root" using r ok by simp_all
  have good: "\<not> bad_lens type lens" using c eq(1) by auto
  obtain st where st: "table_final type ?ls ?w root (length tab) st" "root \<le> last ?ls" "1 \<le> root"
    "last ?ls = find_max (count_lens lens) MAXBITS"
    "if t_huff st = 0 then tab' = t_tab st
     else tab' = (t_tab st)[t_next st + t_huff st := \<lparr>code_op = 64, code_bits = uchar (t_len st - t_drop st), code_val = 0\<rparr>]"
    using c unfolding if_not_P[OF good] eq by auto
  have l: "1 \<le> lens ! s" "lens ! s \<le> 15" using s le by auto
  note i = sym_index[OF s(1) l]
  have k: "kraft lens \<le> 2 ^ 15" using good nz by (auto simp: bad_lens_def)
  have ls: "code_lens ?ls" by (rule sorted_lens_code_lens[OF le k])
  have ne: "?ls \<noteq> []" using i(1) by (auto simp: sorted_lens_def)
  have m: "code_matches ?ls (sym_index lens s) t" using s(3) i by (simp add: code_matches_def)
  have E: "\<not> is_link (sym_entry type s b)" "code_bits (sym_entry type s b) = b" for b
    using sym_entry_not_link[of s type b] s(1) args by (simp_all add: table_args_def sym_entry_def)
  have "code_done (\<lambda>j. sym_entry type (?w ! j)) ?ls root (t_tab st) (t_next st) (nat (t_low st)) (t_curr st) (sym_index lens s)"
    using st(1) i(1) by (simp add: table_final_def)
  from lookup_done[OF ls _ this m] have found: "\<exists>b. lookup (t_tab st) root t = (sym_entry type s b, lens ! s)"
    using i E by simp
  show ?thesis
  proof (cases "t_huff st = 0")
    case True
    then show ?thesis using st(5) found by simp
  next
    case False
    then have "code_pos ?ls (length ?ls) \<noteq> 2 ^ 15"
      using back_incr_last[OF ls ne] st(1) by (auto simp: table_final_def)
    then have free: "kraft lens < 2 ^ 15" using sorted_lens_kraft[OF le] k by simp
    then have "last ?ls = 1"
      using good nz bad_lens_max[OF le] st(4) by (auto simp: bad_lens_def)
    then have one: "?ls = [1]" "back_incr (last ?ls) (hcode ?ls (length ?ls - 1)) = 1" "root = 1"
      using single_code[OF ls ne] free sorted_lens_kraft[OF le] st(2,3) by auto
    have ix: "sym_index lens s = 0" using i(1) one(1) length_sorted_lens[of lens] by simp
    then have l1: "lens ! s = 1" using i(3) one(1) by simp
    have "hcode [1] 0 = 0" by (simp add: hcode_def)
    then have "t mod 2 = 0" using s(3) i(4) one(1) ix l1 by simp
    have "t_next st + t_huff st = 1" using st(1) one by (simp add: table_final_def)
    then have "tab' ! 0 = t_tab st ! 0" using st(5) False by simp
    moreover have "t_tab st ! 0 = sym_entry type s 1"
    proof -
      have "short_done (\<lambda>j. sym_entry type (?w ! j)) ?ls root (t_tab st) 0"
        using st(1) one by (simp add: table_final_def code_done_def)
      then show ?thesis using one i(2) ix \<open>hcode [1] 0 = 0\<close> by (simp add: short_done_def)
    qed
    ultimately show ?thesis
      using \<open>t mod 2 = 0\<close> E one(3) l1 by (auto simp: lookup_def Let_def)
  qed
qed


text \<open>A complete code: every input begins with the code of a symbol.\<close>

lemma canon_code_total:
  assumes le: "\<forall>l\<in>set lens. l \<le> 15" and full: "kraft lens = 2 ^ 15"
  shows "\<exists>s<length lens. lens ! s \<noteq> 0 \<and> t mod 2 ^ (lens ! s) = canon_code lens s"
proof -
  have ls: "code_lens (sorted_lens lens)" using sorted_lens_code_lens[OF le] full by simp
  have "code_pos (sorted_lens lens) (length (sorted_lens lens)) = 2 ^ 15"
    using sorted_lens_kraft[OF le] full by simp
  then obtain i where i: "i < length (sorted_syms lens)" "code_matches (sorted_lens lens) i t"
    using code_matches_total[OF ls] by auto
  then obtain s where s: "s < length lens" "1 \<le> lens ! s" "lens ! s \<le> 15" "sym_index lens s = i"
    using sym_index_surj by blast
  then show ?thesis
    using i(2) sym_index[OF s(1-3)] by (intro exI[of _ s]) (simp add: code_matches_def)
qed

section \<open>Decoding step by step\<close>

text \<open>
  What \<open>inflate\<close> relies on when it looks up a code while the bits arrive: which entries it reads, that
  they are in the table, and how many bits they announce.
\<close>

definition sym_matches :: "nat list \<Rightarrow> nat \<Rightarrow> nat \<Rightarrow> bool" where
  "sym_matches lens t s \<longleftrightarrow> s < length lens \<and> lens ! s \<noteq> 0 \<and> t mod 2 ^ (lens ! s) = canon_code lens s"

definition finds :: "codetype \<Rightarrow> nat list \<Rightarrow> code list \<Rightarrow> nat \<Rightarrow> nat \<Rightarrow> nat \<Rightarrow> nat \<Rightarrow> bool" where
  "finds type lens tab used root t s \<longleftrightarrow>
     (let e = tab ! (t mod 2 ^ root) in
      if lens ! s \<le> root then e = sym_entry type s (lens ! s)
      else is_link e \<and> code_bits e = root \<and> code_op e \<le> 15 \<and> code_val e + 2 ^ code_op e \<le> used \<and> lens ! s \<le> root + code_op e
        \<and> tab ! (code_val e + t div 2 ^ root mod 2 ^ code_op e) = sym_entry type s (lens ! s - root))"

definition good_table :: "codetype \<Rightarrow> nat list \<Rightarrow> code list \<Rightarrow> nat \<Rightarrow> nat \<Rightarrow> bool" where
  "good_table type lens tab used root \<longleftrightarrow> 1 \<le> root \<and> root \<le> 15 \<and> 2 ^ root \<le> used \<and> used \<le> length tab
     \<and> (\<forall>l\<in>set lens. l \<le> 15) \<and> length lens \<le> max_codes type \<and> kraft lens \<le> 2 ^ 15
     \<and> (\<forall>t s. sym_matches lens t s \<longrightarrow> finds type lens tab used root t s)
     \<and> (\<forall>t. (\<forall>s. \<not> sym_matches lens t s) \<longrightarrow> tab ! (t mod 2 ^ root) = \<lparr>code_op = 64, code_bits = 1, code_val = 0\<rparr>)"

lemma done_finds:
  assumes ls: "code_lens ls" and j: "j < length ls" and d: "code_done E ls root tab nx lo cu j"
    and t: "code_matches ls j t" and used: "nx + 2 ^ cu \<le> used"
  shows "if ls ! j \<le> root then tab ! (t mod 2 ^ root) = E j (ls ! j)
    else is_link (tab ! (t mod 2 ^ root)) \<and> code_bits (tab ! (t mod 2 ^ root)) = root \<and> code_op (tab ! (t mod 2 ^ root)) \<le> 15
      \<and> code_val (tab ! (t mod 2 ^ root)) + 2 ^ code_op (tab ! (t mod 2 ^ root)) \<le> used
      \<and> ls ! j \<le> root + code_op (tab ! (t mod 2 ^ root))
      \<and> tab ! (code_val (tab ! (t mod 2 ^ root)) + t div 2 ^ root mod 2 ^ code_op (tab ! (t mod 2 ^ root))) = E j (ls ! j - root)"
proof (cases "ls ! j \<le> root")
  case True
  have "t mod 2 ^ root mod 2 ^ (ls ! j) = hcode ls j"
    using t mod_prefix[OF True] by (simp add: code_matches_def)
  then show ?thesis using d True by (simp add: code_done_def short_done_def)
next
  case False
  let ?q = "hcode ls j mod 2 ^ root"
  obtain op val where
    e: "tab ! ?q = \<lparr>code_op = op, code_bits = root, code_val = val\<rparr>" "1 \<le> op" "op \<le> 15" "ls ! j \<le> root + op" and
    u: "val + 2 ^ op \<le> nx \<or> val = nx \<and> op = cu" and
    y: "\<And>y. y < 2 ^ op \<Longrightarrow> y mod 2 ^ (ls ! j - root) = hcode ls j div 2 ^ root \<Longrightarrow> tab ! (val + y) = E j (ls ! j - root)"
    using d False by (auto simp: code_done_def long_done_def)
  have q: "t mod 2 ^ root = ?q"
    using t mod_prefix[of root "ls ! j" t] False by (simp add: code_matches_def)
  let ?y = "t div 2 ^ root mod 2 ^ op"
  have "?y mod 2 ^ (ls ! j - root) = t div 2 ^ root mod 2 ^ (ls ! j - root)" using e(4) by (simp add: mod_prefix)
  also have "\<dots> = t mod 2 ^ (ls ! j) div 2 ^ root"
  proof -
    have "(2::nat) ^ (ls ! j) = 2 ^ root * 2 ^ (ls ! j - root)" using False by (simp add: power_add[symmetric])
    then show ?thesis by (simp add: mod_mult2_eq)
  qed
  also have "\<dots> = hcode ls j div 2 ^ root" using t by (simp add: code_matches_def)
  finally have "tab ! (val + ?y) = E j (ls ! j - root)" using y[of ?y] by simp
  moreover have "val + 2 ^ op \<le> used" using u used by auto
  ultimately show ?thesis using and_f0_link[OF e(2,3)] e q False by simp
qed

lemma inflate_table_good:
  assumes args: "table_args type lens tab bits work"
    and ok: "inflate_table type lens tab bits work = Some (0, tab', used, root)"
  shows "good_table type lens tab' used root" "length tab' = length tab" "\<not> too_much type used" "\<not> bad_lens type lens"
proof -
  let ?ls = "sorted_lens lens" and ?w = "sorted_syms lens"
  have le: "\<forall>l\<in>set lens. l \<le> 15" and mc: "length lens \<le> max_codes type" and two: "2 \<le> length tab"
    using args by (simp_all add: table_args_def)
  have "good_table type lens tab' used root \<and> length tab' = length tab \<and> \<not> too_much type used \<and> \<not> bad_lens type lens"
  proof (cases "\<forall>l\<in>set lens. l = 0")
    case True
    have no: "\<not> sym_matches lens t s" for t s using True by (auto simp: sym_matches_def)
    have k: "kraft lens = 0" using True by (simp add: kraft_def filter_empty_conv)
    have f: "used = 2" "root = 1" "length tab' = length tab"
      "tab' ! 0 = \<lparr>code_op = 64, code_bits = 1, code_val = 0\<rparr>" "tab' ! 1 = \<lparr>code_op = 64, code_bits = 1, code_val = 0\<rparr>"
      using inflate_table_cases[OF args, unfolded if_P[OF True]] ok by auto
    have "tab' ! (t mod 2) = \<lparr>code_op = 64, code_bits = 1, code_val = 0\<rparr>" for t :: nat
      using f(4,5) by (cases "even t") (simp_all add: even_iff_mod_2_eq_zero odd_iff_mod_2_eq_one)
    then have "good_table type lens tab' used root"
      using f(1-3) two k le mc no by (simp add: good_table_def)
    moreover have "\<not> too_much type used" using f(1) by (simp add: too_much_def ENOUGH_LENS_def ENOUGH_DISTS_def)
    moreover have "\<not> bad_lens type lens" using True by (simp add: bad_lens_def)
    ultimately show ?thesis using f(3) by blast
  next
    case nz: False
    from inflate_table_cases[OF args, unfolded if_not_P[OF nz]] obtain ret tb us bt
      where r: "inflate_table type lens tab bits work = Some (ret, tb, us, bt)"
      and c: "if bad_lens type lens then ret = - 1 \<and> tb = tab
         else ret = 1 \<or>
           (\<exists>st. ret = 0 \<and> us = t_used st \<and> us \<le> length tab \<and> 2 ^ bt \<le> us \<and> 1 \<le> bt \<and> bt \<le> 15
             \<and> table_final type ?ls ?w bt (length tab) st
             \<and> last ?ls = find_max (count_lens lens) MAXBITS \<and> bt \<le> last ?ls
             \<and> (if t_huff st = 0 then tb = t_tab st
                else tb = (t_tab st)[t_next st + t_huff st :=
                  \<lparr>code_op = 64, code_bits = uchar (t_len st - t_drop st), code_val = 0\<rparr>]))"
      by (elim exE conjE)
    have eq: "ret = 0" "tb = tab'" "us = used" "bt = root" using r ok by simp_all
    have good: "\<not> bad_lens type lens" using c eq(1) by auto
    obtain st where st: "table_final type ?ls ?w root (length tab) st" "root \<le> last ?ls" "1 \<le> root" "root \<le> 15"
      "used = t_used st" "used \<le> length tab" "2 ^ root \<le> used" "last ?ls = find_max (count_lens lens) MAXBITS"
      "if t_huff st = 0 then tab' = t_tab st
       else tab' = (t_tab st)[t_next st + t_huff st := \<lparr>code_op = 64, code_bits = uchar (t_len st - t_drop st), code_val = 0\<rparr>]"
      using c unfolding if_not_P[OF good] eq by auto
    note fin = st(1)[unfolded table_final_def]
    have tm: "\<not> too_much type used" and len: "length tab' = length tab" using fin st(5,9) by (auto split: if_splits)
    have k: "kraft lens \<le> 2 ^ 15" using good nz by (auto simp: bad_lens_def)
    have ls: "code_lens ?ls" by (rule sorted_lens_code_lens[OF le k])
    have u: "t_next st + 2 ^ t_curr st \<le> used" using fin st(5) by simp
    have ix: "sym_index lens s < length ?ls \<and> ?w ! sym_index lens s = s \<and> ?ls ! sym_index lens s = lens ! s
        \<and> code_matches ?ls (sym_index lens s) t" if m: "sym_matches lens t s" for t s
    proof -
      have l: "1 \<le> lens ! s" "lens ! s \<le> 15" using m le by (auto simp: sym_matches_def)
      show ?thesis using sym_index[OF _ l] m by (simp add: sym_matches_def code_matches_def)
    qed
    have old: "finds type lens (t_tab st) used root t s" if m: "sym_matches lens t s" for t s
    proof -
      have i: "sym_index lens s < length ?ls" "?w ! sym_index lens s = s" "?ls ! sym_index lens s = lens ! s"
        "code_matches ?ls (sym_index lens s) t" using ix[OF m] by blast+
      have "code_done (\<lambda>j. sym_entry type (?w ! j)) ?ls root (t_tab st) (t_next st) (nat (t_low st)) (t_curr st) (sym_index lens s)"
        using fin i(1) by blast
      from done_finds[OF ls i(1) this i(4) u] show ?thesis unfolding finds_def Let_def i(2,3) .
    qed
    have "(\<forall>t s. sym_matches lens t s \<longrightarrow> finds type lens tab' used root t s)
      \<and> (\<forall>t. (\<forall>s. \<not> sym_matches lens t s) \<longrightarrow> tab' ! (t mod 2 ^ root) = \<lparr>code_op = 64, code_bits = 1, code_val = 0\<rparr>)"
    proof (cases "t_huff st = 0")
      case True
      have "kraft lens = 2 ^ 15"
      proof (rule ccontr)
        assume "kraft lens \<noteq> 2 ^ 15"
        then have free: "kraft lens < 2 ^ 15" using k by simp
        have ne: "?ls \<noteq> []" using sorted_syms_nonempty[OF le] nz by (auto simp: sorted_lens_def)
        have "last ?ls = 1" using good nz bad_lens_max[OF le] st(8) free by (auto simp: bad_lens_def)
        then show False using single_code(2)[OF ls ne] free sorted_lens_kraft[OF le] fin True by simp
      qed
      then have "\<exists>s. sym_matches lens t s" for t using canon_code_total[OF le] by (auto simp: sym_matches_def)
      then show ?thesis using old True st(9) by auto
    next
      case False
      have ne: "?ls \<noteq> []" using sorted_syms_nonempty[OF le] nz by (auto simp: sorted_lens_def)
      have "code_pos ?ls (length ?ls) \<noteq> 2 ^ 15"
        using back_incr_last[OF ls ne] fin False by auto
      then have free: "kraft lens < 2 ^ 15" using sorted_lens_kraft[OF le] k by simp
      then have "last ?ls = 1" using good nz bad_lens_max[OF le] st(8) by (auto simp: bad_lens_def)
      then have one: "?ls = [1]" "back_incr (last ?ls) (hcode ?ls (length ?ls - 1)) = 1" "root = 1"
        using single_code[OF ls ne] free sorted_lens_kraft[OF le] st(2,3) by auto
      have h0: "hcode [1] 0 = 0" by (simp add: hcode_def)
      have at: "t_next st + t_huff st = 1" "t_len st - t_drop st = 1" using fin one by simp_all
      have t0: "tab' ! 0 = t_tab st ! 0" "tab' ! 1 = \<lparr>code_op = 64, code_bits = 1, code_val = 0\<rparr>"
        using st(9) False at fin two by (simp_all add: uchar_def)
      have ev: "t mod 2 = 0 \<and> lens ! s = 1" if m: "sym_matches lens t s" for t s
      proof -
        have i: "sym_index lens s < length ?ls" "?ls ! sym_index lens s = lens ! s" "code_matches ?ls (sym_index lens s) t"
          using ix[OF m] by blast+
        have z: "sym_index lens s = 0" using i(1) unfolding one(1) by simp
        have "lens ! s = 1" using i(2) unfolding z one(1) nth_Cons_0 by (rule sym)
        then show ?thesis using i(3) h0 unfolding z one(1) code_matches_def nth_Cons_0 power_one_right by simp
      qed
      have "finds type lens tab' used root t s" if m: "sym_matches lens t s" for t s
        using old[OF m] ev[OF m] t0(1) one(3) by (simp add: finds_def)
      moreover have "tab' ! (t mod 2 ^ root) = \<lparr>code_op = 64, code_bits = 1, code_val = 0\<rparr>" if no: "\<forall>s. \<not> sym_matches lens t s" for t
      proof -
        have "0 < length (sorted_syms lens)" using one(1) unfolding sorted_lens_def by auto
        from sym_index_surj[OF this] obtain s where s: "s < length lens" "1 \<le> lens ! s" "lens ! s \<le> 15" "sym_index lens s = 0" by blast
        have "lens ! s = 1" "canon_code lens s = 0" using sym_index[OF s(1-3)] s(4) one(1) h0 by simp_all
        then have "t mod 2 \<noteq> 0" using no s(1) by (auto simp: sym_matches_def)
        then show ?thesis using t0(2) one(3) by (simp add: mod_2_eq_odd)
      qed
      ultimately show ?thesis by blast
    qed
    then show ?thesis using st le mc k tm len good by (simp add: good_table_def)
  qed
  then show "good_table type lens tab' used root" "length tab' = length tab" "\<not> too_much type used" "\<not> bad_lens type lens" by blast+
qed

section \<open>Evaluation on concrete lengths\<close>

lemma find_max_numeral: "find_max count (numeral k) =
    (if count ! numeral k \<noteq> 0 then numeral k else find_max count (pred_numeral k))"
  by (simp add: numeral_eq_Suc)

lemma replicate_numeral: "replicate (numeral k) x = x # replicate (pred_numeral k) x"
  by (simp add: numeral_eq_Suc)

lemma fill_step: "incr \<noteq> 0 \<Longrightarrow> incr \<le> fill \<Longrightarrow> at + (fill - incr) < length tab \<Longrightarrow> fill - incr \<noteq> 0 \<Longrightarrow>
    fill_loop here at incr fill tab = fill_loop here at incr (fill - incr) (tab[at + (fill - incr) := here])"
  by (subst fill_loop.simps) (simp add: Let_def)

lemma fill_last: "incr \<noteq> 0 \<Longrightarrow> incr = fill \<Longrightarrow> at < length tab \<Longrightarrow>
    fill_loop here at incr fill tab = Some (tab[at := here])"
  by (subst fill_loop.simps) (simp add: Let_def)

lemma incr_stop: "huff AND incr = 0 \<Longrightarrow> incr_loop huff incr = incr"
  by (subst incr_loop.simps) simp

lemma incr_next: "huff AND incr \<noteq> 0 \<Longrightarrow> incr_loop huff incr = incr_loop huff (incr div 2)"
  by (subst incr_loop.simps) simp

lemma loop_next: "table_pass type lens work root mx st = Continue st' \<Longrightarrow>
    table_loop type lens work root mx st = table_loop type lens work root mx st'"
  by (subst table_loop.simps) simp

lemma loop_break: "table_pass type lens work root mx st = Break st' \<Longrightarrow>
    table_loop type lens work root mx st = Break st'"
  by (subst table_loop.simps) simp

lemmas table_evals = inflate_table_def count_lens_def MAXBITS_def find_max_numeral find_min.simps Let_def
  make_offs_def sort_syms_def sort_sym_def upt_rec ushort_def uchar_def replicate_numeral too_much_def
  table_pass_def write_code_def make_entry_def match_of_def back_incr_def
  fill_step fill_last incr_stop incr_next loop_next loop_break
  numeral_2_eq_2[symmetric] numeral_3_eq_3[symmetric]

definition demo_lens :: "nat list" where
  "demo_lens = [1, 2, 2]"

definition demo_tab :: "code list" where
  "demo_tab = [\<lparr>code_op = 0, code_bits = 1, code_val = 0\<rparr>, \<lparr>code_op = 0, code_bits = 2, code_val = 1\<rparr>,
     \<lparr>code_op = 0, code_bits = 1, code_val = 0\<rparr>, \<lparr>code_op = 0, code_bits = 2, code_val = 2\<rparr>]"

lemma demo_run: "inflate_table CODES demo_lens (replicate 4 \<lparr>code_op = 0, code_bits = 0, code_val = 0\<rparr>) 2 [0, 0, 0]
    = Some (0, demo_tab, 4, 2)"
  by (simp add: table_evals demo_lens_def demo_tab_def)

lemma demo_args: "table_args CODES demo_lens (replicate 4 \<lparr>code_op = 0, code_bits = 0, code_val = 0\<rparr>) 2 [0, 0, 0]"
  by (simp add: table_args_def demo_lens_def max_codes_def)

lemma demo_kraft: "kraft demo_lens = 2 ^ 15"
  by (simp add: kraft_def demo_lens_def)

lemma demo_code: "canon_code demo_lens 2 = 3"
  by code_simp

section \<open>Properties\<close>

text \<open>
  C7: decoding with the tables is correct.  If \<open>inflate_table\<close> returns 0, then for every symbol with
  a code and every input that begins with the symbol's canonical code, looking the input up (through
  a sub-table where the code is longer than the root index) finds the symbol's entry and its exact
  length.
\<close>

theorem inflate_table_decodes:
  assumes "table_args type lens tab bits work"
    and "inflate_table type lens tab bits work = Some (0, tab', used, root)"
    and "s < length lens" "lens ! s \<noteq> 0" "t mod 2 ^ (lens ! s) = canon_code lens s"
  shows "\<exists>b. lookup tab' root t = (sym_entry type s b, lens ! s)"
  using assms by (rule inflate_table_lookup)

theorem inflate_table_decodes_witness: "\<exists>b. lookup demo_tab 2 7 = (sym_entry CODES 2 b, 2)"
  using inflate_table_decodes[OF demo_args demo_run, of 2 7] demo_code by (simp add: demo_lens_def)

lemma inflate_table_returns:
  assumes args: "table_args type lens tab bits work"
  shows "\<exists>ret tab' used bits'. inflate_table type lens tab bits work = Some (ret, tab', used, bits')
    \<and> (ret = - 1 \<longleftrightarrow> bad_lens type lens) \<and> (ret = 0 \<or> ret = 1 \<or> ret = - 1)
    \<and> (ret = 0 \<longrightarrow> length tab' = length tab \<and> used \<le> length tab \<and> 2 ^ bits' \<le> used \<and> 1 \<le> bits' \<and> bits' \<le> 15)"
proof (cases "\<forall>l\<in>set lens. l = 0")
  case True
  then have "\<not> bad_lens type lens" by (simp add: bad_lens_def)
  then show ?thesis
    using inflate_table_cases[OF args, unfolded if_P[OF True]] args by (auto simp: table_args_def)
next
  case nz: False
  note c = inflate_table_cases[OF args, unfolded if_not_P[OF nz]]
  show ?thesis
  proof (cases "bad_lens type lens")
    case True
    then show ?thesis using c[unfolded if_P[OF True]] by auto
  next
    case False
    have len: "table_final type ls w root M st \<Longrightarrow> length (t_tab st) = M" for ls w root M st
      by (simp add: table_final_def)
    show ?thesis
      using c[unfolded if_not_P[OF False]] False
      by (elim exE conjE disjE) (auto dest!: len split: if_splits)
  qed
qed

text \<open>
  C9: with a complete set of lengths the decoder always finds a symbol: whatever the input, the
  lookup ends in an entry that \<open>inflate_table\<close> wrote for a symbol whose code the input begins with.
\<close>

theorem inflate_table_complete:
  assumes "table_args type lens tab bits work" "kraft lens = 2 ^ 15"
    and "inflate_table type lens tab bits work = Some (0, tab', used, root)"
  shows "\<exists>s b. s < length lens \<and> lens ! s \<noteq> 0 \<and> t mod 2 ^ (lens ! s) = canon_code lens s
    \<and> lookup tab' root t = (sym_entry type s b, lens ! s)"
proof -
  have "\<forall>l\<in>set lens. l \<le> 15" using assms(1) by (simp add: table_args_def)
  then obtain s where "s < length lens" "lens ! s \<noteq> 0" "t mod 2 ^ (lens ! s) = canon_code lens s"
    using canon_code_total[OF _ assms(2)] by blast
  then show ?thesis using inflate_table_lookup[OF assms(1,3)] by blast
qed

theorem inflate_table_complete_witness:
  "\<exists>s b. s < length demo_lens \<and> 5 mod 2 ^ (demo_lens ! s) = canon_code demo_lens s
     \<and> lookup demo_tab 2 5 = (sym_entry CODES s b, demo_lens ! s)"
  using inflate_table_complete[OF demo_args demo_kraft demo_run, of 5] by blast

end
