(* ===== verification/Zlib_H.thy ===== *)
theory Zlib_H
  imports Zlib_Prelude
begin

text \<open>
  The public interface \<open>zlib.h\<close>: the flush values, the return codes, and the gzip header that the
  application may have filled in.
\<close>

type_synonym uLong = "64 word"

definition Z_NO_FLUSH :: nat where
  "Z_NO_FLUSH = 0"

definition Z_PARTIAL_FLUSH :: nat where
  "Z_PARTIAL_FLUSH = 1"

definition Z_SYNC_FLUSH :: nat where
  "Z_SYNC_FLUSH = 2"

definition Z_FULL_FLUSH :: nat where
  "Z_FULL_FLUSH = 3"

definition Z_FINISH :: nat where
  "Z_FINISH = 4"

definition Z_BLOCK :: nat where
  "Z_BLOCK = 5"

definition Z_TREES :: nat where
  "Z_TREES = 6"

definition Z_OK :: int where
  "Z_OK = 0"

definition Z_STREAM_END :: int where
  "Z_STREAM_END = 1"

definition Z_NEED_DICT :: int where
  "Z_NEED_DICT = 2"

definition Z_ERRNO :: int where
  "Z_ERRNO = -1"

definition Z_STREAM_ERROR :: int where
  "Z_STREAM_ERROR = -2"

definition Z_DATA_ERROR :: int where
  "Z_DATA_ERROR = -3"

definition Z_MEM_ERROR :: int where
  "Z_MEM_ERROR = -4"

definition Z_BUF_ERROR :: int where
  "Z_BUF_ERROR = -5"

definition Z_VERSION_ERROR :: int where
  "Z_VERSION_ERROR = -6"

definition Z_DEFLATED :: nat where
  "Z_DEFLATED = 8"

lemmas return_codes = Z_OK_def Z_STREAM_END_def Z_NEED_DICT_def Z_ERRNO_def Z_STREAM_ERROR_def Z_DATA_ERROR_def Z_MEM_ERROR_def Z_BUF_ERROR_def Z_VERSION_ERROR_def

lemmas flush_values = Z_NO_FLUSH_def Z_PARTIAL_FLUSH_def Z_SYNC_FLUSH_def Z_FULL_FLUSH_def Z_FINISH_def Z_BLOCK_def Z_TREES_def

text \<open>\<open>struct gz_header_s\<close>; a buffer of the application is a list of its size, \<open>None\<close> is \<open>Z_NULL\<close>.\<close>

record gz_header =
  h_text :: nat
  h_time :: nat
  h_xflags :: nat
  h_os :: nat
  h_extra :: "byte list option"
  h_extra_len :: nat
  h_extra_max :: nat
  h_name :: "byte list option"
  h_name_max :: nat
  h_comment :: "byte list option"
  h_comm_max :: nat
  h_hcrc :: nat
  h_done :: int

end
