(* ===== verification/Inflate_State.thy ===== *)
theory Inflate_State
  imports Inffixed Checked_Memory Zlib_H Adler32 Crc32
begin

text \<open>
  The state of the decompressor (\<open>inflate.h\<close>) and what its handlers share: the bit accumulator, the
  access to the decoding tables, and the sliding window.

  The record joins the stream of the application, the state behind it and the local variables of
  \<open>inflate\<close> that \<open>LOAD\<close> and \<open>RESTORE\<close> copy: \<open>next_in\<close> is the input still available (\<open>avail_in\<close> is its
  length), \<open>out_buf\<close> the bytes written by this call and \<open>avail_out\<close> the space left.  An
  \<open>unsigned long\<close> has 64 bits.
\<close>

section \<open>State\<close>

datatype inflate_mode = HEAD | FLAGS | TIME | OS | EXLEN | EXTRA | NAME | COMMENT | HCRC | DICTID | DICT
  | TYPE0 | TYPEDO | STORED | COPY1 | COPY | TABLE | LENLENS | CODELENS
  | LEN1 | LEN | LENEXT | DIST | DISTEXT | MATCH | LIT | CHECK | LENGTH0 | DONE | BAD | MEM | SYNC

text \<open>The order of the modes, as the enumeration has it.\<close>

primrec mode_number :: "inflate_mode \<Rightarrow> nat" where
  "mode_number HEAD = 16180" | "mode_number FLAGS = 16181" | "mode_number TIME = 16182" | "mode_number OS = 16183"
| "mode_number EXLEN = 16184" | "mode_number EXTRA = 16185" | "mode_number NAME = 16186" | "mode_number COMMENT = 16187"
| "mode_number HCRC = 16188" | "mode_number DICTID = 16189" | "mode_number DICT = 16190" | "mode_number TYPE0 = 16191"
| "mode_number TYPEDO = 16192" | "mode_number STORED = 16193" | "mode_number COPY1 = 16194" | "mode_number COPY = 16195"
| "mode_number TABLE = 16196" | "mode_number LENLENS = 16197" | "mode_number CODELENS = 16198" | "mode_number LEN1 = 16199"
| "mode_number LEN = 16200" | "mode_number LENEXT = 16201" | "mode_number DIST = 16202" | "mode_number DISTEXT = 16203"
| "mode_number MATCH = 16204" | "mode_number LIT = 16205" | "mode_number CHECK = 16206" | "mode_number LENGTH0 = 16207"
| "mode_number DONE = 16208" | "mode_number BAD = 16209" | "mode_number MEM = 16210" | "mode_number SYNC = 16211"

lemma mode_number_inject: "mode_number a = mode_number b \<Longrightarrow> a = b"
  by (cases a; cases b) simp_all

instantiation inflate_mode :: linorder
begin

definition less_eq_inflate_mode :: "inflate_mode \<Rightarrow> inflate_mode \<Rightarrow> bool" where
  "less_eq_inflate_mode a b \<longleftrightarrow> mode_number a \<le> mode_number b"

definition less_inflate_mode :: "inflate_mode \<Rightarrow> inflate_mode \<Rightarrow> bool" where
  "less_inflate_mode a b \<longleftrightarrow> mode_number a < mode_number b"

instance
  by standard (auto simp: less_eq_inflate_mode_def less_inflate_mode_def intro: mode_number_inject)

end

text \<open>\<open>lencode\<close> and \<open>distcode\<close> point into the fixed tables or into \<open>codes\<close>.\<close>

datatype code_ptr = Lenfix | Distfix | Codes nat

record inflate_state =
  next_in :: "byte list"
  out_buf :: "byte list"
  avail_out :: nat
  total_in :: uLong
  total_out :: uLong
  msg :: "string option"
  z_adler :: uLong
  z_data_type :: nat
  i_out :: nat
  i_mode :: inflate_mode
  i_last :: nat
  i_wrap :: nat
  i_havedict :: nat
  i_flags :: nat
  i_dmax :: nat
  i_check :: uLong
  i_total :: uLong
  i_head :: "gz_header option"
  i_wbits :: nat
  i_wsize :: nat
  i_whave :: nat
  i_wnext :: nat
  i_window :: "byte list option"
  i_hold :: nat
  i_bits :: nat
  i_length :: nat
  i_offset :: nat
  i_extra :: nat
  i_lencode :: code_ptr
  i_distcode :: code_ptr
  i_lenbits :: nat
  i_distbits :: nat
  i_ncode :: nat
  i_nlen :: nat
  i_ndist :: nat
  i_have :: nat
  i_next :: nat
  i_lens :: "nat list"
  i_work :: "nat list"
  i_codes :: "code list"
  i_sane :: bool
  i_back :: int
  i_was :: nat

section \<open>The bit accumulator\<close>

definition INITBITS :: "inflate_state \<Rightarrow> inflate_state" where
  "INITBITS st = st\<lparr>i_hold := 0, i_bits := 0\<rparr>"

definition PULLBYTE :: "inflate_state \<Rightarrow> inflate_state option" where
  "PULLBYTE st = (case next_in st of [] \<Rightarrow> None
     | b # bs \<Rightarrow> Some (st\<lparr>next_in := bs, i_hold := (i_hold st + unat b * 2 ^ i_bits st) mod 2 ^ 64, i_bits := i_bits st + 8\<rparr>))"

text \<open>\<open>NEEDBITS\<close>: the bytes pulled stay in the accumulator when the input ends.\<close>

function NEEDBITS :: "nat \<Rightarrow> inflate_state \<Rightarrow> inflate_state" where
  "NEEDBITS n st = (if i_bits st < n then (case PULLBYTE st of None \<Rightarrow> st | Some st' \<Rightarrow> NEEDBITS n st') else st)"
  by pat_completeness auto
termination
  by (relation "measure (\<lambda>(n, st). length (next_in st))") (auto simp: PULLBYTE_def split: list.splits)

declare NEEDBITS.simps [simp del]

definition BITS :: "nat \<Rightarrow> inflate_state \<Rightarrow> nat" where
  "BITS n st = i_hold st mod 2 ^ n"

definition DROPBITS :: "nat \<Rightarrow> inflate_state \<Rightarrow> inflate_state" where
  "DROPBITS n st = st\<lparr>i_hold := i_hold st div 2 ^ n, i_bits := i_bits st - n\<rparr>"

definition BYTEBITS :: "inflate_state \<Rightarrow> inflate_state" where
  "BYTEBITS st = st\<lparr>i_hold := i_hold st div 2 ^ (i_bits st mod 8), i_bits := i_bits st - i_bits st mod 8\<rparr>"

section \<open>Decoding with the tables\<close>

definition tab_rd :: "inflate_state \<Rightarrow> code_ptr \<Rightarrow> nat \<Rightarrow> code option" where
  "tab_rd st p i = (case p of Lenfix \<Rightarrow> rd lenfix i | Distfix \<Rightarrow> rd distfix i | Codes k \<Rightarrow> rd (i_codes st) (k + i))"

text \<open>The result of a loop that may pull bytes: a table access out of bounds, no more input, or an entry.\<close>

datatype fetch = Crash | Short inflate_state | Got inflate_state code

text \<open>\<open>for (;;) { here = tab[BITS(bits)]; if (here.bits <= bits) break; PULLBYTE(); }\<close>\<close>

function root_loop :: "code_ptr \<Rightarrow> nat \<Rightarrow> inflate_state \<Rightarrow> fetch" where
  "root_loop p nb st = (case tab_rd st p (BITS nb st) of None \<Rightarrow> Crash
     | Some here \<Rightarrow> if code_bits here \<le> i_bits st then Got st here
        else (case PULLBYTE st of None \<Rightarrow> Short st | Some st' \<Rightarrow> root_loop p nb st'))"
  by pat_completeness auto
termination
  by (relation "measure (\<lambda>(p, nb, st). length (next_in st))") (auto simp: PULLBYTE_def split: list.splits)

declare root_loop.simps [simp del]

text \<open>The same for the sub-table that the entry \<open>lst\<close> links to.\<close>

function sub_loop :: "code_ptr \<Rightarrow> code \<Rightarrow> inflate_state \<Rightarrow> fetch" where
  "sub_loop p lst st = (case tab_rd st p (code_val lst + BITS (code_bits lst + code_op lst) st div 2 ^ code_bits lst) of None \<Rightarrow> Crash
     | Some here \<Rightarrow> if code_bits lst + code_bits here \<le> i_bits st then Got st here
        else (case PULLBYTE st of None \<Rightarrow> Short st | Some st' \<Rightarrow> sub_loop p lst st'))"
  by pat_completeness auto
termination
  by (relation "measure (\<lambda>(p, lst, st). length (next_in st))") (auto simp: PULLBYTE_def split: list.splits)

declare sub_loop.simps [simp del]

text \<open>\<open>fixedtables\<close>, with the tables of \<open>inffixed.h\<close>.\<close>

definition fixedtables :: "inflate_state \<Rightarrow> inflate_state" where
  "fixedtables st = st\<lparr>i_lencode := Lenfix, i_lenbits := 9, i_distcode := Distfix, i_distbits := 5\<rparr>"

text \<open>A call of \<open>inflate_table\<close> on the space from \<open>state->next\<close> on; its result and the new state.\<close>

definition call_inflate_table :: "codetype \<Rightarrow> nat list \<Rightarrow> nat \<Rightarrow> inflate_state \<Rightarrow> (int \<times> nat \<times> inflate_state) option" where
  "call_inflate_table type lens bits st = do {
     (ret, tab, used, bits') \<leftarrow> inflate_table type lens (drop (i_next st) (i_codes st)) bits (i_work st);
     Some (ret, bits', st\<lparr>i_codes := take (i_next st) (i_codes st) @ tab, i_next := i_next st + used\<rparr>) }"

section \<open>The sliding window\<close>

text \<open>
  \<open>updatewindow(strm, end, copy)\<close>, with \<open>data\<close> the \<open>copy\<close> bytes before \<open>end\<close>.  \<open>alloc\<close> is what \<open>ZALLOC\<close>
  returns for the window: \<open>None\<close>, or the new memory.  The result is the value returned and the state.
\<close>

definition updatewindow :: "byte list option \<Rightarrow> byte list \<Rightarrow> inflate_state \<Rightarrow> (nat \<times> inflate_state) option" where
  "updatewindow alloc data st =
     (let copy = length data;
          st = (if i_window st = None then st\<lparr>i_window := alloc\<rparr> else st)
      in case i_window st of None \<Rightarrow> Some (1, st)
         | Some window \<Rightarrow>
           let st = (if i_wsize st = 0 then st\<lparr>i_wsize := 2 ^ i_wbits st, i_wnext := 0, i_whave := 0\<rparr> else st) in
           if copy \<ge> i_wsize st then do {
             w \<leftarrow> memcpy window 0 (drop (copy - i_wsize st) data) (i_wsize st);
             Some (0, st\<lparr>i_window := Some w, i_wnext := 0, i_whave := i_wsize st\<rparr>) }
           else do {
             let dist = (if i_wsize st - i_wnext st > copy then copy else i_wsize st - i_wnext st);
             w \<leftarrow> memcpy window (i_wnext st) data dist;
             if copy - dist \<noteq> 0 then do {
               w \<leftarrow> memcpy w 0 (drop dist data) (copy - dist);
               Some (0, st\<lparr>i_window := Some w, i_wnext := copy - dist, i_whave := i_wsize st\<rparr>) }
             else Some (0, st\<lparr>i_window := Some w,
               i_wnext := (if i_wnext st + dist = i_wsize st then 0 else i_wnext st + dist),
               i_whave := (if i_whave st < i_wsize st then i_whave st + dist else i_whave st)\<rparr>) })"

end
