(* ===== verification/Inffast.thy ===== *)
theory Inffast
  imports Inflate_State
begin

text \<open>
  The fast decoding loop (\<open>inffast.c\<close>).  It runs while six bytes of input and 258 bytes of output are
  available, so that it checks neither inside; the model checks every access and fails out of bounds.

  The local variables are a record of their own; the input at entry is an argument, and \<open>f_in\<close> the
  index of the next byte in it, so that unused bytes can be given back.
\<close>

section \<open>Variables\<close>

record fast =
  f_in :: nat
  f_hold :: nat
  f_bits :: nat
  f_out :: "byte list"

text \<open>\<open>hold += (unsigned long)(*in++) << bits; bits += 8;\<close>\<close>

definition fast_byte :: "inflate_state \<Rightarrow> fast \<Rightarrow> fast option" where
  "fast_byte st f = do {
     b \<leftarrow> rd (next_in st) (f_in f);
     Some (f\<lparr>f_in := f_in f + 1, f_hold := (f_hold f + unat b * 2 ^ f_bits f) mod 2 ^ 64, f_bits := f_bits f + 8\<rparr>) }"

definition fast_15 :: "inflate_state \<Rightarrow> fast \<Rightarrow> fast option" where
  "fast_15 st f = (if f_bits f < 15 then do { f \<leftarrow> fast_byte st f; fast_byte st f } else Some f)"

text \<open>\<open>hold >>= op; bits -= op;\<close>, which must not take more bits than there are.\<close>

definition fast_drop :: "nat \<Rightarrow> fast \<Rightarrow> fast option" where
  "fast_drop n f = (if n \<le> f_bits f then Some (f\<lparr>f_hold := f_hold f div 2 ^ n, f_bits := f_bits f - n\<rparr>) else None)"

text \<open>\<open>*out++ = b;\<close> within the space of the application's buffer.\<close>

definition fast_put :: "inflate_state \<Rightarrow> byte \<Rightarrow> fast \<Rightarrow> fast option" where
  "fast_put st b f = (if length (f_out f) < length (out_buf st) + avail_out st then Some (f\<lparr>f_out := f_out f @ [b]\<rparr>) else None)"

section \<open>Copying a match\<close>

text \<open>The pointer \<open>from\<close>, into the window or into the output.\<close>

datatype copy_src = From_window nat | From_out nat

fun copy_read :: "inflate_state \<Rightarrow> copy_src \<Rightarrow> fast \<Rightarrow> (byte \<times> copy_src) option" where
  "copy_read st (From_window p) f = do { w \<leftarrow> i_window st; b \<leftarrow> rd w p; Some (b, From_window (p + 1)) }"
| "copy_read st (From_out p) f = do { b \<leftarrow> rd (f_out f) p; Some (b, From_out (p + 1)) }"

text \<open>\<open>*out++ = *from++;\<close>\<close>

definition copy1 :: "inflate_state \<Rightarrow> copy_src \<times> fast \<Rightarrow> (copy_src \<times> fast) option" where
  "copy1 st x = (case x of (src, f) \<Rightarrow> do { (b, src) \<leftarrow> copy_read st src f; f \<leftarrow> fast_put st b f; Some (src, f) })"

text \<open>\<open>do { *out++ = *from++; } while (--n);\<close>, which runs off for \<open>n = 0\<close>.\<close>

fun copy_do :: "inflate_state \<Rightarrow> nat \<Rightarrow> copy_src \<times> fast \<Rightarrow> (copy_src \<times> fast) option" where
  "copy_do st 0 x = None"
| "copy_do st (Suc n) x = do { x \<leftarrow> copy1 st x; if n = 0 then Some x else copy_do st n x }"

fun copy3_while :: "inflate_state \<Rightarrow> nat \<Rightarrow> copy_src \<times> fast \<Rightarrow> (nat \<times> copy_src \<times> fast) option" where
  "copy3_while st len x = (if len > 2 then do { x \<leftarrow> copy1 st x; x \<leftarrow> copy1 st x; x \<leftarrow> copy1 st x; copy3_while st (len - 3) x }
     else Some (len, x))"

declare copy3_while.simps [simp del]

definition copy_rest :: "inflate_state \<Rightarrow> nat \<Rightarrow> copy_src \<times> fast \<Rightarrow> (copy_src \<times> fast) option" where
  "copy_rest st len x = (if len \<noteq> 0 then do { x \<leftarrow> copy1 st x; if len > 1 then copy1 st x else Some x } else Some x)"

text \<open>Copying direct from the output, at least three bytes.\<close>

definition copy_direct :: "inflate_state \<Rightarrow> nat \<Rightarrow> copy_src \<times> fast \<Rightarrow> (copy_src \<times> fast) option" where
  "copy_direct st len x = (if len < 3 then None else do {
     x \<leftarrow> copy1 st x; x \<leftarrow> copy1 st x; x \<leftarrow> copy1 st x;
     (len, x) \<leftarrow> copy3_while st (len - 3) x;
     copy_rest st len x })"

text \<open>The three cases of a match that begins in the window; \<open>op\<close> is the distance back in the window.\<close>

definition window_part :: "inflate_state \<Rightarrow> nat \<Rightarrow> nat \<Rightarrow> nat \<Rightarrow> fast \<Rightarrow> (nat \<times> copy_src \<times> fast) option" where
  "window_part st op dist len f =
     (if i_wnext st = 0 then
        (if i_wsize st < op then None
         else if op < len then do {
           (src, f) \<leftarrow> copy_do st op (From_window (i_wsize st - op), f);
           if dist > length (f_out f) then None else Some (len - op, From_out (length (f_out f) - dist), f) }
         else Some (len, From_window (i_wsize st - op), f))
      else if i_wnext st < op then
        (if i_wsize st + i_wnext st < op then None
         else
           let from = i_wsize st + i_wnext st - op; op = op - i_wnext st in
           if op < len then do {
             (src, f) \<leftarrow> copy_do st op (From_window from, f);
             let len = len - op;
             if i_wnext st < len then do {
               (src, f) \<leftarrow> copy_do st (i_wnext st) (From_window 0, f);
               if dist > length (f_out f) then None else Some (len - i_wnext st, From_out (length (f_out f) - dist), f) }
             else Some (len, From_window 0, f) }
           else Some (len, From_window from, f))
      else
        (if op < len then do {
           (src, f) \<leftarrow> copy_do st op (From_window (i_wnext st - op), f);
           if dist > length (f_out f) then None else Some (len - op, From_out (length (f_out f) - dist), f) }
         else Some (len, From_window (i_wnext st - op), f)))"

section \<open>Decoding\<close>

text \<open>How one round of the loop ends: it may go on, or the loop is left in a mode with a message.\<close>

datatype round = Next fast | Halt fast inflate_mode "string option"

text \<open>The end of a distance code: the copy, unless the distance is too far back.\<close>

definition fast_match :: "inflate_state \<Rightarrow> nat \<Rightarrow> nat \<Rightarrow> fast \<Rightarrow> round option" where
  "fast_match st len dist f =
     (let op = length (f_out f) - length (out_buf st) + (i_out st - avail_out st) in
      if dist > op then
        let op = dist - op in
        if op > i_whave st \<and> i_sane st then Some (Halt f BAD (Some ''invalid distance too far back''))
        else do {
          (len, x) \<leftarrow> window_part st op dist len f;
          (len, x) \<leftarrow> copy3_while st len x;
          (src, f) \<leftarrow> copy_rest st len x;
          Some (Next f) }
      else do {
        (src, f) \<leftarrow> (if dist > length (f_out f) then None else copy_direct st len (From_out (length (f_out f) - dist), f));
        Some (Next f) })"

text \<open>From the label \<open>dodist\<close> on, with the table entry \<open>here\<close>.\<close>

partial_function (option) dodist :: "inflate_state \<Rightarrow> nat \<Rightarrow> code \<Rightarrow> fast \<Rightarrow> round option" where
  "dodist st len here f = do {
     f \<leftarrow> fast_drop (code_bits here) f;
     let op = code_op here;
     if op AND 16 \<noteq> 0 then do {
       let ex = op AND 15;
       f \<leftarrow> (if f_bits f < ex then do { f \<leftarrow> fast_byte st f; if f_bits f < ex then fast_byte st f else Some f } else Some f);
       let dist = code_val here + f_hold f mod 2 ^ ex;
       f \<leftarrow> fast_drop ex f;
       fast_match st len dist f }
     else if op AND 64 = 0 then do {
       here \<leftarrow> tab_rd st (i_distcode st) (code_val here + f_hold f mod 2 ^ op);
       dodist st len here f }
     else Some (Halt f BAD (Some ''invalid distance code'')) }"

declare dodist.simps [code]

text \<open>From the label \<open>dolen\<close> on.\<close>

partial_function (option) dolen :: "inflate_state \<Rightarrow> code \<Rightarrow> fast \<Rightarrow> round option" where
  "dolen st here f = do {
     f \<leftarrow> fast_drop (code_bits here) f;
     let op = code_op here;
     if op = 0 then do { f \<leftarrow> fast_put st (of_nat (code_val here)) f; Some (Next f) }
     else if op AND 16 \<noteq> 0 then do {
       let ex = op AND 15;
       f \<leftarrow> (if ex \<noteq> 0 \<and> f_bits f < ex then fast_byte st f else Some f);
       let len = code_val here + f_hold f mod 2 ^ ex;
       f \<leftarrow> fast_drop ex f;
       f \<leftarrow> fast_15 st f;
       here \<leftarrow> tab_rd st (i_distcode st) (f_hold f mod 2 ^ i_distbits st);
       dodist st len here f }
     else if op AND 64 = 0 then do {
       here \<leftarrow> tab_rd st (i_lencode st) (code_val here + f_hold f mod 2 ^ op);
       dolen st here f }
     else if op AND 32 \<noteq> 0 then Some (Halt f TYPE0 None)
     else Some (Halt f BAD (Some ''invalid literal/length code'')) }"

declare dolen.simps [code]

definition fast_round :: "inflate_state \<Rightarrow> fast \<Rightarrow> round option" where
  "fast_round st f = do {
     f \<leftarrow> fast_15 st f;
     here \<leftarrow> tab_rd st (i_lencode st) (f_hold f mod 2 ^ i_lenbits st);
     dolen st here f }"

text \<open>The \<open>do ... while (in < last && out < end)\<close> loop; \<open>last\<close> is 5 bytes and \<open>end\<close> 257 bytes before the end.\<close>

partial_function (option) fast_loop :: "inflate_state \<Rightarrow> fast \<Rightarrow> (fast \<times> inflate_mode \<times> string option) option" where
  "fast_loop st f = do {
     r \<leftarrow> fast_round st f;
     case r of Halt f m t \<Rightarrow> Some (f, m, t)
     | Next f \<Rightarrow>
       if f_in f + 5 < length (next_in st) \<and> length (f_out f) + 257 < length (out_buf st) + avail_out st then fast_loop st f
       else Some (f, LEN, None) }"

declare fast_loop.simps [code]

text \<open>The mode is \<open>LEN\<close> at entry, and \<open>msg\<close> only changes with an error.\<close>

definition inflate_fast :: "inflate_state \<Rightarrow> inflate_state option" where
  "inflate_fast st = do {
     (f, m, t) \<leftarrow> fast_loop st \<lparr>f_in = 0, f_hold = i_hold st, f_bits = i_bits st, f_out = out_buf st\<rparr>;
     let len = f_bits f div 8;
     if f_in f < len then None else
       Some (st\<lparr>next_in := drop (f_in f - len) (next_in st), out_buf := f_out f,
         avail_out := length (out_buf st) + avail_out st - length (f_out f),
         i_hold := f_hold f mod 2 ^ (f_bits f - 8 * len), i_bits := f_bits f - 8 * len,
         i_mode := m, msg := (if t = None then msg st else t)\<rparr>) }"

end
