(* ===== verification/Inflate.thy ===== *)
theory Inflate
  imports Inffast
begin

text \<open>
  The decompressor (\<open>inflate.c\<close>).  Each case of the \<open>switch\<close> in \<open>inflate\<close> is a definition; falling
  through to the next case is another turn of the loop, as the code has set the mode by then.  The
  loops in \<open>LENLENS\<close> and \<open>CODELENS\<close> take one turn for each round.
\<close>

section \<open>The state machine\<close>

text \<open>
  The end of a case: \<open>break\<close>, \<open>goto inf_leave\<close> with the value of \<open>ret\<close>, \<open>return\<close>, or an access out of bounds.
\<close>

datatype step = Go inflate_state | Leave inflate_state int | Return inflate_state int | Fault

definition need :: "nat \<Rightarrow> inflate_state \<Rightarrow> (inflate_state \<Rightarrow> step) \<Rightarrow> step" where
  "need n st k = (let st = NEEDBITS n st in if n \<le> i_bits st then k st else Leave st Z_OK)"

definition bad :: "string \<Rightarrow> inflate_state \<Rightarrow> step" where
  "bad m st = Go (st\<lparr>msg := Some m, i_mode := BAD\<rparr>)"

text \<open>The check functions: \<open>CRC2\<close>, \<open>CRC4\<close> and \<open>UPDATE\<close>.\<close>

definition CRC2 :: "uLong \<Rightarrow> nat \<Rightarrow> uLong" where
  "CRC2 c w = crc32_upd c [of_nat w, of_nat (w div 2 ^ 8)]"

definition CRC4 :: "uLong \<Rightarrow> nat \<Rightarrow> uLong" where
  "CRC4 c w = crc32_upd c [of_nat w, of_nat (w div 2 ^ 8), of_nat (w div 2 ^ 16), of_nat (w div 2 ^ 24)]"

definition UPDATE :: "inflate_state \<Rightarrow> uLong \<Rightarrow> byte list \<Rightarrow> uLong" where
  "UPDATE st c bs = (if i_flags st \<noteq> 0 then crc32_upd c bs else adler32 c (Some bs))"

definition zswap32 :: "nat \<Rightarrow> uLong" where
  "zswap32 w = ucast (ZSWAP32 (of_nat w))"

section \<open>The headers\<close>

definition do_head :: "inflate_state \<Rightarrow> step" where
  "do_head st = (if i_wrap st = 0 then Go (st\<lparr>i_mode := TYPEDO\<rparr>) else need 16 st (\<lambda>st.
     if i_wrap st AND 2 \<noteq> 0 \<and> i_hold st = 0x8b1f then
       let st = (if i_wbits st = 0 then st\<lparr>i_wbits := 15\<rparr> else st);
           st = st\<lparr>i_check := CRC2 (crc32 True 0 0 None) (i_hold st)\<rparr>
       in Go ((INITBITS st)\<lparr>i_mode := FLAGS\<rparr>)
     else
       let st = st\<lparr>i_flags := 0\<rparr>;
           st = st\<lparr>i_head := map_option (\<lambda>h. h\<lparr>h_done := -1\<rparr>) (i_head st)\<rparr>
       in if i_wrap st AND 1 = 0 \<or> (BITS 8 st * 2 ^ 8 + i_hold st div 2 ^ 8) mod 31 \<noteq> 0 then bad ''incorrect header check'' st
          else if BITS 4 st \<noteq> Z_DEFLATED then bad ''unknown compression method'' st
          else
            let st = DROPBITS 4 st;
                len = BITS 4 st + 8;
                st = (if i_wbits st = 0 then st\<lparr>i_wbits := len\<rparr> else st)
            in if len > 15 \<or> len > i_wbits st then bad ''invalid window size'' st
               else
                 let st = st\<lparr>i_dmax := 2 ^ len, z_adler := adler32 0 None, i_check := adler32 0 None,
                             i_mode := (if i_hold st AND 0x200 \<noteq> 0 then DICTID else TYPE0)\<rparr>
                 in Go (INITBITS st)))"

text \<open>\<open>(state->flags & 0x0200) && (state->wrap & 4)\<close>\<close>

definition hcrc_on :: "inflate_state \<Rightarrow> bool" where
  "hcrc_on st \<longleftrightarrow> i_flags st AND 0x200 \<noteq> 0 \<and> i_wrap st AND 4 \<noteq> 0"

definition do_flags :: "inflate_state \<Rightarrow> step" where
  "do_flags st = need 16 st (\<lambda>st.
     let st = st\<lparr>i_flags := i_hold st\<rparr> in
     if i_flags st AND 0xff \<noteq> Z_DEFLATED then bad ''unknown compression method'' st
     else if i_flags st AND 0xe000 \<noteq> 0 then bad ''unknown header flags set'' st
     else
       let st = st\<lparr>i_head := map_option (\<lambda>h. h\<lparr>h_text := (i_hold st div 2 ^ 8) AND 1\<rparr>) (i_head st)\<rparr>;
           st = (if hcrc_on st then st\<lparr>i_check := CRC2 (i_check st) (i_hold st)\<rparr> else st)
       in Go ((INITBITS st)\<lparr>i_mode := TIME\<rparr>))"

definition do_time :: "inflate_state \<Rightarrow> step" where
  "do_time st = need 32 st (\<lambda>st.
     let st = st\<lparr>i_head := map_option (\<lambda>h. h\<lparr>h_time := i_hold st\<rparr>) (i_head st)\<rparr>;
         st = (if hcrc_on st then st\<lparr>i_check := CRC4 (i_check st) (i_hold st)\<rparr> else st)
     in Go ((INITBITS st)\<lparr>i_mode := OS\<rparr>))"

definition do_os :: "inflate_state \<Rightarrow> step" where
  "do_os st = need 16 st (\<lambda>st.
     let st = st\<lparr>i_head := map_option (\<lambda>h. h\<lparr>h_xflags := i_hold st AND 0xff, h_os := i_hold st div 2 ^ 8\<rparr>) (i_head st)\<rparr>;
         st = (if hcrc_on st then st\<lparr>i_check := CRC2 (i_check st) (i_hold st)\<rparr> else st)
     in Go ((INITBITS st)\<lparr>i_mode := EXLEN\<rparr>))"

definition do_exlen :: "inflate_state \<Rightarrow> step" where
  "do_exlen st = (if i_flags st AND 0x400 \<noteq> 0 then need 16 st (\<lambda>st.
       let st = st\<lparr>i_length := i_hold st, i_head := map_option (\<lambda>h. h\<lparr>h_extra_len := i_hold st\<rparr>) (i_head st)\<rparr>;
           st = (if hcrc_on st then st\<lparr>i_check := CRC2 (i_check st) (i_hold st)\<rparr> else st)
       in Go ((INITBITS st)\<lparr>i_mode := EXTRA\<rparr>))
     else Go (st\<lparr>i_head := map_option (\<lambda>h. h\<lparr>h_extra := None\<rparr>) (i_head st), i_mode := EXTRA\<rparr>))"

text \<open>
  The copy of the extra field into the application's buffer, with the 32 bit arithmetic of the code:
  \<open>zmemcpy(extra + len, next, len + copy > extra_max ? extra_max - len : copy)\<close>.
\<close>

definition copy_extra :: "nat \<Rightarrow> nat \<Rightarrow> byte list \<Rightarrow> gz_header \<Rightarrow> gz_header option" where
  "copy_extra slen copy inp h = (case h_extra h of None \<Rightarrow> Some h
     | Some buf \<Rightarrow> do {
         let len = (h_extra_len h + 2 ^ 32 - slen) mod 2 ^ 32;
         let n = (if (len + copy) mod 2 ^ 32 > h_extra_max h then (h_extra_max h + 2 ^ 32 - len) mod 2 ^ 32 else copy);
         buf \<leftarrow> memcpy buf len inp n;
         Some (h\<lparr>h_extra := Some buf\<rparr>) })"

definition do_extra :: "inflate_state \<Rightarrow> step" where
  "do_extra st = (if i_flags st AND 0x400 \<noteq> 0 then
       let copy = min (i_length st) (length (next_in st)) in
       (if copy \<noteq> 0 then
          (case (case i_head st of None \<Rightarrow> Some None | Some h \<Rightarrow> map_option Some (copy_extra (i_length st) copy (next_in st) h)) of
             None \<Rightarrow> Fault
           | Some hdr \<Rightarrow>
             let st = st\<lparr>i_head := hdr\<rparr>;
                 st = (if hcrc_on st then st\<lparr>i_check := crc32_upd (i_check st) (take copy (next_in st))\<rparr> else st);
                 st = st\<lparr>next_in := drop copy (next_in st), i_length := i_length st - copy\<rparr>
             in if i_length st \<noteq> 0 then Leave st Z_OK else Go (st\<lparr>i_length := 0, i_mode := NAME\<rparr>))
        else if i_length st \<noteq> 0 then Leave st Z_OK else Go (st\<lparr>i_length := 0, i_mode := NAME\<rparr>))
     else Go (st\<lparr>i_length := 0, i_mode := NAME\<rparr>))"

text \<open>
  The \<open>do ... while (len && copy < have)\<close> loop over a zero-terminated string: the number of bytes
  read, the last of them, and the buffer and its fill with the bytes stored.
\<close>

fun string_loop :: "byte list \<Rightarrow> nat \<Rightarrow> byte list option \<Rightarrow> nat \<Rightarrow> (nat \<times> byte \<times> byte list option \<times> nat) option" where
  "string_loop [] mx buf len = None"
| "string_loop (b # bs) mx buf len = do {
     (buf, len) \<leftarrow> (case buf of None \<Rightarrow> Some (None, len)
        | Some w \<Rightarrow> if len < mx then do { w \<leftarrow> wr w len b; Some (Some w, len + 1) } else Some (Some w, len));
     if b \<noteq> 0 \<and> bs \<noteq> [] then do { (n, z, r) \<leftarrow> string_loop bs mx buf len; Some (n + 1, z, r) }
     else Some (1, b, buf, len) }"

definition end_string :: "nat \<Rightarrow> byte \<Rightarrow> inflate_state \<Rightarrow> (inflate_state \<Rightarrow> inflate_state) \<Rightarrow> step" where
  "end_string copy z st k =
     (let st = (if hcrc_on st then st\<lparr>i_check := crc32_upd (i_check st) (take copy (next_in st))\<rparr> else st);
          st = st\<lparr>next_in := drop copy (next_in st)\<rparr>
      in if z \<noteq> 0 then Leave st Z_OK else Go (k st))"

definition do_name :: "inflate_state \<Rightarrow> step" where
  "do_name st = (if i_flags st AND 0x800 \<noteq> 0 then
       (if next_in st = [] then Leave st Z_OK
        else case string_loop (next_in st) (case i_head st of None \<Rightarrow> 0 | Some h \<Rightarrow> h_name_max h)
                (Option.bind (i_head st) h_name) (i_length st) of
             None \<Rightarrow> Fault
           | Some (copy, z, buf, len) \<Rightarrow>
             end_string copy z (st\<lparr>i_head := map_option (\<lambda>h. h\<lparr>h_name := buf\<rparr>) (i_head st), i_length := len\<rparr>)
               (\<lambda>st. st\<lparr>i_length := 0, i_mode := COMMENT\<rparr>))
     else Go (st\<lparr>i_head := map_option (\<lambda>h. h\<lparr>h_name := None\<rparr>) (i_head st), i_length := 0, i_mode := COMMENT\<rparr>))"

definition do_comment :: "inflate_state \<Rightarrow> step" where
  "do_comment st = (if i_flags st AND 0x1000 \<noteq> 0 then
       (if next_in st = [] then Leave st Z_OK
        else case string_loop (next_in st) (case i_head st of None \<Rightarrow> 0 | Some h \<Rightarrow> h_comm_max h)
                (Option.bind (i_head st) h_comment) (i_length st) of
             None \<Rightarrow> Fault
           | Some (copy, z, buf, len) \<Rightarrow>
             end_string copy z (st\<lparr>i_head := map_option (\<lambda>h. h\<lparr>h_comment := buf\<rparr>) (i_head st), i_length := len\<rparr>)
               (\<lambda>st. st\<lparr>i_mode := HCRC\<rparr>))
     else Go (st\<lparr>i_head := map_option (\<lambda>h. h\<lparr>h_comment := None\<rparr>) (i_head st), i_mode := HCRC\<rparr>))"

definition end_header :: "inflate_state \<Rightarrow> step" where
  "end_header st = Go (st\<lparr>i_head := map_option (\<lambda>h. h\<lparr>h_hcrc := (i_flags st div 2 ^ 9) AND 1, h_done := 1\<rparr>) (i_head st),
     z_adler := crc32 True 0 0 None, i_check := crc32 True 0 0 None, i_mode := TYPE0\<rparr>)"

definition do_hcrc :: "inflate_state \<Rightarrow> step" where
  "do_hcrc st = (if i_flags st AND 0x200 \<noteq> 0 then need 16 st (\<lambda>st.
       if i_wrap st AND 4 \<noteq> 0 \<and> i_hold st \<noteq> unat (i_check st AND 0xffff) then bad ''header crc mismatch'' st
       else end_header (INITBITS st))
     else end_header st)"

definition do_dictid :: "inflate_state \<Rightarrow> step" where
  "do_dictid st = need 32 st (\<lambda>st.
     let c = zswap32 (i_hold st) in Go ((INITBITS (st\<lparr>z_adler := c, i_check := c\<rparr>))\<lparr>i_mode := DICT\<rparr>))"

definition do_dict :: "inflate_state \<Rightarrow> step" where
  "do_dict st = (if i_havedict st = 0 then Return st Z_NEED_DICT
     else Go (st\<lparr>z_adler := adler32 0 None, i_check := adler32 0 None, i_mode := TYPE0\<rparr>))"

section \<open>Blocks\<close>

definition do_typedo :: "nat \<Rightarrow> inflate_state \<Rightarrow> step" where
  "do_typedo flush st = (if i_last st \<noteq> 0 then Go ((BYTEBITS st)\<lparr>i_mode := CHECK\<rparr>)
     else need 3 st (\<lambda>st.
       let st = DROPBITS 1 (st\<lparr>i_last := BITS 1 st\<rparr>) in
       if BITS 2 st = 0 then Go (DROPBITS 2 (st\<lparr>i_mode := STORED\<rparr>))
       else if BITS 2 st = 1 then
         let st = DROPBITS 2 ((fixedtables st)\<lparr>i_mode := LEN1\<rparr>) in if flush = Z_TREES then Leave st Z_OK else Go st
       else if BITS 2 st = 2 then Go (DROPBITS 2 (st\<lparr>i_mode := TABLE\<rparr>))
       else Go (DROPBITS 2 (st\<lparr>msg := Some ''invalid block type'', i_mode := BAD\<rparr>))))"

text \<open>The mode stays \<open>TYPE\<close> while the code of \<open>TYPEDO\<close> runs.\<close>

definition do_type :: "nat \<Rightarrow> inflate_state \<Rightarrow> step" where
  "do_type flush st = (if flush = Z_BLOCK \<or> flush = Z_TREES then Leave st Z_OK else do_typedo flush st)"

definition do_stored :: "nat \<Rightarrow> inflate_state \<Rightarrow> step" where
  "do_stored flush st = need 32 (BYTEBITS st) (\<lambda>st.
     if i_hold st AND 0xffff \<noteq> (i_hold st div 2 ^ 16) XOR 0xffff then bad ''invalid stored block lengths'' st
     else
       let st = (INITBITS (st\<lparr>i_length := i_hold st AND 0xffff\<rparr>))\<lparr>i_mode := COPY1\<rparr>
       in if flush = Z_TREES then Leave st Z_OK else Go st)"

definition do_copy :: "inflate_state \<Rightarrow> step" where
  "do_copy st = (if i_length st \<noteq> 0 then
       let copy = min (min (i_length st) (length (next_in st))) (avail_out st) in
       if copy = 0 then Leave st Z_OK
       else Go (st\<lparr>out_buf := out_buf st @ take copy (next_in st), next_in := drop copy (next_in st),
                   avail_out := avail_out st - copy, i_length := i_length st - copy\<rparr>)
     else Go (st\<lparr>i_mode := TYPE0\<rparr>))"

definition do_table :: "inflate_state \<Rightarrow> step" where
  "do_table st = need 14 st (\<lambda>st.
     let st = DROPBITS 5 (st\<lparr>i_nlen := BITS 5 st + 257\<rparr>);
         st = DROPBITS 5 (st\<lparr>i_ndist := BITS 5 st + 1\<rparr>);
         st = DROPBITS 4 (st\<lparr>i_ncode := BITS 4 st + 4\<rparr>)
     in if i_nlen st > 286 \<or> i_ndist st > 30 then bad ''too many length or distance symbols'' st
        else Go (st\<lparr>i_have := 0, i_mode := LENLENS\<rparr>))"

definition order :: "nat list" where
  "order = [16, 17, 18, 0, 8, 7, 9, 6, 10, 5, 11, 4, 12, 3, 13, 2, 14, 1, 15]"

text \<open>\<open>while (state->have < 19) state->lens[order[state->have++]] = 0;\<close>\<close>

definition clear_lens :: "nat \<Rightarrow> nat list \<Rightarrow> nat list option" where
  "clear_lens have lens = foldM (\<lambda>lens k. do { i \<leftarrow> rd order k; wr lens i 0 }) lens [have..<19]"

definition do_lenlens :: "inflate_state \<Rightarrow> step" where
  "do_lenlens st = (if i_have st < i_ncode st then need 3 st (\<lambda>st.
       case (do { i \<leftarrow> rd order (i_have st); wr (i_lens st) i (ushort (BITS 3 st)) }) of None \<Rightarrow> Fault
       | Some lens \<Rightarrow> Go (DROPBITS 3 (st\<lparr>i_lens := lens, i_have := i_have st + 1\<rparr>)))
     else case clear_lens (i_have st) (i_lens st) of None \<Rightarrow> Fault
       | Some lens \<Rightarrow>
         let st = st\<lparr>i_lens := lens, i_have := 19, i_next := 0, i_lencode := Codes 0\<rparr> in
         case call_inflate_table CODES (take 19 (i_lens st)) 7 st of None \<Rightarrow> Fault
         | Some (ret, bits, st) \<Rightarrow>
           let st = st\<lparr>i_lenbits := bits\<rparr> in
           if ret \<noteq> 0 then bad ''invalid code lengths set'' st
           else Go (st\<lparr>i_have := 0, i_mode := CODELENS\<rparr>))"

text \<open>\<open>while (copy--) state->lens[state->have++] = (unsigned short)len;\<close>\<close>

fun fill_lens :: "nat \<Rightarrow> nat \<Rightarrow> inflate_state \<Rightarrow> inflate_state option" where
  "fill_lens 0 len st = Some st"
| "fill_lens (Suc n) len st = do {
     l \<leftarrow> wr (i_lens st) (i_have st) (ushort len);
     fill_lens n len (st\<lparr>i_lens := l, i_have := i_have st + 1\<rparr>) }"

definition put_lens :: "nat \<Rightarrow> nat \<Rightarrow> inflate_state \<Rightarrow> step" where
  "put_lens len copy st = (if i_have st + copy > i_nlen st + i_ndist st then bad ''invalid bit length repeat'' st
     else case fill_lens copy len st of None \<Rightarrow> Fault | Some st \<Rightarrow> Go st)"

definition code_len :: "code \<Rightarrow> inflate_state \<Rightarrow> step" where
  "code_len here st =
     (if code_val here < 16 then
        (case wr (i_lens st) (i_have st) (code_val here) of None \<Rightarrow> Fault
         | Some l \<Rightarrow> Go ((DROPBITS (code_bits here) st)\<lparr>i_lens := l, i_have := i_have st + 1\<rparr>))
      else if code_val here = 16 then need (code_bits here + 2) st (\<lambda>st.
        let st = DROPBITS (code_bits here) st in
        if i_have st = 0 then bad ''invalid bit length repeat'' st
        else case rd (i_lens st) (i_have st - 1) of None \<Rightarrow> Fault
          | Some len \<Rightarrow> put_lens len (3 + BITS 2 st) (DROPBITS 2 st))
      else if code_val here = 17 then need (code_bits here + 3) st (\<lambda>st.
        let st = DROPBITS (code_bits here) st in put_lens 0 (3 + BITS 3 st) (DROPBITS 3 st))
      else need (code_bits here + 7) st (\<lambda>st.
        let st = DROPBITS (code_bits here) st in put_lens 0 (11 + BITS 7 st) (DROPBITS 7 st)))"

definition build_codes :: "nat \<Rightarrow> inflate_state \<Rightarrow> step" where
  "build_codes flush st = (case rd (i_lens st) 256 of None \<Rightarrow> Fault
     | Some eob \<Rightarrow>
       if eob = 0 then bad ''invalid code -- missing end-of-block'' st
       else
         let st = st\<lparr>i_next := 0, i_lencode := Codes 0\<rparr> in
         case call_inflate_table LENS (take (i_nlen st) (i_lens st)) 9 st of None \<Rightarrow> Fault
         | Some (ret, bits, st) \<Rightarrow>
           let st = st\<lparr>i_lenbits := bits\<rparr> in
           if ret \<noteq> 0 then bad ''invalid literal/lengths set'' st
           else
             let st = st\<lparr>i_distcode := Codes (i_next st)\<rparr> in
             case call_inflate_table DISTS (take (i_ndist st) (drop (i_nlen st) (i_lens st))) 6 st of None \<Rightarrow> Fault
             | Some (ret, bits, st) \<Rightarrow>
               let st = st\<lparr>i_distbits := bits\<rparr> in
               if ret \<noteq> 0 then bad ''invalid distances set'' st
               else let st = st\<lparr>i_mode := LEN1\<rparr> in if flush = Z_TREES then Leave st Z_OK else Go st)"

definition do_codelens :: "nat \<Rightarrow> inflate_state \<Rightarrow> step" where
  "do_codelens flush st = (if i_have st < i_nlen st + i_ndist st then
       (case root_loop (i_lencode st) (i_lenbits st) st of Crash \<Rightarrow> Fault | Short st \<Rightarrow> Leave st Z_OK | Got st here \<Rightarrow> code_len here st)
     else build_codes flush st)"

section \<open>Codes\<close>

text \<open>The entry of a code in two levels of tables: the state with the bits of the code dropped and counted.\<close>

definition take_code :: "code \<Rightarrow> inflate_state \<Rightarrow> inflate_state" where
  "take_code here st = (DROPBITS (code_bits here) st)\<lparr>i_back := i_back st + int (code_bits here)\<rparr>"

definition len_code :: "code \<Rightarrow> inflate_state \<Rightarrow> step" where
  "len_code here st =
     (let st = (take_code here st)\<lparr>i_length := code_val here\<rparr> in
      if code_op here = 0 then Go (st\<lparr>i_mode := LIT\<rparr>)
      else if code_op here AND 32 \<noteq> 0 then Go (st\<lparr>i_back := -1, i_mode := TYPE0\<rparr>)
      else if code_op here AND 64 \<noteq> 0 then bad ''invalid literal/length code'' st
      else Go (st\<lparr>i_extra := code_op here AND 15, i_mode := LENEXT\<rparr>))"

definition do_len :: "inflate_state \<Rightarrow> step" where
  "do_len st = (if length (next_in st) \<ge> 6 \<and> avail_out st \<ge> 258 then
       (case inflate_fast st of None \<Rightarrow> Fault | Some st \<Rightarrow> Go (if i_mode st = TYPE0 then st\<lparr>i_back := -1\<rparr> else st))
     else
       case root_loop (i_lencode st) (i_lenbits st) (st\<lparr>i_back := 0\<rparr>) of Crash \<Rightarrow> Fault | Short st \<Rightarrow> Leave st Z_OK
       | Got st here \<Rightarrow>
         if code_op here \<noteq> 0 \<and> code_op here AND 0xf0 = 0 then
           (case sub_loop (i_lencode st) here st of Crash \<Rightarrow> Fault | Short st \<Rightarrow> Leave st Z_OK
            | Got st here2 \<Rightarrow> len_code here2 (take_code here st))
         else len_code here st)"

definition do_lenext :: "inflate_state \<Rightarrow> step" where
  "do_lenext st = (if i_extra st \<noteq> 0 then need (i_extra st) st (\<lambda>st.
       let st = (DROPBITS (i_extra st) (st\<lparr>i_length := i_length st + BITS (i_extra st) st\<rparr>))\<lparr>i_back := i_back st + int (i_extra st)\<rparr>
       in Go (st\<lparr>i_was := i_length st, i_mode := DIST\<rparr>))
     else Go (st\<lparr>i_was := i_length st, i_mode := DIST\<rparr>))"

definition dist_code_entry :: "code \<Rightarrow> inflate_state \<Rightarrow> step" where
  "dist_code_entry here st =
     (let st = take_code here st in
      if code_op here AND 64 \<noteq> 0 then bad ''invalid distance code'' st
      else Go (st\<lparr>i_offset := code_val here, i_extra := code_op here AND 15, i_mode := DISTEXT\<rparr>))"

definition do_dist :: "inflate_state \<Rightarrow> step" where
  "do_dist st = (case root_loop (i_distcode st) (i_distbits st) st of Crash \<Rightarrow> Fault | Short st \<Rightarrow> Leave st Z_OK
     | Got st here \<Rightarrow>
       if code_op here AND 0xf0 = 0 then
         (case sub_loop (i_distcode st) here st of Crash \<Rightarrow> Fault | Short st \<Rightarrow> Leave st Z_OK
          | Got st here2 \<Rightarrow> dist_code_entry here2 (take_code here st))
       else dist_code_entry here st)"

definition do_distext :: "inflate_state \<Rightarrow> step" where
  "do_distext st = (if i_extra st \<noteq> 0 then need (i_extra st) st (\<lambda>st.
       Go ((DROPBITS (i_extra st) (st\<lparr>i_offset := i_offset st + BITS (i_extra st) st\<rparr>))\<lparr>i_back := i_back st + int (i_extra st), i_mode := MATCH\<rparr>))
     else Go (st\<lparr>i_mode := MATCH\<rparr>))"

text \<open>\<open>do { *put++ = *from++; } while (--copy);\<close> from the output itself.\<close>

fun copy_out :: "byte list \<Rightarrow> nat \<Rightarrow> nat \<Rightarrow> byte list option" where
  "copy_out out offset 0 = Some out"
| "copy_out out offset (Suc n) = (if offset \<le> length out then do { b \<leftarrow> rd out (length out - offset); copy_out (out @ [b]) offset n } else None)"

text \<open>The rest of \<open>MATCH\<close>, with the bytes copied at the end of the output.\<close>

definition end_match :: "nat \<Rightarrow> byte list option \<Rightarrow> inflate_state \<Rightarrow> step" where
  "end_match copy out st = (case out of None \<Rightarrow> Fault
     | Some out \<Rightarrow>
       let st = st\<lparr>out_buf := out, avail_out := avail_out st - copy, i_length := i_length st - copy\<rparr>
       in Go (if i_length st = 0 then st\<lparr>i_mode := LEN\<rparr> else st))"

definition do_match :: "inflate_state \<Rightarrow> step" where
  "do_match st = (if avail_out st = 0 then Leave st Z_OK
     else
       let copy = i_out st - avail_out st in
       if i_offset st > copy then
         let copy = i_offset st - copy in
         if copy > i_whave st \<and> i_sane st then bad ''invalid distance too far back'' st
         else case i_window st of None \<Rightarrow> Fault
         | Some window \<Rightarrow>
           if copy > i_wnext st \<and> copy - i_wnext st > i_wsize st then Fault
           else
             let from = (if copy > i_wnext st then i_wsize st - (copy - i_wnext st) else i_wnext st - copy);
                 copy = (if copy > i_wnext st then copy - i_wnext st else copy);
                 copy = min (min copy (i_length st)) (avail_out st)
             in if copy = 0 \<or> from + copy > length window then Fault
                else end_match copy (Some (out_buf st @ take copy (drop from window))) st
       else
         let copy = min (i_length st) (avail_out st) in
         if copy = 0 then Fault else end_match copy (copy_out (out_buf st) (i_offset st) copy) st)"

definition do_lit :: "inflate_state \<Rightarrow> step" where
  "do_lit st = (if avail_out st = 0 then Leave st Z_OK
     else Go (st\<lparr>out_buf := out_buf st @ [of_nat (i_length st)], avail_out := avail_out st - 1, i_mode := LEN\<rparr>))"

section \<open>The trailer\<close>

text \<open>The output written since \<open>out\<close> was last set.\<close>

definition new_output :: "inflate_state \<Rightarrow> byte list" where
  "new_output st = drop (length (out_buf st) - (i_out st - avail_out st)) (out_buf st)"

definition do_check :: "inflate_state \<Rightarrow> step" where
  "do_check st = (if i_wrap st \<noteq> 0 then need 32 st (\<lambda>st.
       let out = i_out st - avail_out st;
           st = st\<lparr>total_out := total_out st + of_nat out, i_total := i_total st + of_nat out\<rparr>;
           c = UPDATE st (i_check st) (new_output st);
           st = (if i_wrap st AND 4 \<noteq> 0 \<and> out \<noteq> 0 then st\<lparr>z_adler := c, i_check := c\<rparr> else st);
           st = st\<lparr>i_out := avail_out st\<rparr>
       in if i_wrap st AND 4 \<noteq> 0 \<and> (if i_flags st \<noteq> 0 then of_nat (i_hold st) else zswap32 (i_hold st)) \<noteq> i_check st
          then bad ''incorrect data check'' st
          else Go ((INITBITS st)\<lparr>i_mode := LENGTH0\<rparr>))
     else Go (st\<lparr>i_mode := LENGTH0\<rparr>))"

definition do_length :: "inflate_state \<Rightarrow> step" where
  "do_length st = (if i_wrap st \<noteq> 0 \<and> i_flags st \<noteq> 0 then need 32 st (\<lambda>st.
       if of_nat (i_hold st) \<noteq> i_total st AND 0xffffffff then bad ''incorrect length check'' st
       else Go ((INITBITS st)\<lparr>i_mode := DONE\<rparr>))
     else Go (st\<lparr>i_mode := DONE\<rparr>))"

section \<open>inflate\<close>

definition inflate_step :: "nat \<Rightarrow> inflate_state \<Rightarrow> step" where
  "inflate_step flush st = (case i_mode st of
       HEAD \<Rightarrow> do_head st | FLAGS \<Rightarrow> do_flags st | TIME \<Rightarrow> do_time st | OS \<Rightarrow> do_os st | EXLEN \<Rightarrow> do_exlen st
     | EXTRA \<Rightarrow> do_extra st | NAME \<Rightarrow> do_name st | COMMENT \<Rightarrow> do_comment st | HCRC \<Rightarrow> do_hcrc st
     | DICTID \<Rightarrow> do_dictid st | DICT \<Rightarrow> do_dict st
     | TYPE0 \<Rightarrow> do_type flush st | TYPEDO \<Rightarrow> do_typedo flush st
     | STORED \<Rightarrow> do_stored flush st | COPY1 \<Rightarrow> Go (st\<lparr>i_mode := COPY\<rparr>) | COPY \<Rightarrow> do_copy st
     | TABLE \<Rightarrow> do_table st | LENLENS \<Rightarrow> do_lenlens st | CODELENS \<Rightarrow> do_codelens flush st
     | LEN1 \<Rightarrow> Go (st\<lparr>i_mode := LEN\<rparr>) | LEN \<Rightarrow> do_len st | LENEXT \<Rightarrow> do_lenext st | DIST \<Rightarrow> do_dist st
     | DISTEXT \<Rightarrow> do_distext st | MATCH \<Rightarrow> do_match st | LIT \<Rightarrow> do_lit st
     | CHECK \<Rightarrow> do_check st | LENGTH0 \<Rightarrow> do_length st
     | DONE \<Rightarrow> Leave st Z_STREAM_END | BAD \<Rightarrow> Leave st Z_DATA_ERROR | MEM \<Rightarrow> Return st Z_MEM_ERROR | SYNC \<Rightarrow> Return st Z_STREAM_ERROR)"

text \<open>The loop: where it stops, with the value of \<open>ret\<close>, and whether through \<open>inf_leave\<close>.\<close>

partial_function (option) inflate_loop :: "nat \<Rightarrow> inflate_state \<Rightarrow> (inflate_state \<times> int \<times> bool) option" where
  "inflate_loop flush st = (case inflate_step flush st of
       Go st \<Rightarrow> inflate_loop flush st
     | Leave st ret \<Rightarrow> Some (st, ret, True)
     | Return st ret \<Rightarrow> Some (st, ret, False)
     | Fault \<Rightarrow> None)"

declare inflate_loop.simps [code]

text \<open>What follows \<open>inf_leave\<close>; \<open>inp\<close> is \<open>in\<close>, the input available at the start.\<close>

definition inf_leave :: "byte list option \<Rightarrow> nat \<Rightarrow> nat \<Rightarrow> int \<Rightarrow> inflate_state \<Rightarrow> (int \<times> inflate_state) option" where
  "inf_leave alloc flush inp ret st = do {
     (err, st) \<leftarrow> (if i_wsize st \<noteq> 0 \<or> i_out st \<noteq> avail_out st \<and> i_mode st < BAD \<and> (i_mode st < CHECK \<or> flush \<noteq> Z_FINISH)
                   then updatewindow alloc (new_output st) st else Some (0, st));
     if err \<noteq> 0 then Some (Z_MEM_ERROR, st\<lparr>i_mode := MEM\<rparr>)
     else do {
       let inp = inp - length (next_in st);
       let out = i_out st - avail_out st;
       let st = st\<lparr>total_in := total_in st + of_nat inp, total_out := total_out st + of_nat out, i_total := i_total st + of_nat out\<rparr>;
       let c = UPDATE st (i_check st) (new_output st);
       let st = (if i_wrap st AND 4 \<noteq> 0 \<and> out \<noteq> 0 then st\<lparr>z_adler := c, i_check := c\<rparr> else st);
       let st = st\<lparr>z_data_type := i_bits st + (if i_last st \<noteq> 0 then 64 else 0) + (if i_mode st = TYPE0 then 128 else 0)
                    + (if i_mode st = LEN1 \<or> i_mode st = COPY1 then 256 else 0)\<rparr>;
       Some (if (inp = 0 \<and> out = 0 \<or> flush = Z_FINISH) \<and> ret = Z_OK then Z_BUF_ERROR else ret, st) } }"

text \<open>
  \<open>inflate(strm, flush)\<close> with input \<open>inp\<close> and \<open>space\<close> bytes of output space; \<open>next_in\<close> and \<open>next_out\<close>
  are not null.  The output is \<open>out_buf\<close> of the new state.
\<close>

definition inflate :: "byte list option \<Rightarrow> nat \<Rightarrow> byte list \<Rightarrow> nat \<Rightarrow> inflate_state \<Rightarrow> (int \<times> inflate_state) option" where
  "inflate alloc flush inp space st = do {
     let st = (if i_mode st = TYPE0 then st\<lparr>i_mode := TYPEDO\<rparr> else st);
     let st = st\<lparr>next_in := inp, out_buf := [], avail_out := space, i_out := space\<rparr>;
     (st, ret, leave) \<leftarrow> inflate_loop flush st;
     if leave then inf_leave alloc flush (length inp) ret st else Some (ret, st) }"

end
