(* ===== verification/Bit_Output.thy ===== *)
theory Bit_Output
  imports Zlib_Prelude Canonical
begin

text \<open>
  The bit buffer of the compressor (\<open>trees.c\<close>: \<open>send_bits\<close>, \<open>bi_flush\<close>, \<open>bi_windup\<close>, \<open>bi_reverse\<close>,
  \<open>put_byte\<close> and \<open>put_short\<close>) and its refinement to a list of bits.  The pending output is the list
  of the bytes written to \<open>pending_buf\<close>; that there is room for them is an assumption of the code.
\<close>

section \<open>Operations\<close>

definition Buf_size :: nat where
  "Buf_size = 16"

record bit_state =
  pending_buf :: "byte list"
  bi_buf :: ush
  bi_valid :: nat

definition put_byte :: "'a bit_state_scheme \<Rightarrow> byte \<Rightarrow> 'a bit_state_scheme" where
  "put_byte s c = s\<lparr>pending_buf := pending_buf s @ [c]\<rparr>"

definition put_short :: "'a bit_state_scheme \<Rightarrow> ush \<Rightarrow> 'a bit_state_scheme" where
  "put_short s w = put_byte (put_byte s (ucast (w AND 0xff))) (ucast (drop_bit 8 w))"

definition putShortMSB :: "'a bit_state_scheme \<Rightarrow> nat \<Rightarrow> 'a bit_state_scheme" where
  "putShortMSB s b = put_byte (put_byte s (of_nat (b div 256))) (of_nat (b mod 256))"

definition send_bits :: "'a bit_state_scheme \<Rightarrow> nat \<Rightarrow> nat \<Rightarrow> 'a bit_state_scheme" where
  "send_bits s v len =
     (if bi_valid s > Buf_size - len then
        let s' = s\<lparr>bi_buf := bi_buf s OR push_bit (bi_valid s) (of_nat v)\<rparr>;
            s' = put_short s' (bi_buf s')
        in s'\<lparr>bi_buf := drop_bit (Buf_size - bi_valid s) (of_nat v), bi_valid := bi_valid s + len - Buf_size\<rparr>
      else s\<lparr>bi_buf := bi_buf s OR push_bit (bi_valid s) (of_nat v), bi_valid := bi_valid s + len\<rparr>)"

definition bi_flush :: "'a bit_state_scheme \<Rightarrow> 'a bit_state_scheme" where
  "bi_flush s =
     (if bi_valid s = 16 then (put_short s (bi_buf s))\<lparr>bi_buf := 0, bi_valid := 0\<rparr>
      else if bi_valid s \<ge> 8 then
        (put_byte s (ucast (bi_buf s)))\<lparr>bi_buf := drop_bit 8 (bi_buf s), bi_valid := bi_valid s - 8\<rparr>
      else s)"

definition bi_windup :: "'a bit_state_scheme \<Rightarrow> 'a bit_state_scheme" where
  "bi_windup s =
     (let s' = (if bi_valid s > 8 then put_short s (bi_buf s)
                else if bi_valid s > 0 then put_byte s (ucast (bi_buf s)) else s)
      in s'\<lparr>bi_buf := 0, bi_valid := 0\<rparr>)"

text \<open>\<open>do { res |= code & 1; code >>= 1, res <<= 1; } while (--len > 0); return res >> 1;\<close>\<close>

fun bi_reverse_loop :: "nat \<Rightarrow> nat \<Rightarrow> nat \<Rightarrow> nat" where
  "bi_reverse_loop code len res =
     (let res = res OR (code AND 1); code = drop_bit 1 code; res = push_bit 1 res
      in if len - 1 > 0 then bi_reverse_loop code (len - 1) res else res)"

declare bi_reverse_loop.simps [simp del]

definition bi_reverse :: "nat \<Rightarrow> nat \<Rightarrow> nat" where
  "bi_reverse code len = drop_bit 1 (bi_reverse_loop code len 0)"

section \<open>The stream of bits\<close>

definition bits_of :: "nat \<Rightarrow> nat \<Rightarrow> bool list" where
  "bits_of n x = map (bit x) [0..<n]"

definition byte_bits :: "byte \<Rightarrow> bool list" where
  "byte_bits b = map (bit b) [0..<8]"

definition bytes_bits :: "byte list \<Rightarrow> bool list" where
  "bytes_bits bs = concat (map byte_bits bs)"

definition out_bits :: "'a bit_state_scheme \<Rightarrow> bool list" where
  "out_bits s = bytes_bits (pending_buf s) @ map (bit (bi_buf s)) [0..<bi_valid s]"

text \<open>The buffer holds at most 16 bits, and only valid ones.\<close>

definition bit_inv :: "'a bit_state_scheme \<Rightarrow> bool" where
  "bit_inv s \<longleftrightarrow> bi_valid s \<le> 16 \<and> (\<forall>i\<ge>bi_valid s. \<not> bit (bi_buf s) i)"

lemma length_bits_of [simp]: "length (bits_of n x) = n"
  by (simp add: bits_of_def)

lemma length_byte_bits [simp]: "length (byte_bits b) = 8"
  by (simp add: byte_bits_def)

lemma length_bytes_bits [simp]: "length (bytes_bits bs) = 8 * length bs"
  by (induction bs) (simp_all add: bytes_bits_def)

lemma bytes_bits_append [simp]: "bytes_bits (xs @ ys) = bytes_bits xs @ bytes_bits ys"
  by (simp add: bytes_bits_def)

lemma bytes_bits_Nil [simp]: "bytes_bits [] = []"
  by (simp add: bytes_bits_def)

lemma bytes_bits_one [simp]: "bytes_bits [b] = byte_bits b"
  by (simp add: bytes_bits_def)

lemma short_bits: "byte_bits (ucast (w AND 0xff)) @ byte_bits (ucast (drop_bit 8 w)) = map (bit (w :: ush)) [0..<16]"
proof (rule nth_equalityI)
  fix i assume "i < length (byte_bits (ucast (w AND 0xff)) @ byte_bits (ucast (drop_bit 8 w)))"
  then have i: "i < 16" by simp
  have m: "w AND 0xff = take_bit 8 w" by (simp add: take_bit_eq_mask mask_eq_exp_minus_1)
  show "(byte_bits (ucast (w AND 0xff)) @ byte_bits (ucast (drop_bit 8 w))) ! i = map (bit w) [0..<16] ! i"
    using i by (auto simp: byte_bits_def nth_append m bit_simps)
qed simp

lemma put_short_bits: "bytes_bits (pending_buf (put_short s w)) = bytes_bits (pending_buf s) @ map (bit w) [0..<16]"
  by (simp add: put_short_def put_byte_def short_bits[symmetric] bytes_bits_def)

lemma bit_of_nat_ush: "bit (of_nat v :: ush) i \<longleftrightarrow> i < 16 \<and> bit v i"
  by (auto simp: bit_of_nat_iff)

lemma bit_small: "v < 2 ^ n \<Longrightarrow> n \<le> i \<Longrightarrow> \<not> bit (v :: nat) i"
  by (metis bit_take_bit_iff leD take_bit_nat_eq_self)

text \<open>\<open>send_bits\<close> appends the low \<open>len\<close> bits of the value to the stream.\<close>

lemma send_bits_inv:
  assumes inv: "bit_inv s" and v: "v < 2 ^ len" "len \<le> 16"
  shows "bit_inv (send_bits s v len)"
proof -
  have small: "\<not> bit v i" if "len \<le> i" for i using bit_small[OF v(1) that] .
  show ?thesis
    using inv v(2) small
    by (auto simp: bit_inv_def send_bits_def Let_def Buf_size_def put_short_def put_byte_def bit_simps bit_of_nat_ush)
qed

lemma send_bits_stream:
  assumes inv: "bit_inv s" and v: "v < 2 ^ len" "len \<le> 16"
  shows "out_bits (send_bits s v len) = out_bits s @ bits_of len v"
proof (cases "bi_valid s > 16 - len")
  case False
  have "map (bit (bi_buf s OR push_bit (bi_valid s) (of_nat v))) [0..<bi_valid s + len]
    = map (bit (bi_buf s)) [0..<bi_valid s] @ bits_of len v"
    using inv False v(2)
    by (intro nth_equalityI) (auto simp: bits_of_def nth_append bit_simps bit_of_nat_ush bit_inv_def)
  then show ?thesis using False by (simp add: send_bits_def Buf_size_def out_bits_def)
next
  case True
  let ?w = "bi_buf s OR push_bit (bi_valid s) (of_nat v)"
  let ?r = "drop_bit (16 - bi_valid s) (of_nat v) :: ush"
  have "map (bit ?w) [0..<16] @ map (bit ?r) [0..<bi_valid s + len - 16]
    = map (bit (bi_buf s)) [0..<bi_valid s] @ bits_of len v"
    using inv True v(2)
    by (intro nth_equalityI) (auto simp: bits_of_def nth_append bit_simps bit_of_nat_ush bit_inv_def)
  then show ?thesis
    using True put_short_bits[of "s\<lparr>bi_buf := ?w\<rparr>" ?w]
    by (simp add: send_bits_def Buf_size_def out_bits_def Let_def)
qed

lemma bi_flush_stream:
  assumes inv: "bit_inv s"
  shows "bit_inv (bi_flush s)" "out_bits (bi_flush s) = out_bits s" "bi_valid (bi_flush s) < 8"
proof -
  show "bit_inv (bi_flush s)"
    using inv by (auto simp: bit_inv_def bi_flush_def put_short_def put_byte_def bit_simps)
  show "bi_valid (bi_flush s) < 8" using inv by (auto simp: bit_inv_def bi_flush_def put_short_def put_byte_def)
  show "out_bits (bi_flush s) = out_bits s"
  proof (cases "bi_valid s = 16")
    case True
    then show ?thesis using put_short_bits[of s "bi_buf s"] by (simp add: bi_flush_def out_bits_def)
  next
    case False
    have "byte_bits (ucast (bi_buf s)) @ map (bit (drop_bit 8 (bi_buf s))) [0..<bi_valid s - 8]
      = map (bit (bi_buf s)) [0..<bi_valid s]" if "8 \<le> bi_valid s"
      using that by (intro nth_equalityI) (auto simp: byte_bits_def nth_append bit_simps)
    then show ?thesis using False by (simp add: bi_flush_def out_bits_def put_byte_def)
  qed
qed

text \<open>\<open>bi_windup\<close> pads the stream with zeros to the next byte boundary.\<close>

definition pad_len :: "nat \<Rightarrow> nat" where
  "pad_len n = (8 - n mod 8) mod 8"

lemma bi_windup_stream:
  assumes inv: "bit_inv s"
  shows "bit_inv (bi_windup s)" "bi_valid (bi_windup s) = 0"
    "out_bits (bi_windup s) = out_bits s @ replicate (pad_len (length (out_bits s))) False"
proof -
  show "bit_inv (bi_windup s)" "bi_valid (bi_windup s) = 0"
    by (simp_all add: bit_inv_def bi_windup_def Let_def)
  have p: "pad_len (length (out_bits s)) = pad_len (bi_valid s)"
    by (simp add: out_bits_def pad_len_def)
  consider "bi_valid s > 8" | "0 < bi_valid s" "bi_valid s \<le> 8" | "bi_valid s = 0" by linarith
  then show "out_bits (bi_windup s) = out_bits s @ replicate (pad_len (length (out_bits s))) False"
    unfolding p
  proof cases
    case 1
    have v: "bi_valid s \<le> 16" using inv by (simp add: bit_inv_def)
    have "pad_len (bi_valid s) = 16 - bi_valid s"
    proof (cases "bi_valid s = 16")
      case False
      then have "bi_valid s mod 8 = bi_valid s - 8" using 1 v by (simp add: mod_if)
      then show ?thesis using 1 v False by (simp add: pad_len_def)
    qed (simp add: pad_len_def)
    then have "map (bit (bi_buf s)) [0..<16] = map (bit (bi_buf s)) [0..<bi_valid s] @ replicate (pad_len (bi_valid s)) False"
      using inv v by (intro nth_equalityI) (auto simp: nth_append bit_inv_def)
    then show "out_bits (bi_windup s) = out_bits s @ replicate (pad_len (bi_valid s)) False"
      using 1 put_short_bits[of s "bi_buf s"] by (simp add: bi_windup_def out_bits_def)
  next
    case 2
    have "pad_len (bi_valid s) = 8 - bi_valid s"
    proof (cases "bi_valid s = 8")
      case False
      then show ?thesis using 2 by (simp add: pad_len_def)
    qed (simp add: pad_len_def)
    then have "byte_bits (ucast (bi_buf s)) = map (bit (bi_buf s)) [0..<bi_valid s] @ replicate (pad_len (bi_valid s)) False"
      using inv 2 by (intro nth_equalityI) (auto simp: byte_bits_def nth_append bit_inv_def bit_simps)
    then show "out_bits (bi_windup s) = out_bits s @ replicate (pad_len (bi_valid s)) False"
      using 2 by (simp add: bi_windup_def out_bits_def put_byte_def)
  next
    case 3
    then show "out_bits (bi_windup s) = out_bits s @ replicate (pad_len (bi_valid s)) False"
      by (simp add: bi_windup_def out_bits_def pad_len_def)
  qed
qed

lemma put_byte_stream:
  assumes "bi_valid s = 0"
  shows "out_bits (put_byte s c) = out_bits s @ byte_bits c"
  using assms by (simp add: put_byte_def out_bits_def)

section \<open>Bit reversal\<close>

lemma bi_reverse_loop_rbits:
  "even res \<Longrightarrow> bi_reverse_loop code (Suc n) res = res * 2 ^ Suc n + 2 * rbits (Suc n) code"
proof (induction n arbitrary: code res)
  case 0
  have "res OR code mod 2 = res + code mod 2"
    using 0 by (cases "even code") (auto simp: odd_iff_mod_2_eq_one or_Suc_0_eq)
  then show ?case
    by (subst bi_reverse_loop.simps) (simp add: and_one_eq push_bit_eq_mult Let_def)
next
  case (Suc n)
  have "res OR code mod 2 = res + code mod 2"
    using Suc.prems by (cases "even code") (auto simp: odd_iff_mod_2_eq_one or_Suc_0_eq)
  then have "bi_reverse_loop code (Suc (Suc n)) res = bi_reverse_loop (code div 2) (Suc n) (2 * (res + code mod 2))"
    by (subst bi_reverse_loop.simps) (simp add: and_one_eq push_bit_eq_mult drop_bit_eq_div Let_def mult.commute)
  then show ?case using Suc.IH[of "2 * (res + code mod 2)" "code div 2"] by (simp add: algebra_simps)
qed

lemma bi_reverse_rbits: "1 \<le> len \<Longrightarrow> bi_reverse code len = rbits len code"
  using bi_reverse_loop_rbits[of 0 code "len - 1"]
  by (simp add: bi_reverse_def drop_bit_eq_div)

section \<open>The interface of a bit sink\<close>

text \<open>
  What the block writers of \<open>trees.c\<close> rely on: sending a value of at most 16 bits appends its bits,
  lowest first, to the stream.
\<close>

locale bit_sink =
  fixes send :: "'s \<Rightarrow> nat \<Rightarrow> nat \<Rightarrow> 's" and bits :: "'s \<Rightarrow> bool list" and inv :: "'s \<Rightarrow> bool"
  assumes send_bits: "inv s \<Longrightarrow> v < 2 ^ n \<Longrightarrow> n \<le> 16 \<Longrightarrow> bits (send s v n) = bits s @ bits_of n v"
    and send_inv: "inv s \<Longrightarrow> v < 2 ^ n \<Longrightarrow> n \<le> 16 \<Longrightarrow> inv (send s v n)"
begin

text \<open>Sending a sequence of values appends the concatenation of their bits.\<close>

lemma send_all:
  assumes "inv s" "\<And>v n. (v, n) \<in> set vs \<Longrightarrow> v < 2 ^ n \<and> n \<le> 16"
  shows "bits (foldl (\<lambda>s (v, n). send s v n) s vs) = bits s @ concat (map (\<lambda>(v, n). bits_of n v) vs)
    \<and> inv (foldl (\<lambda>s (v, n). send s v n) s vs)"
  using assms
proof (induction vs arbitrary: s)
  case (Cons vn vs)
  obtain v n where vn: "vn = (v, n)" by fastforce
  have "v < 2 ^ n" "n \<le> 16" using Cons.prems(2)[of v n] vn by auto
  then show ?case
    using Cons.IH[of "send s v n"] Cons.prems vn send_bits send_inv by auto
qed simp

text \<open>A writer whose steps each append a fixed list of bits appends their concatenation.\<close>

lemma fold_writer:
  assumes step: "\<And>s x. inv s \<Longrightarrow> x \<in> set xs \<Longrightarrow> inv (f s x) \<and> bits (f s x) = bits s @ g x"
  shows "inv s \<Longrightarrow> inv (foldl f s xs) \<and> bits (foldl f s xs) = bits s @ concat (map g xs)"
  using step
proof (induction xs arbitrary: s)
  case (Cons x xs)
  then show ?case by auto
qed simp

end

interpretation bit_out: bit_sink send_bits out_bits bit_inv
  by unfold_locales (simp_all add: send_bits_stream send_bits_inv)

end
