(* ===== verification/Trees_Tables.thy ===== *)
theory Trees_Tables
  imports Bit_Output Inftrees
begin

text \<open>
  The constant tables of the compressor: \<open>trees.h\<close> as shipped, the function \<open>tr_static_init\<close> of
  \<open>trees.c\<close> that generates them, and \<open>gen_codes\<close>, which assigns the canonical codes.

  The tables are compared with the decoder's: what \<open>compress_block\<close> sends for a length or a distance
  is what \<open>inflate\<close> reconstructs from its base and extra bits tables, and the codes of \<open>gen_codes\<close> are
  the codes \<open>inflate_table\<close> decodes.
\<close>

section \<open>Constants\<close>

definition LENGTH_CODES :: nat where
  "LENGTH_CODES = 29"

definition LITERALS :: nat where
  "LITERALS = 256"

definition L_CODES :: nat where
  "L_CODES = LITERALS + 1 + LENGTH_CODES"

definition D_CODES :: nat where
  "D_CODES = 30"

definition BL_CODES :: nat where
  "BL_CODES = 19"

definition HEAP_SIZE :: nat where
  "HEAP_SIZE = 2 * L_CODES + 1"

definition MAX_BITS :: nat where
  "MAX_BITS = 15"

definition MAX_BL_BITS :: nat where
  "MAX_BL_BITS = 7"

definition END_BLOCK :: nat where
  "END_BLOCK = 256"

definition REP_3_6 :: nat where
  "REP_3_6 = 16"

definition REPZ_3_10 :: nat where
  "REPZ_3_10 = 17"

definition REPZ_11_138 :: nat where
  "REPZ_11_138 = 18"

definition extra_lbits :: "nat list" where
  "extra_lbits = [0,0,0,0,0,0,0,0,1,1,1,1,2,2,2,2,3,3,3,3,4,4,4,4,5,5,5,5,0]"

definition extra_dbits :: "nat list" where
  "extra_dbits = [0,0,0,0,1,1,2,2,3,3,4,4,5,5,6,6,7,7,8,8,9,9,10,10,11,11,12,12,13,13]"

definition extra_blbits :: "nat list" where
  "extra_blbits = [0,0,0,0,0,0,0,0,0,0,0,0,0,0,0,0,2,3,7]"

definition bl_order :: "nat list" where
  "bl_order = [16,17,18,0,8,7,9,6,10,5,11,4,12,3,13,2,14,1,15]"

text \<open>
  \<open>struct ct_data_s\<close>: two unions of \<open>unsigned short\<close>, \<open>fc\<close> of the frequency and the code, \<open>dl\<close> of the
  father and the length.
\<close>

record ct_data =
  fc :: nat
  dl :: nat

abbreviation Freq :: "ct_data \<Rightarrow> nat" where
  "Freq c \<equiv> fc c"

abbreviation Code :: "ct_data \<Rightarrow> nat" where
  "Code c \<equiv> fc c"

abbreviation Dad :: "ct_data \<Rightarrow> nat" where
  "Dad c \<equiv> dl c"

abbreviation Len :: "ct_data \<Rightarrow> nat" where
  "Len c \<equiv> dl c"

section \<open>The tables of trees.h\<close>

definition static_ltree :: "ct_data list" where
  "static_ltree = map (\<lambda>(c, l). \<lparr>fc = c, dl = l\<rparr>)
    [(12, 8), (140, 8), (76, 8), (204, 8), (44, 8), (172, 8), (108, 8), (236, 8), (28, 8),
     (156, 8), (92, 8), (220, 8), (60, 8), (188, 8), (124, 8), (252, 8), (2, 8), (130, 8), (66, 8),
     (194, 8), (34, 8), (162, 8), (98, 8), (226, 8), (18, 8), (146, 8), (82, 8), (210, 8), (50, 8),
     (178, 8), (114, 8), (242, 8), (10, 8), (138, 8), (74, 8), (202, 8), (42, 8), (170, 8),
     (106, 8), (234, 8), (26, 8), (154, 8), (90, 8), (218, 8), (58, 8), (186, 8), (122, 8),
     (250, 8), (6, 8), (134, 8), (70, 8), (198, 8), (38, 8), (166, 8), (102, 8), (230, 8), (22, 8),
     (150, 8), (86, 8), (214, 8), (54, 8), (182, 8), (118, 8), (246, 8), (14, 8), (142, 8),
     (78, 8), (206, 8), (46, 8), (174, 8), (110, 8), (238, 8), (30, 8), (158, 8), (94, 8),
     (222, 8), (62, 8), (190, 8), (126, 8), (254, 8), (1, 8), (129, 8), (65, 8), (193, 8), (33, 8),
     (161, 8), (97, 8), (225, 8), (17, 8), (145, 8), (81, 8), (209, 8), (49, 8), (177, 8),
     (113, 8), (241, 8), (9, 8), (137, 8), (73, 8), (201, 8), (41, 8), (169, 8), (105, 8),
     (233, 8), (25, 8), (153, 8), (89, 8), (217, 8), (57, 8), (185, 8), (121, 8), (249, 8), (5, 8),
     (133, 8), (69, 8), (197, 8), (37, 8), (165, 8), (101, 8), (229, 8), (21, 8), (149, 8),
     (85, 8), (213, 8), (53, 8), (181, 8), (117, 8), (245, 8), (13, 8), (141, 8), (77, 8),
     (205, 8), (45, 8), (173, 8), (109, 8), (237, 8), (29, 8), (157, 8), (93, 8), (221, 8),
     (61, 8), (189, 8), (125, 8), (253, 8), (19, 9), (275, 9), (147, 9), (403, 9), (83, 9),
     (339, 9), (211, 9), (467, 9), (51, 9), (307, 9), (179, 9), (435, 9), (115, 9), (371, 9),
     (243, 9), (499, 9), (11, 9), (267, 9), (139, 9), (395, 9), (75, 9), (331, 9), (203, 9),
     (459, 9), (43, 9), (299, 9), (171, 9), (427, 9), (107, 9), (363, 9), (235, 9), (491, 9),
     (27, 9), (283, 9), (155, 9), (411, 9), (91, 9), (347, 9), (219, 9), (475, 9), (59, 9),
     (315, 9), (187, 9), (443, 9), (123, 9), (379, 9), (251, 9), (507, 9), (7, 9), (263, 9),
     (135, 9), (391, 9), (71, 9), (327, 9), (199, 9), (455, 9), (39, 9), (295, 9), (167, 9),
     (423, 9), (103, 9), (359, 9), (231, 9), (487, 9), (23, 9), (279, 9), (151, 9), (407, 9),
     (87, 9), (343, 9), (215, 9), (471, 9), (55, 9), (311, 9), (183, 9), (439, 9), (119, 9),
     (375, 9), (247, 9), (503, 9), (15, 9), (271, 9), (143, 9), (399, 9), (79, 9), (335, 9),
     (207, 9), (463, 9), (47, 9), (303, 9), (175, 9), (431, 9), (111, 9), (367, 9), (239, 9),
     (495, 9), (31, 9), (287, 9), (159, 9), (415, 9), (95, 9), (351, 9), (223, 9), (479, 9),
     (63, 9), (319, 9), (191, 9), (447, 9), (127, 9), (383, 9), (255, 9), (511, 9), (0, 7),
     (64, 7), (32, 7), (96, 7), (16, 7), (80, 7), (48, 7), (112, 7), (8, 7), (72, 7), (40, 7),
     (104, 7), (24, 7), (88, 7), (56, 7), (120, 7), (4, 7), (68, 7), (36, 7), (100, 7), (20, 7),
     (84, 7), (52, 7), (116, 7), (3, 8), (131, 8), (67, 8), (195, 8), (35, 8), (163, 8), (99, 8),
     (227, 8)]"

definition static_dtree :: "ct_data list" where
  "static_dtree = map (\<lambda>(c, l). \<lparr>fc = c, dl = l\<rparr>)
    [(0, 5), (16, 5), (8, 5), (24, 5), (4, 5), (20, 5), (12, 5), (28, 5), (2, 5), (18, 5), (10, 5),
     (26, 5), (6, 5), (22, 5), (14, 5), (30, 5), (1, 5), (17, 5), (9, 5), (25, 5), (5, 5), (21, 5),
     (13, 5), (29, 5), (3, 5), (19, 5), (11, 5), (27, 5), (7, 5), (23, 5)]"

definition dist_code :: "nat list" where
  "dist_code = [0, 1, 2, 3, 4, 4, 5, 5, 6, 6, 6, 6, 7, 7, 7, 7, 8, 8, 8, 8, 8, 8, 8, 8, 9, 9, 9, 9, 9, 9, 9,
     9, 10, 10, 10, 10, 10, 10, 10, 10, 10, 10, 10, 10, 10, 10, 10, 10, 11, 11, 11, 11, 11, 11, 11,
     11, 11, 11, 11, 11, 11, 11, 11, 11, 12, 12, 12, 12, 12, 12, 12, 12, 12, 12, 12, 12, 12, 12,
     12, 12, 12, 12, 12, 12, 12, 12, 12, 12, 12, 12, 12, 12, 12, 12, 12, 12, 13, 13, 13, 13, 13,
     13, 13, 13, 13, 13, 13, 13, 13, 13, 13, 13, 13, 13, 13, 13, 13, 13, 13, 13, 13, 13, 13, 13,
     13, 13, 13, 13, 14, 14, 14, 14, 14, 14, 14, 14, 14, 14, 14, 14, 14, 14, 14, 14, 14, 14, 14,
     14, 14, 14, 14, 14, 14, 14, 14, 14, 14, 14, 14, 14, 14, 14, 14, 14, 14, 14, 14, 14, 14, 14,
     14, 14, 14, 14, 14, 14, 14, 14, 14, 14, 14, 14, 14, 14, 14, 14, 14, 14, 14, 14, 14, 14, 15,
     15, 15, 15, 15, 15, 15, 15, 15, 15, 15, 15, 15, 15, 15, 15, 15, 15, 15, 15, 15, 15, 15, 15,
     15, 15, 15, 15, 15, 15, 15, 15, 15, 15, 15, 15, 15, 15, 15, 15, 15, 15, 15, 15, 15, 15, 15,
     15, 15, 15, 15, 15, 15, 15, 15, 15, 15, 15, 15, 15, 15, 15, 15, 15, 0, 0, 16, 17, 18, 18, 19,
     19, 20, 20, 20, 20, 21, 21, 21, 21, 22, 22, 22, 22, 22, 22, 22, 22, 23, 23, 23, 23, 23, 23,
     23, 23, 24, 24, 24, 24, 24, 24, 24, 24, 24, 24, 24, 24, 24, 24, 24, 24, 25, 25, 25, 25, 25,
     25, 25, 25, 25, 25, 25, 25, 25, 25, 25, 25, 26, 26, 26, 26, 26, 26, 26, 26, 26, 26, 26, 26,
     26, 26, 26, 26, 26, 26, 26, 26, 26, 26, 26, 26, 26, 26, 26, 26, 26, 26, 26, 26, 27, 27, 27,
     27, 27, 27, 27, 27, 27, 27, 27, 27, 27, 27, 27, 27, 27, 27, 27, 27, 27, 27, 27, 27, 27, 27,
     27, 27, 27, 27, 27, 27, 28, 28, 28, 28, 28, 28, 28, 28, 28, 28, 28, 28, 28, 28, 28, 28, 28,
     28, 28, 28, 28, 28, 28, 28, 28, 28, 28, 28, 28, 28, 28, 28, 28, 28, 28, 28, 28, 28, 28, 28,
     28, 28, 28, 28, 28, 28, 28, 28, 28, 28, 28, 28, 28, 28, 28, 28, 28, 28, 28, 28, 28, 28, 28,
     28, 29, 29, 29, 29, 29, 29, 29, 29, 29, 29, 29, 29, 29, 29, 29, 29, 29, 29, 29, 29, 29, 29,
     29, 29, 29, 29, 29, 29, 29, 29, 29, 29, 29, 29, 29, 29, 29, 29, 29, 29, 29, 29, 29, 29, 29,
     29, 29, 29, 29, 29, 29, 29, 29, 29, 29, 29, 29, 29, 29, 29, 29, 29, 29, 29]"

definition length_code :: "nat list" where
  "length_code = [0, 1, 2, 3, 4, 5, 6, 7, 8, 8, 9, 9, 10, 10, 11, 11, 12, 12, 12, 12, 13, 13, 13, 13, 14, 14,
     14, 14, 15, 15, 15, 15, 16, 16, 16, 16, 16, 16, 16, 16, 17, 17, 17, 17, 17, 17, 17, 17, 18,
     18, 18, 18, 18, 18, 18, 18, 19, 19, 19, 19, 19, 19, 19, 19, 20, 20, 20, 20, 20, 20, 20, 20,
     20, 20, 20, 20, 20, 20, 20, 20, 21, 21, 21, 21, 21, 21, 21, 21, 21, 21, 21, 21, 21, 21, 21,
     21, 22, 22, 22, 22, 22, 22, 22, 22, 22, 22, 22, 22, 22, 22, 22, 22, 23, 23, 23, 23, 23, 23,
     23, 23, 23, 23, 23, 23, 23, 23, 23, 23, 24, 24, 24, 24, 24, 24, 24, 24, 24, 24, 24, 24, 24,
     24, 24, 24, 24, 24, 24, 24, 24, 24, 24, 24, 24, 24, 24, 24, 24, 24, 24, 24, 25, 25, 25, 25,
     25, 25, 25, 25, 25, 25, 25, 25, 25, 25, 25, 25, 25, 25, 25, 25, 25, 25, 25, 25, 25, 25, 25,
     25, 25, 25, 25, 25, 26, 26, 26, 26, 26, 26, 26, 26, 26, 26, 26, 26, 26, 26, 26, 26, 26, 26,
     26, 26, 26, 26, 26, 26, 26, 26, 26, 26, 26, 26, 26, 26, 27, 27, 27, 27, 27, 27, 27, 27, 27,
     27, 27, 27, 27, 27, 27, 27, 27, 27, 27, 27, 27, 27, 27, 27, 27, 27, 27, 27, 27, 27, 27, 28]"

definition base_length :: "nat list" where
  "base_length = [0, 1, 2, 3, 4, 5, 6, 7, 8, 10, 12, 14, 16, 20, 24, 28, 32, 40, 48, 56, 64, 80, 96, 112, 128,
     160, 192, 224, 0]"

definition base_dist :: "nat list" where
  "base_dist = [0, 1, 2, 3, 4, 6, 8, 12, 16, 24, 32, 48, 64, 96, 128, 192, 256, 384, 512, 768, 1024, 1536,
     2048, 3072, 4096, 6144, 8192, 12288, 16384, 24576]"

text \<open>\<open>d_code\<close> of \<open>deflate.h\<close>.\<close>

definition d_code :: "nat \<Rightarrow> nat" where
  "d_code dist = (if dist < 256 then dist_code ! dist else dist_code ! (256 + drop_bit 7 dist))"

section \<open>Generating codes and tables\<close>

text \<open>\<open>for (bits = 1; bits <= MAX_BITS; bits++) { code = (code + bl_count[bits-1]) << 1; next_code[bits] = (ush)code; }\<close>\<close>

definition next_codes :: "nat list \<Rightarrow> nat list" where
  "next_codes bl_count = snd (foldl (\<lambda>(code, next_code) bits.
       let code = (code + bl_count ! (bits - 1)) * 2 in (code, next_code[bits := ushort code]))
     (0, replicate (MAX_BITS + 1) 0) [1..<MAX_BITS + 1])"

definition gen_code :: "ct_data list \<times> nat list \<Rightarrow> nat \<Rightarrow> ct_data list \<times> nat list" where
  "gen_code st n =
     (case st of (tree, next_code) \<Rightarrow>
        let len = Len (tree ! n)
        in if len = 0 then (tree, next_code)
           else (tree[n := (tree ! n)\<lparr>fc := ushort (bi_reverse (next_code ! len) len)\<rparr>],
                 next_code[len := ushort (next_code ! len + 1)]))"

definition gen_codes :: "ct_data list \<Rightarrow> nat \<Rightarrow> nat list \<Rightarrow> ct_data list" where
  "gen_codes tree max_code bl_count = fst (foldl gen_code (tree, next_codes bl_count) [0..<max_code + 1])"

text \<open>The arrays that \<open>tr_static_init\<close> fills: each is appended to from index 0 on.\<close>

definition init_length_code :: "nat list \<times> nat list" where
  "init_length_code =
     (let (base, lc) = foldl (\<lambda>(base, lc) code. (base @ [length lc], lc @ replicate (2 ^ (extra_lbits ! code)) code))
            ([], []) [0..<LENGTH_CODES - 1]
      in (base @ [0], lc[length lc - 1 := LENGTH_CODES - 1]))"

definition init_dist_code :: "nat list \<times> nat list" where
  "init_dist_code =
     (let (base, dc) = foldl (\<lambda>(base, dc) code. (base @ [length dc], dc @ replicate (2 ^ (extra_dbits ! code)) code))
            ([], []) [0..<16];
          (base, hi) = foldl (\<lambda>(base, hi) code. (base @ [128 * length hi], hi @ replicate (2 ^ (extra_dbits ! code - 7)) code))
            (base, replicate (length dc div 128) 0) [16..<D_CODES]
      in (base, dc @ hi))"

definition static_lens :: "nat list" where
  "static_lens = replicate 144 8 @ replicate 112 9 @ replicate 24 7 @ replicate 8 8"

definition static_bl_count :: "nat list" where
  "static_bl_count = foldl (\<lambda>bl_count bits. bl_count[bits := bl_count ! bits + 1]) (replicate (MAX_BITS + 1) 0) static_lens"

definition init_static_ltree :: "ct_data list" where
  "init_static_ltree = gen_codes (map (\<lambda>l. \<lparr>fc = 0, dl = l\<rparr>) static_lens) (L_CODES + 1) static_bl_count"

definition init_static_dtree :: "ct_data list" where
  "init_static_dtree = map (\<lambda>n. \<lparr>fc = bi_reverse n 5, dl = 5\<rparr>) [0..<D_CODES]"

section \<open>The generated tables are the shipped ones\<close>

lemma dist_low: "foldl (\<lambda>(base, dc) code. (base @ [length dc], dc @ replicate (2 ^ (extra_dbits ! code)) code)) ([], []) [0..<16]
  = ([0, 1, 2, 3, 4, 6, 8, 12, 16, 24, 32, 48, 64, 96, 128, 192], take 256 dist_code)"
  by code_simp

lemma dist_high: "drop 256 dist_code = replicate 2 0 @ concat (map (\<lambda>c. replicate (2 ^ (extra_dbits ! c - 7)) c) [16..<30])"
  by code_simp

lemma dist_high_fold:
  "foldl (\<lambda>(base, hi) code. (base @ [128 * length hi], hi @ replicate (w code) code)) (base, hi) cs
   = (base @ map (\<lambda>i. 128 * (length hi + sum_list (map w (take i cs)))) [0..<length cs],
      hi @ concat (map (\<lambda>c. replicate (w c) c) cs))"
proof (induction cs arbitrary: base hi)
  case (Cons c cs)
  have u: "[0..<length (c # cs)] = 0 # map Suc [0..<length cs]"
    by (simp add: upt_conv_Cons map_Suc_upt del: upt_Suc)
  show ?case unfolding u using Cons by (simp add: add.assoc comp_def)
qed simp

lemma init_dist_code_table: "init_dist_code = (base_dist, dist_code)"
proof -
  let ?b = "[0, 1, 2, 3, 4, 6, 8, 12, 16, 24, 32, 48, 64, 96, 128, 192] :: nat list"
  have len: "length (take 256 dist_code) = 256" by code_simp
  have m: "length [16..<30] = 14" by simp
  have "?b @ map (\<lambda>i. 128 * (2 + sum_list (map (\<lambda>c. 2 ^ (extra_dbits ! c - 7)) (take i [16..<30])))) [0..<14] = base_dist"
    by (simp add: upt_rec base_dist_def extra_dbits_def)
  moreover have "(256::nat) div 128 = 2" by simp
  ultimately show ?thesis
    unfolding init_dist_code_def dist_low Let_def prod.case dist_high_fold D_CODES_def len m length_replicate
    using dist_high by (metis append_take_drop_id)
qed

lemma init_length_code_table: "init_length_code = (base_length, length_code)"
  by code_simp

lemma init_static_dtree_table: "init_static_dtree = static_dtree"
  by code_simp

section \<open>gen_codes assigns the canonical codes\<close>

lemma next_codes_spec:
  assumes bl: "bl_count ! 0 = 0" "\<And>l. 1 \<le> l \<Longrightarrow> l \<le> 15 \<Longrightarrow> bl_count ! l = count_list lens l"
  shows "length (next_codes bl_count) = 16 \<and> (\<forall>l. 1 \<le> l \<and> l \<le> 15 \<longrightarrow> next_codes bl_count ! l = ushort (first_code lens l))"
proof -
  let ?f = "\<lambda>(code, next_code) bits. let code = (code + bl_count ! (bits - 1)) * 2 in (code, next_code[bits := ushort code])"
  let ?s = "\<lambda>m. foldl ?f (0, replicate 16 0) [1..<m]"
  have "fst (?s m) = first_code lens (m - 1) \<and> length (snd (?s m)) = 16
      \<and> (\<forall>l. 1 \<le> l \<and> l < m \<longrightarrow> snd (?s m) ! l = ushort (first_code lens l))" if "1 \<le> m" "m \<le> 16" for m
    using that
  proof (induction m rule: nat_induct_at_least)
    case base
    then show ?case by simp
  next
    case (Suc m)
    obtain code nc where s: "?s m = (code, nc)" by fastforce
    have b: "bl_count ! (m - 1) = (if m - 1 = 0 then 0 else count_list lens (m - 1))"
      using bl Suc by (cases "m - 1 = 0") auto
    have "first_code lens m = (code + bl_count ! (m - 1)) * 2"
      using Suc s b by (cases m) simp_all
    then show ?case
      using Suc s by (auto simp: Let_def nth_list_update less_Suc_eq)
  qed
  from this[of 16] show ?thesis by (simp add: next_codes_def MAX_BITS_def del: upt_Suc)
qed

text \<open>The codes of a length end within its range, so that no counter wraps.\<close>

lemma first_code_bound:
  assumes le: "\<forall>l\<in>set lens. l \<le> 15" and k: "kraft lens \<le> 2 ^ 15" and l: "1 \<le> l" "l \<le> 15"
  shows "first_code lens l + count_list lens l \<le> 2 ^ l"
proof -
  have ls: "code_lens (sorted_lens lens)" by (rule sorted_lens_code_lens[OF le k])
  have len: "start_of lens l + count_list lens l \<le> length (sorted_lens lens)"
  proof -
    have "start_of lens (Suc l) \<le> start_of lens 16" using l by (intro start_of_mono) simp
    then show ?thesis using start_of_Suc[OF l(1), of lens] by (simp add: length_sorted_syms)
  qed
  have "code_pos (sorted_lens lens) (start_of lens l + j) = (first_code lens l + j) * 2 ^ (15 - l)"
    if "j \<le> count_list lens l" for j
    using that
  proof (induction j)
    case 0
    then show ?case using code_pos_start[OF l] by simp
  next
    case (Suc j)
    have "syms_of_len lens l ! j \<in> set (syms_of_len lens l)" using Suc length_syms_of_len[of lens l] by simp
    then have "sorted_lens lens ! (start_of lens l + j) = l" "start_of lens l + j < length (sorted_lens lens)"
      using Suc block_nth[OF l, of j lens] by (auto simp: sorted_lens_def syms_of_len_def)
    then show ?case using Suc code_pos_Suc[of "start_of lens l + j" "sorted_lens lens"] by (simp add: algebra_simps)
  qed
  then have "(first_code lens l + count_list lens l) * 2 ^ (15 - l) = code_pos (sorted_lens lens) (start_of lens l + count_list lens l)"
    by simp
  also have "\<dots> \<le> 2 ^ 15" by (rule code_pos_le[OF ls len])
  also have "\<dots> = 2 ^ l * 2 ^ (15 - l)" by (rule exp15_split[OF l(2)])
  finally show ?thesis by simp
qed


definition tree_lens :: "ct_data list \<Rightarrow> nat \<Rightarrow> nat list" where
  "tree_lens tree max_code = map Len (take (max_code + 1) tree)"

definition gen_inv :: "ct_data list \<Rightarrow> nat list \<Rightarrow> nat \<Rightarrow> ct_data list \<times> nat list \<Rightarrow> bool" where
  "gen_inv tree lens n st \<longleftrightarrow> (case st of (tree', nc) \<Rightarrow>
     length tree' = length tree \<and> length nc = 16
   \<and> (\<forall>l. 1 \<le> l \<and> l \<le> 15 \<longrightarrow> nc ! l = first_code lens l + count_list (take n lens) l)
   \<and> (\<forall>j<length tree. tree' ! j = (if j < n \<and> Len (tree ! j) \<noteq> 0
        then (tree ! j)\<lparr>fc := canon_code lens j\<rparr> else tree ! j)))"

lemma gen_code_inv:
  assumes le: "\<forall>l\<in>set lens. l \<le> 15" and k: "kraft lens \<le> 2 ^ 15"
    and n: "n < length lens" "length lens \<le> length tree" "\<And>j. j < length lens \<Longrightarrow> Len (tree ! j) = lens ! j"
    and inv: "gen_inv tree lens n st"
  shows "gen_inv tree lens (Suc n) (gen_code st n)"
proof -
  obtain tree' nc where st: "st = (tree', nc)" by fastforce
  note i = inv[unfolded gen_inv_def st prod.case]
  let ?l = "lens ! n"
  have take: "take (Suc n) lens = take n lens @ [?l]" using n(1) by (simp add: take_Suc_conv_app_nth)
  have tn: "tree' ! n = tree ! n" using i n by simp
  show ?thesis
  proof (cases "?l = 0")
    case True
    then have "gen_code st n = (tree', nc)" using tn n by (simp add: gen_code_def st)
    then show ?thesis using i n True take by (auto simp: gen_inv_def less_Suc_eq)
  next
    case False
    have l: "1 \<le> ?l" "?l \<le> 15" using False le n(1) by auto
    have v: "nc ! ?l = canon_value lens n" using i l by (simp add: canon_value_def)
    have "count_list (take n lens) ?l < count_list lens ?l"
      using filter_prefix_len[OF n(1) refl] count_take_filter[of n lens ?l] n(1) by simp
    then have "canon_value lens n < 2 ^ ?l"
      using first_code_bound[OF le k l] by (simp add: canon_value_def)
    moreover have "(2::nat) ^ ?l \<le> 2 ^ 15" using l by (intro power_increasing) simp_all
    moreover have "canon_code lens n < 2 ^ ?l" by (simp add: canon_code_def rbits_less)
    ultimately have small: "canon_code lens n < 65536" "canon_value lens n + 1 < 65536" by simp_all
    have "gen_code st n = (tree'[n := (tree ! n)\<lparr>fc := canon_code lens n\<rparr>], nc[?l := nc ! ?l + 1])"
      using tn n False v l small bi_reverse_rbits[OF l(1), of "canon_value lens n"]
      by (simp add: gen_code_def st Let_def canon_code_def ushort_def)
    then show ?thesis using i n False take l by (auto simp: gen_inv_def nth_list_update less_Suc_eq)
  qed
qed

text \<open>
  \<open>gen_codes\<close> gives every symbol with a length its canonical code and leaves everything else alone.
\<close>

lemma gen_codes_spec:
  assumes m: "max_code < length tree"
    and le: "\<forall>l\<in>set (tree_lens tree max_code). l \<le> 15" and k: "kraft (tree_lens tree max_code) \<le> 2 ^ 15"
    and bl: "bl_count ! 0 = 0" "\<And>l. 1 \<le> l \<Longrightarrow> l \<le> 15 \<Longrightarrow> bl_count ! l = count_list (tree_lens tree max_code) l"
  shows "length (gen_codes tree max_code bl_count) = length tree
    \<and> (\<forall>n<length tree. gen_codes tree max_code bl_count ! n =
         (if n \<le> max_code \<and> Len (tree ! n) \<noteq> 0
          then (tree ! n)\<lparr>fc := canon_code (tree_lens tree max_code) n\<rparr> else tree ! n))"
proof -
  let ?lens = "tree_lens tree max_code"
  have len: "length ?lens = max_code + 1" "\<And>j. j < length ?lens \<Longrightarrow> Len (tree ! j) = ?lens ! j"
    using m by (simp_all add: tree_lens_def)
  have first: "ushort (first_code ?lens l) = first_code ?lens l" if "1 \<le> l" "l \<le> 15" for l
  proof -
    have "(2::nat) ^ l \<le> 2 ^ 15" using that by (intro power_increasing) simp_all
    then show ?thesis using first_code_bound[OF le k that] by (simp add: ushort_def)
  qed
  have "gen_inv tree ?lens n (foldl gen_code (tree, next_codes bl_count) [0..<n])" if "n \<le> length ?lens" for n
    using that
  proof (induction n)
    case 0
    then show ?case using next_codes_spec[OF bl] first by (simp add: gen_inv_def)
  next
    case (Suc n)
    then show ?case using gen_code_inv[OF le k _ _ len(2)] len(1) m by simp
  qed
  from this[of "max_code + 1"] show ?thesis
    using len(1) m by (auto simp: gen_inv_def gen_codes_def less_Suc_eq_le split: prod.splits)
qed

section \<open>The static trees\<close>

lemma count_replicate: "count_list (replicate n x) y = (if x = y then n else 0)"
  by (induction n) auto

lemma static_counts: "count_list static_lens l = (if l = 7 then 24 else if l = 8 then 152 else if l = 9 then 112 else 0)"
  by (auto simp: static_lens_def count_replicate)

lemma static_lens_nth: "n < 288 \<Longrightarrow> static_lens ! n = (if n < 144 then 8 else if n < 256 then 9 else if n < 280 then 7 else 8)"
  by (auto simp: static_lens_def nth_append)

lemma length_static_lens: "length static_lens = 288"
  by (simp add: static_lens_def)

lemma static_take: "count_list (take n static_lens) l =
    (if l = 8 then min n 144 + (n - 280 - (n - 288)) else if l = 9 then min (n - 144) 112 else if l = 7 then min (n - 256) 24 else 0)"
  by (auto simp: static_lens_def count_replicate min_def)

lemma static_first: "first_code static_lens 7 = 0" "first_code static_lens 8 = 48" "first_code static_lens 9 = 400"
  by (simp_all add: eval_nat_numeral static_counts[simplified eval_nat_numeral])

lemma static_canon: "n < 288 \<Longrightarrow> canon_code static_lens n =
  (if n < 144 then rbits 8 (48 + n) else if n < 256 then rbits 9 (256 + n)
   else if n < 280 then rbits 7 (n - 256) else rbits 8 (n - 88))"
  by (auto simp: canon_code_def canon_value_def static_lens_nth static_take static_first)

lemma static_kraft: "kraft static_lens = 2 ^ 15"
  by (simp add: kraft_def static_lens_def filter_replicate sum_list_replicate)

lemma rbits_numeral: "rbits (numeral k) x = (x mod 2) * 2 ^ pred_numeral k + rbits (pred_numeral k) (x div 2)"
  by (simp add: numeral_eq_Suc)

lemma static_codes_8: "map (rbits 8) [48..<192] = map Code (take 144 static_ltree)"
  by (simp add: upt_rec rbits_numeral static_ltree_def)

lemma static_codes_9: "map (rbits 9) [400..<512] = map Code (take 112 (drop 144 static_ltree))"
  by (simp add: upt_rec rbits_numeral static_ltree_def)

lemma static_codes_7: "map (rbits 7) [0..<24] = map Code (take 24 (drop 256 static_ltree))"
  by (simp add: upt_rec rbits_numeral static_ltree_def)

lemma static_codes_8': "map (rbits 8) [192..<200] = map Code (drop 280 static_ltree)"
  by (simp add: upt_rec rbits_numeral static_ltree_def)

lemma static_ltree_lens: "map Len static_ltree = static_lens"
  by code_simp

lemma length_static_ltree [simp]: "length static_ltree = 288"
  using arg_cong[OF static_ltree_lens, of length] by (simp add: length_static_lens)

text \<open>The shipped tree of literals and lengths has the canonical codes of the fixed lengths.\<close>

lemma static_ltree_nth:
  assumes n: "n < 288"
  shows "static_ltree ! n = \<lparr>fc = canon_code static_lens n, dl = static_lens ! n\<rparr>"
proof -
  have "Len (static_ltree ! n) = static_lens ! n"
    using arg_cong[OF static_ltree_lens, of "\<lambda>xs. xs ! n"] n by simp
  moreover have "Code (static_ltree ! n) = canon_code static_lens n"
  proof -
    consider "n < 144" | "144 \<le> n" "n < 256" | "256 \<le> n" "n < 280" | "280 \<le> n" by linarith
    then show ?thesis
    proof cases
      case 1
      then show ?thesis using map_upt_nth[OF static_codes_8, of n] static_canon[OF n] by simp
    next
      case 2
      then show ?thesis using map_upt_nth[OF static_codes_9, of "n - 144"] static_canon[OF n] by simp
    next
      case 3
      then show ?thesis using map_upt_nth[OF static_codes_7, of "n - 256"] static_canon[OF n] by simp
    next
      case 4
      then show ?thesis using n map_upt_nth[OF static_codes_8', of "n - 280"] static_canon[OF n] by simp
    qed
  qed
  ultimately show ?thesis by (cases "static_ltree ! n") simp
qed

lemma init_static_ltree_table: "init_static_ltree = static_ltree"
proof -
  let ?t = "map (\<lambda>l. \<lparr>fc = 0, dl = l\<rparr>) static_lens"
  have lens: "tree_lens ?t (L_CODES + 1) = static_lens"
    by (simp add: tree_lens_def length_static_lens comp_def L_CODES_def LITERALS_def LENGTH_CODES_def)
  have "static_bl_count ! l = count_list static_lens l" if "l \<le> 15" for l
    using that count_lens_nth[of static_lens]
    by (simp add: static_bl_count_def MAX_BITS_def count_lens_def MAXBITS_def static_lens_def)
  moreover have "\<forall>l\<in>set static_lens. l \<le> 15" by (auto simp: static_lens_def)
  ultimately have "length init_static_ltree = 288
    \<and> (\<forall>n<288. init_static_ltree ! n = (if n \<le> L_CODES + 1 \<and> Len (?t ! n) \<noteq> 0
        then (?t ! n)\<lparr>fc := canon_code static_lens n\<rparr> else ?t ! n))"
    using gen_codes_spec[of "L_CODES + 1" ?t static_bl_count] static_kraft static_counts[of 0]
    unfolding lens init_static_ltree_def by (simp add: length_static_lens L_CODES_def LITERALS_def LENGTH_CODES_def)
  then show ?thesis
    by (intro nth_equalityI) (auto simp: static_ltree_nth static_lens_nth length_static_lens L_CODES_def LITERALS_def LENGTH_CODES_def)
qed

section \<open>Lengths and distances\<close>

text \<open>What the compressor sends for a match length \<open>lc + 3\<close> is what the decompressor adds up.\<close>

definition length_ok :: "nat \<Rightarrow> bool" where
  "length_ok lc = (let code = length_code ! lc; ex = extra_lbits ! code in
     code < 29 \<and> lext ! code = 16 + ex \<and> ex \<le> 5
   \<and> (if ex = 0 then lbase ! code = lc + 3
      else base_length ! code \<le> lc \<and> lc - base_length ! code < 2 ^ ex
         \<and> lbase ! code + (lc - base_length ! code) = lc + 3))"

lemma length_ok: "lc < 256 \<Longrightarrow> length_ok lc"
proof -
  have "list_all length_ok [0..<256]" by code_simp
  moreover assume "lc < 256"
  ultimately show ?thesis using list_all_upt[of length_ok 0 256] by blast
qed

definition dist_ok :: "nat \<Rightarrow> bool" where
  "dist_ok dist = (let code = d_code dist; ex = extra_dbits ! code in
     code < 30 \<and> dext ! code = 16 + ex \<and> ex \<le> 13
   \<and> base_dist ! code \<le> dist \<and> dist - base_dist ! code < 2 ^ ex
   \<and> dbase ! code + (dist - base_dist ! code) = dist + 1)"

text \<open>The codes of distances from 256 on, in units of 128.\<close>

definition dist_high_ok :: "nat \<Rightarrow> bool" where
  "dist_high_ok k = (let code = dist_code ! (256 + k); ex = extra_dbits ! code in
     16 \<le> code \<and> code < 30 \<and> 7 \<le> ex
   \<and> (let b = [2,3,4,6,8,12,16,24,32,48,64,96,128,192] ! (code - 16) in b \<le> k \<and> k < b + 2 ^ (ex - 7)))"

lemma dist_high_ok: "2 \<le> k \<Longrightarrow> k < 256 \<Longrightarrow> dist_high_ok k"
proof -
  have "list_all dist_high_ok [2..<256]" by code_simp
  moreover assume "2 \<le> k" "k < 256"
  ultimately show ?thesis by (rule list_all_upt)
qed


lemma dist_low_ok: "dist < 256 \<Longrightarrow> (let code = dist_code ! dist; ex = extra_dbits ! code in code < 16 \<and> ex \<le> 13
    \<and> (let b = [0,1,2,3,4,6,8,12,16,24,32,48,64,96,128,192] ! code in b \<le> dist \<and> dist < b + 2 ^ ex))"
proof -
  let ?P = "\<lambda>dist. (let code = dist_code ! dist; ex = extra_dbits ! code in code < 16 \<and> ex \<le> 13
    \<and> (let b = [0,1,2,3,4,6,8,12,16,24,32,48,64,96,128,192::nat] ! code in b \<le> dist \<and> dist < b + 2 ^ ex))"
  have "list_all ?P [0..<256]" by code_simp
  moreover assume "dist < 256"
  ultimately show ?thesis using list_all_upt[of ?P 0 256] by blast
qed

text \<open>The two tables of base values agree, up to the normalisation of distances.\<close>

lemma base_dist_tables:
  assumes "code < 30"
  shows "dbase ! code = base_dist ! code + 1 \<and> dext ! code = 16 + extra_dbits ! code \<and> extra_dbits ! code \<le> 13
    \<and> (code < 16 \<longrightarrow> base_dist ! code = [0,1,2,3,4,6,8,12,16,24,32,48,64,96,128,192] ! code)
    \<and> (16 \<le> code \<longrightarrow> base_dist ! code = 128 * [2,3,4,6,8,12,16,24,32,48,64,96,128,192] ! (code - 16))"
proof -
  let ?P = "\<lambda>code. dbase ! code = base_dist ! code + 1 \<and> dext ! code = 16 + extra_dbits ! code \<and> extra_dbits ! code \<le> 13
    \<and> (code < 16 \<longrightarrow> base_dist ! code = [0,1,2,3,4,6,8,12,16,24,32,48,64,96,128,192] ! code)
    \<and> (16 \<le> code \<longrightarrow> base_dist ! code = 128 * [2,3,4,6,8,12,16,24,32,48,64,96,128,192] ! (code - 16))"
  have "list_all ?P [0..<30]"
    by (simp add: upt_rec dbase_def base_dist_def dext_def extra_dbits_def)
  then show ?thesis by (rule list_all_upt) (use assms in simp_all)
qed

lemma dist_ok: "dist < 32768 \<Longrightarrow> dist_ok dist"
proof (cases "dist < 256")
  case True
  let ?c = "dist_code ! dist"
  note l = dist_low_ok[OF True, unfolded Let_def]
  then have "?c < 16" by simp
  then show ?thesis
    using l True base_dist_tables[of ?c] by (auto simp: dist_ok_def d_code_def Let_def)
next
  case False
  assume d: "dist < 32768"
  let ?k = "dist div 128"
  let ?c = "dist_code ! (256 + ?k)"
  let ?b = "[2,3,4,6,8,12,16,24,32,48,64,96,128,192] ! (?c - 16) :: nat"
  have k: "2 \<le> ?k" "?k < 256" using False d by simp_all
  note h = dist_high_ok[OF k, unfolded dist_high_ok_def Let_def]
  have c: "16 \<le> ?c" "?c < 30" using h by simp_all
  note t = base_dist_tables[OF c(2)]
  have base: "base_dist ! ?c = 128 * ?b" using t c(1) by simp
  have ex: "(2::nat) ^ (extra_dbits ! ?c) = 128 * 2 ^ (extra_dbits ! ?c - 7)"
    using h power_add[of "2::nat" 7 "extra_dbits ! ?c - 7"] by simp
  have "128 * ?b \<le> 128 * ?k" "128 * ?k + 128 \<le> 128 * ?b + 128 * 2 ^ (extra_dbits ! ?c - 7)" using h by simp_all
  moreover have "128 * ?k \<le> dist" "dist < 128 * ?k + 128" by simp_all
  ultimately have "128 * ?b \<le> dist" "dist < 128 * ?b + 2 ^ (extra_dbits ! ?c)" unfolding ex by linarith+
  then have "128 * ?b \<le> dist" "dist - 128 * ?b < 2 ^ (extra_dbits ! ?c)" by linarith+
  moreover have "d_code dist = ?c" using False by (simp add: d_code_def drop_bit_eq_div)
  ultimately show ?thesis using t c base by (auto simp: dist_ok_def Let_def)
qed

section \<open>Properties\<close>

text \<open>
  C15: the tables in \<open>trees.h\<close> are the ones \<open>tr_static_init\<close> generates: the length and distance codes
  with their base values, and the static trees of literals and lengths and of distances.
\<close>

theorem tr_static_init_tables:
  "init_length_code = (base_length, length_code) \<and> init_dist_code = (base_dist, dist_code)
   \<and> init_static_ltree = static_ltree \<and> init_static_dtree = static_dtree"
  using init_length_code_table init_dist_code_table init_static_ltree_table init_static_dtree_table by simp

text \<open>
  C13: \<open>gen_codes\<close> gives every symbol of non-zero length the canonical code of its length (bit
  reversed, as it is sent), none of its 16 bit counters wraps, and it changes nothing else.
\<close>

theorem gen_codes_canonical:
  assumes "max_code < length tree"
    and "\<forall>l\<in>set (tree_lens tree max_code). l \<le> 15" and "kraft (tree_lens tree max_code) \<le> 2 ^ 15"
    and "bl_count ! 0 = 0" "\<And>l. 1 \<le> l \<Longrightarrow> l \<le> 15 \<Longrightarrow> bl_count ! l = count_list (tree_lens tree max_code) l"
  shows "length (gen_codes tree max_code bl_count) = length tree
    \<and> (\<forall>n<length tree. gen_codes tree max_code bl_count ! n =
         (if n \<le> max_code \<and> Len (tree ! n) \<noteq> 0
          then (tree ! n)\<lparr>fc := canon_code (tree_lens tree max_code) n\<rparr> else tree ! n))"
  using assms by (rule gen_codes_spec)

definition demo_tree :: "ct_data list" where
  "demo_tree = [\<lparr>fc = 3, dl = 1\<rparr>, \<lparr>fc = 2, dl = 2\<rparr>, \<lparr>fc = 1, dl = 2\<rparr>]"

theorem gen_codes_canonical_witness:
  "gen_codes demo_tree 2 [0,1,2,0,0,0,0,0,0,0,0,0,0,0,0,0] ! 2 = \<lparr>fc = canon_code [1, 2, 2] 2, dl = 2\<rparr>"
proof -
  have lens: "tree_lens demo_tree 2 = [1, 2, 2]" by (simp add: tree_lens_def demo_tree_def)
  have "[0,1,2,0,0,0,0,0,0,0,0,0,0,0,0,0::nat] ! l = count_list [1, 2, 2] l" if "1 \<le> l" "l \<le> 15" for l :: nat
  proof -
    have "list_all (\<lambda>l. [0,1,2,0,0,0,0,0,0,0,0,0,0,0,0,0::nat] ! l = count_list [1, 2, 2] l) [1..<16]" by code_simp
    then show ?thesis by (rule list_all_upt) (use that in simp_all)
  qed
  then show ?thesis
    using gen_codes_canonical[of 2 demo_tree "[0,1,2,0,0,0,0,0,0,0,0,0,0,0,0,0]"]
    unfolding lens by (simp add: demo_tree_def kraft_def)
qed

text \<open>
  C14: for every match length of 3 to 258 and every distance of 1 to 32768, the code and the extra
  bits the compressor sends are in range, and the decompressor's base value for that code plus the
  extra bits is the length or the distance again.
\<close>

theorem length_dist_round_trip:
  assumes "lc < 256" "dist < 32768"
  shows "length_ok lc \<and> dist_ok dist"
  using length_ok[OF assms(1)] dist_ok[OF assms(2)] by simp

theorem length_dist_round_trip_witness: "length_ok 255 \<and> dist_ok 32767"
  using length_dist_round_trip[of 255 32767] by simp

end
