(* ===== verification/Priority_Queue.thy ===== *)
theory Priority_Queue
  imports Trees_Tables Checked_Memory "HOL-Library.Multiset"
begin

text \<open>
  The priority queue of \<open>trees.c\<close> in the array \<open>heap\<close>: \<open>smaller\<close>, \<open>pqdownheap\<close> and \<open>pqremove\<close>, with the
  part of \<open>deflate_state\<close> that the construction of a Huffman tree works on.  Array accesses are checked,
  and counters that the code keeps in \<open>ush\<close> or \<open>uch\<close> are cast.
\<close>

section \<open>State\<close>

type_synonym ulg = "64 word"

text \<open>The fields of \<open>deflate_state\<close> that the construction works on.\<close>

record tree_state = bit_state +
  bl_count :: "nat list"
  heap :: "nat list"
  heap_len :: nat
  heap_max :: nat
  depth :: "nat list"
  opt_len :: ulg
  static_len :: ulg

definition SMALLEST :: nat where
  "SMALLEST = 1"

section \<open>The priority queue\<close>

definition smaller :: "ct_data list \<Rightarrow> nat \<Rightarrow> nat \<Rightarrow> nat list \<Rightarrow> bool option" where
  "smaller tree n m dep = do {
     a \<leftarrow> rd tree n;
     b \<leftarrow> rd tree m;
     if Freq a < Freq b then Some True
     else if Freq a = Freq b then do { x \<leftarrow> rd dep n; y \<leftarrow> rd dep m; Some (x \<le> y) }
     else Some False }"

text \<open>The loop \<open>while (j <= s->heap_len)\<close>, with the final store of \<open>v\<close>.\<close>

partial_function (option) pq_loop ::
  "ct_data list \<Rightarrow> nat list \<Rightarrow> nat \<Rightarrow> nat \<Rightarrow> nat list \<Rightarrow> nat \<Rightarrow> nat \<Rightarrow> nat list option" where
  "pq_loop tree dep len v hp k j =
     (if j \<le> len then do {
        right \<leftarrow> (if j < len then do { a \<leftarrow> rd hp (j + 1); b \<leftarrow> rd hp j; smaller tree a b dep } else Some False);
        j \<leftarrow> Some (if right then j + 1 else j);
        hj \<leftarrow> rd hp j;
        stop \<leftarrow> smaller tree v hj dep;
        if stop then wr hp k v
        else do { hp \<leftarrow> wr hp k hj; pq_loop tree dep len v hp j (2 * j) }
      } else wr hp k v)"

declare pq_loop.simps [code]

definition pqdownheap :: "'a tree_state_scheme \<Rightarrow> ct_data list \<Rightarrow> nat \<Rightarrow> 'a tree_state_scheme option" where
  "pqdownheap s tree k = do {
     v \<leftarrow> rd (heap s) k;
     hp \<leftarrow> pq_loop tree (depth s) (heap_len s) v (heap s) k (2 * k);
     Some (s\<lparr>heap := hp\<rparr>) }"

definition pqremove :: "'a tree_state_scheme \<Rightarrow> ct_data list \<Rightarrow> (nat \<times> 'a tree_state_scheme) option" where
  "pqremove s tree = do {
     top \<leftarrow> rd (heap s) SMALLEST;
     l \<leftarrow> rd (heap s) (heap_len s);
     hp \<leftarrow> wr (heap s) SMALLEST l;
     s \<leftarrow> pqdownheap (s\<lparr>heap := hp, heap_len := heap_len s - 1\<rparr>) tree SMALLEST;
     Some (top, s) }"

section \<open>The queue keeps its elements and its order\<close>

definition queue :: "nat list \<Rightarrow> nat \<Rightarrow> nat list" where
  "queue hp len = take len (drop 1 hp)"

definition node_le :: "ct_data list \<Rightarrow> nat list \<Rightarrow> nat \<Rightarrow> nat \<Rightarrow> bool" where
  "node_le tree dep n m \<longleftrightarrow> Freq (tree ! n) < Freq (tree ! m) \<or> Freq (tree ! n) = Freq (tree ! m) \<and> dep ! n \<le> dep ! m"

lemma node_le_refl [simp]: "node_le tree dep n n"
  by (simp add: node_le_def)

lemma node_le_trans: "node_le tree dep a b \<Longrightarrow> node_le tree dep b c \<Longrightarrow> node_le tree dep a c"
  by (auto simp: node_le_def)

lemma node_le_total: "\<not> node_le tree dep a b \<Longrightarrow> node_le tree dep b a"
  by (auto simp: node_le_def)

lemma smaller_Some:
  "n < length tree \<Longrightarrow> m < length tree \<Longrightarrow> n < length dep \<Longrightarrow> m < length dep \<Longrightarrow>
   smaller tree n m dep = Some (node_le tree dep n m)"
  by (auto simp: smaller_def node_le_def)

text \<open>The nodes in the queue are nodes of the tree.\<close>

definition queue_nodes :: "nat \<Rightarrow> nat list \<Rightarrow> nat \<Rightarrow> bool" where
  "queue_nodes N hp len \<longleftrightarrow> len < length hp \<and> (\<forall>i. 1 \<le> i \<and> i \<le> len \<longrightarrow> hp ! i < N)"

text \<open>Fathers from position \<open>k\<close> on are not greater than their sons.\<close>

definition heap_from :: "(nat \<Rightarrow> nat \<Rightarrow> bool) \<Rightarrow> nat list \<Rightarrow> nat \<Rightarrow> nat \<Rightarrow> bool" where
  "heap_from le hp len k \<longleftrightarrow> (\<forall>c. 2 \<le> c \<and> c \<le> len \<and> k \<le> c div 2 \<longrightarrow> le (hp ! (c div 2)) (hp ! c))"

text \<open>
  The array during the sift: with \<open>v\<close> put into the hole \<open>k\<close>, the order holds from \<open>k0\<close> on except
  between the hole and its sons, and the father of the hole is not greater than those.
\<close>

definition sift_inv :: "(nat \<Rightarrow> nat \<Rightarrow> bool) \<Rightarrow> nat \<Rightarrow> nat \<Rightarrow> nat \<Rightarrow> nat list \<Rightarrow> nat \<Rightarrow> bool" where
  "sift_inv le len v k0 hp k \<longleftrightarrow>
     (\<forall>c. 2 \<le> c \<and> c \<le> len \<and> k0 \<le> c div 2 \<and> c div 2 \<noteq> k \<longrightarrow> le ((hp[k := v]) ! (c div 2)) ((hp[k := v]) ! c))
   \<and> (\<forall>c. 2 \<le> c \<and> c \<le> len \<and> c div 2 = k \<and> k0 \<le> k div 2 \<and> 2 \<le> k \<longrightarrow> le (hp ! (k div 2)) (hp ! c))"

lemma sift_step:
  assumes inv: "sift_inv le len v k0 hp k" and k: "1 \<le> k" "k0 \<le> k"
    and j: "j div 2 = k" "j \<le> len" "2 \<le> j" and len: "len < length hp"
    and least: "\<And>c. c div 2 = k \<Longrightarrow> c \<le> len \<Longrightarrow> 2 \<le> c \<Longrightarrow> le (hp ! j) (hp ! c)"
    and v: "le (hp ! j) v"
  shows "sift_inv le len v k0 (hp[k := hp ! j]) j"
proof -
  let ?h = "hp[k := hp ! j, j := v]"
  have kj: "k < j" using j by linarith
  have h: "?h ! k = hp ! j" "?h ! j = v" "\<And>i. i \<noteq> k \<Longrightarrow> i \<noteq> j \<Longrightarrow> ?h ! i = hp ! i"
    using kj j len by simp_all
  have hv: "\<And>i. i \<noteq> k \<Longrightarrow> (hp[k := v]) ! i = hp ! i" by simp
  have one: "le (hp ! (c div 2)) (hp ! c)" if "2 \<le> c" "c \<le> len" "k0 \<le> c div 2" "c div 2 \<noteq> k" "c \<noteq> k" for c
    using inv that hv unfolding sift_inv_def by metis
  have "le (?h ! (c div 2)) (?h ! c)" if c: "2 \<le> c" "c \<le> len" "k0 \<le> c div 2" "c div 2 \<noteq> j" for c
  proof -
    consider "c div 2 = k" "c = j" | "c div 2 = k" "c \<noteq> j" | "c = k" "c div 2 \<noteq> k" | "c div 2 \<noteq> k" "c \<noteq> k" by blast
    then show ?thesis
    proof cases
      case 1
      then show ?thesis using h v by simp
    next
      case 2
      then have "c \<noteq> k" using c by auto
      then show ?thesis using 2 h least[of c] c by simp
    next
      case 3
      then have "k0 \<le> k div 2" "2 \<le> k" using c by auto
      moreover have "c div 2 \<noteq> j" using c by simp
      ultimately have "le (hp ! (k div 2)) (hp ! j)" using inv j unfolding sift_inv_def by blast
      then show ?thesis using 3 h c by simp
    next
      case 4
      then have "c \<noteq> j" using j by blast
      then show ?thesis using 4 one[of c] h c by simp
    qed
  qed
  moreover have "le (hp[k := hp ! j] ! (j div 2)) (hp[k := hp ! j] ! c)" if "2 \<le> c" "c \<le> len" "c div 2 = j" for c
  proof -
    have "c \<noteq> k" "c div 2 \<noteq> k" using that kj by auto
    then have "le (hp ! j) (hp ! c)" using one[of c] that k kj by simp
    then show ?thesis using j len kj \<open>c \<noteq> k\<close> by simp
  qed
  ultimately show ?thesis unfolding sift_inv_def by blast
qed

lemma sift_stop:
  assumes inv: "sift_inv le len v k0 hp k" and k: "1 \<le> k" and len: "k < length hp"
    and least: "\<And>c. c div 2 = k \<Longrightarrow> c \<le> len \<Longrightarrow> 2 \<le> c \<Longrightarrow> le v (hp ! c)"
  shows "heap_from le (hp[k := v]) len k0"
proof -
  have "le ((hp[k := v]) ! (c div 2)) ((hp[k := v]) ! c)" if "2 \<le> c" "c \<le> len" "k0 \<le> c div 2" for c
  proof (cases "c div 2 = k")
    case True
    then have "c \<noteq> k" using that by auto
    then show ?thesis using True least[of c] that len by simp
  next
    case False
    then show ?thesis using inv that unfolding sift_inv_def by blast
  qed
  then show ?thesis unfolding heap_from_def by blast
qed

lemma mset_move_hole:
  "k < length hp \<Longrightarrow> j < length hp \<Longrightarrow> k \<noteq> j \<Longrightarrow> mset (hp[k := hp ! j, j := v]) = mset (hp[k := v])"
  using mset_swap[of k "hp[k := v]" j] by (simp add: list_update_swap)

text \<open>
  The sift ends, stays within the queue, permutes it and restores its order.
\<close>

lemma pq_loop_spec:
  assumes "1 \<le> k" "k \<le> len" "k0 \<le> k" "queue_nodes N hp len" "N \<le> length tree" "N \<le> length dep" "v < N"
    and "sift_inv (node_le tree dep) len v k0 hp k"
  shows "\<exists>hp'. pq_loop tree dep len v hp k (2 * k) = Some hp' \<and> length hp' = length hp
    \<and> (\<forall>i. i = 0 \<or> i > len \<longrightarrow> hp' ! i = hp ! i) \<and> mset hp' = mset (hp[k := v])
    \<and> heap_from (node_le tree dep) hp' len k0"
  using assms
proof (induction "len - k" arbitrary: k hp rule: less_induct)
  case less
  let ?le = "node_le tree dep"
  have len: "len < length hp" and nodes: "\<And>i. 1 \<le> i \<Longrightarrow> i \<le> len \<Longrightarrow> hp ! i < N"
    using less.prems(4) by (simp_all add: queue_nodes_def)
  have store: "length (hp[k := v]) = length hp \<and> (\<forall>i. i = 0 \<or> i > len \<longrightarrow> hp[k := v] ! i = hp ! i)"
    using less.prems(1,2) by auto
  have kl: "k < length hp" using less.prems(2) len by simp
  show ?case
  proof (cases "2 * k \<le> len")
    case False
    then have "heap_from ?le (hp[k := v]) len k0"
      by (intro sift_stop[OF less.prems(8,1) kl]) linarith
    then show ?thesis using False store kl by (subst pq_loop.simps) simp
  next
    case True
    let ?r = "2 * k < len \<and> ?le (hp ! (2 * k + 1)) (hp ! (2 * k))"
    define j where "j = (if ?r then 2 * k + 1 else 2 * k)"
    have j: "j \<le> len" "j div 2 = k" "2 \<le> j" "k < j" using True less.prems(1) by (auto simp: j_def)
    have smal: "smaller tree a b dep = Some (?le a b)" if "a < N" "b < N" for a b
      using that less.prems(5,6) by (intro smaller_Some) simp_all
    have least: "?le (hp ! j) (hp ! c)" if "c div 2 = k" "c \<le> len" for c
    proof -
      have "c = 2 * k \<or> c = 2 * k + 1" using that by linarith
      then show ?thesis using that by (auto simp: j_def dest: node_le_total)
    qed
    have "hp ! j < N" using nodes j by simp
    have run: "pq_loop tree dep len v hp k (2 * k) =
      (if ?le v (hp ! j) then Some (hp[k := v]) else pq_loop tree dep len v (hp[k := hp ! j]) j (2 * j))"
    proof (cases "2 * k < len")
      case lt: True
      then show ?thesis
        using True less.prems(1,7) j(1) len kl nodes[of "2 * k"] nodes[of "2 * k + 1"] nodes[of j] smal
        by (subst pq_loop.simps) (simp add: j_def)
    next
      case ge: False
      then have jk: "j = 2 * k" by (simp add: j_def)
      show ?thesis
        using True ge less.prems(1,7) len kl nodes[of "2 * k"] smal
        by (subst pq_loop.simps) (simp add: jk)
    qed
    show ?thesis
    proof (cases "?le v (hp ! j)")
      case stop: True
      then have "heap_from ?le (hp[k := v]) len k0"
        using least node_le_trans by (intro sift_stop[OF less.prems(8,1) kl]) blast
      then show ?thesis using stop run store by simp
    next
      case go: False
      have inv': "sift_inv ?le len v k0 (hp[k := hp ! j]) j"
        using sift_step[OF less.prems(8,1,3) j(2,1,3) len least node_le_total[OF go]] by blast
      have nodes': "queue_nodes N (hp[k := hp ! j]) len"
        using less.prems(4) j nodes by (auto simp: queue_nodes_def nth_list_update)
      have "len - j < len - k" using j by simp
      from less.hyps[OF this _ j(1) _ nodes' less.prems(5-7) inv']
      obtain hp' where hp': "pq_loop tree dep len v (hp[k := hp ! j]) j (2 * j) = Some hp'"
        "length hp' = length hp" "\<forall>i. i = 0 \<or> i > len \<longrightarrow> hp' ! i = hp[k := hp ! j] ! i"
        "mset hp' = mset (hp[k := hp ! j, j := v])" "heap_from ?le hp' len k0"
        using j less.prems(3) by auto
      moreover have "mset (hp[k := hp ! j, j := v]) = mset (hp[k := v])"
        using kl j len by (intro mset_move_hole) simp_all
      moreover have "\<forall>i. i = 0 \<or> i > len \<longrightarrow> hp[k := hp ! j] ! i = hp ! i" using less.prems(1,2) by auto
      ultimately show ?thesis using go run by auto
    qed
  qed
qed

text \<open>Whatever the construction does, it leaves the output and the rest of the state alone.\<close>

definition tree_frame :: "'a tree_state_scheme \<Rightarrow> 'a tree_state_scheme \<Rightarrow> bool" where
  "tree_frame s s' \<longleftrightarrow> pending_buf s' = pending_buf s \<and> bi_buf s' = bi_buf s \<and> bi_valid s' = bi_valid s
     \<and> tree_state.more s' = tree_state.more s"

definition work_arrays :: "'a tree_state_scheme \<Rightarrow> bool" where
  "work_arrays s \<longleftrightarrow> length (heap s) = HEAP_SIZE \<and> length (depth s) = HEAP_SIZE \<and> length (bl_count s) = 16"

lemma queue_split: "len < length hp \<Longrightarrow> hp = hp ! 0 # queue hp len @ drop (len + 1) hp"
  by (cases hp) (simp_all add: queue_def)

lemma length_queue [simp]: "len < length hp \<Longrightarrow> length (queue hp len) = len"
  by (simp add: queue_def)

lemma queue_nth: "len < length hp \<Longrightarrow> i < len \<Longrightarrow> queue hp len ! i = hp ! (i + 1)"
  by (simp add: queue_def)

lemma queue_Suc: "Suc n < length hp \<Longrightarrow> queue hp (Suc n) = queue hp n @ [hp ! Suc n]"
  by (simp add: queue_def take_Suc_conv_app_nth)

lemma queue_set: "len < length hp \<Longrightarrow> set (queue hp len) = {hp ! i |i. 1 \<le> i \<and> i \<le> len}"
proof -
  assume l: "len < length hp"
  have "set (queue hp len) = {queue hp len ! i |i. i < len}" using l by (simp add: set_conv_nth)
  also have "\<dots> = {hp ! i |i. 1 \<le> i \<and> i \<le> len}"
  proof (intro equalityI subsetI)
    fix x assume "x \<in> {queue hp len ! i |i. i < len}"
    then obtain i where "i < len" "x = queue hp len ! i" by blast
    then show "x \<in> {hp ! i |i. 1 \<le> i \<and> i \<le> len}" using l by (auto simp: queue_nth intro!: exI[of _ "i + 1"])
  next
    fix x assume "x \<in> {hp ! i |i. 1 \<le> i \<and> i \<le> len}"
    then obtain i where "1 \<le> i" "i \<le> len" "x = hp ! i" by blast
    then show "x \<in> {queue hp len ! i |i. i < len}" using l by (auto simp: queue_nth intro!: exI[of _ "i - 1"])
  qed
  finally show ?thesis .
qed

lemma queue_nodes_iff: "queue_nodes N hp len \<longleftrightarrow> len < length hp \<and> (\<forall>x\<in>set (queue hp len). x < N)"
  by (auto simp: queue_nodes_def queue_set)

lemma queue_mset_eq:
  assumes "len < length hp" "length hp' = length hp" "mset hp' = mset hp" "\<forall>i. i = 0 \<or> i > len \<longrightarrow> hp' ! i = hp ! i"
  shows "mset (queue hp' len) = mset (queue hp len)"
proof -
  have "drop (len + 1) hp' = drop (len + 1) hp" using assms by (intro nth_equalityI) simp_all
  moreover have "mset xs = add_mset (xs ! 0) (mset (queue xs len) + mset (drop (len + 1) xs))" if "len < length xs" for xs
    using arg_cong[OF queue_split[OF that], of mset] by simp
  ultimately show ?thesis using assms by simp
qed

lemma queue_cong:
  "len < length hp \<Longrightarrow> length hp' = length hp \<Longrightarrow> (\<And>i. 1 \<le> i \<Longrightarrow> i \<le> len \<Longrightarrow> hp' ! i = hp ! i) \<Longrightarrow> queue hp' len = queue hp len"
  by (intro nth_equalityI) (simp_all add: queue_nth)

lemma pqdownheap_spec:
  assumes k: "1 \<le> k" "k \<le> heap_len s" and q: "queue_nodes N (heap s) (heap_len s)"
    and N: "N \<le> length tree" "N \<le> length (depth s)"
    and h: "heap_from (node_le tree (depth s)) (heap s) (heap_len s) (k + 1)"
  shows "\<exists>hp. pqdownheap s tree k = Some (s\<lparr>heap := hp\<rparr>) \<and> length hp = length (heap s)
    \<and> (\<forall>i. i = 0 \<or> i > heap_len s \<longrightarrow> hp ! i = heap s ! i) \<and> mset (queue hp (heap_len s)) = mset (queue (heap s) (heap_len s))
    \<and> heap_from (node_le tree (depth s)) hp (heap_len s) k"
proof -
  let ?hp = "heap s"
  have l: "heap_len s < length ?hp" and v: "?hp ! k < N" using q k by (auto simp: queue_nodes_def)
  have inv: "sift_inv (node_le tree (depth s)) (heap_len s) (?hp ! k) k ?hp k"
    using h k by (auto simp: sift_inv_def heap_from_def)
  obtain hp where "pq_loop tree (depth s) (heap_len s) (?hp ! k) ?hp k (2 * k) = Some hp" "length hp = length ?hp"
    "\<forall>i. i = 0 \<or> i > heap_len s \<longrightarrow> hp ! i = ?hp ! i" "mset hp = mset ?hp"
    "heap_from (node_le tree (depth s)) hp (heap_len s) k"
    using pq_loop_spec[OF k order_refl q N v inv] by auto
  then show ?thesis using k l by (auto simp: pqdownheap_def intro!: queue_mset_eq)
qed

text \<open>The first element of an ordered heap is a least one.\<close>

lemma heap_from_least:
  assumes "heap_from (node_le tree dep) hp len 1" "1 \<le> i" "i \<le> len"
  shows "node_le tree dep (hp ! 1) (hp ! i)"
  using assms(2,3)
proof (induction i rule: less_induct)
  case (less i)
  show ?case
  proof (cases "i = 1")
    case False
    then have i: "2 \<le> i" "1 \<le> i div 2" "i div 2 < i" "i div 2 \<le> len" using less.prems by auto
    then have "node_le tree dep (hp ! 1) (hp ! (i div 2))" using less.IH by blast
    moreover have "node_le tree dep (hp ! (i div 2)) (hp ! i)"
      using assms(1) i less.prems unfolding heap_from_def by blast
    ultimately show ?thesis by (rule node_le_trans)
  qed simp
qed

lemma heap_from_vacuous: "len < 2 * k \<Longrightarrow> heap_from le hp len k"
  by (auto simp: heap_from_def)

lemma heap_from_cong: "heap_from le hp len k \<Longrightarrow> (\<And>i. k \<le> i \<Longrightarrow> i \<le> len' \<Longrightarrow> hp' ! i = hp ! i) \<Longrightarrow> len' \<le> len \<Longrightarrow> heap_from le hp' len' k"
  unfolding heap_from_def by (metis div_le_dividend le_trans)

lemma heap_from_mono:
  assumes "heap_from le hp len k" "\<And>i. k \<le> i \<Longrightarrow> i \<le> len \<Longrightarrow> hp' ! i = hp ! i"
    and "\<And>i c. k \<le> i \<Longrightarrow> i \<le> len \<Longrightarrow> k \<le> c \<Longrightarrow> c \<le> len \<Longrightarrow> le (hp ! i) (hp ! c) \<Longrightarrow> le' (hp ! i) (hp ! c)"
  shows "heap_from le' hp' len k"
  unfolding heap_from_def
proof (intro allI impI)
  fix c assume c: "2 \<le> c \<and> c \<le> len \<and> k \<le> c div 2"
  then have "k \<le> c" "c div 2 \<le> len" by linarith+
  then show "le' (hp' ! (c div 2)) (hp' ! c)" using assms c unfolding heap_from_def by auto
qed

lemma queue_first: "1 \<le> len \<Longrightarrow> len < length hp \<Longrightarrow> queue hp len = hp ! 1 # drop 1 (queue hp len)"
  by (intro nth_equalityI) (auto simp: queue_nth nth_Cons split: nat.split)

lemma queue_update_first: "1 \<le> len \<Longrightarrow> len < length hp \<Longrightarrow> queue (hp[1 := x]) len = x # drop 1 (queue hp len)"
  by (intro nth_equalityI) (auto simp: queue_nth nth_Cons split: nat.split)

text \<open>
  Removing the first element of a queue of at least two takes a least one out, and leaves an
  ordered queue of the others.
\<close>

lemma pqremove_spec:
  assumes len: "2 \<le> heap_len s" and q: "queue_nodes N (heap s) (heap_len s)"
    and N: "N \<le> length tree" "N \<le> length (depth s)"
    and h: "heap_from (node_le tree (depth s)) (heap s) (heap_len s) 1"
  shows "\<exists>hp. pqremove s tree = Some (heap s ! 1, s\<lparr>heap := hp, heap_len := heap_len s - 1\<rparr>)
    \<and> length hp = length (heap s) \<and> (\<forall>i. i = 0 \<or> i \<ge> heap_len s \<longrightarrow> hp ! i = heap s ! i)
    \<and> add_mset (heap s ! 1) (mset (queue hp (heap_len s - 1))) = mset (queue (heap s) (heap_len s))
    \<and> (\<forall>x\<in>set (queue (heap s) (heap_len s)). node_le tree (depth s) (heap s ! 1) x)
    \<and> heap_from (node_le tree (depth s)) hp (heap_len s - 1) 1"
proof -
  let ?hp = "heap s" and ?n = "heap_len s" and ?le = "node_le tree (depth s)"
  let ?s = "s\<lparr>heap := ?hp[1 := ?hp ! ?n], heap_len := ?n - 1\<rparr>"
  have l: "?n < length ?hp" using q by (simp add: queue_nodes_def)
  have q': "queue_nodes N (heap ?s) (heap_len ?s)" using q len by (auto simp: queue_nodes_def nth_list_update)
  have h': "heap_from (node_le tree (depth ?s)) (heap ?s) (heap_len ?s) 2"
  proof -
    have "heap_from ?le ?hp ?n 2" using h by (auto simp: heap_from_def)
    then have "heap_from ?le (?hp[1 := ?hp ! ?n]) (?n - 1) 2" by (rule heap_from_cong) simp_all
    then show ?thesis by simp
  qed
  have "1 \<le> heap_len ?s" using len by simp
  from pqdownheap_spec[OF order_refl this q' N(1), of] h' N(2)
  obtain hp where hp: "pqdownheap ?s tree 1 = Some (?s\<lparr>heap := hp\<rparr>)" "length hp = length ?hp"
    "\<forall>i. i = 0 \<or> i > ?n - 1 \<longrightarrow> hp ! i = ?hp[1 := ?hp ! ?n] ! i"
    "mset (queue hp (?n - 1)) = mset (queue (?hp[1 := ?hp ! ?n]) (?n - 1))" "heap_from ?le hp (?n - 1) 1"
    by (auto simp: numeral_2_eq_2)
  have "add_mset (?hp ! 1) (mset (queue (?hp[1 := ?hp ! ?n]) (?n - 1))) = mset (queue ?hp ?n)"
  proof -
    have "queue (?hp[1 := ?hp ! ?n]) (?n - 1) = ?hp ! ?n # drop 1 (queue ?hp (?n - 1))"
      using len l by (intro nth_equalityI) (auto simp: queue_nth nth_list_update nth_Cons split: nat.split)
    moreover have "queue ?hp ?n = queue ?hp (?n - 1) @ [?hp ! ?n]"
      using queue_Suc[of "?n - 1" ?hp] len l by simp
    moreover have "queue ?hp (?n - 1) = ?hp ! 1 # drop 1 (queue ?hp (?n - 1))"
      using len l by (intro nth_equalityI) (auto simp: queue_nth nth_Cons split: nat.split)
    ultimately have "queue ?hp ?n = (?hp ! 1 # drop 1 (queue ?hp (?n - 1))) @ [?hp ! ?n]"
      "mset (queue (?hp[1 := ?hp ! ?n]) (?n - 1)) = mset (?hp ! ?n # drop 1 (queue ?hp (?n - 1)))" by simp_all
    then show ?thesis by (simp only: mset.simps mset_append) simp
  qed
  moreover have "\<forall>x\<in>set (queue ?hp ?n). ?le (?hp ! 1) x"
    using heap_from_least[OF h] l by (auto simp: queue_set)
  moreover have "\<forall>i. i = 0 \<or> i \<ge> ?n \<longrightarrow> hp ! i = ?hp ! i" using hp(3) len by auto
  ultimately show ?thesis using hp len l
    by (intro exI[of _ hp]) (auto simp: pqremove_def SMALLEST_def)
qed

section \<open>Properties\<close>

text \<open>
  C11: \<open>pqremove\<close> on a heap takes out an element that is least in the order by frequency and then by
  depth; the others stay, they form a heap again, and no access is out of bounds.
\<close>

theorem pqremove_correct:
  assumes "2 \<le> heap_len s" "queue_nodes N (heap s) (heap_len s)" "N \<le> length tree" "N \<le> length (depth s)"
    and "heap_from (node_le tree (depth s)) (heap s) (heap_len s) 1"
  shows "\<exists>hp. pqremove s tree = Some (heap s ! 1, s\<lparr>heap := hp, heap_len := heap_len s - 1\<rparr>) \<and> length hp = length (heap s)
    \<and> add_mset (heap s ! 1) (mset (queue hp (heap_len s - 1))) = mset (queue (heap s) (heap_len s))
    \<and> (\<forall>x\<in>set (queue (heap s) (heap_len s)). node_le tree (depth s) (heap s ! 1) x)
    \<and> heap_from (node_le tree (depth s)) hp (heap_len s - 1) 1"
  using pqremove_spec[OF assms] by blast

definition demo_queue :: tree_state where
  "demo_queue = \<lparr>pending_buf = [], bi_buf = 0, bi_valid = 0, bl_count = [], heap = [0, 2, 0, 1], heap_len = 3, heap_max = 4,
     depth = [0, 0, 0], opt_len = 0, static_len = 0\<rparr>"

theorem pqremove_correct_witness:
  "\<exists>hp. pqremove demo_queue [\<lparr>fc = 5, dl = 0\<rparr>, \<lparr>fc = 7, dl = 0\<rparr>, \<lparr>fc = 3, dl = 0\<rparr>] = Some (2, demo_queue\<lparr>heap := hp, heap_len := 2\<rparr>)
    \<and> mset (queue hp 2) = {#0, 1#}"
proof -
  have c: "c = 2 \<or> c = 3" if "2 \<le> c" "c \<le> 3" for c :: nat using that by linarith
  let ?t = "[\<lparr>fc = 5, dl = 0\<rparr>, \<lparr>fc = 7, dl = 0\<rparr>, \<lparr>fc = 3, dl = 0\<rparr>]"
  have h: "heap_from (node_le ?t [0, 0, 0]) [0, 2, 0, 1] 3 1"
  proof -
    have "node_le ?t [0, 0, 0] ([0, 2, 0, 1] ! (2 div 2)) ([0, 2, 0, 1] ! 2)" "node_le ?t [0, 0, 0] ([0, 2, 0, 1] ! (3 div 2)) ([0, 2, 0, 1] ! 3)"
      by (simp_all add: node_le_def)
    then show ?thesis unfolding heap_from_def using c by blast
  qed
  have q: "queue_nodes 3 [0, 2, 0, 1] 3"
    by (auto simp: queue_nodes_def eval_nat_numeral le_Suc_eq)
  show ?thesis
    using pqremove_correct[of demo_queue 3 ?t] h q by (auto simp: demo_queue_def queue_def eval_nat_numeral)
qed

end
