(* ===== verification/Tree_Build.thy ===== *)
theory Tree_Build
  imports Priority_Queue
begin

text \<open>
  Construction of a Huffman tree (\<open>trees.c\<close>: \<open>gen_bitlen\<close>, \<open>build_tree\<close>): the merging of the two least
  frequent nodes, the bit lengths with their limitation to \<open>max_length\<close>, and the codes.  The tree
  under construction, which the code reaches through \<open>desc->dyn_tree\<close>, is an argument and a result.

  The main lemma shows that the construction always succeeds within its arrays and gives every used
  symbol a code of a complete prefix code of at most \<open>max_length\<close> bits.
\<close>

section \<open>Descriptors\<close>

record static_tree_desc =
  static_tree :: "ct_data list option"
  extra_bits :: "nat list"
  extra_base :: nat
  elems :: nat
  max_length :: nat

definition static_l_desc :: static_tree_desc where
  "static_l_desc = \<lparr>static_tree = Some static_ltree, extra_bits = extra_lbits, extra_base = LITERALS + 1,
     elems = L_CODES, max_length = MAX_BITS\<rparr>"

definition static_d_desc :: static_tree_desc where
  "static_d_desc = \<lparr>static_tree = Some static_dtree, extra_bits = extra_dbits, extra_base = 0,
     elems = D_CODES, max_length = MAX_BITS\<rparr>"

definition static_bl_desc :: static_tree_desc where
  "static_bl_desc = \<lparr>static_tree = None, extra_bits = extra_blbits, extra_base = 0,
     elems = BL_CODES, max_length = MAX_BL_BITS\<rparr>"

section \<open>Bit lengths\<close>

text \<open>One pass of the loop over \<open>h\<close>: the length of a node is one more than its father's.\<close>

definition bitlen_node ::
  "static_tree_desc \<Rightarrow> int \<Rightarrow> ct_data list \<times> 'a tree_state_scheme \<times> nat \<Rightarrow> nat
   \<Rightarrow> (ct_data list \<times> 'a tree_state_scheme \<times> nat) option" where
  "bitlen_node desc max_code st h = (case st of (tree, s, overflow) \<Rightarrow> do {
     n \<leftarrow> rd (heap s) h;
     t \<leftarrow> rd tree n;
     d \<leftarrow> rd tree (Dad t);
     let bits = Len d + 1;
     let overflow = (if bits > max_length desc then overflow + 1 else overflow);
     let bits = (if bits > max_length desc then max_length desc else bits);
     tree \<leftarrow> wr tree n (t\<lparr>dl := ushort bits\<rparr>);
     if int n > max_code then Some (tree, s, overflow)
     else do {
       c \<leftarrow> rd (bl_count s) bits;
       bl \<leftarrow> wr (bl_count s) bits (ushort (c + 1));
       xbits \<leftarrow> (if n \<ge> extra_base desc then rd (extra_bits desc) (n - extra_base desc) else Some 0);
       stat \<leftarrow> (case static_tree desc of None \<Rightarrow> Some (static_len s)
                | Some stree \<Rightarrow> do { e \<leftarrow> rd stree n; Some (static_len s + of_nat (Freq t) * of_nat (Len e + xbits)) });
       Some (tree, s\<lparr>bl_count := bl, opt_len := opt_len s + of_nat (Freq t) * of_nat (bits + xbits),
                     static_len := stat\<rparr>, overflow) } })"

text \<open>\<open>bits = max_length-1; while (s->bl_count[bits] == 0) bits--;\<close>, running off the array below 0.\<close>

fun find_bits :: "nat list \<Rightarrow> nat \<Rightarrow> nat option" where
  "find_bits bl 0 = (case rd bl 0 of None \<Rightarrow> None | Some c \<Rightarrow> if c = 0 then None else Some 0)"
| "find_bits bl (Suc b) = (case rd bl (Suc b) of None \<Rightarrow> None | Some c \<Rightarrow> if c = 0 then find_bits bl b else Some (Suc b))"

definition ush_dec :: "nat \<Rightarrow> nat" where
  "ush_dec x = ushort (x + 65535)"

text \<open>The body of the \<open>do ... while (overflow > 0)\<close> loop.\<close>

definition move_leaf :: "nat \<Rightarrow> nat list \<Rightarrow> nat list option" where
  "move_leaf mxl bl = do {
     bits \<leftarrow> find_bits bl (mxl - 1);
     c \<leftarrow> rd bl bits;
     bl \<leftarrow> wr bl bits (ush_dec c);
     c \<leftarrow> rd bl (bits + 1);
     bl \<leftarrow> wr bl (bits + 1) (ushort (c + 2));
     c \<leftarrow> rd bl mxl;
     wr bl mxl (ush_dec c) }"

function overflow_loop :: "nat \<Rightarrow> nat list \<Rightarrow> nat \<Rightarrow> nat list option" where
  "overflow_loop mxl bl overflow = do {
     bl \<leftarrow> move_leaf mxl bl;
     if overflow - 2 > 0 then overflow_loop mxl bl (overflow - 2) else Some bl }"
  by pat_completeness auto
termination by (relation "measure (\<lambda>(_, _, overflow). overflow)") auto

declare overflow_loop.simps [simp del]

text \<open>\<open>while (n != 0) { m = s->heap[--h]; ... }\<close> of the second pass.\<close>

fun relen_loop ::
  "nat \<Rightarrow> int \<Rightarrow> nat \<Rightarrow> nat \<Rightarrow> ct_data list \<times> 'a tree_state_scheme \<Rightarrow> (nat \<times> ct_data list \<times> 'a tree_state_scheme) option" where
  "relen_loop bits max_code h 0 st = Some (h, st)"
| "relen_loop bits max_code 0 (Suc n) st = None"
| "relen_loop bits max_code (Suc h) (Suc n) (tree, s) = do {
     m \<leftarrow> rd (heap s) h;
     if int m > max_code then relen_loop bits max_code h (Suc n) (tree, s)
     else do {
       t \<leftarrow> rd tree m;
       if Len t \<noteq> bits then do {
         tree \<leftarrow> wr tree m (t\<lparr>dl := ushort bits\<rparr>);
         relen_loop bits max_code h n
           (tree, s\<lparr>opt_len := opt_len s + (of_nat bits - of_nat (Len t)) * of_nat (Freq t)\<rparr>) }
       else relen_loop bits max_code h n (tree, s) } }"

definition relen_bits ::
  "int \<Rightarrow> nat \<times> ct_data list \<times> 'a tree_state_scheme \<Rightarrow> nat \<Rightarrow> (nat \<times> ct_data list \<times> 'a tree_state_scheme) option" where
  "relen_bits max_code st bits = (case st of (h, tree, s) \<Rightarrow> do {
     n \<leftarrow> rd (bl_count s) bits;
     relen_loop bits max_code h n (tree, s) })"

definition gen_bitlen ::
  "static_tree_desc \<Rightarrow> int \<Rightarrow> ct_data list \<times> 'a tree_state_scheme \<Rightarrow> (ct_data list \<times> 'a tree_state_scheme) option" where
  "gen_bitlen desc max_code st = (case st of (tree, s) \<Rightarrow> do {
     bl \<leftarrow> foldM (\<lambda>bl bits. wr bl bits 0) (bl_count s) [0..<MAX_BITS + 1];
     root \<leftarrow> rd (heap s) (heap_max s);
     t \<leftarrow> rd tree root;
     tree \<leftarrow> wr tree root (t\<lparr>dl := 0\<rparr>);
     (tree, s, overflow) \<leftarrow> foldM (bitlen_node desc max_code) (tree, s\<lparr>bl_count := bl\<rparr>, 0) [heap_max s + 1..<HEAP_SIZE];
     if overflow = 0 then Some (tree, s)
     else do {
       bl \<leftarrow> overflow_loop (max_length desc) (bl_count s) overflow;
       (h, tree, s) \<leftarrow> foldM (relen_bits max_code) (HEAP_SIZE, tree, s\<lparr>bl_count := bl\<rparr>) (rev [1..<max_length desc + 1]);
       Some (tree, s) } })"

section \<open>The tree\<close>

text \<open>The loop that collects the used symbols, with \<open>max_code\<close> starting from -1.\<close>

definition init_node ::
  "ct_data list \<times> 'a tree_state_scheme \<times> int \<Rightarrow> nat \<Rightarrow> (ct_data list \<times> 'a tree_state_scheme \<times> int) option" where
  "init_node st n = (case st of (tree, s, max_code) \<Rightarrow> do {
     t \<leftarrow> rd tree n;
     if Freq t \<noteq> 0 then do {
       hp \<leftarrow> wr (heap s) (heap_len s + 1) n;
       dep \<leftarrow> wr (depth s) n 0;
       Some (tree, s\<lparr>heap_len := heap_len s + 1, heap := hp, depth := dep\<rparr>, int n) }
     else do {
       tree \<leftarrow> wr tree n (t\<lparr>dl := 0\<rparr>);
       Some (tree, s, max_code) } })"

text \<open>\<open>while (s->heap_len < 2)\<close>: force at least two codes.\<close>

definition force_node ::
  "static_tree_desc \<Rightarrow> ct_data list \<times> 'a tree_state_scheme \<times> int \<Rightarrow> (ct_data list \<times> 'a tree_state_scheme \<times> int) option" where
  "force_node desc st = (case st of (tree, s, max_code) \<Rightarrow> do {
     let max_code' = (if max_code < 2 then max_code + 1 else max_code);
     let node = (if max_code < 2 then nat (max_code + 1) else 0);
     hp \<leftarrow> wr (heap s) (heap_len s + 1) node;
     t \<leftarrow> rd tree node;
     tree \<leftarrow> wr tree node (t\<lparr>fc := 1\<rparr>);
     dep \<leftarrow> wr (depth s) node 0;
     stat \<leftarrow> (case static_tree desc of None \<Rightarrow> Some (static_len s)
              | Some stree \<Rightarrow> do { e \<leftarrow> rd stree node; Some (static_len s - of_nat (Len e)) });
     Some (tree, s\<lparr>heap_len := heap_len s + 1, heap := hp, depth := dep, opt_len := opt_len s - 1,
                   static_len := stat\<rparr>, max_code') })"

partial_function (option) force_loop ::
  "static_tree_desc \<Rightarrow> ct_data list \<times> 'a tree_state_scheme \<times> int \<Rightarrow> (ct_data list \<times> 'a tree_state_scheme \<times> int) option" where
  "force_loop desc st =
     (if heap_len (fst (snd st)) < 2 then do { st \<leftarrow> force_node desc st; force_loop desc st } else Some st)"

declare force_loop.simps [code]

text \<open>One pass of the merging loop: a new node becomes the father of the two least frequent ones.\<close>

definition merge_step ::
  "ct_data list \<times> 'a tree_state_scheme \<Rightarrow> nat \<Rightarrow> (ct_data list \<times> 'a tree_state_scheme) option" where
  "merge_step st node = (case st of (tree, s) \<Rightarrow> do {
     (n, s) \<leftarrow> pqremove s tree;
     m \<leftarrow> rd (heap s) SMALLEST;
     hp \<leftarrow> (if heap_max s < 2 then None else wr (heap s) (heap_max s - 1) n);
     hp \<leftarrow> wr hp (heap_max s - 2) m;
     tn \<leftarrow> rd tree n;
     tm \<leftarrow> rd tree m;
     tnode \<leftarrow> rd tree node;
     tree \<leftarrow> wr tree node (tnode\<lparr>fc := ushort (Freq tn + Freq tm)\<rparr>);
     dn \<leftarrow> rd (depth s) n;
     dm \<leftarrow> rd (depth s) m;
     dep \<leftarrow> wr (depth s) node (uchar ((if dn \<ge> dm then dn else dm) + 1));
     tm \<leftarrow> rd tree m;
     tree \<leftarrow> wr tree m (tm\<lparr>dl := ushort node\<rparr>);
     tn \<leftarrow> rd tree n;
     tree \<leftarrow> wr tree n (tn\<lparr>dl := ushort node\<rparr>);
     hp \<leftarrow> wr hp SMALLEST node;
     s \<leftarrow> pqdownheap (s\<lparr>heap := hp, heap_max := heap_max s - 2, depth := dep\<rparr>) tree SMALLEST;
     Some (tree, s) })"

partial_function (option) merge_loop ::
  "ct_data list \<times> 'a tree_state_scheme \<Rightarrow> nat \<Rightarrow> (ct_data list \<times> 'a tree_state_scheme) option" where
  "merge_loop st node = do {
     st \<leftarrow> merge_step st node;
     if heap_len (snd st) \<ge> 2 then merge_loop st (node + 1) else Some st }"

declare merge_loop.simps [code]

definition build_tree ::
  "static_tree_desc \<Rightarrow> ct_data list \<times> 'a tree_state_scheme \<Rightarrow> (int \<times> ct_data list \<times> 'a tree_state_scheme) option" where
  "build_tree desc st = (case st of (tree, s) \<Rightarrow> do {
     (tree, s, max_code) \<leftarrow> foldM init_node (tree, s\<lparr>heap_len := 0, heap_max := HEAP_SIZE\<rparr>, -1) [0..<elems desc];
     (tree, s, max_code) \<leftarrow> force_loop desc (tree, s, max_code);
     s \<leftarrow> foldM (\<lambda>s n. pqdownheap s tree n) s (rev [1..<heap_len s div 2 + 1]);
     (tree, s) \<leftarrow> merge_loop (tree, s) (elems desc);
     top \<leftarrow> rd (heap s) SMALLEST;
     hp \<leftarrow> (if heap_max s < 1 then None else wr (heap s) (heap_max s - 1) top);
     (tree, s) \<leftarrow> gen_bitlen desc max_code (tree, s\<lparr>heap := hp, heap_max := heap_max s - 1\<rparr>);
     Some (max_code, gen_codes tree (nat max_code) (bl_count s), s) })"

section \<open>Collecting the symbols\<close>

text \<open>What the descriptors of the three trees have in common.\<close>

definition desc_ok :: "static_tree_desc \<Rightarrow> bool" where
  "desc_ok desc \<longleftrightarrow> 3 \<le> elems desc \<and> elems desc \<le> L_CODES \<and> 1 \<le> max_length desc \<and> max_length desc \<le> 15
     \<and> elems desc \<le> 2 ^ max_length desc \<and> elems desc - extra_base desc \<le> length (extra_bits desc)
     \<and> (case static_tree desc of None \<Rightarrow> True | Some stree \<Rightarrow> elems desc \<le> length stree)"

lemma desc_ok_static [simp]: "desc_ok static_l_desc" "desc_ok static_d_desc" "desc_ok static_bl_desc"
  by (simp_all add: desc_ok_def static_l_desc_def static_d_desc_def static_bl_desc_def L_CODES_def LITERALS_def LENGTH_CODES_def
      D_CODES_def BL_CODES_def MAX_BITS_def MAX_BL_BITS_def extra_lbits_def extra_dbits_def extra_blbits_def static_dtree_def)

lemma desc_bounds: "desc_ok desc \<Longrightarrow> 3 \<le> elems desc \<and> elems desc \<le> 286"
  by (simp add: desc_ok_def L_CODES_def LITERALS_def LENGTH_CODES_def)

lemma HEAP_SIZE_eq: "HEAP_SIZE = 573"
  by (simp add: HEAP_SIZE_def L_CODES_def LITERALS_def LENGTH_CODES_def)

text \<open>The used symbols among the first \<open>n\<close>.\<close>

definition used_syms :: "ct_data list \<Rightarrow> nat \<Rightarrow> nat list" where
  "used_syms tree n = filter (\<lambda>x. Freq (tree ! x) \<noteq> 0) [0..<n]"

lemma used_syms_Suc: "used_syms tree (Suc n) = used_syms tree n @ (if Freq (tree ! n) \<noteq> 0 then [n] else [])"
  by (simp add: used_syms_def)

lemma length_used_syms: "length (used_syms tree n) \<le> n"
  using length_filter_le[of _ "[0..<n]"] by (simp add: used_syms_def)

lemma used_syms_props: "distinct (used_syms tree n)" "x \<in> set (used_syms tree n) \<Longrightarrow> x < n"
  by (simp_all add: used_syms_def)

definition init_inv :: "ct_data list \<Rightarrow> 'a tree_state_scheme \<Rightarrow> nat \<Rightarrow> ct_data list \<times> 'a tree_state_scheme \<times> int \<Rightarrow> bool" where
  "init_inv tree0 s0 n st \<longleftrightarrow> (case st of (tree, s, mc) \<Rightarrow>
     length tree = length tree0 \<and> (\<forall>x<length tree0. tree ! x =
        (if x < n \<and> Freq (tree0 ! x) = 0 then (tree0 ! x)\<lparr>dl := 0\<rparr> else tree0 ! x))
   \<and> work_arrays s \<and> tree_frame s0 s \<and> heap_max s = HEAP_SIZE
   \<and> heap_len s = length (used_syms tree0 n) \<and> queue (heap s) (length (used_syms tree0 n)) = used_syms tree0 n
   \<and> mc = (if used_syms tree0 n = [] then -1 else int (last (used_syms tree0 n))))"

lemma init_node_inv:
  assumes n: "n < length tree0" "n < 286" and inv: "init_inv tree0 s0 n st"
  shows "\<exists>st'. init_node st n = Some st' \<and> init_inv tree0 s0 (Suc n) st'"
proof -
  obtain tree s mc where st: "st = (tree, s, mc)" by (cases st)
  note i = inv[unfolded init_inv_def st prod.case]
  have tn: "tree ! n = tree0 ! n" using i n by simp
  show ?thesis
  proof (cases "Freq (tree0 ! n) = 0")
    case True
    then have "init_node st n = Some (tree[n := (tree0 ! n)\<lparr>dl := 0\<rparr>], s, mc)"
      using i n tn by (simp add: init_node_def st)
    then show ?thesis using i n True by (simp add: init_inv_def used_syms_Suc nth_list_update less_Suc_eq)
  next
    case False
    let ?l = "heap_len s" and ?hp = "(heap s)[heap_len s + 1 := n]"
    let ?s = "s\<lparr>heap_len := ?l + 1, heap := ?hp, depth := (depth s)[n := 0]\<rparr>"
    have l: "?l + 1 < length (heap s)" using i n length_used_syms[of tree0 n] by (simp add: work_arrays_def HEAP_SIZE_eq)
    have run: "init_node st n = Some (tree, ?s, int n)"
      using i n False tn l by (simp add: init_node_def st work_arrays_def HEAP_SIZE_eq)
    have "queue ?hp (Suc ?l) = queue ?hp ?l @ [n]" using l queue_Suc[of ?l ?hp] by simp
    also have "queue ?hp ?l = queue (heap s) ?l" using l by (intro queue_cong) simp_all
    finally have "queue ?hp (Suc ?l) = used_syms tree0 (Suc n)" using i False by (simp add: used_syms_Suc)
    then show ?thesis using run i False
      by (simp add: init_inv_def used_syms_Suc work_arrays_def tree_frame_def less_Suc_eq)
  qed
qed

text \<open>
  After forcing two codes: the queue holds the leaves of the tree, all used symbols among them, and
  no other symbol has a length.
\<close>

definition leaves_inv :: "static_tree_desc \<Rightarrow> ct_data list \<Rightarrow> 'a tree_state_scheme \<Rightarrow> nat list
    \<Rightarrow> ct_data list \<times> 'a tree_state_scheme \<times> int \<Rightarrow> bool" where
  "leaves_inv desc tree0 s0 U st \<longleftrightarrow> (case st of (tree, s, mc) \<Rightarrow>
     length tree = length tree0 \<and> (\<forall>x<elems desc. x \<notin> set U \<longrightarrow> Len (tree ! x) = 0)
   \<and> work_arrays s \<and> tree_frame s0 s \<and> heap_max s = HEAP_SIZE
   \<and> heap_len s = length U \<and> queue (heap s) (length U) = U \<and> distinct U
   \<and> (\<forall>x\<in>set U. x < elems desc \<and> int x \<le> mc) \<and> mc < int (elems desc) \<and> -1 \<le> mc \<and> (mc = -1 \<or> nat mc \<in> set U)
   \<and> (\<forall>x<elems desc. Freq (tree0 ! x) \<noteq> 0 \<longrightarrow> x \<in> set U \<and> Freq (tree ! x) = Freq (tree0 ! x))
   \<and> (\<forall>x<elems desc. Freq (tree0 ! x) = 0 \<and> x \<in> set U \<longrightarrow> Freq (tree ! x) = 1))"

lemma init_leaves:
  assumes "init_inv tree0 s0 (elems desc) st" "elems desc \<le> length tree0"
  shows "leaves_inv desc tree0 s0 (used_syms tree0 (elems desc)) st"
proof -
  obtain tree s mc where st: "st = (tree, s, mc)" by (cases st)
  let ?U = "used_syms tree0 (elems desc)"
  note i = assms(1)[unfolded init_inv_def st prod.case]
  have mem: "x \<in> set ?U \<longleftrightarrow> x < elems desc \<and> Freq (tree0 ! x) \<noteq> 0" for x by (auto simp: used_syms_def)
  have "sorted ?U" unfolding used_syms_def by (intro sorted_wrt_filter sorted_upt)
  then have last: "x \<in> set ?U \<Longrightarrow> x \<le> last ?U" for x
    by (metis in_set_conv_nth last_conv_nth length_greater_0_conv length_pos_if_in_set One_nat_def Suc_pred less_Suc_eq_le
        sorted_nth_mono diff_less zero_less_one)
  have mc: "mc = (if ?U = [] then -1 else int (last ?U))" using i by simp
  have lt: "?U \<noteq> [] \<Longrightarrow> last ?U \<in> set ?U \<and> last ?U < elems desc" using mem last_in_set by blast
  have "\<forall>x\<in>set ?U. x < elems desc \<and> int x \<le> mc" using mem last mc by (auto split: if_splits)
  moreover have "mc < int (elems desc)" "-1 \<le> mc" "mc = -1 \<or> nat mc \<in> set ?U" using mc lt by (auto split: if_splits)
  ultimately show ?thesis using i assms(2) mem used_syms_props(1)
    by (simp add: leaves_inv_def st)
qed

lemma force_node_inv:
  assumes d: "desc_ok desc" "elems desc \<le> length tree0" and inv: "leaves_inv desc tree0 s0 U (tree, s, mc)" and l: "length U < 2"
  shows "\<exists>U' st'. force_node desc (tree, s, mc) = Some st' \<and> leaves_inv desc tree0 s0 U' st' \<and> length U' = Suc (length U)"
proof -
  note i = inv[unfolded leaves_inv_def prod.case]
  note b = desc_bounds[OF d(1)]
  define node where "node = (if mc < 2 then nat (mc + 1) else 0)"
  define mc' where "mc' = (if mc < 2 then mc + 1 else mc)"
  have U: "\<And>x. x \<in> set U \<Longrightarrow> x < elems desc \<and> int x \<le> mc" and mc: "mc < int (elems desc)" "-1 \<le> mc" "mc = -1 \<or> nat mc \<in> set U"
    using i by blast+
  have node: "node < elems desc" "node < length tree0" "node < 286" "int node \<le> mc'" using mc b d(2) by (auto simp: node_def mc'_def)
  have mc': "mc' < int (elems desc)" "-1 \<le> mc'" "mc' = -1 \<or> nat mc' \<in> insert node (set U)" "mc \<le> mc'"
    using mc b by (auto simp: node_def mc'_def)
  have new: "node \<notin> set U"
  proof (cases "mc < 2")
    case True
    then show ?thesis using U[of node] mc by (auto simp: node_def)
  next
    case False
    then have "nat mc \<in> set U" "nat mc \<noteq> 0" using mc by auto
    then show ?thesis using False l by (cases U) (auto simp: node_def)
  qed
  have len: "length tree = length tree0" and wa: "work_arrays s" and hl: "heap_len s = length U" "queue (heap s) (length U) = U"
    using i by blast+
  let ?hp = "(heap s)[heap_len s + 1 := node]"
  let ?stat = "case static_tree desc of None \<Rightarrow> static_len s | Some stree \<Rightarrow> static_len s - of_nat (Len (stree ! node))"
  let ?s = "s\<lparr>heap_len := heap_len s + 1, heap := ?hp, depth := (depth s)[node := 0], opt_len := opt_len s - 1, static_len := ?stat\<rparr>"
  let ?tree = "tree[node := (tree ! node)\<lparr>fc := 1\<rparr>]"
  have lh: "heap_len s + 1 < length (heap s)" using wa hl l by (simp add: work_arrays_def HEAP_SIZE_eq)
  have "node < length (depth s)" using wa node(3) by (simp add: work_arrays_def HEAP_SIZE_eq)
  moreover have "static_tree desc = Some stree \<Longrightarrow> node < length stree" for stree
    using d(1) node(1) by (simp add: desc_ok_def)
  ultimately have run: "force_node desc (tree, s, mc) = Some (?tree, ?s, mc')"
    unfolding force_node_def prod.case Let_def node_def[symmetric] mc'_def[symmetric]
    using lh len node(2) by (simp split: option.splits)
  have "queue ?hp (Suc (heap_len s)) = queue ?hp (heap_len s) @ [node]" using lh queue_Suc[of "heap_len s" ?hp] by simp
  also have "queue ?hp (heap_len s) = queue (heap s) (heap_len s)" using lh by (intro queue_cong) simp_all
  finally have q: "queue ?hp (Suc (length U)) = U @ [node]" using hl by simp
  have fz: "Freq (tree0 ! node) = 0" using i node(1) new by blast
  have tr: "x \<noteq> node \<Longrightarrow> ?tree ! x = tree ! x" "Freq (?tree ! node) = 1" for x using node(2) len by simp_all
  have "leaves_inv desc tree0 s0 (U @ [node]) (?tree, ?s, mc')"
    unfolding leaves_inv_def prod.case
  proof (intro conjI)
    show "\<forall>x\<in>set (U @ [node]). x < elems desc \<and> int x \<le> mc'" using U node mc'(4) by fastforce
    show "mc' < int (elems desc)" "-1 \<le> mc'" "mc' = -1 \<or> nat mc' \<in> set (U @ [node])" using mc' by auto
    show "distinct (U @ [node])" using i new by simp
    show "queue (heap ?s) (length (U @ [node])) = U @ [node]" using q hl by simp
    show "tree_frame s0 ?s" "work_arrays ?s" using i by (simp_all add: tree_frame_def work_arrays_def)
    show "\<forall>x<elems desc. Freq (tree0 ! x) \<noteq> 0 \<longrightarrow> x \<in> set (U @ [node]) \<and> Freq (?tree ! x) = Freq (tree0 ! x)"
      using i fz tr by (metis UnCI set_append)
    show "\<forall>x<elems desc. Freq (tree0 ! x) = 0 \<and> x \<in> set (U @ [node]) \<longrightarrow> Freq (?tree ! x) = 1"
    proof (intro allI impI)
      fix x assume "x < elems desc" "Freq (tree0 ! x) = 0 \<and> x \<in> set (U @ [node])"
      then show "Freq (?tree ! x) = 1" using i tr by (cases "x = node") auto
    qed
    show "\<forall>x<elems desc. x \<notin> set (U @ [node]) \<longrightarrow> Len (?tree ! x) = 0" using i tr by auto
  qed (use i in simp_all)
  with run show ?thesis by (intro exI[of _ "U @ [node]"] exI conjI) simp_all
qed

lemma force_loop_inv:
  assumes d: "desc_ok desc" "elems desc \<le> length tree0"
  shows "leaves_inv desc tree0 s0 U st \<Longrightarrow>
    \<exists>U' st'. force_loop desc st = Some st' \<and> leaves_inv desc tree0 s0 U' st' \<and> 2 \<le> length U'"
proof (induction "2 - length U" arbitrary: U st rule: less_induct)
  case less
  obtain tree s mc where st: "st = (tree, s, mc)" by (cases st)
  have hl: "heap_len s = length U" using less.prems by (simp add: leaves_inv_def st)
  show ?case
  proof (cases "length U < 2")
    case True
    obtain U' st' where n: "force_node desc st = Some st'" "leaves_inv desc tree0 s0 U' st'" "length U' = Suc (length U)"
      using force_node_inv[OF d less.prems[unfolded st] True] st by auto
    then have "2 - length U' < 2 - length U" using True by simp
    from less.hyps[OF this n(2)] show ?thesis using True n(1) hl st by (subst force_loop.simps) simp
  next
    case False
    then show ?thesis using less.prems hl st by (subst force_loop.simps) auto
  qed
qed

section \<open>Merging\<close>

text \<open>
  After \<open>j\<close> merges: the nodes taken out of the queue, latest first, lie in the array from \<open>heap_max\<close>
  on, and together with the queue they are the leaves and the \<open>j\<close> new nodes.  The father of a pair is
  the node made of it, which is later than the nodes of the pair.
\<close>

definition removed :: "'a tree_state_scheme \<Rightarrow> nat list" where
  "removed s = drop (heap_max s) (heap s)"

definition dads_ok :: "nat \<Rightarrow> nat \<Rightarrow> ct_data list \<Rightarrow> nat list \<Rightarrow> bool" where
  "dads_ok E j tree R \<longleftrightarrow> length R = 2 * j
     \<and> (\<forall>i<2 * j. Dad (tree ! (R ! i)) = E + (j - 1 - i div 2) \<and> R ! i < E + (j - 1 - i div 2))"

definition merge_inv :: "nat \<Rightarrow> nat list \<Rightarrow> ct_data list \<Rightarrow> 'a tree_state_scheme \<Rightarrow> nat \<Rightarrow> ct_data list \<times> 'a tree_state_scheme \<Rightarrow> bool" where
  "merge_inv E U tree1 s1 j st \<longleftrightarrow> (case st of (tree, s) \<Rightarrow>
     length tree = length tree1 \<and> work_arrays s \<and> tree_frame s1 s
   \<and> heap_max s = HEAP_SIZE - 2 * j \<and> heap_len s = length U - j \<and> j < length U
   \<and> mset (removed s) + mset (queue (heap s) (heap_len s)) = mset U + mset [E..<E + j]
   \<and> dads_ok E j tree (removed s)
   \<and> (\<forall>x<E. Freq (tree ! x) = Freq (tree1 ! x) \<and> (x \<notin> set U \<longrightarrow> tree ! x = tree1 ! x))
   \<and> heap_from (node_le tree (depth s)) (heap s) (heap_len s) 1)"

lemma mset_distinct_disjoint:
  assumes "mset xs + mset ys = mset zs" "distinct zs"
  shows "distinct xs" "distinct ys" "set xs \<inter> set ys = {}" "set xs \<union> set ys = set zs"
proof -
  have "mset (xs @ ys) = mset zs" using assms(1) by simp
  then have "distinct (xs @ ys)" "set (xs @ ys) = set zs" using assms(2) mset_eq_imp_distinct_iff mset_eq_setD by blast+
  then show "distinct xs" "distinct ys" "set xs \<inter> set ys = {}" "set xs \<union> set ys = set zs" by auto
qed

lemma merge_nodes:
  assumes inv: "merge_inv E U tree1 s1 j (tree, s)" and U: "distinct U" "\<forall>x\<in>set U. x < E"
  shows "set (removed s) \<inter> set (queue (heap s) (heap_len s)) = {}" "distinct (removed s)"
    "distinct (queue (heap s) (heap_len s))"
    "set (removed s) \<union> set (queue (heap s) (heap_len s)) = set U \<union> {E..<E + j}"
proof -
  have "mset (removed s) + mset (queue (heap s) (heap_len s)) = mset (U @ [E..<E + j])"
    using inv unfolding merge_inv_def prod.case mset_append by blast
  moreover have "distinct (U @ [E..<E + j])" using U by auto
  ultimately have D: "distinct (removed s)" "distinct (queue (heap s) (heap_len s))"
    "set (removed s) \<inter> set (queue (heap s) (heap_len s)) = {}" "set (removed s) \<union> set (queue (heap s) (heap_len s)) = set (U @ [E..<E + j])"
    by (rule mset_distinct_disjoint)+
  show "set (removed s) \<inter> set (queue (heap s) (heap_len s)) = {}" "distinct (removed s)"
    "distinct (queue (heap s) (heap_len s))"
    "set (removed s) \<union> set (queue (heap s) (heap_len s)) = set U \<union> {E..<E + j}"
    using D by simp_all
qed

lemma dads_ok_step:
  assumes R: "dads_ok E j tree R" and nm: "n < E + j" "m < E + j"
    and t: "\<And>x. x \<noteq> n \<Longrightarrow> x \<noteq> m \<Longrightarrow> x \<noteq> E + j \<Longrightarrow> Dad (tree' ! x) = Dad (tree ! x)"
    and d: "Dad (tree' ! n) = E + j" "Dad (tree' ! m) = E + j"
    and new: "n \<notin> set R" "m \<notin> set R" "E + j \<notin> set R"
  shows "dads_ok E (Suc j) tree' (m # n # R)"
  unfolding dads_ok_def
proof (intro conjI allI impI)
  have R': "length R = 2 * j" "\<And>i. i < 2 * j \<Longrightarrow> Dad (tree ! (R ! i)) = E + (j - 1 - i div 2) \<and> R ! i < E + (j - 1 - i div 2)"
    using R by (simp_all add: dads_ok_def)
  show "length (m # n # R) = 2 * Suc j" using R' by simp
  fix i assume i: "i < 2 * Suc j"
  consider "i = 0" | "i = 1" | k where "i = Suc (Suc k)" "k < 2 * j" using i by (cases i; cases "i - 1") auto
  then have "Dad (tree' ! ((m # n # R) ! i)) = E + (Suc j - 1 - i div 2) \<and> (m # n # R) ! i < E + (Suc j - 1 - i div 2)"
  proof cases
    case 3
    have "R ! k \<in> set R" using 3 R'(1) by simp
    then have "R ! k \<noteq> n" "R ! k \<noteq> m" "R ! k \<noteq> E + j" using new by metis+
    then show ?thesis using 3 R'(2)[OF 3(2)] t by simp
  qed (use nm d in auto)
  then show "Dad (tree' ! ((m # n # R) ! i)) = E + (Suc j - 1 - i div 2)" "(m # n # R) ! i < E + (Suc j - 1 - i div 2)" by blast+
qed

lemma removed_step:
  assumes "2 \<le> hm" "hm \<le> length hp" "\<And>i. hm \<le> i \<Longrightarrow> i < length hp \<Longrightarrow> hp' ! i = hp ! i" "length hp' = length hp"
    "hp' ! (hm - 1) = n" "hp' ! (hm - 2) = m"
  shows "drop (hm - 2) hp' = m # n # drop hm hp"
proof (rule nth_equalityI)
  fix i assume "i < length (drop (hm - 2) hp')"
  then have i: "hm - 2 + i < length hp" using assms(4) by simp
  consider "i = 0" | "i = 1" | k where "i = Suc (Suc k)" by (cases i; cases "i - 1") auto
  then show "drop (hm - 2) hp' ! i = (m # n # drop hm hp) ! i"
  proof cases
    case 3
    then have "hm - 2 + i = hm + k" using assms(1) by simp
    then show ?thesis using 3 i assms(1-4) by simp
  next
    case 2
    then have "hm - 2 + i = hm - 1" using assms(1) by simp
    then show ?thesis using 2 i assms by simp
  qed (use i assms in simp)
qed (use assms in simp)

lemma merge_step_inv:
  assumes inv: "merge_inv E U tree1 s1 j (tree, s)" and U: "distinct U" "\<forall>x\<in>set U. x < E" "length U \<le> 286"
    and E: "E \<le> 286" "2 * E < length tree1" and len: "2 \<le> length U - j"
  shows "\<exists>st'. merge_step (tree, s) (E + j) = Some st' \<and> merge_inv E U tree1 s1 (Suc j) st'"
proof -
  note i = inv[unfolded merge_inv_def prod.case]
  note nodes = merge_nodes[OF inv U(1,2)]
  let ?L = "heap_len s" and ?hm = "heap_max s" and ?hp = "heap s" and ?node = "E + j"
  have lt: "length tree = length tree1" and wa: "length ?hp = 573" "length (depth s) = 573" and fr: "tree_frame s1 s"
    and hm: "?hm = 573 - 2 * j" and hl: "?L = length U - j" and jU: "j < length U"
    using i by (simp_all add: work_arrays_def HEAP_SIZE_eq)
  have UE: "length U \<le> E" using U by (metis card_atLeastLessThan card_mono distinct_card finite_atLeastLessThan minus_nat.diff_0 subsetI atLeastLessThan_iff zero_le)
  have bounds: "2 \<le> ?L" "?L \<le> 286 - j" "?node < 572" "?node < length tree" "?hm \<le> 573" "?L + 2 < ?hm" "?L < 573" "j + 2 \<le> E"
    using hl hm jU U(3) E len UE lt by linarith+
  have qn: "x < ?node" if "x \<in> set (queue ?hp ?L)" for x
  proof -
    have "x \<in> set U \<union> {E..<E + j}" using nodes(4) that by blast
    then show ?thesis using U(2) by fastforce
  qed
  have q: "queue_nodes ?node ?hp ?L" using bounds wa qn by (simp add: queue_nodes_iff)
  have N: "?node \<le> length tree" "?node \<le> length (depth s)" using bounds wa by simp_all
  obtain hp1 where r: "pqremove s tree = Some (?hp ! 1, s\<lparr>heap := hp1, heap_len := ?L - 1\<rparr>)" "length hp1 = length ?hp"
      "\<forall>i. i = 0 \<or> i \<ge> ?L \<longrightarrow> hp1 ! i = ?hp ! i"
      "add_mset (?hp ! 1) (mset (queue hp1 (?L - 1))) = mset (queue ?hp ?L)"
      "heap_from (node_le tree (depth s)) hp1 (?L - 1) 1"
    using pqremove_spec[OF bounds(1) q N] i by blast
  define n where "n = ?hp ! 1"
  define m where "m = hp1 ! 1"
  define rest where "rest = drop 1 (queue hp1 (?L - 1))"
  have q1: "queue hp1 (?L - 1) = m # rest"
    using queue_first[of "?L - 1" hp1] bounds wa r(2) by (simp add: m_def rest_def)
  have qm: "mset (queue ?hp ?L) = {#n, m#} + mset rest" using r(4) q1 by (simp add: n_def)
  then have qs: "set (queue ?hp ?L) = {n, m} \<union> set rest" by (metis set_mset_mset set_mset_union set_mset_add_mset_insert set_mset_empty)
  have dn: "n \<noteq> m" "n \<notin> set rest" "m \<notin> set rest"
  proof -
    have "mset (queue ?hp ?L) = mset (n # m # rest)" using qm by simp
    then have "distinct (n # m # rest)" using nodes(3) mset_eq_imp_distinct_iff by blast
    then show "n \<noteq> m" "n \<notin> set rest" "m \<notin> set rest" by auto
  qed
  have nm: "n < ?node" "m < ?node" using qn qs by blast+
  let ?hp2 = "hp1[?hm - 1 := n, ?hm - 2 := m]"
  let ?d = "uchar ((if depth s ! n \<ge> depth s ! m then depth s ! n else depth s ! m) + 1)"
  let ?dep = "(depth s)[?node := ?d]"
  let ?t1 = "tree[?node := (tree ! ?node)\<lparr>fc := ushort (Freq (tree ! n) + Freq (tree ! m))\<rparr>]"
  let ?t2 = "?t1[m := (?t1 ! m)\<lparr>dl := ushort ?node\<rparr>]"
  define t3 where "t3 = ?t2[n := (?t2 ! n)\<lparr>dl := ushort ?node\<rparr>]"
  let ?s3 = "s\<lparr>heap := hp1, heap_len := ?L - 1, heap := ?hp2[1 := ?node], heap_max := ?hm - 2, depth := ?dep\<rparr>"
  have t3f: "length t3 = length tree1" "\<And>x. x \<noteq> ?node \<Longrightarrow> Freq (t3 ! x) = Freq (tree ! x)"
     "\<And>x. x \<noteq> n \<Longrightarrow> x \<noteq> m \<Longrightarrow> x \<noteq> ?node \<Longrightarrow> t3 ! x = tree ! x"
     "Dad (t3 ! n) = ?node" "Dad (t3 ! m) = ?node"
    using lt bounds nm by (auto simp: t3_def nth_list_update ushort_def)
  have pos2: "?hp2[1 := ?node] ! x = hp1 ! x" if "2 \<le> x" "x \<le> ?L - 1" for x using that bounds by auto
  have q3: "queue (heap ?s3) (heap_len ?s3) = ?node # rest"
  proof -
    have "queue ?hp2 (?L - 1) = queue hp1 (?L - 1)" using bounds wa r(2) by (intro queue_cong) auto
    then show ?thesis using queue_update_first[of "?L - 1" ?hp2 ?node] bounds wa r(2) by (simp add: rest_def)
  qed
  have qn3: "queue_nodes (Suc ?node) (heap ?s3) (heap_len ?s3)"
    using q3 qn qs bounds wa r(2) by (auto simp: queue_nodes_iff less_Suc_eq)
  have h3: "heap_from (node_le t3 (depth ?s3)) (heap ?s3) (heap_len ?s3) (1 + 1)"
  proof (rule heap_from_mono)
    show "heap_from (node_le tree (depth s)) hp1 (heap_len ?s3) (1 + 1)"
      using r(5) by (auto simp: heap_from_def)
    show "heap ?s3 ! x = hp1 ! x" if "1 + 1 \<le> x" "x \<le> heap_len ?s3" for x using pos2[of x] that by simp
    show "node_le t3 (depth ?s3) (hp1 ! x) (hp1 ! c)"
      if "1 + 1 \<le> x" "x \<le> heap_len ?s3" "1 + 1 \<le> c" "c \<le> heap_len ?s3" "node_le tree (depth s) (hp1 ! x) (hp1 ! c)" for x c
    proof -
      have "hp1 ! y \<in> set (queue hp1 (?L - 1))" if "1 \<le> y" "y \<le> ?L - 1" for y
        using that bounds wa r(2) by (auto simp: queue_set)
      then have "hp1 ! x \<in> set (queue ?hp ?L)" "hp1 ! c \<in> set (queue ?hp ?L)" using that q1 qs by auto
      then have "hp1 ! x < ?node" "hp1 ! c < ?node" using qn by simp_all
      then show ?thesis using that(5) t3f(2) by (simp add: node_le_def)
    qed
  qed
  have N3: "Suc ?node \<le> length t3" "Suc ?node \<le> length (depth ?s3)" using bounds wa lt t3f(1) by simp_all
  have "1 \<le> heap_len ?s3" using bounds by simp
  from pqdownheap_spec[OF order_refl this qn3 N3 h3]
  obtain hp4 where p: "pqdownheap ?s3 t3 1 = Some (?s3\<lparr>heap := hp4\<rparr>)" "length hp4 = 573"
      "\<forall>i. i = 0 \<or> i > ?L - 1 \<longrightarrow> hp4 ! i = ?hp2[1 := ?node] ! i"
      "mset (queue hp4 (?L - 1)) = mset (?node # rest)" "heap_from (node_le t3 ?dep) hp4 (?L - 1) 1"
    using q3 wa r(2) by auto
  have run: "merge_step (tree, s) ?node = Some (t3, ?s3\<lparr>heap := hp4\<rparr>)"
  proof -
    have "1 < length ?hp2" "n < length tree" "m < length tree" "n < length (depth s)" "m < length (depth s)" "?node < length (depth s)"
      using bounds wa r(2) nm lt by simp_all
    then show ?thesis
      unfolding merge_step_def prod.case SMALLEST_def using r(1,2) p(1) bounds wa
      by (simp add: n_def[unfolded One_nat_def, symmetric] m_def[unfolded One_nat_def, symmetric] t3_def)
  qed
  let ?s4 = "?s3\<lparr>heap := hp4\<rparr>"
  have pos: "hp4 ! x = ?hp2 ! x" if "?L \<le> x" for x using p(3) that bounds by simp
  have rem: "removed ?s4 = m # n # removed s"
    unfolding removed_def
  proof (simp, rule removed_step)
    show "hp4 ! x = ?hp ! x" if "?hm \<le> x" for x using pos[of x] r(3) that bounds by simp
    show "hp4 ! (?hm - 1) = n" "hp4 ! (?hm - 2) = m" using pos bounds r(2) wa by simp_all
  qed (use bounds p(2) wa in simp_all)
  have "merge_inv E U tree1 s1 (Suc j) (t3, ?s4)"
    unfolding merge_inv_def prod.case
  proof (intro conjI)
    show "length t3 = length tree1" by (rule t3f(1))
    show "work_arrays ?s4" using i p(2) by (simp add: work_arrays_def HEAP_SIZE_eq)
    show "tree_frame s1 ?s4" using fr by (simp add: tree_frame_def)
    show "heap_max ?s4 = HEAP_SIZE - 2 * Suc j" using hm by (simp add: HEAP_SIZE_eq)
    show "heap_len ?s4 = length U - Suc j" "Suc j < length U" using hl bounds by simp_all
    have "mset (removed s) + mset (queue ?hp ?L) = mset U + mset [E..<E + j]" using i by blast
    then show "mset (removed ?s4) + mset (queue (heap ?s4) (heap_len ?s4)) = mset U + mset [E..<E + Suc j]"
      unfolding rem using p(4) qm by (simp add: add_mset_commute)
    show "dads_ok E (Suc j) t3 (removed ?s4)"
      unfolding rem
    proof (rule dads_ok_step)
      show "dads_ok E j tree (removed s)" using i by blast
      show "n \<notin> set (removed s)" "m \<notin> set (removed s)" using nodes(1) qs by blast+
      have "E + j \<notin> set U \<union> {E..<E + j}" using U(2) by auto
      then show "E + j \<notin> set (removed s)" using nodes(4) by blast
    qed (use nm t3f in simp_all)
    show "\<forall>x<E. Freq (t3 ! x) = Freq (tree1 ! x) \<and> (x \<notin> set U \<longrightarrow> t3 ! x = tree1 ! x)"
    proof (intro allI impI conjI)
      fix x assume x: "x < E"
      show "Freq (t3 ! x) = Freq (tree1 ! x)" using x i t3f(2)[of x] by simp
      assume "x \<notin> set U"
      then have "x \<notin> set U \<union> {E..<E + j}" using x by simp
      then have "x \<notin> set (queue ?hp ?L)" using nodes(4) by blast
      then show "t3 ! x = tree1 ! x" using t3f(3)[of x] qs i x \<open>x \<notin> set U\<close> by auto
    qed
    show "heap_from (node_le t3 (depth ?s4)) (heap ?s4) (heap_len ?s4) 1" using p(5) by simp
  qed
  then show ?thesis using run by blast
qed

lemma merge_loop_inv:
  assumes U: "distinct U" "\<forall>x\<in>set U. x < E" "length U \<le> 286" and E: "E \<le> 286" "2 * E < length tree1"
  shows "merge_inv E U tree1 s1 j st \<Longrightarrow> 2 \<le> length U - j \<Longrightarrow>
    \<exists>st'. merge_loop st (E + j) = Some st' \<and> merge_inv E U tree1 s1 (length U - 1) st'"
proof (induction "length U - j" arbitrary: j st rule: less_induct)
  case less
  obtain tree s where st: "st = (tree, s)" by (cases st)
  obtain st' where s': "merge_step st (E + j) = Some st'" "merge_inv E U tree1 s1 (Suc j) st'"
    using merge_step_inv[OF less.prems(1)[unfolded st] U E less.prems(2)] st by auto
  have hl: "heap_len (snd st') = length U - Suc j" using s'(2) by (cases st') (simp add: merge_inv_def)
  show ?case
  proof (cases "2 \<le> length U - Suc j")
    case True
    have "length U - Suc j < length U - j" using less.prems by simp
    from less.hyps[OF this s'(2) True] show ?thesis using True hl s'(1) by (subst merge_loop.simps) simp
  next
    case False
    then have "Suc j = length U - 1" using less.prems(2) by simp
    then show ?thesis using False hl s' by (subst merge_loop.simps) simp
  qed
qed

text \<open>The loop that establishes the heap, from the last father down to the first.\<close>

lemma heapify_spec:
  assumes q: "queue_nodes N (heap s) (heap_len s)" and N: "N \<le> length tree" "N \<le> length (depth s)"
  shows "\<exists>hp. foldM (\<lambda>s n. pqdownheap s tree n) s (rev [1..<heap_len s div 2 + 1]) = Some (s\<lparr>heap := hp\<rparr>)
    \<and> length hp = length (heap s) \<and> mset (queue hp (heap_len s)) = mset (queue (heap s) (heap_len s))
    \<and> heap_from (node_le tree (depth s)) hp (heap_len s) 1"
proof -
  let ?n = "heap_len s div 2" and ?le = "node_le tree (depth s)"
  let ?I = "\<lambda>i s'. \<exists>hp. s' = s\<lparr>heap := hp\<rparr> \<and> length hp = length (heap s)
    \<and> mset (queue hp (heap_len s)) = mset (queue (heap s) (heap_len s)) \<and> heap_from ?le hp (heap_len s) (?n - i + 1)"
  have "\<exists>s'. foldM (\<lambda>s n. pqdownheap s tree n) s (rev [1..<?n + 1]) = Some s' \<and> ?I (length (rev [1..<?n + 1])) s'"
  proof (rule foldM_inv)
    show "?I 0 s" by (intro exI[of _ "heap s"]) (simp add: heap_from_vacuous)
    fix i s' assume i: "i < length (rev [1..<?n + 1])" and inv: "?I i s'"
    then obtain hp where hp: "s' = s\<lparr>heap := hp\<rparr>" "length hp = length (heap s)"
      "mset (queue hp (heap_len s)) = mset (queue (heap s) (heap_len s))" "heap_from ?le hp (heap_len s) (?n - i + 1)" by blast
    have k: "rev [1..<?n + 1] ! i = ?n - i" using i by (simp add: rev_nth del: upt_Suc)
    have "set (queue hp (heap_len s)) = set (queue (heap s) (heap_len s))" using hp(3) by (rule mset_eq_setD)
    then have q': "queue_nodes N (heap s') (heap_len s')" using q hp by (simp add: queue_nodes_iff)
    have b: "1 \<le> ?n - i" "?n - i \<le> heap_len s'" using i hp(1) by (simp_all del: upt_Suc)
    have N': "N \<le> length (depth s')" "heap_from (node_le tree (depth s')) (heap s') (heap_len s') (?n - i + 1)"
      using N hp by simp_all
    obtain hp' where hp': "pqdownheap s' tree (?n - i) = Some (s'\<lparr>heap := hp'\<rparr>)" "length hp' = length (heap s')"
      "mset (queue hp' (heap_len s')) = mset (queue (heap s') (heap_len s'))"
      "heap_from (node_le tree (depth s')) hp' (heap_len s') (?n - i)"
      using pqdownheap_spec[OF b q' N(1) N'] by blast
    have "?n - Suc i + 1 = ?n - i" using b by simp
    then have "?I (Suc i) (s'\<lparr>heap := hp'\<rparr>)" using hp hp' by (intro exI[of _ hp']) simp
    then show "\<exists>s''. pqdownheap s' tree (rev [1..<?n + 1] ! i) = Some s'' \<and> ?I (Suc i) s''" unfolding k using hp'(1) by blast
  qed
  then show ?thesis by (auto simp del: upt_Suc)
qed

end
