(* ===== verification/Tree_Lengths.thy ===== *)
theory Tree_Lengths
  imports Tree_Build
begin

text \<open>
  \<open>gen_bitlen\<close> and \<open>build_tree\<close> are correct: the lengths are those of a complete prefix code whose
  codes have at most \<open>max_length\<close> bits, also when the limit makes lengths overflow.
\<close>

section \<open>The lengths of the first pass\<close>

text \<open>
  The finished tree: \<open>R\<close> lists the nodes below the root, fathers before sons, the pair \<open>k div 2\<close> being
  the sons of node \<open>dad_of k\<close>.
\<close>

definition dad_of :: "nat \<Rightarrow> nat \<Rightarrow> nat \<Rightarrow> nat" where
  "dad_of E K k = E + (K - 1 - k div 2)"

definition merged :: "nat \<Rightarrow> nat \<Rightarrow> nat list \<Rightarrow> nat list \<Rightarrow> bool" where
  "merged E K U R \<longleftrightarrow> 1 \<le> K \<and> length U = Suc K \<and> distinct U \<and> (\<forall>x\<in>set U. x < E) \<and> length R = 2 * K
     \<and> mset R + {#E + K - 1#} = mset U + mset [E..<E + K] \<and> (\<forall>k<2 * K. R ! k < dad_of E K k)"

lemma merged_nodes:
  assumes "merged E K U R"
  shows "distinct R" "E + K - 1 \<notin> set R" "set R \<union> {E + K - 1} = set U \<union> {E..<E + K}"
proof -
  have "mset R + mset [E + K - 1] = mset (U @ [E..<E + K])" "distinct (U @ [E..<E + K])"
    using assms by (auto simp: merged_def)
  from mset_distinct_disjoint[OF this]
  show "distinct R" "E + K - 1 \<notin> set R" "set R \<union> {E + K - 1} = set U \<union> {E..<E + K}" by auto
qed

lemma dad_of_node: "merged E K U R \<Longrightarrow> k < 2 * K \<Longrightarrow> E \<le> dad_of E K k \<and> dad_of E K k < E + K"
  by (auto simp: merged_def dad_of_def)

lemma later_below_dad:
  "merged E K U R \<Longrightarrow> k \<le> i \<Longrightarrow> i < 2 * K \<Longrightarrow> R ! i < dad_of E K k"
proof -
  assume m: "merged E K U R" and ki: "k \<le> i" and i: "i < 2 * K"
  have "k div 2 \<le> i div 2" using ki by (rule div_le_mono)
  then have "dad_of E K i \<le> dad_of E K k" by (simp add: dad_of_def)
  then show ?thesis using m i by (auto simp: merged_def intro: less_le_trans)
qed

text \<open>The final lengths: each node is one below its father, but not below \<open>mxl\<close>.\<close>

definition clipped :: "nat \<Rightarrow> nat \<Rightarrow> nat \<Rightarrow> nat list \<Rightarrow> (nat \<Rightarrow> nat) \<Rightarrow> bool" where
  "clipped mxl E K R len \<longleftrightarrow> len (E + K - 1) = 0
     \<and> (\<forall>k<2 * K. len (R ! k) = (if len (dad_of E K k) + 1 > mxl then mxl else len (dad_of E K k) + 1))"

definition overflows :: "nat \<Rightarrow> nat \<Rightarrow> nat \<Rightarrow> (nat \<Rightarrow> nat) \<Rightarrow> nat \<Rightarrow> nat" where
  "overflows mxl E K len i = (\<Sum>k<i. if len (dad_of E K k) + 1 > mxl then 1 else 0)"

lemma sum_pairs: "(\<Sum>k<2 * K. g (k div 2)) = 2 * (\<Sum>q<K. g q)" for g :: "nat \<Rightarrow> nat"
  by (induction K) simp_all

lemma sum_dads: "(\<Sum>k<2 * K. f (dad_of E K k)) = 2 * (\<Sum>q<K. f (E + q))" for f :: "nat \<Rightarrow> nat"
proof -
  have "(\<Sum>k<2 * K. f (dad_of E K k)) = 2 * (\<Sum>q<K. f (E + (K - 1 - q)))"
    using sum_pairs[of "\<lambda>q. f (E + (K - 1 - q))" K] by (simp add: dad_of_def)
  also have "(\<Sum>q<K. f (E + (K - 1 - q))) = (\<Sum>q<K. f (E + q))"
    using sum.nat_diff_reindex[of "\<lambda>q. f (E + q)" K] by simp
  finally show ?thesis .
qed

lemma sum_nodes:
  fixes f :: "nat \<Rightarrow> nat"
  assumes "merged E K U R"
  shows "(\<Sum>k<2 * K. f (R ! k)) + f (E + K - 1) = sum_list (map f U) + (\<Sum>q<K. f (E + q))"
proof -
  have R: "length R = 2 * K" using assms by (simp add: merged_def)
  have "mset (R @ [E + K - 1]) = mset (U @ [E..<E + K])" using assms unfolding merged_def by simp
  then have "sum_list (map f (R @ [E + K - 1])) = sum_list (map f (U @ [E..<E + K]))"
    by (metis mset_map sum_mset_sum_list)
  moreover have "sum_list (map f R) = (\<Sum>k<2 * K. f (R ! k))"
    using R by (simp add: sum_list_sum_nth atLeast0LessThan)
  moreover have "sum_list (map f [E..<E + K]) = (\<Sum>q<K. f (E + q))"
    by (simp add: sum_list_sum_nth atLeast0LessThan)
  ultimately show ?thesis by simp
qed

lemma clipped_le:
  assumes "merged E K U R" "clipped mxl E K R len" "x \<in> set U \<union> {E..<E + K}"
  shows "len x \<le> mxl"
proof -
  have "x \<in> set R \<or> x = E + K - 1" using merged_nodes(3)[OF assms(1)] assms(3) by blast
  moreover have "length R = 2 * K" using assms(1) by (simp add: merged_def)
  ultimately show ?thesis using assms(2) by (auto simp: clipped_def in_set_conv_nth)
qed

text \<open>Kraft's sum of the leaves exceeds 1 by half the number of overflows, in units of \<open>2 ^ - mxl\<close>.\<close>

lemma kraft_clipped:
  assumes m: "merged E K U R" and c: "clipped mxl E K R len" and mxl: "1 \<le> mxl"
  shows "2 * sum_list (map (\<lambda>x. 2 ^ (mxl - len x)) U) = 2 * 2 ^ mxl + overflows mxl E K len (2 * K)"
    "overflows mxl E K len (2 * K) \<le> 2 * sum_list (map (\<lambda>x. if len x = mxl then 1 else 0) U)"
proof -
  let ?w = "\<lambda>x. 2 ^ (mxl - len x) :: nat" and ?f = "\<lambda>x. if len x = mxl then 1 else 0 :: nat"
  let ?o = "\<lambda>k. if len (dad_of E K k) + 1 > mxl then 1 else 0 :: nat"
  have le: "len (dad_of E K k) \<le> mxl" if "k < 2 * K" for k
    using clipped_le[OF m c] dad_of_node[OF m that] by auto
  have "2 * ?w (R ! k) = ?w (dad_of E K k) + ?o k" if "k < 2 * K" for k
  proof (cases "len (dad_of E K k) = mxl")
    case True
    then show ?thesis using c that by (simp add: clipped_def)
  next
    case False
    then have "mxl - len (dad_of E K k) = Suc (mxl - (len (dad_of E K k) + 1))" using le[OF that] by simp
    then show ?thesis using c that False le[OF that] by (simp add: clipped_def)
  qed
  then have "2 * (\<Sum>k<2 * K. ?w (R ! k)) = (\<Sum>k<2 * K. ?w (dad_of E K k)) + overflows mxl E K len (2 * K)"
    by (simp add: sum_distrib_left overflows_def sum.distrib[symmetric])
  then show "2 * sum_list (map ?w U) = 2 * 2 ^ mxl + overflows mxl E K len (2 * K)"
    using sum_nodes[OF m, of ?w] sum_dads[of ?w E K] c by (simp add: clipped_def)
  have "?f (dad_of E K k) + ?o k \<le> 2 * ?f (R ! k)" if "k < 2 * K" for k
    using c that le[OF that] by (auto simp: clipped_def)
  then have "(\<Sum>k<2 * K. ?f (dad_of E K k) + ?o k) \<le> (\<Sum>k<2 * K. 2 * ?f (R ! k))" by (intro sum_mono) simp
  then have "(\<Sum>k<2 * K. ?f (dad_of E K k)) + overflows mxl E K len (2 * K) \<le> 2 * (\<Sum>k<2 * K. ?f (R ! k))"
    by (simp only: sum_distrib_left overflows_def sum.distrib[symmetric])
  then show "overflows mxl E K len (2 * K) \<le> 2 * sum_list (map ?f U)"
    using sum_nodes[OF m, of ?f] sum_dads[of ?f E K] c mxl by (simp add: clipped_def)
qed

lemma count_list_sum: "count_list (map g U) b = sum_list (map (\<lambda>x. if g x = b then 1 else 0) U)"
  by (induction U) auto

lemma clipped_leaf_pos:
  assumes "merged E K U R" "clipped mxl E K R len" "1 \<le> mxl" "x \<in> set U"
  shows "1 \<le> len x" "len x \<le> mxl"
proof -
  have R: "length R = 2 * K" "x < E" "1 \<le> K" using assms(1,4) by (auto simp: merged_def)
  have "x \<in> set R \<union> {E + K - 1}" using merged_nodes(3)[OF assms(1)] assms(4) by blast
  moreover have "x \<noteq> E + K - 1" using R by simp
  ultimately have "x \<in> set R" by blast
  then show "1 \<le> len x" "len x \<le> mxl" using assms(2,3) R(1) by (auto simp: clipped_def in_set_conv_nth)
qed

text \<open>The loop over the nodes, fathers before sons.\<close>

definition leaf_count :: "nat \<Rightarrow> nat list \<Rightarrow> (nat \<Rightarrow> nat) \<Rightarrow> nat \<Rightarrow> nat \<Rightarrow> nat" where
  "leaf_count E R len b i = (\<Sum>k<i. if R ! k < E \<and> len (R ! k) = b then 1 else 0)"

definition len_inv :: "static_tree_desc \<Rightarrow> nat \<Rightarrow> nat list \<Rightarrow> ct_data list \<Rightarrow> 'a tree_state_scheme \<Rightarrow> nat
    \<Rightarrow> ct_data list \<times> 'a tree_state_scheme \<times> nat \<Rightarrow> bool" where
  "len_inv desc K R tree0 s0 i st \<longleftrightarrow> (case st of (tree, s, overflow) \<Rightarrow>
     (let E = elems desc; mxl = max_length desc; len = (\<lambda>x. Len (tree ! x)) in
      length tree = length tree0 \<and> heap s = heap s0 \<and> length (bl_count s) = 16 \<and> length (depth s) = HEAP_SIZE \<and> tree_frame s0 s
    \<and> (\<forall>x. Freq (tree ! x) = Freq (tree0 ! x)) \<and> (\<forall>x. x \<notin> set (take i R) \<longrightarrow> tree ! x = tree0 ! x)
    \<and> (\<forall>k<i. len (R ! k) = (if len (dad_of E K k) + 1 > mxl then mxl else len (dad_of E K k) + 1))
    \<and> overflow = overflows mxl E K len i
    \<and> (\<forall>b<16. bl_count s ! b = leaf_count E R len b i)))"

lemma overflows_cong: "(\<And>k. k < i \<Longrightarrow> f (dad_of E K k) = g (dad_of E K k)) \<Longrightarrow> overflows mxl E K f i = overflows mxl E K g i"
  by (auto simp: overflows_def intro!: sum.cong)

lemma leaf_count_cong: "(\<And>k. k < i \<Longrightarrow> f (R ! k) = g (R ! k)) \<Longrightarrow> leaf_count E R f b i = leaf_count E R g b i"
  by (auto simp: leaf_count_def intro!: sum.cong)

lemma leaf_count_le: "leaf_count E R len b i \<le> i"
proof -
  have "leaf_count E R len b i \<le> (\<Sum>k<i. 1)" unfolding leaf_count_def by (intro sum_mono) simp
  then show ?thesis by simp
qed

lemma bitlen_node_inv:
  assumes m: "merged (elems desc) K U R" and d: "desc_ok desc"
    and t: "2 * elems desc < length tree0" "\<And>k. k < 2 * K \<Longrightarrow> Dad (tree0 ! (R ! k)) = dad_of (elems desc) K k"
    and h: "heap_max s0 + 1 + 2 * K = HEAP_SIZE" "length (heap s0) = HEAP_SIZE" "\<And>k. k < 2 * K \<Longrightarrow> heap s0 ! (heap_max s0 + 1 + k) = R ! k"
    and mc: "\<forall>x\<in>set U. int x \<le> mc" "mc < int (elems desc)"
    and i: "i < 2 * K" and inv: "len_inv desc K R tree0 s0 i st"
  shows "\<exists>st'. bitlen_node desc mc st (heap_max s0 + 1 + i) = Some st' \<and> len_inv desc K R tree0 s0 (Suc i) st'"
proof -
  let ?E = "elems desc" and ?mxl = "max_length desc" and ?n = "R ! i"
  obtain tree s ov where st: "st = (tree, s, ov)" by (cases st)
  note iv = inv[unfolded len_inv_def st prod.case Let_def]
  have b: "3 \<le> ?E" "?E \<le> 286" "1 \<le> ?mxl" "?mxl \<le> 15" using d desc_bounds by (auto simp: desc_ok_def)
  have K: "length R = 2 * K" "K < ?E"
  proof -
    show "length R = 2 * K" using m by (simp add: merged_def)
    have "card (set U) \<le> card {..<?E}" using m by (intro card_mono) (auto simp: merged_def)
    then show "K < ?E" using m by (simp add: merged_def distinct_card)
  qed
  note nodes = merged_nodes[OF m]
  have n: "?n \<in> set R" "?n < dad_of ?E K i" using K i m by (simp_all add: merged_def)
  have dad: "?E \<le> dad_of ?E K i" "dad_of ?E K i < ?E + K" using dad_of_node[OF m i] by simp_all
  have lt: "length tree = length tree0" "?n < length tree" "dad_of ?E K i < length tree"
    using iv n dad K t by simp_all
  have notdone: "?n \<notin> set (take i R)" using nodes(1) K i
    by (metis in_set_conv_nth length_take min.strict_boundedE nth_eq_iff_index_eq nth_take less_irrefl)
  then have tn: "tree ! ?n = tree0 ! ?n" using iv by blast
  define dl' where "dl' = Len (tree ! dad_of ?E K i)"
  define bits where "bits = (if dl' + 1 > ?mxl then ?mxl else dl' + 1)"
  define ov' where "ov' = (if dl' + 1 > ?mxl then ov + 1 else ov)"
  define tree' where "tree' = tree[?n := (tree ! ?n)\<lparr>dl := bits\<rparr>]"
  have bits: "bits \<le> 15" "ushort bits = bits" using b by (auto simp: bits_def ushort_def)
  have t': "\<And>x. x \<noteq> ?n \<Longrightarrow> tree' ! x = tree ! x" "Len (tree' ! ?n) = bits" "\<And>x. Freq (tree' ! x) = Freq (tree ! x)" "length tree' = length tree"
    using lt by (auto simp: tree'_def nth_list_update)
  have dads: "Len (tree' ! dad_of ?E K k) = Len (tree ! dad_of ?E K k)" if "k \<le> i" for k
    using t'(1)[of "dad_of ?E K k"] later_below_dad[OF m that i] by simp
  have olds: "Len (tree' ! (R ! k)) = Len (tree ! (R ! k))" if "k < i" for k
    using t'(1)[of "R ! k"] nodes(1) that i K by (simp add: nth_eq_iff_index_eq)
  have ovs: "ov' = overflows ?mxl ?E K (\<lambda>x. Len (tree' ! x)) (Suc i)"
  proof -
    have "overflows ?mxl ?E K (\<lambda>x. Len (tree' ! x)) i = ov"
      using iv overflows_cong[of i "\<lambda>x. Len (tree' ! x)" ?E K "\<lambda>x. Len (tree ! x)"] dads by simp
    then show ?thesis using dads[of i] by (simp add: overflows_def ov'_def dl'_def)
  qed
  have lens: "\<forall>k<Suc i. Len (tree' ! (R ! k)) = (if Len (tree' ! dad_of ?E K k) + 1 > ?mxl then ?mxl else Len (tree' ! dad_of ?E K k) + 1)"
    using iv t'(2) dads olds by (auto simp: less_Suc_eq bits_def dl'_def)
  have frame: "\<forall>x. x \<notin> set (take (Suc i) R) \<longrightarrow> tree' ! x = tree0 ! x"
    using iv t'(1) K i by (auto simp: take_Suc_conv_app_nth)
  have lc: "leaf_count ?E R (\<lambda>x. Len (tree' ! x)) c i = leaf_count ?E R (\<lambda>x. Len (tree ! x)) c i" for c
    by (rule leaf_count_cong) (use olds in simp)
  have cnt: "leaf_count ?E R (\<lambda>x. Len (tree' ! x)) c (Suc i) = leaf_count ?E R (\<lambda>x. Len (tree ! x)) c i + (if ?n < ?E \<and> bits = c then 1 else 0)" for c
    using lc[of c] t'(2) by (simp add: leaf_count_def)
  have leaf: "int ?n > mc \<longleftrightarrow> ?E \<le> ?n"
  proof
    assume "?E \<le> ?n" then show "int ?n > mc" using mc(2) by linarith
  next
    assume "int ?n > mc"
    then have "?n \<notin> set U" using mc(1) by force
    then show "?E \<le> ?n" using nodes(3) n(1) by (metis UnE UnI1 atLeastLessThan_iff)
  qed
  have rn: "rd (heap s) (heap_max s0 + 1 + i) = Some ?n" using iv h i by (simp add: rd_def)
  have rt: "rd tree ?n = Some (tree ! ?n)" "rd tree (Dad (tree ! ?n)) = Some (tree ! dad_of ?E K i)"
    "wr tree ?n ((tree ! ?n)\<lparr>dl := bits\<rparr>) = Some tree'"
    using lt tn t(2)[OF i] by (simp_all add: tree'_def)
  show ?thesis
  proof (cases "?E \<le> ?n")
    case True
    have "bitlen_node desc mc st (heap_max s0 + 1 + i) = Some (tree', s, ov')"
      unfolding bitlen_node_def st prod.case rn rt(1,2) Option.bind_lunit Let_def dl'_def[symmetric] bits_def[symmetric] ov'_def[symmetric]
      using rt(3) True leaf bits by simp
    moreover have "len_inv desc K R tree0 s0 (Suc i) (tree', s, ov')"
      unfolding len_inv_def prod.case Let_def using iv t' lens frame ovs cnt True by simp
    ultimately show ?thesis by blast
  next
    case False
    let ?x = "if ?n \<ge> extra_base desc then extra_bits desc ! (?n - extra_base desc) else 0"
    let ?stat = "case static_tree desc of None \<Rightarrow> static_len s | Some stree \<Rightarrow> static_len s + of_nat (Freq (tree ! ?n)) * of_nat (Len (stree ! ?n) + ?x)"
    let ?bl = "(bl_count s)[bits := bl_count s ! bits + 1]"
    let ?s = "s\<lparr>bl_count := ?bl, opt_len := opt_len s + of_nat (Freq (tree ! ?n)) * of_nat (bits + ?x), static_len := ?stat\<rparr>"
    have lb: "bits < length (bl_count s)" using iv bits by simp
    have "bl_count s ! bits \<le> i" using iv bits leaf_count_le by simp
    then have u: "ushort (bl_count s ! bits + 1) = bl_count s ! bits + 1" using i K b by (simp add: ushort_def)
    have ex: "?n \<ge> extra_base desc \<Longrightarrow> ?n - extra_base desc < length (extra_bits desc)"
      using d False unfolding desc_ok_def by linarith
    have sl: "static_tree desc = Some stree \<Longrightarrow> ?n < length stree" for stree using d False by (simp add: desc_ok_def)
    have "bitlen_node desc mc st (heap_max s0 + 1 + i) = Some (tree', ?s, ov')"
      unfolding bitlen_node_def st prod.case rn rt(1,2) Option.bind_lunit Let_def dl'_def[symmetric] bits_def[symmetric] ov'_def[symmetric]
      using rt(3) False leaf bits lb u ex sl by (simp split: option.splits)
    moreover have "len_inv desc K R tree0 s0 (Suc i) (tree', ?s, ov')"
    proof -
      have "tree_frame s0 ?s" using iv by (simp add: tree_frame_def)
      moreover have "\<forall>c<16. ?bl ! c = leaf_count ?E R (\<lambda>x. Len (tree' ! x)) c (Suc i)"
        using cnt iv lb False by (auto simp: nth_list_update)
      ultimately show ?thesis
        unfolding len_inv_def prod.case Let_def using iv t' lens frame ovs by simp
    qed
    ultimately show ?thesis by blast
  qed
qed

lemma leaf_count_all:
  assumes "merged E K U R"
  shows "leaf_count E R len b (2 * K) = count_list (map len U) b"
proof -
  let ?f = "\<lambda>x. if x < E \<and> len x = b then 1 else 0 :: nat"
  have "1 \<le> K" using assms by (simp add: merged_def)
  then have "\<not> E + K - 1 < E" by linarith
  then have "leaf_count E R len b (2 * K) = sum_list (map ?f U)"
    using sum_nodes[OF assms, of ?f] by (simp add: leaf_count_def)
  also have "\<dots> = sum_list (map (\<lambda>x. if len x = b then 1 else 0) U)"
    using assms by (intro arg_cong[of _ _ sum_list] map_cong) (auto simp: merged_def)
  finally show ?thesis by (simp add: count_list_sum)
qed

lemma first_pass:
  assumes m: "merged (elems desc) K U R" and d: "desc_ok desc"
    and t: "2 * elems desc < length tree0" "\<And>k. k < 2 * K \<Longrightarrow> Dad (tree0 ! (R ! k)) = dad_of (elems desc) K k"
      "Len (tree0 ! (elems desc + K - 1)) = 0"
    and h: "heap_max s0 + 1 + 2 * K = HEAP_SIZE" "work_arrays s0" "\<And>k. k < 2 * K \<Longrightarrow> heap s0 ! (heap_max s0 + 1 + k) = R ! k"
    and bl: "\<forall>b<16. bl_count s0 ! b = 0"
    and mc: "\<forall>x\<in>set U. int x \<le> mc" "mc < int (elems desc)"
  shows "\<exists>tree s ov. foldM (bitlen_node desc mc) (tree0, s0, 0) [heap_max s0 + 1..<HEAP_SIZE] = Some (tree, s, ov)
    \<and> len_inv desc K R tree0 s0 (2 * K) (tree, s, ov)
    \<and> (\<forall>x\<in>set U. 1 \<le> Len (tree ! x) \<and> Len (tree ! x) \<le> max_length desc)
    \<and> (\<forall>b<16. bl_count s ! b = count_list (map (\<lambda>x. Len (tree ! x)) U) b)
    \<and> 2 * sum_list (map (\<lambda>x. 2 ^ (max_length desc - Len (tree ! x))) U) = 2 * 2 ^ max_length desc + ov
    \<and> ov \<le> 2 * count_list (map (\<lambda>x. Len (tree ! x)) U) (max_length desc)"
proof -
  let ?xs = "[heap_max s0 + 1..<HEAP_SIZE]"
  have len: "length ?xs = 2 * K" using h(1) by simp
  have hl: "length (heap s0) = HEAP_SIZE" using h(2) by (simp add: work_arrays_def)
  have i0: "len_inv desc K R tree0 s0 0 (tree0, s0, 0)"
    using h(2) bl by (simp add: len_inv_def Let_def work_arrays_def tree_frame_def overflows_def leaf_count_def)
  have "\<exists>st. foldM (bitlen_node desc mc) (tree0, s0, 0) ?xs = Some st \<and> len_inv desc K R tree0 s0 (length ?xs) st"
  proof (rule foldM_inv[where I = "len_inv desc K R tree0 s0"])
    show "len_inv desc K R tree0 s0 0 (tree0, s0, 0)" by (rule i0)
    fix i st assume i: "i < length ?xs" and inv: "len_inv desc K R tree0 s0 i st"
    then have x: "?xs ! i = heap_max s0 + 1 + i" and i': "i < 2 * K" using len by simp_all
    show "\<exists>st'. bitlen_node desc mc st (?xs ! i) = Some st' \<and> len_inv desc K R tree0 s0 (Suc i) st'"
      unfolding x by (rule bitlen_node_inv[OF m d t(1,2) h(1) hl h(3) mc i' inv])
  qed
  then obtain tree s ov where r: "foldM (bitlen_node desc mc) (tree0, s0, 0) ?xs = Some (tree, s, ov)"
    and inv: "len_inv desc K R tree0 s0 (2 * K) (tree, s, ov)" using len by auto
  note iv = inv[unfolded len_inv_def prod.case Let_def]
  have mxl: "1 \<le> max_length desc" using d by (simp add: desc_ok_def)
  have "set (take (2 * K) R) = set R" using m by (simp add: merged_def)
  then have root: "Len (tree ! (elems desc + K - 1)) = 0" using iv merged_nodes(2)[OF m] t(3) by metis
  then have c: "clipped (max_length desc) (elems desc) K R (\<lambda>x. Len (tree ! x))" using iv by (simp add: clipped_def)
  have ov: "ov = overflows (max_length desc) (elems desc) K (\<lambda>x. Len (tree ! x)) (2 * K)" using iv by blast
  have "\<forall>b<16. bl_count s ! b = count_list (map (\<lambda>x. Len (tree ! x)) U) b" using iv leaf_count_all[OF m] by simp
  then show ?thesis
    using r inv clipped_leaf_pos[OF m c mxl] kraft_clipped[OF m c mxl] unfolding ov count_list_sum by blast
qed

section \<open>Limiting the lengths\<close>

text \<open>What the loop over \<open>overflow\<close> relies on: \<open>n\<close> leaves, and Kraft's sum \<open>overflow / 2\<close> units too large.\<close>

definition counts_inv :: "nat \<Rightarrow> nat \<Rightarrow> nat \<Rightarrow> nat list \<Rightarrow> bool" where
  "counts_inv mxl n ov bl \<longleftrightarrow> length bl = 16 \<and> bl ! 0 = 0 \<and> (\<Sum>b=1..mxl. bl ! b) = n
     \<and> 2 * (\<Sum>b=1..mxl. bl ! b * 2 ^ (mxl - b)) = 2 * 2 ^ mxl + ov \<and> ov \<le> 2 * bl ! mxl"

lemma find_bits_spec:
  "b < length bl \<Longrightarrow> bl ! b' \<noteq> 0 \<Longrightarrow> b' \<le> b \<Longrightarrow> \<exists>c. find_bits bl b = Some c \<and> b' \<le> c \<and> c \<le> b \<and> bl ! c \<noteq> 0"
  by (induction b) (auto simp: le_Suc_eq)

lemma sum_update:
  fixes c :: "nat \<Rightarrow> nat"
  assumes "finite A" "b \<in> A" "b < length xs"
  shows "(\<Sum>i\<in>A. xs[b := v] ! i * c i) + xs ! b * c b = (\<Sum>i\<in>A. xs ! i * c i) + v * c b"
proof -
  have "(\<Sum>i\<in>A. xs[b := v] ! i * c i) = v * c b + (\<Sum>i\<in>A - {b}. xs ! i * c i)"
    using assms by (subst sum.remove[OF assms(1,2)]) (auto intro!: sum.cong)
  moreover have "(\<Sum>i\<in>A. xs ! i * c i) = xs ! b * c b + (\<Sum>i\<in>A - {b}. xs ! i * c i)"
    by (rule sum.remove[OF assms(1,2)])
  ultimately show ?thesis by simp
qed

lemma sum_update_dec:
  fixes c :: "nat \<Rightarrow> nat"
  assumes "finite A" "b \<in> A" "b < length xs" "xs ! b \<noteq> 0"
  shows "(\<Sum>i\<in>A. xs[b := xs ! b - 1] ! i * c i) + c b = (\<Sum>i\<in>A. xs ! i * c i)"
proof -
  obtain x where "xs ! b = Suc x" using assms(4) by (cases "xs ! b") auto
  then show ?thesis using sum_update[OF assms(1-3), of "xs ! b - 1" c] by simp
qed

lemma sum_update_add:
  fixes c :: "nat \<Rightarrow> nat"
  assumes "finite A" "b \<in> A" "b < length xs"
  shows "(\<Sum>i\<in>A. xs[b := xs ! b + k] ! i * c i) = (\<Sum>i\<in>A. xs ! i * c i) + k * c b"
  using sum_update[OF assms, of "xs ! b + k" c] by (simp add: algebra_simps)

lemma leaf_above:
  assumes inv: "counts_inv mxl n ov bl" and ov: "0 < ov" and n: "n \<le> 2 ^ mxl" and mxl: "1 \<le> mxl"
  shows "\<exists>b. 1 \<le> b \<and> b \<le> mxl - 1 \<and> bl ! b \<noteq> 0"
proof (rule ccontr)
  assume "\<not> ?thesis"
  then have z: "\<And>b. b \<in> {1..mxl} - {mxl} \<Longrightarrow> bl ! b = 0" by auto
  have in_r: "mxl \<in> {1..mxl}" using mxl by simp
  have "(\<Sum>b=1..mxl. bl ! b * 2 ^ (mxl - b)) = bl ! mxl" "(\<Sum>b=1..mxl. bl ! b) = bl ! mxl"
    using sum.remove[OF _ in_r, of "\<lambda>b. bl ! b * 2 ^ (mxl - b)"] sum.remove[OF _ in_r, of "\<lambda>b. bl ! b"] z by simp_all
  then show False using inv ov n by (simp add: counts_inv_def)
qed

lemma move_leaf_inv:
  assumes inv: "counts_inv mxl n ov bl" and ov: "0 < ov" and n: "n \<le> 2 ^ mxl" and mxl: "1 \<le> mxl" "mxl \<le> 15"
  shows "\<exists>bl'. move_leaf mxl bl = Some bl' \<and> counts_inv mxl n (ov - 2) bl' \<and> (2 \<le> ov)
    \<and> (\<forall>b. mxl < b \<longrightarrow> bl' ! b = bl ! b)"
proof -
  note i = inv[unfolded counts_inv_def]
  obtain b0 where b0: "1 \<le> b0" "b0 \<le> mxl - 1" "bl ! b0 \<noteq> 0" using leaf_above[OF inv ov n mxl(1)] by blast
  have "mxl - 1 < length bl" using i mxl by linarith
  from find_bits_spec[OF this b0(3,2)] obtain b where b: "find_bits bl (mxl - 1) = Some b" "1 \<le> b" "b \<le> mxl - 1" "bl ! b \<noteq> 0"
    using b0(1) by auto
  have two: "2 \<le> ov"
  proof -
    have "even (2 * (\<Sum>b=1..mxl. bl ! b * 2 ^ (mxl - b)))" by simp
    then have "even ov" using i by (metis dvd_add_right_iff dvd_triv_left)
    then show ?thesis using ov by (auto elim!: evenE)
  qed
  have small: "bl ! c \<le> n" if "1 \<le> c" "c \<le> mxl" for c
  proof -
    have "bl ! c \<le> (\<Sum>b=1..mxl. bl ! b)" using that by (intro member_le_sum) simp_all
    then show ?thesis using i by simp
  qed
  have "(2::nat) ^ mxl \<le> 2 ^ 15" using mxl(2) by (intro power_increasing) simp_all
  then have n': "n \<le> 32768" using n by simp
  have b15: "b < 15" "mxl < 16" "b < mxl" using b mxl by linarith+
  have dec: "ush_dec x = x - 1" if "0 < x" "x \<le> 40000" for x
  proof -
    have "x + 65535 = (x - 1) + 65536" using that by simp
    then show ?thesis unfolding ush_dec_def ushort_def using that by (simp only: mod_add_self2) simp
  qed
  let ?b1 = "bl[b := bl ! b - 1]"
  let ?b2 = "?b1[b + 1 := ?b1 ! (b + 1) + 2]"
  let ?b3 = "?b2[mxl := ?b2 ! mxl - 1]"
  have v1: "?b1 ! (b + 1) = bl ! (b + 1)" by simp
  have v2: "?b2 ! mxl = (if mxl = b + 1 then bl ! mxl + 2 else bl ! mxl)" using i b15 by auto
  have pos: "0 < bl ! mxl" using i two by simp
  have sm: "bl ! b \<le> n" "bl ! (b + 1) \<le> n" "bl ! mxl \<le> n" using small b b15 mxl by simp_all
  have run: "move_leaf mxl bl = Some ?b3"
  proof -
    have "ushort (bl ! (b + 1) + 2) = bl ! (b + 1) + 2" using sm n' by (simp add: ushort_def)
    moreover have "ush_dec (bl ! b) = bl ! b - 1" using sm n' b by (intro dec) simp_all
    moreover have "ush_dec (?b2 ! mxl) = ?b2 ! mxl - 1" using sm n' pos v2 by (intro dec) auto
    ultimately show ?thesis using b(1) i b15 by (simp add: move_leaf_def)
  qed
  have upd: "(\<Sum>i=1..mxl. ?b3 ! i * c i) + c b + c mxl = (\<Sum>i=1..mxl. bl ! i * c i) + 2 * c (b + 1)" for c :: "nat \<Rightarrow> nat"
  proof -
    have l: "b < length bl" "b + 1 < length ?b1" "mxl < length ?b2" using i b15 by simp_all
    have "(\<Sum>i=1..mxl. ?b1 ! i * c i) + c b = (\<Sum>i=1..mxl. bl ! i * c i)"
      using b b15 l by (intro sum_update_dec) simp_all
    moreover have "(\<Sum>i=1..mxl. ?b2 ! i * c i) = (\<Sum>i=1..mxl. ?b1 ! i * c i) + 2 * c (b + 1)"
      using b b15 l by (intro sum_update_add) simp_all
    moreover have "(\<Sum>i=1..mxl. ?b3 ! i * c i) + c mxl = (\<Sum>i=1..mxl. ?b2 ! i * c i)"
      using b b15 l mxl pos v2 by (intro sum_update_dec) (simp_all split: if_splits)
    ultimately show ?thesis by linarith
  qed
  have "(2::nat) * 2 ^ (mxl - (b + 1)) = 2 ^ (mxl - b)"
    using b15 by (metis Suc_diff_Suc Suc_eq_plus1 power_Suc)
  then have kraft: "(\<Sum>i=1..mxl. ?b3 ! i * 2 ^ (mxl - i)) + 1 = (\<Sum>i=1..mxl. bl ! i * 2 ^ (mxl - i))"
    using upd[of "\<lambda>i. 2 ^ (mxl - i)"] by simp
  have "(\<Sum>i=1..mxl. ?b3 ! i) = n" using upd[of "\<lambda>_. 1"] i by simp
  moreover have "?b3 ! 0 = 0" using i b b15 mxl by simp
  moreover have "ov - 2 \<le> 2 * ?b3 ! mxl"
    using i b15 v2 by (simp split: if_splits)
  moreover have "2 * (\<Sum>i=1..mxl. ?b3 ! i * 2 ^ (mxl - i)) = 2 * 2 ^ mxl + (ov - 2)"
  proof -
    have "2 * (\<Sum>b=1..mxl. bl ! b * 2 ^ (mxl - b)) = 2 * 2 ^ mxl + ov" using i by blast
    then show ?thesis using kraft two by linarith
  qed
  ultimately have "counts_inv mxl n (ov - 2) ?b3" using i by (simp add: counts_inv_def)
  then show ?thesis using run two b15 by auto
qed

lemma overflow_loop_spec:
  assumes "n \<le> 2 ^ mxl" "1 \<le> mxl" "mxl \<le> 15"
  shows "counts_inv mxl n ov bl \<Longrightarrow> 0 < ov \<Longrightarrow>
    \<exists>bl'. overflow_loop mxl bl ov = Some bl' \<and> counts_inv mxl n 0 bl' \<and> (\<forall>b. mxl < b \<longrightarrow> bl' ! b = bl ! b)"
proof (induction ov arbitrary: bl rule: less_induct)
  case (less ov)
  obtain bl1 where b1: "move_leaf mxl bl = Some bl1" "counts_inv mxl n (ov - 2) bl1" "2 \<le> ov" "\<forall>b. mxl < b \<longrightarrow> bl1 ! b = bl ! b"
    using move_leaf_inv[OF less.prems assms] by blast
  show ?case
  proof (cases "0 < ov - 2")
    case True
    have "ov - 2 < ov" using b1(3) by simp
    from less.IH[OF this b1(2) True] show ?thesis using True b1 by (subst overflow_loop.simps) auto
  next
    case False
    then have "ov - 2 = 0" by simp
    then show ?thesis using b1 by (subst overflow_loop.simps) simp
  qed
qed

section \<open>Assigning the limited lengths\<close>

text \<open>The leaves among the nodes in positions \<open>a\<close> to \<open>b - 1\<close> of the array.\<close>

definition leaves_in :: "int \<Rightarrow> nat list \<Rightarrow> nat \<Rightarrow> nat \<Rightarrow> nat list" where
  "leaves_in mc hp a b = filter (\<lambda>x. int x \<le> mc) (map ((!) hp) [a..<b])"

lemma leaves_in_snoc: "a \<le> b \<Longrightarrow> leaves_in mc hp a (Suc b) = leaves_in mc hp a b @ (if int (hp ! b) \<le> mc then [hp ! b] else [])"
  by (simp add: leaves_in_def)

lemma leaves_in_split: "a \<le> c \<Longrightarrow> c \<le> b \<Longrightarrow> leaves_in mc hp a b = leaves_in mc hp a c @ leaves_in mc hp c b"
  using upt_add_eq_append[of a c "b - c"] by (simp add: leaves_in_def)

lemma leaves_in_empty [simp]: "leaves_in mc hp a a = []"
  by (simp add: leaves_in_def)

lemma relen_loop_spec:
  assumes "lo \<le> h" "h \<le> length (heap s)" "n \<le> length (leaves_in mc (heap s) lo h)" "distinct (leaves_in mc (heap s) lo h)"
    and "\<And>i. lo \<le> i \<Longrightarrow> i < h \<Longrightarrow> heap s ! i < length tree" and "bits < 65536"
  shows "\<exists>h' tree' s'. relen_loop bits mc h n (tree, s) = Some (h', tree', s') \<and> lo \<le> h' \<and> h' \<le> h \<and> length tree' = length tree
    \<and> heap s' = heap s \<and> bl_count s' = bl_count s \<and> depth s' = depth s \<and> tree_frame s s'
    \<and> length (leaves_in mc (heap s) h' h) = n
    \<and> (\<forall>x. tree' ! x = (if x \<in> set (leaves_in mc (heap s) h' h) then (tree ! x)\<lparr>dl := bits\<rparr> else tree ! x))"
  using assms
proof (induction bits mc h n "(tree, s)" arbitrary: tree s rule: relen_loop.induct)
  case (1 bits mc h tree s)
  then show ?case by (simp add: tree_frame_def)
next
  case (2 bits mc n)
  then show ?case by simp
next
  case (3 bits mc h n tree s)
  let ?m = "heap s ! h"
  have lo: "lo \<le> h" using 3(4,6) by (cases "lo = Suc h") auto
  have h: "rd (heap s) h = Some ?m" "?m < length tree" using 3(5,8) lo by (auto simp: rd_def)
  note snoc = leaves_in_snoc[OF lo, of mc "heap s"]
  have pre: "h \<le> length (heap s)" "distinct (leaves_in mc (heap s) lo h)" "\<And>i. lo \<le> i \<Longrightarrow> i < h \<Longrightarrow> heap s ! i < length tree"
    using 3(5,7,8) snoc by auto
  show ?case
  proof (cases "int ?m \<le> mc")
    case False
    then have "Suc n \<le> length (leaves_in mc (heap s) lo h)" using 3(6) snoc by simp
    moreover have "int ?m > mc" using False by simp
    ultimately obtain h' tree' s' where r: "relen_loop bits mc h (Suc n) (tree, s) = Some (h', tree', s')" "lo \<le> h'" "h' \<le> h"
      "length tree' = length tree" "heap s' = heap s" "bl_count s' = bl_count s" "depth s' = depth s" "tree_frame s s'"
      "length (leaves_in mc (heap s) h' h) = Suc n"
      "\<forall>x. tree' ! x = (if x \<in> set (leaves_in mc (heap s) h' h) then (tree ! x)\<lparr>dl := bits\<rparr> else tree ! x)"
      using 3(1)[of ?m] h lo pre 3(9) by blast
    have "leaves_in mc (heap s) h' (Suc h) = leaves_in mc (heap s) h' h" using leaves_in_snoc[OF r(3)] False by simp
    then show ?thesis using r h False by simp
  next
    case True
    let ?tree = "tree[?m := (tree ! ?m)\<lparr>dl := bits\<rparr>]"
    let ?s = "if Len (tree ! ?m) \<noteq> bits then s\<lparr>opt_len := opt_len s + (of_nat bits - of_nat (Len (tree ! ?m))) * of_nat (Freq (tree ! ?m))\<rparr> else s"
    have same: "Len (tree ! ?m) = bits \<Longrightarrow> ?tree = tree" by (simp add: list_update_same_conv h(2))
    have run: "relen_loop bits mc (Suc h) (Suc n) (tree, s) = relen_loop bits mc h n (?tree, ?s)"
    proof (cases "Len (tree ! ?m) = bits")
      case eq: True
      show ?thesis unfolding same[OF eq] using h eq True by simp
    next
      case False
      then show ?thesis using h True 3(9) by (simp add: ushort_def)
    qed
    have m_new: "?m \<notin> set (leaves_in mc (heap s) lo h)" using 3(7) snoc True by simp
    have n: "n \<le> length (leaves_in mc (heap s) lo h)" using 3(6) snoc True by simp
    have hs: "heap ?s = heap s" "bl_count ?s = bl_count s" "depth ?s = depth s" "tree_frame s ?s" by (simp_all add: tree_frame_def)
    have "\<exists>h' tree' s'. relen_loop bits mc h n (?tree, ?s) = Some (h', tree', s') \<and> lo \<le> h' \<and> h' \<le> h \<and> length tree' = length ?tree
      \<and> heap s' = heap ?s \<and> bl_count s' = bl_count ?s \<and> depth s' = depth ?s \<and> tree_frame ?s s' \<and> length (leaves_in mc (heap s) h' h) = n
      \<and> (\<forall>x. tree' ! x = (if x \<in> set (leaves_in mc (heap s) h' h) then (?tree ! x)\<lparr>dl := bits\<rparr> else ?tree ! x))"
    proof (cases "Len (tree ! ?m) = bits")
      case eq: True
      have "\<not> int ?m > mc" "\<not> Len (tree ! ?m) \<noteq> bits" "rd tree ?m = Some (tree ! ?m)" using True eq h by simp_all
      from 3(3)[OF h(1) this(1,3,2) lo pre(1) n pre(2,3) 3(9)] show ?thesis unfolding same[OF eq] using eq by simp
    next
      case False
      have w: "wr tree ?m ((tree ! ?m)\<lparr>dl := ushort bits\<rparr>) = Some ?tree" using h 3(9) by (simp add: ushort_def)
      have "\<not> int ?m > mc" "rd tree ?m = Some (tree ! ?m)" using True h by simp_all
      from 3(2)[OF h(1) this False w, of] show ?thesis using False lo pre n 3(9) by simp
    qed
    then obtain h' tree' s' where r: "relen_loop bits mc h n (?tree, ?s) = Some (h', tree', s')" "lo \<le> h'" "h' \<le> h"
      "length tree' = length tree" "heap s' = heap s" "bl_count s' = bl_count s" "depth s' = depth s" "tree_frame ?s s'"
      "length (leaves_in mc (heap s) h' h) = n"
      "\<forall>x. tree' ! x = (if x \<in> set (leaves_in mc (heap s) h' h) then (?tree ! x)\<lparr>dl := bits\<rparr> else ?tree ! x)"
      using hs by auto
    have "tree_frame s s'" using r(8) hs(4) by (simp add: tree_frame_def)
    moreover have sn: "leaves_in mc (heap s) h' (Suc h) = leaves_in mc (heap s) h' h @ [?m]" using leaves_in_snoc[OF r(3)] True by simp
    moreover have "set (leaves_in mc (heap s) h' h) \<subseteq> set (leaves_in mc (heap s) lo h)"
      using leaves_in_split[OF r(2,3)] by simp
    then have "?m \<notin> set (leaves_in mc (heap s) h' h)" using m_new by blast
    then have "\<forall>x. tree' ! x = (if x \<in> set (leaves_in mc (heap s) h' (Suc h)) then (tree ! x)\<lparr>dl := bits\<rparr> else tree ! x)"
      unfolding sn using r(10) h(2) by (auto simp: nth_list_update)
    ultimately show ?thesis using r(1-7,9) run by (intro exI conjI) (assumption | simp)+
  qed
qed

text \<open>The loop over the lengths, from the longest to the shortest.\<close>

definition relen_inv :: "int \<Rightarrow> nat \<Rightarrow> nat \<Rightarrow> ct_data list \<Rightarrow> 'a tree_state_scheme \<Rightarrow> nat \<Rightarrow> nat \<times> ct_data list \<times> 'a tree_state_scheme \<Rightarrow> bool" where
  "relen_inv mc mxl lo tree0 s0 b st \<longleftrightarrow> (case st of (h, tree, s) \<Rightarrow>
     let L = leaves_in mc (heap s0) h HEAP_SIZE; len = (\<lambda>x. Len (tree ! x)) in
     lo \<le> h \<and> h \<le> HEAP_SIZE \<and> length tree = length tree0 \<and> heap s = heap s0 \<and> bl_count s = bl_count s0 \<and> depth s = depth s0 \<and> tree_frame s0 s
   \<and> length L = (\<Sum>c=b..mxl. bl_count s0 ! c)
   \<and> (\<forall>c\<in>{b..mxl}. count_list (map len L) c = bl_count s0 ! c)
   \<and> (\<forall>x\<in>set L. b \<le> len x \<and> len x \<le> mxl)
   \<and> (\<forall>x. Freq (tree ! x) = Freq (tree0 ! x) \<and> (x \<notin> set L \<longrightarrow> tree ! x = tree0 ! x)))"

lemma relen_bits_inv:
  assumes inv: "relen_inv mc mxl lo tree0 s0 (Suc b) st" and b: "1 \<le> b" "b \<le> mxl" "mxl \<le> 15"
    and s0: "work_arrays s0" "\<And>i. lo \<le> i \<Longrightarrow> i < HEAP_SIZE \<Longrightarrow> heap s0 ! i < length tree0"
    and L: "distinct (leaves_in mc (heap s0) lo HEAP_SIZE)" "length (leaves_in mc (heap s0) lo HEAP_SIZE) = (\<Sum>c=1..mxl. bl_count s0 ! c)"
  shows "\<exists>st'. relen_bits mc st b = Some st' \<and> relen_inv mc mxl lo tree0 s0 b st'"
proof -
  obtain h tree s where st: "st = (h, tree, s)" by (cases st)
  let ?hp = "heap s0" and ?n = "bl_count s0 ! b" and ?L = "leaves_in mc (heap s0) h HEAP_SIZE"
  note i = inv[unfolded relen_inv_def st prod.case Let_def]
  have h: "lo \<le> h" "h \<le> HEAP_SIZE" using i by blast+
  have bl: "rd (bl_count s) b = Some ?n" using i b s0(1) by (simp add: rd_def work_arrays_def)
  note split = leaves_in_split[OF h, of mc ?hp]
  have "(\<Sum>c\<in>insert b {Suc b..mxl}. bl_count s0 ! c) \<le> (\<Sum>c=1..mxl. bl_count s0 ! c)"
    using b by (intro sum_mono2) auto
  then have n: "?n \<le> length (leaves_in mc (heap s) lo h)" using L(2) split i by simp
  have "distinct (leaves_in mc (heap s) lo h)" "h \<le> length (heap s)" using L(1) split i s0(1) by (simp_all add: work_arrays_def)
  moreover have "heap s ! k < length tree" if "lo \<le> k" "k < h" for k using s0(2)[of k] that i by simp
  moreover have "b < 65536" using b by simp
  ultimately obtain h' tree' s' where r: "relen_loop b mc h ?n (tree, s) = Some (h', tree', s')" "lo \<le> h'" "h' \<le> h"
      "length tree' = length tree" "heap s' = heap s" "bl_count s' = bl_count s" "depth s' = depth s" "tree_frame s s'"
      "length (leaves_in mc (heap s) h' h) = ?n"
      "\<forall>x. tree' ! x = (if x \<in> set (leaves_in mc (heap s) h' h) then (tree ! x)\<lparr>dl := b\<rparr> else tree ! x)"
    using relen_loop_spec[OF h(1) _ n, of tree b] by blast
  let ?X = "leaves_in mc ?hp h' h"
  have hs: "heap s = ?hp" using i by blast
  have spl: "leaves_in mc ?hp h' HEAP_SIZE = ?X @ ?L" using leaves_in_split[OF r(3) h(2)] .
  have dis: "set ?X \<inter> set ?L = {}"
  proof -
    have "leaves_in mc ?hp lo HEAP_SIZE = leaves_in mc ?hp lo h' @ ?X @ ?L"
      using leaves_in_split[of lo h' HEAP_SIZE mc ?hp] r(2,3) h spl by simp
    then show ?thesis using L(1) by simp
  qed
  have tx: "Len (tree' ! x) = b" if "x \<in> set ?X" for x using r(10) that hs by simp
  have tl: "tree' ! x = tree ! x" if "x \<notin> set ?X" for x using r(10) that hs by simp
  have mapX: "map (\<lambda>x. Len (tree' ! x)) ?X = replicate ?n b"
  proof -
    have "map (\<lambda>x. Len (tree' ! x)) ?X = map (\<lambda>_. b) ?X" using tx by (intro map_cong) auto
    then show ?thesis using r(9) hs by (simp add: map_replicate_const)
  qed
  have "x \<in> set ?L \<Longrightarrow> x \<notin> set ?X" for x using dis by blast
  then have lenL: "x \<in> set ?L \<Longrightarrow> Len (tree' ! x) = Len (tree ! x)" for x using tl by simp
  then have mapL: "map (\<lambda>x. Len (tree' ! x)) ?L = map (\<lambda>x. Len (tree ! x)) ?L"
    by (intro map_cong) simp_all
  have zero: "count_list (map (\<lambda>x. Len (tree ! x)) ?L) b = 0"
    using i by (auto simp: count_list_0_iff)
  have "relen_inv mc mxl lo tree0 s0 b (h', tree', s')"
    unfolding relen_inv_def prod.case Let_def spl
  proof (intro conjI)
    show "lo \<le> h'" "h' \<le> HEAP_SIZE" using r h by simp_all
    show "tree_frame s0 s'" using r(8) i by (simp add: tree_frame_def)
    have "{b..mxl} = insert b {Suc b..mxl}" using b by auto
    then have "(\<Sum>c=b..mxl. bl_count s0 ! c) = ?n + (\<Sum>c=Suc b..mxl. bl_count s0 ! c)" by simp
    then show "length (?X @ ?L) = (\<Sum>c=b..mxl. bl_count s0 ! c)" using r(9) hs i by simp
    show "\<forall>c\<in>{b..mxl}. count_list (map (\<lambda>x. Len (tree' ! x)) (?X @ ?L)) c = bl_count s0 ! c"
    proof
      fix c assume c: "c \<in> {b..mxl}"
      show "count_list (map (\<lambda>x. Len (tree' ! x)) (?X @ ?L)) c = bl_count s0 ! c"
      proof (cases "c = b")
        case True
        then show ?thesis unfolding map_append mapX mapL using zero by (simp add: count_replicate)
      next
        case False
        then have "c \<in> {Suc b..mxl}" using c by simp
        then have "count_list (map (\<lambda>x. Len (tree ! x)) ?L) c = bl_count s0 ! c" using i by blast
        then show ?thesis unfolding map_append mapX mapL using False by (simp add: count_replicate)
      qed
    qed
    show "\<forall>x\<in>set (?X @ ?L). b \<le> Len (tree' ! x) \<and> Len (tree' ! x) \<le> mxl"
      using i tx lenL b by fastforce
    show "\<forall>x. Freq (tree' ! x) = Freq (tree0 ! x) \<and> (x \<notin> set (?X @ ?L) \<longrightarrow> tree' ! x = tree0 ! x)"
      using i r(10) hs by auto
  qed (use r i in auto)
  then show ?thesis using r(1) bl by (auto simp: relen_bits_def st)
qed

lemma second_pass:
  assumes mxl: "1 \<le> mxl" "mxl \<le> 15" and lo: "lo \<le> HEAP_SIZE"
    and s0: "work_arrays s0" "\<And>i. lo \<le> i \<Longrightarrow> i < HEAP_SIZE \<Longrightarrow> heap s0 ! i < length tree0"
    and L: "distinct (leaves_in mc (heap s0) lo HEAP_SIZE)" "length (leaves_in mc (heap s0) lo HEAP_SIZE) = (\<Sum>c=1..mxl. bl_count s0 ! c)"
  shows "\<exists>h tree s. foldM (relen_bits mc) (HEAP_SIZE, tree0, s0) (rev [1..<mxl + 1]) = Some (h, tree, s)
    \<and> length tree = length tree0 \<and> heap s = heap s0 \<and> bl_count s = bl_count s0 \<and> depth s = depth s0 \<and> tree_frame s0 s
    \<and> (\<forall>c\<in>{1..mxl}. count_list (map (\<lambda>x. Len (tree ! x)) (leaves_in mc (heap s0) lo HEAP_SIZE)) c = bl_count s0 ! c)
    \<and> (\<forall>x\<in>set (leaves_in mc (heap s0) lo HEAP_SIZE). 1 \<le> Len (tree ! x) \<and> Len (tree ! x) \<le> mxl)
    \<and> (\<forall>x. Freq (tree ! x) = Freq (tree0 ! x) \<and> (x \<notin> set (leaves_in mc (heap s0) lo HEAP_SIZE) \<longrightarrow> tree ! x = tree0 ! x))"
proof -
  let ?I = "\<lambda>j. relen_inv mc mxl lo tree0 s0 (Suc mxl - j)"
  have "\<exists>st. foldM (relen_bits mc) (HEAP_SIZE, tree0, s0) (rev [1..<mxl + 1]) = Some st \<and> ?I (length (rev [1..<mxl + 1])) st"
  proof (rule foldM_inv[where I = ?I])
    show "?I 0 (HEAP_SIZE, tree0, s0)" using lo by (simp add: relen_inv_def Let_def tree_frame_def)
    fix j st assume j: "j < length (rev [1..<mxl + 1])" and inv: "?I j st"
    then have j': "j < mxl" by (simp del: upt_Suc)
    then have x: "rev [1..<mxl + 1] ! j = mxl - j" by (simp add: rev_nth del: upt_Suc)
    have e: "Suc mxl - j = Suc (mxl - j)" "Suc mxl - Suc j = mxl - j" using j' by simp_all
    show "\<exists>st'. relen_bits mc st (rev [1..<mxl + 1] ! j) = Some st' \<and> ?I (Suc j) st'"
      unfolding x e using inv j' mxl unfolding e by (intro relen_bits_inv[OF _ _ _ _ s0 L]) simp_all
  qed
  then obtain h tree s where r: "foldM (relen_bits mc) (HEAP_SIZE, tree0, s0) (rev [1..<mxl + 1]) = Some (h, tree, s)"
    and inv: "relen_inv mc mxl lo tree0 s0 1 (h, tree, s)" by (auto simp del: upt_Suc)
  note i = inv[unfolded relen_inv_def prod.case Let_def]
  have "leaves_in mc (heap s0) lo HEAP_SIZE = leaves_in mc (heap s0) lo h @ leaves_in mc (heap s0) h HEAP_SIZE"
    using i by (intro leaves_in_split) blast+
  moreover have "length (leaves_in mc (heap s0) lo h) = 0" using calculation L(2) i by simp
  ultimately have "leaves_in mc (heap s0) h HEAP_SIZE = leaves_in mc (heap s0) lo HEAP_SIZE" by simp
  then show ?thesis using r i by auto
qed

section \<open>Both passes\<close>

lemma sum_by_count:
  fixes g :: "nat \<Rightarrow> nat"
  assumes "finite A" "\<And>x. x \<in> set xs \<Longrightarrow> f x \<in> A"
  shows "sum_list (map (\<lambda>x. g (f x)) xs) = (\<Sum>b\<in>A. count_list (map f xs) b * g b)"
proof -
  have "sum_list (map (\<lambda>x. g (f x)) xs) = sum_list (map g (map f xs))" by (simp add: comp_def)
  also have "\<dots> = (\<Sum>b\<in>set (map f xs). count_list (map f xs) b * g b)" by (rule sum_list_map_eq_sum_count)
  also have "\<dots> = (\<Sum>b\<in>A. count_list (map f xs) b * g b)"
  proof (rule sum.mono_neutral_left)
    show "set (map f xs) \<subseteq> A" using assms(2) by auto
    have "count_list (map f xs) b = 0" if "b \<notin> set (map f xs)" for b using that by (rule count_list_0_iff[THEN iffD2])
    then show "\<forall>b\<in>A - set (map f xs). count_list (map f xs) b * g b = 0" by simp
  qed (rule assms(1))
  finally show ?thesis .
qed

lemma count_list_mset: "mset xs = mset ys \<Longrightarrow> count_list (map f xs) b = count_list (map f ys) b"
  by (metis count_mset mset_map)

lemma clear_counts: "length bl = 16 \<Longrightarrow> foldM (\<lambda>bl bits. wr bl bits 0) bl [0..<MAX_BITS + 1] = Some (replicate 16 0)"
proof -
  assume l: "length bl = 16"
  have "\<exists>bl'. foldM (\<lambda>bl bits. wr bl bits 0) bl [0..<16] = Some bl' \<and> length bl' = 16 \<and> (\<forall>b<16. bl' ! b = 0)"
    using foldM_upt_inv[of "\<lambda>i bl. length bl = 16 \<and> (\<forall>b<i. bl ! b = 0)" 0 bl 16 "\<lambda>bl bits. wr bl bits 0"] l
    by (auto simp: nth_list_update)
  then obtain bl' where "foldM (\<lambda>bl bits. wr bl bits 0) bl [0..<16] = Some bl'" "length bl' = 16" "\<forall>b<16. bl' ! b = 0" by blast
  moreover then have "bl' = replicate 16 0" by (intro nth_equalityI) simp_all
  ultimately show ?thesis by (simp add: MAX_BITS_def del: upt_Suc)
qed

text \<open>The state after merging, with the root at \<open>heap_max\<close>.\<close>

definition merged_state :: "static_tree_desc \<Rightarrow> nat \<Rightarrow> nat list \<Rightarrow> nat list \<Rightarrow> ct_data list \<times> 'a tree_state_scheme \<Rightarrow> bool" where
  "merged_state desc K U R st \<longleftrightarrow> (case st of (tree, s) \<Rightarrow>
     merged (elems desc) K U R \<and> 2 * elems desc < length tree
   \<and> (\<forall>k<2 * K. Dad (tree ! (R ! k)) = dad_of (elems desc) K k)
   \<and> heap_max s + 1 + 2 * K = HEAP_SIZE \<and> work_arrays s
   \<and> map ((!) (heap s)) [heap_max s..<HEAP_SIZE] = (elems desc + K - 1) # R)"

text \<open>What \<open>gen_bitlen\<close> promises: lengths of a complete code for the leaves, and their counts.\<close>

definition lens_ok :: "static_tree_desc \<Rightarrow> nat list \<Rightarrow> ct_data list \<Rightarrow> nat list \<Rightarrow> bool" where
  "lens_ok desc U tree bl \<longleftrightarrow> length bl = 16
     \<and> (\<forall>x\<in>set U. 1 \<le> Len (tree ! x) \<and> Len (tree ! x) \<le> max_length desc)
     \<and> (\<forall>b<16. bl ! b = count_list (map (\<lambda>x. Len (tree ! x)) U) b)
     \<and> sum_list (map (\<lambda>x. 2 ^ (max_length desc - Len (tree ! x))) U) = (2 ^ max_length desc :: nat)"

lemma gen_bitlen_spec:
  assumes d: "desc_ok desc" and m: "merged_state desc K U R (tree0, s0)"
    and mc: "\<forall>x\<in>set U. int x \<le> mc" "mc < int (elems desc)"
  shows "\<exists>tree s. gen_bitlen desc mc (tree0, s0) = Some (tree, s) \<and> length tree = length tree0 \<and> tree_frame s0 s
    \<and> lens_ok desc U tree (bl_count s) \<and> (\<forall>x. Freq (tree ! x) = Freq (tree0 ! x))
    \<and> (\<forall>x<elems desc. x \<notin> set U \<longrightarrow> tree ! x = tree0 ! x) \<and> work_arrays s"
proof -
  let ?E = "elems desc" and ?mxl = "max_length desc" and ?hm = "heap_max s0"
  note ms = m[unfolded merged_state_def prod.case]
  have mg: "merged ?E K U R" and lt: "2 * ?E < length tree0" and hm: "?hm + 1 + 2 * K = HEAP_SIZE" and wa: "work_arrays s0"
    and arr: "map ((!) (heap s0)) [?hm..<HEAP_SIZE] = (?E + K - 1) # R" using ms by blast+
  have mxl: "1 \<le> ?mxl" "?mxl \<le> 15" "?E \<le> 2 ^ ?mxl" using d by (simp_all add: desc_ok_def)
  have K: "1 \<le> K" "K < ?E" "length R = 2 * K" "length U = Suc K" "length U \<le> ?E"
  proof -
    show "1 \<le> K" "length R = 2 * K" "length U = Suc K" using mg by (simp_all add: merged_def)
    have "card (set U) \<le> card {..<?E}" using mg by (intro card_mono) (auto simp: merged_def)
    then show "K < ?E" "length U \<le> ?E" using mg by (simp_all add: merged_def distinct_card)
  qed
  have at: "heap s0 ! (?hm + k) = ((?E + K - 1) # R) ! k" if "k < 2 * K + 1" for k
    using map_upt_nth[OF arr, of k] that hm by simp
  have hR: "heap s0 ! (?hm + 1 + k) = R ! k" if "k < 2 * K" for k using at[of "Suc k"] that by simp
  define root where "root = ?E + K - 1"
  have rt: "heap s0 ! ?hm = root" "root < length tree0" "root \<notin> set R" "\<not> root < ?E"
    using at[of 0] lt K merged_nodes(2)[OF mg] by (simp_all add: root_def)
  define tree1 where "tree1 = tree0[root := (tree0 ! root)\<lparr>dl := 0\<rparr>]"
  define s1 where "s1 = s0\<lparr>bl_count := replicate 16 0\<rparr>"
  have s1: "heap_max s1 = ?hm" "heap s1 = heap s0" "work_arrays s1" "\<forall>b<16. bl_count s1 ! b = 0" "tree_frame s0 s1"
    using wa by (simp_all add: s1_def work_arrays_def tree_frame_def)
  have t1: "length tree1 = length tree0" "\<And>x. Freq (tree1 ! x) = Freq (tree0 ! x)" "\<And>x. x \<noteq> root \<Longrightarrow> tree1 ! x = tree0 ! x"
    "Len (tree1 ! root) = 0" using rt(2) by (auto simp: tree1_def nth_list_update)
  have dads: "Dad (tree1 ! (R ! k)) = dad_of ?E K k" if "k < 2 * K" for k
  proof -
    have "R ! k \<noteq> root" using rt(3) K(3) that by (metis nth_mem)
    then show ?thesis using ms that t1(3) by simp
  qed
  obtain tree2 s2 ov where f: "foldM (bitlen_node desc mc) (tree1, s1, 0) [?hm + 1..<HEAP_SIZE] = Some (tree2, s2, ov)"
    "len_inv desc K R tree1 s1 (2 * K) (tree2, s2, ov)"
    "\<forall>x\<in>set U. 1 \<le> Len (tree2 ! x) \<and> Len (tree2 ! x) \<le> ?mxl"
    "\<forall>b<16. bl_count s2 ! b = count_list (map (\<lambda>x. Len (tree2 ! x)) U) b"
    "2 * sum_list (map (\<lambda>x. 2 ^ (?mxl - Len (tree2 ! x))) U) = 2 * 2 ^ ?mxl + ov"
    "ov \<le> 2 * count_list (map (\<lambda>x. Len (tree2 ! x)) U) ?mxl"
    using first_pass[OF mg d _ dads _ _ s1(3) _ s1(4) mc] lt t1 s1 hm hR unfolding root_def by auto
  note i2 = f(2)[unfolded len_inv_def prod.case Let_def]
  have t2: "length tree2 = length tree0" "\<forall>x. Freq (tree2 ! x) = Freq (tree0 ! x)" "heap s2 = heap s0" "tree_frame s0 s2"
    "length (bl_count s2) = 16" "work_arrays s2"
    using i2 t1 s1 wa by (simp_all add: tree_frame_def work_arrays_def)
  have keep: "tree2 ! x = tree0 ! x" if "x < ?E" "x \<notin> set U" for x
  proof -
    have "x \<notin> set U \<union> {?E..<?E + K}" using that by simp
    then have "x \<notin> set (take (2 * K) R)" using merged_nodes(3)[OF mg] K(3) by auto
    then have "tree2 ! x = tree1 ! x" using i2 by blast
    then show ?thesis using t1(3)[of x] rt(4) that by (metis)
  qed
  have start: "gen_bitlen desc mc (tree0, s0) = (if ov = 0 then Some (tree2, s2)
     else do { bl \<leftarrow> overflow_loop ?mxl (bl_count s2) ov;
               (h, tree, s) \<leftarrow> foldM (relen_bits mc) (HEAP_SIZE, tree2, s2\<lparr>bl_count := bl\<rparr>) (rev [1..<?mxl + 1]);
               Some (tree, s) })"
  proof -
    have "foldM (\<lambda>bl bits. wr bl bits 0) (bl_count s0) [0..<MAX_BITS + 1] = Some (replicate 16 0)"
      using wa by (intro clear_counts) (simp add: work_arrays_def)
    moreover have "rd (heap s0) ?hm = Some root" using rt(1) hm wa by (simp add: rd_def work_arrays_def)
    ultimately show ?thesis
      unfolding gen_bitlen_def prod.case
      using rt(2) f(1) by (simp add: s1_def[symmetric] tree1_def[symmetric] del: upt_Suc)
  qed
  show ?thesis
  proof (cases "ov = 0")
    case True
    then have "lens_ok desc U tree2 (bl_count s2)" using f(3-5) t2(5) by (simp add: lens_ok_def)
    then show ?thesis using start True t2 keep by auto
  next
    case False
    let ?c = "\<lambda>b. count_list (map (\<lambda>x. Len (tree2 ! x)) U) b"
    have sums: "sum_list (map (\<lambda>x. g (Len (tree2 ! x))) U) = (\<Sum>b=1..?mxl. bl_count s2 ! b * g b)" for g :: "nat \<Rightarrow> nat"
    proof -
      have "sum_list (map (\<lambda>x. g (Len (tree2 ! x))) U) = (\<Sum>b=1..?mxl. ?c b * g b)"
        using f(3) by (intro sum_by_count) auto
      also have "\<dots> = (\<Sum>b=1..?mxl. bl_count s2 ! b * g b)" using f(4) mxl by (intro sum.cong) auto
      finally show ?thesis .
    qed
    have z: "bl_count s2 ! b = 0" if "b < 16" "b = 0 \<or> ?mxl < b" for b
      using f(3,4) that by (auto simp: count_list_0_iff)
    have "counts_inv ?mxl (length U) ov (bl_count s2)"
      using sums[of "\<lambda>_. 1"] sums[of "\<lambda>b. 2 ^ (?mxl - b)"] f(4-6) t2(5) z[of 0] mxl
      by (simp add: counts_inv_def sum_list_triv)
    moreover have "length U \<le> 2 ^ ?mxl" using K(5) mxl(3) by linarith
    ultimately obtain bl where bl: "overflow_loop ?mxl (bl_count s2) ov = Some bl" "counts_inv ?mxl (length U) 0 bl"
        "\<forall>b. ?mxl < b \<longrightarrow> bl ! b = bl_count s2 ! b"
      using overflow_loop_spec[of "length U" ?mxl ov "bl_count s2"] mxl False by auto
    let ?s2 = "s2\<lparr>bl_count := bl\<rparr>"
    let ?L = "leaves_in mc (heap s0) ?hm HEAP_SIZE"
    have w2: "work_arrays ?s2" using t2(6) bl(2) by (simp add: work_arrays_def counts_inv_def)
    have L: "mset ?L = mset U"
    proof -
      have "mset (root # R) = mset U + mset [?E..<?E + K]" using mg unfolding merged_def root_def by simp
      then have "filter_mset (\<lambda>x. int x \<le> mc) (mset (root # R)) = filter_mset (\<lambda>x. int x \<le> mc) (mset U)
          + filter_mset (\<lambda>x. int x \<le> mc) (mset [?E..<?E + K])" by simp
      also have "filter_mset (\<lambda>x. int x \<le> mc) (mset U) = mset U" using mc(1) by (intro filter_mset_eq_conv[THEN iffD2]) auto
      also have "filter_mset (\<lambda>x. int x \<le> mc) (mset [?E..<?E + K]) = {#}"
      proof -
        have "filter (\<lambda>x. int x \<le> mc) [?E..<?E + K] = []" using mc(2) by (auto simp: filter_empty_conv)
        then show ?thesis by (metis mset_filter mset_zero_iff_right)
      qed
      finally show ?thesis unfolding leaves_in_def arr root_def[symmetric] mset_filter by simp
    qed
    then have Ls: "distinct ?L" "set ?L = set U" "length ?L = length U"
      using mg mset_eq_imp_distinct_iff[OF L] mset_eq_setD[OF L] mset_eq_length[OF L] by (auto simp: merged_def)
    have nodes: "heap ?s2 ! k < length tree2" if "?hm \<le> k" "k < HEAP_SIZE" for k
    proof -
      have "heap s0 ! k \<in> set (map ((!) (heap s0)) [?hm..<HEAP_SIZE])" using that by simp
      then have "heap s0 ! k \<in> set R \<union> {root}" unfolding arr root_def by auto
      then have "heap s0 ! k \<in> set U \<union> {?E..<?E + K}" using merged_nodes(3)[OF mg] unfolding root_def by blast
      moreover have "x < ?E" if "x \<in> set U" for x using mg that by (simp add: merged_def)
      ultimately have "heap s0 ! k < ?E + K" by fastforce
      then show ?thesis using t2(1,3) lt K by simp
    qed
    have le: "?hm \<le> HEAP_SIZE" using hm by simp
    have hs: "heap ?s2 = heap s0" using t2(3) by simp
    have dl: "distinct (leaves_in mc (heap ?s2) ?hm HEAP_SIZE)" unfolding hs by (rule Ls(1))
    have ll: "length (leaves_in mc (heap ?s2) ?hm HEAP_SIZE) = (\<Sum>c=1..?mxl. bl_count ?s2 ! c)"
      unfolding hs using Ls(3) bl(2) by (simp add: counts_inv_def)
    obtain h tree3 s3 where r: "foldM (relen_bits mc) (HEAP_SIZE, tree2, ?s2) (rev [1..<?mxl + 1]) = Some (h, tree3, s3)"
      "length tree3 = length tree2" "bl_count s3 = bl" "heap s3 = heap s0" "depth s3 = depth s2" "tree_frame ?s2 s3"
      "\<forall>c\<in>{1..?mxl}. count_list (map (\<lambda>x. Len (tree3 ! x)) ?L) c = bl ! c"
      "\<forall>x\<in>set ?L. 1 \<le> Len (tree3 ! x) \<and> Len (tree3 ! x) \<le> ?mxl"
      "\<forall>x. Freq (tree3 ! x) = Freq (tree2 ! x) \<and> (x \<notin> set ?L \<longrightarrow> tree3 ! x = tree2 ! x)"
      using second_pass[OF mxl(1,2) le w2 nodes dl ll] unfolding hs by (auto simp del: upt_Suc)
    have cnt: "count_list (map (\<lambda>x. Len (tree3 ! x)) U) c = bl ! c" if "c < 16" for c
    proof (cases "c \<in> {1..?mxl}")
      case True
      then show ?thesis using r(7) count_list_mset[OF L] by metis
    next
      case False
      then have "bl ! c = 0" using bl(2,3) z[OF that] by (cases "c = 0") (auto simp: counts_inv_def)
      moreover have "count_list (map (\<lambda>x. Len (tree3 ! x)) U) c = 0" using r(8) Ls(2) False by (auto simp: count_list_0_iff)
      ultimately show ?thesis by simp
    qed
    have "sum_list (map (\<lambda>x. 2 ^ (?mxl - Len (tree3 ! x))) U) = (\<Sum>b=1..?mxl. count_list (map (\<lambda>x. Len (tree3 ! x)) U) b * 2 ^ (?mxl - b))"
      using r(8) Ls(2) by (intro sum_by_count[where g = "\<lambda>b. 2 ^ (?mxl - b)"]) auto
    also have "\<dots> = (\<Sum>b=1..?mxl. bl ! b * 2 ^ (?mxl - b))" using cnt mxl by (intro sum.cong) auto
    finally have "lens_ok desc U tree3 (bl_count s3)"
      using bl(2) r(3,8) Ls(2) cnt by (simp add: lens_ok_def counts_inv_def)
    moreover have "tree_frame s0 s3" using r(6) t2(4) by (simp add: tree_frame_def)
    moreover have "\<forall>x<?E. x \<notin> set U \<longrightarrow> tree3 ! x = tree0 ! x" using r(9) Ls(2) keep by simp
    moreover have "gen_bitlen desc mc (tree0, s0) = Some (tree3, s3)"
      using start False bl(1) r(1) by (simp del: upt_Suc)
    moreover have "work_arrays s3" using r(3-5) w2 t2(6) wa by (simp add: work_arrays_def)
    ultimately show ?thesis using r(2,9) t2(1,2) by auto
  qed
qed

section \<open>The tree\<close>

text \<open>
  A tree with codes: the symbols up to \<open>mc\<close> that have a length carry the codes of a complete
  canonical code with at most \<open>mxl\<close> bits, and no symbol after \<open>mc\<close> has a length.
\<close>

definition code_tree :: "nat \<Rightarrow> nat \<Rightarrow> nat \<Rightarrow> ct_data list \<Rightarrow> bool" where
  "code_tree E mxl mc tree \<longleftrightarrow> mc < E \<and> E < length tree \<and> kraft (tree_lens tree mc) = 2 ^ 15
     \<and> (\<forall>n<E. Len (tree ! n) \<le> mxl) \<and> (\<forall>n<E. mc < n \<longrightarrow> Len (tree ! n) = 0)
     \<and> (\<forall>n\<le>mc. Len (tree ! n) \<noteq> 0 \<longrightarrow> Code (tree ! n) = canon_code (tree_lens tree mc) n)"

lemma count_used:
  assumes U: "distinct U" "\<forall>x\<in>set U. x \<le> mc" and z: "\<And>x. x \<le> mc \<Longrightarrow> x \<notin> set U \<Longrightarrow> f x = 0" and b: "1 \<le> b"
  shows "count_list (map f [0..<mc + 1]) b = count_list (map f U) (b :: nat)"
proof -
  have "mset U = mset (filter (\<lambda>x. x \<in> set U) [0..<mc + 1])"
    using U by (intro set_eq_iff_mset_eq_distinct[THEN iffD1]) (auto simp: less_Suc_eq_le simp del: upt_Suc)
  then have "count_list (map f U) b = count_list (map f (filter (\<lambda>x. x \<in> set U) [0..<mc + 1])) b" by (rule count_list_mset)
  also have "\<dots> = count_list (map f [0..<mc + 1]) b"
  proof -
    have "count_list (map f (filter (\<lambda>x. x \<in> set U) xs)) b = count_list (map f xs) b" if "\<forall>x\<in>set xs. x \<le> mc" for xs
      using that z b by (induction xs) auto
    moreover have "\<forall>x\<in>set [0..<mc + 1]. x \<le> mc" by auto
    ultimately show ?thesis by blast
  qed
  finally show ?thesis by simp
qed

lemma tree_lens_map: "mc < length tree \<Longrightarrow> tree_lens tree mc = map (\<lambda>x. Len (tree ! x)) [0..<mc + 1]"
  by (intro nth_equalityI) (simp_all add: tree_lens_def del: upt_Suc)

lemma lens_ok_tree:
  assumes d: "desc_ok desc" and U: "distinct U" "\<forall>x\<in>set U. x < elems desc \<and> x \<le> mc" and mc: "mc < elems desc" "elems desc < length tree"
    and l: "lens_ok desc U tree bl" and z: "\<And>x. x < elems desc \<Longrightarrow> x \<notin> set U \<Longrightarrow> Len (tree ! x) = 0"
  shows "code_tree (elems desc) (max_length desc) mc (gen_codes tree mc bl)"
    "length (gen_codes tree mc bl) = length tree" "\<And>x. x < length tree \<Longrightarrow> Len (gen_codes tree mc bl ! x) = Len (tree ! x)"
proof -
  let ?mxl = "max_length desc" and ?lens = "tree_lens tree mc" and ?len = "\<lambda>x. Len (tree ! x)"
  have mxl: "1 \<le> ?mxl" "?mxl \<le> 15" using d by (simp_all add: desc_ok_def)
  have map: "?lens = map ?len [0..<mc + 1]" using mc by (intro tree_lens_map) simp
  have le: "?len x \<le> ?mxl" if "x < elems desc" for x using l z[OF that] by (cases "x \<in> set U") (auto simp: lens_ok_def)
  have le15: "\<forall>l\<in>set ?lens. l \<le> 15"
  proof
    fix l assume "l \<in> set ?lens"
    then obtain x where "l = ?len x" "x < mc + 1" unfolding map by auto
    then show "l \<le> 15" using le[of x] mc(1) mxl(2) by simp
  qed
  have U2: "\<forall>x\<in>set U. x \<le> mc" using U(2) by blast
  have z2: "\<And>x. x \<le> mc \<Longrightarrow> x \<notin> set U \<Longrightarrow> Len (tree ! x) = 0" using z mc by simp
  have cnt: "count_list ?lens b = bl ! b" if "1 \<le> b" "b < 16" for b
    unfolding map using count_used[where f = ?len, OF U(1) U2 z2 that(1)] l that by (simp add: lens_ok_def del: upt_Suc)
  have bl0: "bl ! 0 = 0" using l by (auto simp: lens_ok_def count_list_0_iff)
  have big: "bl ! b = 0" if "?mxl < b" "b < 16" for b using l that by (auto simp: lens_ok_def count_list_0_iff)
  have "kraft ?lens = (\<Sum>b=1..15. bl ! b * 2 ^ (15 - b))"
    unfolding kraft_count[OF le15] using cnt by (intro sum.cong) auto
  also have "\<dots> = (\<Sum>b=1..?mxl. bl ! b * 2 ^ (15 - b))"
    using mxl big by (intro sum.mono_neutral_right) auto
  also have "\<dots> = (\<Sum>b=1..?mxl. 2 ^ (15 - ?mxl) * (bl ! b * 2 ^ (?mxl - b)))"
  proof (intro sum.cong refl)
    fix b assume "b \<in> {1..?mxl}"
    then have "(15 - ?mxl) + (?mxl - b) = 15 - b" using mxl by simp
    then show "bl ! b * 2 ^ (15 - b) = 2 ^ (15 - ?mxl) * (bl ! b * 2 ^ (?mxl - b))" by (simp add: power_add[symmetric])
  qed
  also have "\<dots> = 2 ^ (15 - ?mxl) * sum_list (map (\<lambda>x. 2 ^ (?mxl - ?len x)) U)"
  proof -
    have "sum_list (map (\<lambda>x. 2 ^ (?mxl - ?len x)) U) = (\<Sum>b=1..?mxl. count_list (map ?len U) b * 2 ^ (?mxl - b))"
      using l by (intro sum_by_count[where g = "\<lambda>b. 2 ^ (?mxl - b)"]) (auto simp: lens_ok_def)
    also have "\<dots> = (\<Sum>b=1..?mxl. bl ! b * 2 ^ (?mxl - b))" using l mxl by (intro sum.cong) (auto simp: lens_ok_def)
    finally show ?thesis by (simp add: sum_distrib_left)
  qed
  also have "\<dots> = 2 ^ 15" using l mxl by (simp add: lens_ok_def power_add[symmetric])
  finally have kr: "kraft ?lens = 2 ^ 15" .
  have bls: "\<And>b. 1 \<le> b \<Longrightarrow> b \<le> 15 \<Longrightarrow> bl ! b = count_list ?lens b" using cnt by simp
  have ml: "mc < length tree" using mc by simp
  note gc = gen_codes_spec[OF ml le15 eq_refl[OF kr] bl0 bls]
  show len: "length (gen_codes tree mc bl) = length tree" using gc by blast
  show same: "Len (gen_codes tree mc bl ! x) = Len (tree ! x)" if "x < length tree" for x using gc that by simp
  have tl: "tree_lens (gen_codes tree mc bl) mc = ?lens"
    using len same ml by (simp add: tree_lens_map del: upt_Suc)
  show "code_tree (elems desc) ?mxl mc (gen_codes tree mc bl)"
    unfolding code_tree_def tl
  proof (intro conjI allI impI)
    show "kraft ?lens = 2 ^ 15" by (rule kr)
    fix n assume n: "n < elems desc"
    show "Len (gen_codes tree mc bl ! n) \<le> ?mxl" using same[of n] le[OF n] n mc by simp
    assume "mc < n"
    then have "n \<notin> set U" using U2 by (metis leD)
    then show "Len (gen_codes tree mc bl ! n) = 0" using same[of n] z[OF n] n mc by simp
  next
    fix n assume n: "n \<le> mc" "Len (gen_codes tree mc bl ! n) \<noteq> 0"
    then show "Code (gen_codes tree mc bl ! n) = canon_code ?lens n" using gc same[of n] ml by simp
  qed (use mc len in simp_all)
qed

text \<open>
  \<open>build_tree\<close> succeeds, whatever the frequencies, leaves the output alone, and gives all symbols that
  occur a code of a complete code within the length limit.
\<close>

lemma build_tree_spec:
  assumes d: "desc_ok desc" and t: "2 * elems desc < length tree0" and wa: "work_arrays s0"
  shows "\<exists>mc tree s. build_tree desc (tree0, s0) = Some (int mc, tree, s) \<and> 1 \<le> mc \<and> length tree = length tree0 \<and> tree_frame s0 s
    \<and> code_tree (elems desc) (max_length desc) mc tree \<and> work_arrays s
    \<and> (\<forall>n<elems desc. Freq (tree0 ! n) \<noteq> 0 \<longrightarrow> Len (tree ! n) \<noteq> 0)"
proof -
  let ?E = "elems desc" and ?s1 = "s0\<lparr>heap_len := 0, heap_max := HEAP_SIZE\<rparr>"
  have E: "3 \<le> ?E" "?E \<le> 286" using desc_bounds[OF d] by simp_all
  have tl: "?E \<le> length tree0" using t by simp
  have "init_inv tree0 s0 0 (tree0, ?s1, -1)"
    using wa by (simp add: init_inv_def used_syms_def work_arrays_def tree_frame_def queue_def)
  then have "\<exists>st. foldM init_node (tree0, ?s1, -1) [0..<?E] = Some st \<and> init_inv tree0 s0 ?E st"
    using init_node_inv[of _ tree0 s0] E tl by (intro foldM_upt_inv[where I = "init_inv tree0 s0"]) auto
  then obtain st1 where st1: "foldM init_node (tree0, ?s1, -1) [0..<?E] = Some st1" "init_inv tree0 s0 ?E st1" by blast
  obtain U st2 where st2: "force_loop desc st1 = Some st2" "leaves_inv desc tree0 s0 U st2" "2 \<le> length U"
    using force_loop_inv[OF d tl init_leaves[OF st1(2) tl]] by blast
  obtain tree2 s2 mc where st2': "st2 = (tree2, s2, mc)" by (cases st2)
  note i2 = st2(2)[unfolded leaves_inv_def st2' prod.case]
  have U: "distinct U" "\<forall>x\<in>set U. x < ?E" and mcU: "\<forall>x\<in>set U. int x \<le> mc" "mc < int ?E"
    and l2: "length tree2 = length tree0" "heap_len s2 = length U" "queue (heap s2) (length U) = U" "heap_max s2 = HEAP_SIZE"
    and wa2: "work_arrays s2" "tree_frame s0 s2" using i2 by blast+
  have lU: "length U \<le> ?E" using U by (metis card_lessThan card_mono distinct_card finite_lessThan lessThan_iff subsetI)
  have mc1: "1 \<le> mc"
  proof -
    have l: "0 < length U" "1 < length U" using st2(3) by linarith+
    then have "U ! 0 \<noteq> U ! 1" "U ! 0 \<in> set U" "U ! 1 \<in> set U" using nth_eq_iff_index_eq[OF U(1) l] by simp_all
    then have "int (U ! 0) \<le> mc" "int (U ! 1) \<le> mc" "U ! 0 \<noteq> U ! 1" using mcU(1) by blast+
    then show ?thesis by linarith
  qed
  have q2: "queue_nodes ?E (heap s2) (heap_len s2)"
    using l2 wa2 U lU E by (simp add: queue_nodes_iff work_arrays_def HEAP_SIZE_eq)
  have N2: "?E \<le> length tree2" "?E \<le> length (depth s2)" using l2 tl wa2 E by (simp_all add: work_arrays_def HEAP_SIZE_eq)
  obtain hp where h: "foldM (\<lambda>s n. pqdownheap s tree2 n) s2 (rev [1..<heap_len s2 div 2 + 1]) = Some (s2\<lparr>heap := hp\<rparr>)"
    "length hp = length (heap s2)" "mset (queue hp (heap_len s2)) = mset U" "heap_from (node_le tree2 (depth s2)) hp (heap_len s2) 1"
    using heapify_spec[OF q2 N2] l2 by auto
  let ?s3 = "s2\<lparr>heap := hp\<rparr>"
  have m0: "merge_inv ?E U tree2 s2 0 (tree2, ?s3)"
    using h l2 wa2 st2(3) by (auto simp: merge_inv_def work_arrays_def tree_frame_def removed_def dads_ok_def)
  have bounds: "length U \<le> 286" "2 * ?E < length tree2" "2 \<le> length U - 0" using lU E l2 t st2(3) by simp_all
  define K where "K = length U - 1"
  obtain st4 where st4: "merge_loop (tree2, ?s3) (?E + 0) = Some st4" "merge_inv ?E U tree2 s2 K st4"
    unfolding K_def using merge_loop_inv[OF U bounds(1) E(2) bounds(2) m0 bounds(3)] by blast
  obtain tree4 s4 where st4': "st4 = (tree4, s4)" by (cases st4)
  note i4 = st4(2)[unfolded merge_inv_def st4' prod.case]
  have K: "1 \<le> K" "length U = Suc K" "K < ?E" using st2(3) lU by (simp_all add: K_def)
  have l4: "heap_len s4 = 1" "heap_max s4 = 573 - 2 * K" "length (heap s4) = 573"
    using i4 K by (simp_all add: HEAP_SIZE_eq work_arrays_def)
  define top where "top = heap s4 ! 1"
  have q4: "queue (heap s4) 1 = [top]" using queue_first[of 1 "heap s4"] l4 by (simp add: top_def queue_def take_Suc_conv_app_nth)
  note R4 = i4[THEN conjunct2, THEN conjunct2, THEN conjunct2, THEN conjunct2, THEN conjunct2, THEN conjunct2]
  have mR: "mset (removed s4) + {#top#} = mset U + mset [?E..<?E + K]" using R4 q4 unfolding l4(1) by simp
  have dads: "dads_ok ?E K tree4 (removed s4)" using i4 by blast
  have topE: "top = ?E + K - 1"
  proof -
    have "?E + K - 1 \<in> set [?E..<?E + K]" using K(1) by auto
    then have "?E + K - 1 \<in># mset U + mset [?E..<?E + K]" by (simp only: set_mset_mset union_iff) blast
    then have "?E + K - 1 \<in># mset (removed s4) + {#top#}" using mR by simp
    then have "?E + K - 1 \<in> set (removed s4) \<or> ?E + K - 1 = top" by auto
    moreover have "?E + K - 1 \<notin> set (removed s4)"
    proof
      assume "?E + K - 1 \<in> set (removed s4)"
      then obtain k where "k < length (removed s4)" "removed s4 ! k = ?E + K - 1" by (metis in_set_conv_nth)
      moreover have "k < 2 * K" using calculation(1) dads by (simp add: dads_ok_def)
      ultimately have "?E + K - 1 < ?E + (K - 1 - k div 2)" using dads by (metis dads_ok_def)
      then show False using K(1) by linarith
    qed
    ultimately show ?thesis by blast
  qed
  let ?hp5 = "(heap s4)[heap_max s4 - 1 := top]"
  let ?s5 = "s4\<lparr>heap := ?hp5, heap_max := heap_max s4 - 1\<rparr>"
  let ?R = "removed s4"
  have mst: "merged_state desc K U ?R (tree4, ?s5)"
    unfolding merged_state_def prod.case
  proof (intro conjI)
    show "merged ?E K U ?R" using K U mR dads unfolding merged_def topE dads_ok_def dad_of_def by auto
    show "2 * ?E < length tree4" using i4 bounds(2) by simp
    show "\<forall>k<2 * K. Dad (tree4 ! (?R ! k)) = dad_of ?E K k" using dads by (simp add: dads_ok_def dad_of_def)
    show "heap_max ?s5 + 1 + 2 * K = HEAP_SIZE" using l4 K E by (simp add: HEAP_SIZE_eq)
    show "work_arrays ?s5" using i4 by (simp add: work_arrays_def)
    have "map ((!) ?hp5) [heap_max s4 - 1..<573] = drop (heap_max s4 - 1) ?hp5"
      using l4 by (intro nth_equalityI) simp_all
    also have "\<dots> = ?hp5 ! (heap_max s4 - 1) # drop (Suc (heap_max s4 - 1)) ?hp5"
      using l4 K E by (intro Cons_nth_drop_Suc[symmetric]) simp
    also have "Suc (heap_max s4 - 1) = heap_max s4" using l4 K E by simp
    also have "?hp5 ! (heap_max s4 - 1) # drop (heap_max s4) ?hp5 = top # ?R" using l4 K E by (simp add: removed_def)
    finally show "map ((!) (heap ?s5)) [heap_max ?s5..<HEAP_SIZE] = (?E + K - 1) # ?R" by (simp add: HEAP_SIZE_eq topE)
  qed
  obtain tree6 s6 where g: "gen_bitlen desc mc (tree4, ?s5) = Some (tree6, s6)" "length tree6 = length tree4" "tree_frame ?s5 s6"
    "lens_ok desc U tree6 (bl_count s6)" "\<forall>x<?E. x \<notin> set U \<longrightarrow> tree6 ! x = tree4 ! x" "work_arrays s6"
    using gen_bitlen_spec[OF d mst mcU] by blast
  have mcn: "mc = int (nat mc)" "nat mc < ?E" using mc1 mcU(2) by simp_all
  have run: "build_tree desc (tree0, s0) = Some (mc, gen_codes tree6 (nat mc) (bl_count s6), s6)"
    unfolding build_tree_def prod.case
    using st1(1) st2(1) h(1) st4(1) g(1) l4 K E
    by (simp add: st2' st4' SMALLEST_def top_def[unfolded One_nat_def, symmetric] del: upt_Suc)
  have z: "Len (tree6 ! x) = 0" if "x < ?E" "x \<notin> set U" for x
  proof -
    have "tree6 ! x = tree2 ! x" using g(5) i4 that by simp
    then show ?thesis using i2 that by simp
  qed
  have Un: "\<forall>x\<in>set U. x < ?E \<and> x \<le> nat mc" using U mcU by force
  have lt6: "length tree6 = length tree0" "?E < length tree6" using g(2) i4 l2 t by simp_all
  note fin = lens_ok_tree[OF d U(1) Un mcn(2) lt6(2) g(4) z]
  have "\<forall>n<?E. Freq (tree0 ! n) \<noteq> 0 \<longrightarrow> Len (gen_codes tree6 (nat mc) (bl_count s6) ! n) \<noteq> 0"
  proof (intro allI impI)
    fix n assume n: "n < ?E" "Freq (tree0 ! n) \<noteq> 0"
    then have "n \<in> set U" using i2 by blast
    then have "1 \<le> Len (tree6 ! n)" using g(4) by (simp add: lens_ok_def)
    then show "Len (gen_codes tree6 (nat mc) (bl_count s6) ! n) \<noteq> 0" using fin(3)[of n] n lt6 by simp
  qed
  moreover have "tree_frame s0 s6" using g(3) i4 wa2(2) by (simp add: tree_frame_def)
  ultimately show ?thesis
    using run fin(1,2) lt6 mc1 mcn g(6) by (intro exI[of _ "nat mc"] exI[of _ "gen_codes tree6 (nat mc) (bl_count s6)"] exI[of _ s6]) simp
qed

section \<open>Properties\<close>

text \<open>
  C5: \<open>build_tree\<close> never fails, whatever the frequencies: it gives every symbol that occurs a code,
  the lengths are within the limit of the tree (also when the Huffman tree itself is deeper) and form
  a complete code, the codes are the canonical ones, and only the tree and the work arrays change.
\<close>

theorem build_tree_correct:
  assumes "desc_ok desc" "2 * elems desc < length tree0" "work_arrays s0"
  shows "\<exists>mc tree s. build_tree desc (tree0, s0) = Some (int mc, tree, s) \<and> 1 \<le> mc \<and> mc < elems desc
    \<and> (\<forall>n<elems desc. Freq (tree0 ! n) \<noteq> 0 \<longrightarrow> Len (tree ! n) \<noteq> 0)
    \<and> (\<forall>n<elems desc. Len (tree ! n) \<le> max_length desc) \<and> kraft (tree_lens tree mc) = 2 ^ 15
    \<and> (\<forall>n\<le>mc. Len (tree ! n) \<noteq> 0 \<longrightarrow> Code (tree ! n) = canon_code (tree_lens tree mc) n)
    \<and> length tree = length tree0 \<and> tree_frame s0 s"
  using build_tree_spec[OF assms] unfolding code_tree_def by blast

definition demo_work :: tree_state where
  "demo_work = \<lparr>pending_buf = [], bi_buf = 0, bi_valid = 0, bl_count = replicate 16 0, heap = replicate 573 0, heap_len = 0, heap_max = 0,
     depth = replicate 573 0, opt_len = 0, static_len = 0\<rparr>"

theorem build_tree_correct_witness:
  "\<exists>mc tree s. build_tree static_bl_desc (map (\<lambda>i. \<lparr>fc = 2 ^ i mod 65536, dl = 0\<rparr>) [0..<39], demo_work) = Some (int mc, tree, s)
    \<and> (\<forall>n<16. Len (tree ! n) \<noteq> 0) \<and> (\<forall>n<19. Len (tree ! n) \<le> 7) \<and> kraft (tree_lens tree mc) = 2 ^ 15"
proof -
  let ?t = "map (\<lambda>i. \<lparr>fc = 2 ^ i mod 65536, dl = 0\<rparr>) [0..<39]"
  have E: "elems static_bl_desc = 19" "max_length static_bl_desc = 7" by (simp_all add: static_bl_desc_def BL_CODES_def MAX_BL_BITS_def)
  have w: "work_arrays demo_work" by (simp add: work_arrays_def demo_work_def HEAP_SIZE_def L_CODES_def LITERALS_def LENGTH_CODES_def)
  have f: "Freq (?t ! n) \<noteq> 0" if "n < 16" for n
  proof -
    have "(2::nat) ^ n < 2 ^ 16" using that by (intro power_strict_increasing) simp_all
    then show ?thesis using that by (simp del: upt_Suc)
  qed
  obtain mc tree s where b: "build_tree static_bl_desc (?t, demo_work) = Some (int mc, tree, s)"
    "\<forall>n<19. Freq (?t ! n) \<noteq> 0 \<longrightarrow> Len (tree ! n) \<noteq> 0" "\<forall>n<19. Len (tree ! n) \<le> 7" "kraft (tree_lens tree mc) = 2 ^ 15"
    using build_tree_correct[OF desc_ok_static(3) _ w, of ?t] unfolding E by (auto simp del: upt_Suc map_upt_eqI)
  have "Len (tree ! n) \<noteq> 0" if "n < 16" for n using b(2) f[OF that] that by simp
  then show ?thesis using b(1,3,4) by blast
qed

end
