(* ===== verification/Trees.thy ===== *)
theory Trees
  imports Tree_Lengths
begin

text \<open>
  The block writer of the compressor (\<open>trees.c\<close> without the construction of trees): the buffer of
  literals and matches (\<open>_tr_tally\<close>), the description of the trees in a block header (\<open>scan_tree\<close>,
  \<open>send_tree\<close>, \<open>send_all_trees\<close>), the block data (\<open>compress_block\<close>), and \<open>_tr_flush_block\<close>, which chooses
  between stored, static and dynamic blocks.

  In the code \<open>l_buf\<close> and \<open>d_buf\<close> overlay the unused end of \<open>pending_buf\<close>.  The model keeps them as
  arrays of their own; that the output does not run into them is not part of it.
\<close>

section \<open>State\<close>

record trees_state = tree_state +
  dyn_ltree :: "ct_data list"
  dyn_dtree :: "ct_data list"
  bl_tree :: "ct_data list"
  l_max_code :: int
  d_max_code :: int
  bl_max_code :: int
  l_buf :: "nat list"
  d_buf :: "nat list"
  lit_bufsize :: nat
  last_lit :: nat
  matches :: nat
  level :: nat
  strategy :: nat
  data_type :: nat

definition STORED_BLOCK :: nat where
  "STORED_BLOCK = 0"

definition STATIC_TREES :: nat where
  "STATIC_TREES = 1"

definition DYN_TREES :: nat where
  "DYN_TREES = 2"

definition Z_FIXED :: nat where
  "Z_FIXED = 4"

definition Z_BINARY :: nat where
  "Z_BINARY = 0"

definition Z_TEXT :: nat where
  "Z_TEXT = 1"

definition Z_UNKNOWN :: nat where
  "Z_UNKNOWN = 2"

section \<open>Blocks and the symbol buffer\<close>

definition clear_freqs :: "ct_data list \<Rightarrow> nat \<Rightarrow> ct_data list option" where
  "clear_freqs tree n = foldM (\<lambda>t i. do { e \<leftarrow> rd t i; wr t i (e\<lparr>fc := 0\<rparr>) }) tree [0..<n]"

definition init_block :: "'a trees_state_scheme \<Rightarrow> 'a trees_state_scheme option" where
  "init_block s = do {
     lt \<leftarrow> clear_freqs (dyn_ltree s) L_CODES;
     dt \<leftarrow> clear_freqs (dyn_dtree s) D_CODES;
     bt \<leftarrow> clear_freqs (bl_tree s) BL_CODES;
     e \<leftarrow> rd lt END_BLOCK;
     lt \<leftarrow> wr lt END_BLOCK (e\<lparr>fc := 1\<rparr>);
     Some (s\<lparr>dyn_ltree := lt, dyn_dtree := dt, bl_tree := bt, opt_len := 0, static_len := 0, last_lit := 0, matches := 0\<rparr>) }"

text \<open>The descriptors of the trees are constants of the model, so that only the buffer is left to reset.\<close>

definition tr_init :: "'a trees_state_scheme \<Rightarrow> 'a trees_state_scheme option" where
  "tr_init s = init_block (s\<lparr>bi_buf := 0, bi_valid := 0\<rparr>)"

definition add_freq :: "ct_data list \<Rightarrow> nat \<Rightarrow> nat \<Rightarrow> ct_data list option" where
  "add_freq tree i k = do { e \<leftarrow> rd tree i; wr tree i (e\<lparr>fc := ushort (Freq e + k)\<rparr>) }"

text \<open>\<open>d_code\<close> with the bound of its table \<open>_dist_code[512]\<close>.\<close>

definition rd_d_code :: "nat \<Rightarrow> nat option" where
  "rd_d_code dist = (if dist < 256 then rd dist_code dist else rd dist_code (256 + drop_bit 7 dist))"

definition tr_tally :: "'a trees_state_scheme \<Rightarrow> nat \<Rightarrow> nat \<Rightarrow> (bool \<times> 'a trees_state_scheme) option" where
  "tr_tally s dist lc = do {
     db \<leftarrow> wr (d_buf s) (last_lit s) (ushort dist);
     lb \<leftarrow> wr (l_buf s) (last_lit s) (uchar lc);
     let s = s\<lparr>d_buf := db, l_buf := lb, last_lit := last_lit s + 1\<rparr>;
     s \<leftarrow> (if dist = 0 then do {
              lt \<leftarrow> add_freq (dyn_ltree s) lc 1;
              Some (s\<lparr>dyn_ltree := lt\<rparr>) }
           else do {
              c \<leftarrow> rd length_code lc;
              lt \<leftarrow> add_freq (dyn_ltree s) (c + LITERALS + 1) 1;
              d \<leftarrow> rd_d_code (dist - 1);
              dt \<leftarrow> add_freq (dyn_dtree s) d 1;
              Some (s\<lparr>matches := matches s + 1, dyn_ltree := lt, dyn_dtree := dt\<rparr>) });
     Some (last_lit s = lit_bufsize s - 1, s) }"

text \<open>The inline versions of \<open>deflate.h\<close>, which \<open>deflate.c\<close> uses; they do not count the matches.\<close>

definition tr_tally_lit :: "'a trees_state_scheme \<Rightarrow> nat \<Rightarrow> (bool \<times> 'a trees_state_scheme) option" where
  "tr_tally_lit s c = do {
     let cc = uchar c;
     db \<leftarrow> wr (d_buf s) (last_lit s) 0;
     lb \<leftarrow> wr (l_buf s) (last_lit s) cc;
     lt \<leftarrow> add_freq (dyn_ltree s) cc 1;
     let s = s\<lparr>d_buf := db, l_buf := lb, last_lit := last_lit s + 1, dyn_ltree := lt\<rparr>;
     Some (last_lit s = lit_bufsize s - 1, s) }"

definition tr_tally_dist :: "'a trees_state_scheme \<Rightarrow> nat \<Rightarrow> nat \<Rightarrow> (bool \<times> 'a trees_state_scheme) option" where
  "tr_tally_dist s distance len = do {
     let ln = uchar len;
     let dist = ushort distance;
     db \<leftarrow> wr (d_buf s) (last_lit s) dist;
     lb \<leftarrow> wr (l_buf s) (last_lit s) ln;
     let dist = ushort (dist + 65535);
     c \<leftarrow> rd length_code ln;
     lt \<leftarrow> add_freq (dyn_ltree s) (c + LITERALS + 1) 1;
     d \<leftarrow> rd_d_code dist;
     dt \<leftarrow> add_freq (dyn_dtree s) d 1;
     let s = s\<lparr>d_buf := db, l_buf := lb, last_lit := last_lit s + 1, dyn_ltree := lt, dyn_dtree := dt\<rparr>;
     Some (last_lit s = lit_bufsize s - 1, s) }"

section \<open>Describing the trees\<close>

text \<open>The local variables of \<open>scan_tree\<close> and \<open>send_tree\<close>.\<close>

record rle =
  prevlen :: int
  nextlen :: nat
  rcount :: nat
  max_count :: nat
  min_count :: nat

definition rle_start :: "nat \<Rightarrow> rle" where
  "rle_start len0 = \<lparr>prevlen = -1, nextlen = len0, rcount = 0,
     max_count = (if len0 = 0 then 138 else 7), min_count = (if len0 = 0 then 3 else 4)\<rparr>"

definition rle_reset :: "rle \<Rightarrow> nat \<Rightarrow> rle" where
  "rle_reset r nlen = (let curlen = nextlen r in
     if nlen = 0 then \<lparr>prevlen = int curlen, nextlen = nlen, rcount = 0, max_count = 138, min_count = 3\<rparr>
     else if curlen = nlen then \<lparr>prevlen = int curlen, nextlen = nlen, rcount = 0, max_count = 6, min_count = 3\<rparr>
     else \<lparr>prevlen = int curlen, nextlen = nlen, rcount = 0, max_count = 7, min_count = 4\<rparr>)"

definition scan_step :: "ct_data list \<Rightarrow> ct_data list \<times> rle \<Rightarrow> nat \<Rightarrow> (ct_data list \<times> rle) option" where
  "scan_step tree st n = (case st of (bl, r) \<Rightarrow> do {
     let curlen = nextlen r;
     t \<leftarrow> rd tree (n + 1);
     let cnt = rcount r + 1;
     if cnt < max_count r \<and> curlen = Len t then Some (bl, r\<lparr>nextlen := Len t, rcount := cnt\<rparr>)
     else do {
       bl \<leftarrow> (if cnt < min_count r then add_freq bl curlen cnt
              else if curlen \<noteq> 0 then do {
                bl \<leftarrow> (if int curlen \<noteq> prevlen r then add_freq bl curlen 1 else Some bl);
                add_freq bl REP_3_6 1 }
              else if cnt \<le> 10 then add_freq bl REPZ_3_10 1
              else add_freq bl REPZ_11_138 1);
       Some (bl, rle_reset r (Len t)) } })"

definition scan_tree :: "ct_data list \<Rightarrow> ct_data list \<Rightarrow> nat \<Rightarrow> (ct_data list \<times> ct_data list) option" where
  "scan_tree bl tree max_code = do {
     t0 \<leftarrow> rd tree 0;
     g \<leftarrow> rd tree (max_code + 1);
     tree \<leftarrow> wr tree (max_code + 1) (g\<lparr>dl := 0xffff\<rparr>);
     (bl, r) \<leftarrow> foldM (scan_step tree) (bl, rle_start (Len t0)) [0..<max_code + 1];
     Some (bl, tree) }"

definition send_code :: "'a bit_state_scheme \<Rightarrow> nat \<Rightarrow> ct_data list \<Rightarrow> 'a bit_state_scheme option" where
  "send_code s c tree = do { t \<leftarrow> rd tree c; Some (send_bits s (Code t) (Len t)) }"

text \<open>\<open>do { send_code(s, curlen, s->bl_tree); } while (--count != 0);\<close>\<close>

fun send_rep :: "'a bit_state_scheme \<Rightarrow> nat \<Rightarrow> ct_data list \<Rightarrow> nat \<Rightarrow> 'a bit_state_scheme option" where
  "send_rep s c tree cnt = do {
     s \<leftarrow> send_code s c tree;
     if cnt - 1 \<noteq> 0 then send_rep s c tree (cnt - 1) else Some s }"

declare send_rep.simps [simp del]

definition send_step :: "ct_data list \<Rightarrow> ct_data list \<Rightarrow> 'a bit_state_scheme \<times> rle \<Rightarrow> nat \<Rightarrow> ('a bit_state_scheme \<times> rle) option" where
  "send_step bl tree st n = (case st of (s, r) \<Rightarrow> do {
     let curlen = nextlen r;
     t \<leftarrow> rd tree (n + 1);
     let cnt = rcount r + 1;
     if cnt < max_count r \<and> curlen = Len t then Some (s, r\<lparr>nextlen := Len t, rcount := cnt\<rparr>)
     else do {
       s \<leftarrow> (if cnt < min_count r then send_rep s curlen bl cnt
             else if curlen \<noteq> 0 then do {
               (s, cnt) \<leftarrow> (if int curlen \<noteq> prevlen r then do { s \<leftarrow> send_code s curlen bl; Some (s, cnt - 1) } else Some (s, cnt));
               s \<leftarrow> send_code s REP_3_6 bl;
               Some (send_bits s (cnt - 3) 2) }
             else if cnt \<le> 10 then do { s \<leftarrow> send_code s REPZ_3_10 bl; Some (send_bits s (cnt - 3) 3) }
             else do { s \<leftarrow> send_code s REPZ_11_138 bl; Some (send_bits s (cnt - 11) 7) });
       Some (s, rle_reset r (Len t)) } })"

definition send_tree :: "'a bit_state_scheme \<Rightarrow> ct_data list \<Rightarrow> ct_data list \<Rightarrow> nat \<Rightarrow> 'a bit_state_scheme option" where
  "send_tree s bl tree max_code = do {
     t0 \<leftarrow> rd tree 0;
     (s, r) \<leftarrow> foldM (send_step bl tree) (s, rle_start (Len t0)) [0..<max_code + 1];
     Some s }"

text \<open>\<open>for (max_blindex = BL_CODES-1; max_blindex >= 3; max_blindex--)\<close>\<close>

fun last_blindex :: "ct_data list \<Rightarrow> nat \<Rightarrow> nat option" where
  "last_blindex bl k = (if k \<ge> 3 then do {
     o1 \<leftarrow> rd bl_order k;
     t \<leftarrow> rd bl o1;
     if Len t \<noteq> 0 then Some k else last_blindex bl (k - 1) } else Some k)"

declare last_blindex.simps [simp del]

definition build_bl_tree :: "'a trees_state_scheme \<Rightarrow> (nat \<times> 'a trees_state_scheme) option" where
  "build_bl_tree s = do {
     (bl, lt) \<leftarrow> scan_tree (bl_tree s) (dyn_ltree s) (nat (l_max_code s));
     (bl, dt) \<leftarrow> scan_tree bl (dyn_dtree s) (nat (d_max_code s));
     (mc, bl, s) \<leftarrow> build_tree static_bl_desc (bl, s\<lparr>dyn_ltree := lt, dyn_dtree := dt\<rparr>);
     max_blindex \<leftarrow> last_blindex bl (BL_CODES - 1);
     Some (max_blindex, s\<lparr>bl_tree := bl, bl_max_code := mc,
       opt_len := opt_len s + (3 * (of_nat max_blindex + 1) + 5 + 5 + 4)\<rparr>) }"

definition send_all_trees :: "'a trees_state_scheme \<Rightarrow> nat \<Rightarrow> nat \<Rightarrow> nat \<Rightarrow> 'a trees_state_scheme option" where
  "send_all_trees s lcodes dcodes blcodes = do {
     let s = send_bits s (lcodes - 257) 5;
     let s = send_bits s (dcodes - 1) 5;
     let s = send_bits s (blcodes - 4) 4;
     s \<leftarrow> foldM (\<lambda>s rank. do { o1 \<leftarrow> rd bl_order rank; t \<leftarrow> rd (bl_tree s) o1; Some (send_bits s (Len t) 3) }) s [0..<blcodes];
     s \<leftarrow> send_tree s (bl_tree s) (dyn_ltree s) (lcodes - 1);
     send_tree s (bl_tree s) (dyn_dtree s) (dcodes - 1) }"

section \<open>Writing blocks\<close>

definition tr_stored_block :: "'a trees_state_scheme \<Rightarrow> byte list \<Rightarrow> nat \<Rightarrow> nat \<Rightarrow> 'a trees_state_scheme option" where
  "tr_stored_block s buf stored_len lst = do {
     let s = send_bits s (STORED_BLOCK * 2 + lst) 3;
     let s = bi_windup s;
     let s = put_short s (of_nat stored_len);
     let s = put_short s (NOT (of_nat stored_len));
     if stored_len \<le> length buf then Some (s\<lparr>pending_buf := pending_buf s @ take stored_len buf\<rparr>) else None }"

definition tr_flush_bits :: "'a trees_state_scheme \<Rightarrow> 'a trees_state_scheme" where
  "tr_flush_bits s = bi_flush s"

definition tr_align :: "'a trees_state_scheme \<Rightarrow> 'a trees_state_scheme option" where
  "tr_align s = do {
     let s = send_bits s (STATIC_TREES * 2) 3;
     s \<leftarrow> send_code s END_BLOCK static_ltree;
     Some (bi_flush s) }"

definition compress_sym :: "ct_data list \<Rightarrow> ct_data list \<Rightarrow> 'a trees_state_scheme \<Rightarrow> nat \<Rightarrow> 'a trees_state_scheme option" where
  "compress_sym ltree dtree s lx = do {
     dist \<leftarrow> rd (d_buf s) lx;
     lc \<leftarrow> rd (l_buf s) lx;
     if dist = 0 then send_code s lc ltree
     else do {
       code \<leftarrow> rd length_code lc;
       s \<leftarrow> send_code s (code + LITERALS + 1) ltree;
       extra \<leftarrow> rd extra_lbits code;
       s \<leftarrow> (if extra \<noteq> 0 then do { b \<leftarrow> rd base_length code; Some (send_bits s (lc - b) extra) } else Some s);
       let dist = dist - 1;
       code \<leftarrow> rd_d_code dist;
       s \<leftarrow> send_code s code dtree;
       extra \<leftarrow> rd extra_dbits code;
       (if extra \<noteq> 0 then do { b \<leftarrow> rd base_dist code; Some (send_bits s (dist - b) extra) } else Some s) } }"

definition compress_block :: "'a trees_state_scheme \<Rightarrow> ct_data list \<Rightarrow> ct_data list \<Rightarrow> 'a trees_state_scheme option" where
  "compress_block s ltree dtree = do {
     s \<leftarrow> foldM (compress_sym ltree dtree) s [0..<last_lit s];
     send_code s END_BLOCK ltree }"

fun black_loop :: "ct_data list \<Rightarrow> nat \<Rightarrow> nat list \<Rightarrow> bool option" where
  "black_loop tree msk [] = Some False"
| "black_loop tree msk (n # ns) = do {
     t \<leftarrow> rd tree n;
     if msk AND 1 \<noteq> 0 \<and> Freq t \<noteq> 0 then Some True else black_loop tree (drop_bit 1 msk) ns }"

fun white_loop :: "ct_data list \<Rightarrow> nat list \<Rightarrow> bool option" where
  "white_loop tree [] = Some False"
| "white_loop tree (n # ns) = do { t \<leftarrow> rd tree n; if Freq t \<noteq> 0 then Some True else white_loop tree ns }"

definition detect_data_type :: "'a trees_state_scheme \<Rightarrow> nat option" where
  "detect_data_type s = do {
     black \<leftarrow> black_loop (dyn_ltree s) 0xf3ffc07f [0..<32];
     if black then Some Z_BINARY
     else do {
       white \<leftarrow> white_loop (dyn_ltree s) [9, 10, 13];
       if white then Some Z_TEXT
       else do {
         white \<leftarrow> white_loop (dyn_ltree s) [32..<LITERALS];
         Some (if white then Z_TEXT else Z_BINARY) } } }"

text \<open>The part of \<open>_tr_flush_block\<close> that builds the trees, when \<open>level > 0\<close>.\<close>

definition build_trees :: "'a trees_state_scheme \<Rightarrow> (nat \<times> 'a trees_state_scheme) option" where
  "build_trees s = do {
     s \<leftarrow> (if data_type s = Z_UNKNOWN then do { d \<leftarrow> detect_data_type s; Some (s\<lparr>data_type := d\<rparr>) } else Some s);
     (mc, lt, s) \<leftarrow> build_tree static_l_desc (dyn_ltree s, s);
     let s = s\<lparr>dyn_ltree := lt, l_max_code := mc\<rparr>;
     (mc, dt, s) \<leftarrow> build_tree static_d_desc (dyn_dtree s, s);
     let s = s\<lparr>dyn_dtree := dt, d_max_code := mc\<rparr>;
     build_bl_tree s }"

definition tr_flush_block :: "'a trees_state_scheme \<Rightarrow> byte list option \<Rightarrow> nat \<Rightarrow> nat \<Rightarrow> 'a trees_state_scheme option" where
  "tr_flush_block s buf stored_len lst = do {
     (max_blindex, s, opt_lenb, static_lenb) \<leftarrow>
       (if level s > 0 then do {
          (max_blindex, s) \<leftarrow> build_trees s;
          let opt_lenb = drop_bit 3 (opt_len s + 3 + 7);
          let static_lenb = drop_bit 3 (static_len s + 3 + 7);
          Some (max_blindex, s, if static_lenb \<le> opt_lenb then static_lenb else opt_lenb, static_lenb) }
        else Some (0, s, of_nat stored_len + 5, of_nat stored_len + 5));
     s \<leftarrow> (if of_nat stored_len + 4 \<le> opt_lenb \<and> buf \<noteq> None then tr_stored_block s (the buf) stored_len lst
           else if strategy s = Z_FIXED \<or> static_lenb = opt_lenb then
             compress_block (send_bits s (STATIC_TREES * 2 + lst) 3) static_ltree static_dtree
           else do {
             s \<leftarrow> send_all_trees (send_bits s (DYN_TREES * 2 + lst) 3) (nat (l_max_code s) + 1) (nat (d_max_code s) + 1) (max_blindex + 1);
             compress_block s (dyn_ltree s) (dyn_dtree s) });
     s \<leftarrow> init_block s;
     Some (if lst \<noteq> 0 then bi_windup s else s) }"

end
