(* ===== verification/Deflate_Format.thy ===== *)
theory Deflate_Format
  imports Trees_Tables "HOL-Library.Monad_Syntax"
begin

text \<open>
  The format of compressed data (RFC 1951), as a decoder on lists of bits.  It is the specification
  that the compressor and the decompressor are compared with: no state, no buffers and no tables,
  only canonical codes and the data decoded so far.

  The bits of a stream end at a byte boundary, so that the number of bits to the next byte boundary
  is the number of remaining bits modulo 8.
\<close>

section \<open>Bits\<close>

fun bval :: "bool list \<Rightarrow> nat" where
  "bval [] = 0"
| "bval (b # bs) = of_bool b + 2 * bval bs"

definition take_bits :: "nat \<Rightarrow> bool list \<Rightarrow> (nat \<times> bool list) option" where
  "take_bits n bs = (if n \<le> length bs then Some (bval (take n bs), drop n bs) else None)"

lemma bval_less: "bval bs < 2 ^ length bs"
proof (induction bs)
  case (Cons b bs)
  then show ?case by (cases b) simp_all
qed simp

lemma bval_append: "bval (xs @ ys) = bval xs + 2 ^ length xs * bval ys"
  by (induction xs) (simp_all add: algebra_simps)

lemma bval_take: "bval (take n bs) = bval bs mod 2 ^ n"
proof (cases "n \<le> length bs")
  case True
  have "bval bs = bval (take n bs) + 2 ^ n * bval (drop n bs)"
    using bval_append[of "take n bs" "drop n bs"] True by simp
  then show ?thesis using bval_less[of "take n bs"] True by simp
next
  case False
  then have "(2::nat) ^ length bs \<le> 2 ^ n" by (intro power_increasing) simp_all
  then have "bval bs < 2 ^ n" using bval_less[of bs] by (rule less_le_trans[rotated])
  then show ?thesis using False by simp
qed

lemma bits_of_0 [simp]: "bits_of 0 x = []"
  by (simp add: bits_of_def)

lemma bits_of_Suc: "bits_of (Suc n) x = odd x # bits_of n (x div 2)"
proof -
  have "[0..<Suc n] = 0 # map Suc [0..<n]" by (simp add: upt_conv_Cons map_Suc_upt del: upt_Suc)
  then show ?thesis by (simp add: bits_of_def bit_0 comp_def bit_Suc del: upt_Suc)
qed

lemma bval_bits_of: "bval (bits_of n x) = x mod 2 ^ n"
  by (induction n arbitrary: x) (simp_all add: bits_of_Suc mod_Suc_exp del: power_Suc, presburger)

lemma take_bits_of: "v < 2 ^ n \<Longrightarrow> take_bits n (bits_of n v @ rest) = Some (v, rest)"
  by (simp add: take_bits_def bval_bits_of)

lemma take_bits_length: "take_bits n bs = Some (v, bs') \<Longrightarrow> length bs' + n = length bs"
  by (auto simp: take_bits_def split: if_splits)

section \<open>Codes\<close>

text \<open>The symbol whose code the stream begins with.\<close>

definition begins_with :: "nat list \<Rightarrow> bool list \<Rightarrow> nat \<Rightarrow> bool" where
  "begins_with lens bs s \<longleftrightarrow> lens ! s \<noteq> 0 \<and> lens ! s \<le> length bs \<and> bval (take (lens ! s) bs) = canon_code lens s"

definition decode_sym :: "nat list \<Rightarrow> bool list \<Rightarrow> (nat \<times> bool list) option" where
  "decode_sym lens bs = map_option (\<lambda>s. (s, drop (lens ! s) bs)) (find (begins_with lens bs) [0..<length lens])"

lemma find_SomeD: "find P xs = Some s \<Longrightarrow> P s \<and> s \<in> set xs"
  by (induction xs) (auto split: if_splits)

lemma decode_sym_Some:
  assumes "decode_sym lens bs = Some (s, bs')"
  shows "begins_with lens bs s" "s < length lens" "bs' = drop (lens ! s) bs"
  using assms by (auto simp: decode_sym_def dest: find_SomeD)

lemma decode_sym_less: "decode_sym lens bs = Some (s, bs') \<Longrightarrow> length bs' < length bs"
  using decode_sym_Some[of lens bs s bs'] by (auto simp: begins_with_def)

lemma find_unique: "s \<in> set xs \<Longrightarrow> P s \<Longrightarrow> (\<And>x. x \<in> set xs \<Longrightarrow> P x \<Longrightarrow> x = s) \<Longrightarrow> find P xs = Some s"
proof (induction xs)
  case (Cons a xs)
  show ?case
  proof (cases "P a")
    case True
    then show ?thesis using Cons.prems(3)[of a] by simp
  next
    case False
    then have "s \<in> set xs" using Cons.prems(1,2) by auto
    then have "find P xs = Some s" using Cons.prems(3) by (intro Cons.IH[OF _ Cons.prems(2)]) simp_all
    then show ?thesis using False by simp
  qed
qed simp

text \<open>Codes are prefix free, so that the symbol is unique.\<close>

lemma begins_with_unique:
  assumes le: "\<forall>l\<in>set lens. l \<le> 15" and k: "kraft lens \<le> 2 ^ 15"
    and s: "s < length lens" "begins_with lens bs s" and r: "r < length lens" "begins_with lens bs r"
  shows "r = s"
proof -
  have ls: "code_lens (sorted_lens lens)" by (rule sorted_lens_code_lens[OF le k])
  have ix: "sym_index lens x < length (sorted_lens lens)" "code_matches (sorted_lens lens) (sym_index lens x) (bval bs)"
      "sorted_syms lens ! sym_index lens x = x"
    if "x < length lens" "begins_with lens bs x" for x
  proof -
    have "1 \<le> lens ! x" "lens ! x \<le> 15" using that le by (simp_all add: begins_with_def)
    note i = sym_index[OF that(1) this]
    show "sym_index lens x < length (sorted_lens lens)" "sorted_syms lens ! sym_index lens x = x" using i by simp_all
    show "code_matches (sorted_lens lens) (sym_index lens x) (bval bs)"
      using that(2) i by (simp add: code_matches_def begins_with_def bval_take)
  qed
  have "sym_index lens s = sym_index lens r"
    by (rule code_matches_unique[OF ls ix(1)[OF s] ix(1)[OF r] ix(2)[OF s] ix(2)[OF r]])
  then have "sorted_syms lens ! sym_index lens s = sorted_syms lens ! sym_index lens r" by (rule arg_cong)
  then show ?thesis unfolding ix(3)[OF s] ix(3)[OF r] by (rule sym)
qed

definition code_word :: "nat list \<Rightarrow> nat \<Rightarrow> bool list" where
  "code_word lens s = bits_of (lens ! s) (canon_code lens s)"

lemma decode_code_word:
  assumes le: "\<forall>l\<in>set lens. l \<le> 15" and k: "kraft lens \<le> 2 ^ 15" and s: "s < length lens" "lens ! s \<noteq> 0"
  shows "decode_sym lens (code_word lens s @ rest) = Some (s, rest)"
proof -
  have "canon_code lens s < 2 ^ (lens ! s)" by (simp add: canon_code_def rbits_less)
  then have b: "begins_with lens (code_word lens s @ rest) s"
    using s by (simp add: begins_with_def code_word_def bval_bits_of)
  then have "find (begins_with lens (code_word lens s @ rest)) [0..<length lens] = Some s"
    using s(1) begins_with_unique[OF le k s(1) b] by (intro find_unique) auto
  then show ?thesis by (simp add: decode_sym_def code_word_def)
qed

section \<open>Data\<close>

text \<open>Copying a match, byte by byte, so that it may overlap what it produces.\<close>

primrec lz_copy :: "byte list \<Rightarrow> nat \<Rightarrow> nat \<Rightarrow> byte list" where
  "lz_copy out dist 0 = out"
| "lz_copy out dist (Suc n) = lz_copy (out @ [out ! (length out - dist)]) dist n"

definition put_match :: "byte list \<Rightarrow> nat \<Rightarrow> nat \<Rightarrow> byte list option" where
  "put_match out len dist = (if 1 \<le> dist \<and> dist \<le> length out then Some (lz_copy out dist len) else None)"

text \<open>A length and a distance, with their extra bits.\<close>

definition decode_match :: "nat list \<Rightarrow> nat \<Rightarrow> bool list \<Rightarrow> (nat \<times> nat \<times> bool list) option" where
  "decode_match dlens s bs = (if s < 257 \<or> s \<ge> 286 then None else do {
     (lx, bs) \<leftarrow> take_bits (lext ! (s - 257) - 16) bs;
     (d, bs) \<leftarrow> decode_sym dlens bs;
     if d \<ge> 30 then None else do {
       (dx, bs) \<leftarrow> take_bits (dext ! d - 16) bs;
       Some (lbase ! (s - 257) + lx, dbase ! d + dx, bs) } })"

lemma decode_match_less: "decode_match dlens s bs = Some (len, dist, bs') \<Longrightarrow> length bs' < length bs"
  by (auto simp: decode_match_def split: if_splits bind_splits dest!: take_bits_length decode_sym_less)

function decode_data :: "nat list \<Rightarrow> nat list \<Rightarrow> byte list \<Rightarrow> bool list \<Rightarrow> (byte list \<times> bool list) option" where
  "decode_data lens dlens out bs =
     (case decode_sym lens bs of None \<Rightarrow> None
      | Some (s, bs1) \<Rightarrow>
          if s < 256 then decode_data lens dlens (out @ [of_nat s]) bs1
          else if s = 256 then Some (out, bs1)
          else (case decode_match dlens s bs1 of None \<Rightarrow> None
                | Some (len, dist, bs2) \<Rightarrow>
                    (case put_match out len dist of None \<Rightarrow> None
                     | Some out \<Rightarrow> decode_data lens dlens out bs2)))"
  by pat_completeness auto
termination
  by (relation "measure (\<lambda>(_, _, _, bs). length bs)") (auto dest: decode_sym_less decode_match_less intro: less_trans)

declare decode_data.simps [simp del]

section \<open>Code lengths\<close>

text \<open>The code lengths of a dynamic block: 16 repeats the previous length, 17 and 18 repeat zero.\<close>

function decode_lens :: "nat list \<Rightarrow> nat \<Rightarrow> nat list \<Rightarrow> bool list \<Rightarrow> (nat list \<times> bool list) option" where
  "decode_lens cl n acc bs =
     (if n \<le> length acc then (if n = length acc then Some (acc, bs) else None)
      else (case decode_sym cl bs of None \<Rightarrow> None
        | Some (s, bs1) \<Rightarrow>
            if s < 16 then decode_lens cl n (acc @ [s]) bs1
            else if s = 16 then
              (if acc = [] then None
               else (case take_bits 2 bs1 of None \<Rightarrow> None
                     | Some (k, bs2) \<Rightarrow> decode_lens cl n (acc @ replicate (3 + k) (last acc)) bs2))
            else if s = 17 then
              (case take_bits 3 bs1 of None \<Rightarrow> None | Some (k, bs2) \<Rightarrow> decode_lens cl n (acc @ replicate (3 + k) 0) bs2)
            else (case take_bits 7 bs1 of None \<Rightarrow> None | Some (k, bs2) \<Rightarrow> decode_lens cl n (acc @ replicate (11 + k) 0) bs2)))"
  by pat_completeness auto
termination
  by (relation "measure (\<lambda>(_, _, _, bs). length bs)") (auto dest!: decode_sym_less take_bits_length)

declare decode_lens.simps [simp del]

definition cl_order :: "nat list" where
  "cl_order = [16, 17, 18, 0, 8, 7, 9, 6, 10, 5, 11, 4, 12, 3, 13, 2, 14, 1, 15]"

text \<open>The lengths of the code length code, three bits each, in the order of the format.\<close>

fun decode_clens :: "nat list \<Rightarrow> nat list \<Rightarrow> bool list \<Rightarrow> (nat list \<times> bool list) option" where
  "decode_clens [] cl bs = Some (cl, bs)"
| "decode_clens (i # is) cl bs = (case take_bits 3 bs of None \<Rightarrow> None | Some (v, bs) \<Rightarrow> decode_clens is (cl[i := v]) bs)"

definition decode_trees :: "bool list \<Rightarrow> (nat list \<times> nat list \<times> bool list) option" where
  "decode_trees bs = do {
     (hlit, bs) \<leftarrow> take_bits 5 bs;
     (hdist, bs) \<leftarrow> take_bits 5 bs;
     (hclen, bs) \<leftarrow> take_bits 4 bs;
     let nlen = hlit + 257;
     let ndist = hdist + 1;
     let ncode = hclen + 4;
     if nlen > 286 \<or> ndist > 30 then None else do {
       (cl, bs) \<leftarrow> decode_clens (take ncode cl_order) (replicate 19 0) bs;
       if bad_lens CODES cl then None else do {
         (lens, bs) \<leftarrow> decode_lens cl (nlen + ndist) [] bs;
         let llens = take nlen lens;
         let dlens = drop nlen lens;
         if llens ! 256 = 0 \<or> bad_lens LENS llens \<or> bad_lens DISTS dlens then None else Some (llens, dlens, bs) } } }"

section \<open>Blocks and streams\<close>

definition fixed_dlens :: "nat list" where
  "fixed_dlens = replicate 32 5"

text \<open>The bytes of a list of bits.\<close>

fun to_bytes :: "nat \<Rightarrow> bool list \<Rightarrow> byte list" where
  "to_bytes 0 bs = []"
| "to_bytes (Suc n) bs = of_nat (bval (take 8 bs)) # to_bytes n (drop 8 bs)"

definition decode_stored :: "byte list \<Rightarrow> bool list \<Rightarrow> (byte list \<times> bool list) option" where
  "decode_stored out bs = do {
     let bs = drop (length bs mod 8) bs;
     (len, bs) \<leftarrow> take_bits 16 bs;
     (nlen, bs) \<leftarrow> take_bits 16 bs;
     if len + nlen \<noteq> 65535 \<or> length bs < 8 * len then None
     else Some (out @ to_bytes len bs, drop (8 * len) bs) }"

text \<open>A block, after the data \<open>out\<close>: whether it is the last one, the data with it, and what follows.\<close>

definition decode_block :: "byte list \<Rightarrow> bool list \<Rightarrow> (nat \<times> byte list \<times> bool list) option" where
  "decode_block out bs = do {
     (final, bs) \<leftarrow> take_bits 1 bs;
     (type, bs) \<leftarrow> take_bits 2 bs;
     if type = 0 then do { (out, bs) \<leftarrow> decode_stored out bs; Some (final, out, bs) }
     else if type = 1 then do { (out, bs) \<leftarrow> decode_data static_lens fixed_dlens out bs; Some (final, out, bs) }
     else if type = 2 then do {
       (llens, dlens, bs) \<leftarrow> decode_trees bs;
       (out, bs) \<leftarrow> decode_data llens dlens out bs;
       Some (final, out, bs) }
     else None }"

end
