(* ===== verification/Block_Data.thy ===== *)
theory Block_Data
  imports Trees Deflate_Format
begin

text \<open>
  What the block writer appends to the stream is what the format's decoder reads: the codes and
  extra bits of \<open>compress_block\<close>, decoded with the lengths of the trees it uses, give the literals and
  matches in the buffer.
\<close>

section \<open>Writing to the stream\<close>

definition out_frame :: "'a bit_state_scheme \<Rightarrow> 'a bit_state_scheme \<Rightarrow> bool" where
  "out_frame s s' \<longleftrightarrow> (\<exists>p b k. s' = s\<lparr>pending_buf := p, bi_buf := b, bi_valid := k\<rparr>)"

text \<open>From \<open>s\<close> to \<open>s'\<close> the bits \<open>bs\<close> are appended to the stream, and nothing else changes.\<close>

definition writes :: "'a bit_state_scheme \<Rightarrow> 'a bit_state_scheme \<Rightarrow> bool list \<Rightarrow> bool" where
  "writes s s' bs \<longleftrightarrow> out_frame s s' \<and> bit_inv s' \<and> out_bits s' = out_bits s @ bs"

lemma out_frame_refl [simp]: "out_frame s s"
  unfolding out_frame_def by (intro exI[of _ "pending_buf s"] exI[of _ "bi_buf s"] exI[of _ "bi_valid s"]) simp

lemma out_frame_trans: "out_frame s s1 \<Longrightarrow> out_frame s1 s2 \<Longrightarrow> out_frame s s2"
  by (auto simp: out_frame_def) (intro exI, rule refl)

lemma out_frame_fields:
  assumes "out_frame s (s' :: 'a trees_state_scheme)"
  shows "dyn_ltree s' = dyn_ltree s" "dyn_dtree s' = dyn_dtree s" "bl_tree s' = bl_tree s" "l_buf s' = l_buf s" "d_buf s' = d_buf s"
    "last_lit s' = last_lit s" "lit_bufsize s' = lit_bufsize s" "l_max_code s' = l_max_code s" "d_max_code s' = d_max_code s"
    "heap s' = heap s" "depth s' = depth s" "bl_count s' = bl_count s" "level s' = level s" "strategy s' = strategy s" "matches s' = matches s"
  using assms by (auto simp: out_frame_def)

lemma writes_refl: "bit_inv s \<Longrightarrow> writes s s []"
  by (simp add: writes_def)

lemma writes_trans: "writes s s1 a \<Longrightarrow> writes s1 s2 b \<Longrightarrow> writes s s2 (a @ b)"
  by (auto simp: writes_def intro: out_frame_trans)

lemma writes_inv: "writes s s' bs \<Longrightarrow> bit_inv s'"
  by (simp add: writes_def)

lemma writes_frame: "writes s s' bs \<Longrightarrow> out_frame s s'"
  by (simp add: writes_def)

lemma out_frame_put_byte [simp]: "out_frame s (put_byte s c)"
  unfolding out_frame_def put_byte_def
  by (intro exI[of _ "pending_buf s @ [c]"] exI[of _ "bi_buf s"] exI[of _ "bi_valid s"]) simp

lemma out_frame_put_short [simp]: "out_frame s (put_short s w)"
  unfolding put_short_def by (meson out_frame_put_byte out_frame_trans)

lemma out_frame_upd: "out_frame s s' \<Longrightarrow> out_frame s (s'\<lparr>bi_buf := b, bi_valid := k\<rparr>)"
  by (auto simp: out_frame_def) (intro exI, rule refl)

lemma out_frame_send [simp]: "out_frame s (send_bits s v n)"
proof -
  have 1: "out_frame s (s\<lparr>bi_buf := b\<rparr>)" for b
    unfolding out_frame_def by (intro exI[of _ "pending_buf s"] exI[of _ b] exI[of _ "bi_valid s"]) simp
  have 2: "out_frame s (s\<lparr>bi_buf := b, bi_valid := k\<rparr>)" for b k
    unfolding out_frame_def by (intro exI[of _ "pending_buf s"] exI[of _ b] exI[of _ k]) simp
  show ?thesis unfolding send_bits_def Let_def
    using 2 out_frame_upd[OF out_frame_trans[OF 1 out_frame_put_short]] by auto
qed

lemma writes_send: "bit_inv s \<Longrightarrow> v < 2 ^ n \<Longrightarrow> n \<le> 16 \<Longrightarrow> writes s (send_bits s v n) (bits_of n v)"
  by (simp add: writes_def send_bits_inv send_bits_stream)

section \<open>Codes\<close>

text \<open>The tree has for symbol \<open>c\<close> the canonical code of the lengths.\<close>

definition encodes :: "ct_data list \<Rightarrow> nat list \<Rightarrow> nat \<Rightarrow> bool" where
  "encodes tree lens c \<longleftrightarrow> c < length tree \<and> c < length lens \<and> Len (tree ! c) = lens ! c \<and> lens ! c \<noteq> 0 \<and> lens ! c \<le> 15
     \<and> Code (tree ! c) = canon_code lens c"

lemma writes_code:
  assumes "encodes tree lens c" "bit_inv s"
  shows "\<exists>s'. send_code s c tree = Some s' \<and> writes s s' (code_word lens c)"
  using assms writes_send[of s "canon_code lens c" "lens ! c"]
  by (simp add: encodes_def send_code_def code_word_def canon_code_def rbits_less)

lemma code_tree_encodes:
  assumes "code_tree E mxl mc tree" "mxl \<le> 15" "c < E" "Len (tree ! c) \<noteq> 0"
  shows "encodes tree (tree_lens tree mc) c"
proof -
  have c: "c \<le> mc" using assms unfolding code_tree_def by (meson not_le)
  have l: "mc < length tree" "c < length tree" using assms by (auto simp: code_tree_def)
  then have "c < length (tree_lens tree mc)" "tree_lens tree mc ! c = Len (tree ! c)"
    using c by (simp_all add: tree_lens_def)
  moreover have "Len (tree ! c) \<le> 15" using assms by (auto simp: code_tree_def intro: le_trans)
  ultimately show ?thesis using assms c l by (simp add: encodes_def code_tree_def)
qed

lemma code_tree_lens:
  assumes "code_tree E mxl mc tree" "mxl \<le> 15"
  shows "\<forall>l\<in>set (tree_lens tree mc). l \<le> 15" "length (tree_lens tree mc) = mc + 1" "kraft (tree_lens tree mc) = 2 ^ 15"
proof -
  have ml: "mc < length tree" using assms by (simp add: code_tree_def)
  then show "length (tree_lens tree mc) = mc + 1" by (simp add: tree_lens_def)
  show "kraft (tree_lens tree mc) = 2 ^ 15" using assms by (simp add: code_tree_def)
  show "\<forall>l\<in>set (tree_lens tree mc). l \<le> 15"
  proof
    fix l assume "l \<in> set (tree_lens tree mc)"
    then obtain x where "x \<le> mc" "l = Len (tree ! x)" using ml by (auto simp: tree_lens_map less_Suc_eq_le simp del: upt_Suc)
    moreover have "Len (tree ! x) \<le> mxl" using assms(1) calculation(1) by (simp add: code_tree_def)
    ultimately show "l \<le> 15" using assms(2) by simp
  qed
qed

lemma static_l_encodes: "c < 286 \<Longrightarrow> encodes static_ltree static_lens c"
  using static_ltree_nth[of c] by (simp add: encodes_def length_static_lens static_lens_nth)

lemma fixed_canon: "s < 32 \<Longrightarrow> canon_code fixed_dlens s = rbits 5 s"
proof -
  assume s: "s < 32"
  have "first_code fixed_dlens b = 0" if "b \<le> 5" for b
    using that by (induction b) (auto simp: fixed_dlens_def count_replicate)
  then have "canon_value fixed_dlens s = s"
    using s by (simp add: canon_value_def fixed_dlens_def count_replicate)
  then show ?thesis using s by (simp add: canon_code_def fixed_dlens_def)
qed

lemma static_d_encodes: "c < 30 \<Longrightarrow> encodes static_dtree fixed_dlens c"
proof -
  assume c: "c < 30"
  have "static_dtree ! c = \<lparr>fc = bi_reverse c 5, dl = 5\<rparr>"
    unfolding init_static_dtree_table[symmetric] init_static_dtree_def using c by (simp add: D_CODES_def)
  moreover have "length static_dtree = 30" unfolding init_static_dtree_table[symmetric] init_static_dtree_def by (simp add: D_CODES_def)
  ultimately show ?thesis using c by (simp add: encodes_def fixed_dlens_def bi_reverse_rbits fixed_canon[unfolded fixed_dlens_def])
qed

lemma fixed_dlens_kraft: "kraft fixed_dlens = 2 ^ 15" "\<forall>l\<in>set fixed_dlens. l \<le> 15"
  by (simp_all add: kraft_def fixed_dlens_def filter_replicate sum_list_replicate)

section \<open>Literals and matches\<close>

definition apply_sym :: "byte list \<Rightarrow> nat \<times> nat \<Rightarrow> byte list option" where
  "apply_sym out x = (case x of (dist, lc) \<Rightarrow> if dist = 0 then Some (out @ [of_nat lc]) else put_match out (lc + 3) dist)"

text \<open>The data that the symbols describe, after the data \<open>out\<close>.\<close>

definition lz_syms :: "byte list \<Rightarrow> (nat \<times> nat) list \<Rightarrow> byte list option" where
  "lz_syms out syms = foldM apply_sym out syms"

definition sym_ok :: "nat \<times> nat \<Rightarrow> bool" where
  "sym_ok x \<longleftrightarrow> (case x of (dist, lc) \<Rightarrow> lc < 256 \<and> dist \<le> 32768)"

definition lsym :: "nat \<times> nat \<Rightarrow> nat" where
  "lsym x = (case x of (dist, lc) \<Rightarrow> if dist = 0 then lc else length_code ! lc + 257)"

definition dsym :: "nat \<times> nat \<Rightarrow> nat" where
  "dsym x = (case x of (dist, lc) \<Rightarrow> d_code (dist - 1))"

definition sym_bits :: "nat list \<Rightarrow> nat list \<Rightarrow> nat \<times> nat \<Rightarrow> bool list" where
  "sym_bits llens dlens x = (case x of (dist, lc) \<Rightarrow>
     if dist = 0 then code_word llens lc
     else let c = length_code ! lc; d = d_code (dist - 1) in
       code_word llens (c + 257) @ bits_of (extra_lbits ! c) (lc - base_length ! c)
       @ code_word dlens d @ bits_of (extra_dbits ! d) (dist - 1 - base_dist ! d))"

text \<open>The trees have codes for a symbol.\<close>

definition sym_encodes :: "ct_data list \<Rightarrow> ct_data list \<Rightarrow> nat list \<Rightarrow> nat list \<Rightarrow> nat \<times> nat \<Rightarrow> bool" where
  "sym_encodes ltree dtree llens dlens x \<longleftrightarrow> encodes ltree llens (lsym x) \<and> (fst x \<noteq> 0 \<longrightarrow> encodes dtree dlens (dsym x))"

lemma table_lengths [simp]: "length length_code = 256" "length dist_code = 512" "length extra_lbits = 29" "length base_length = 29"
  "length extra_dbits = 30" "length base_dist = 30"
  by (simp_all add: length_code_def dist_code_def extra_lbits_def base_length_def extra_dbits_def base_dist_def)

lemma rd_d_code_Some: "d < 32768 \<Longrightarrow> rd_d_code d = Some (d_code d)"
  using less_mult_imp_div_less[of d 256 128] by (simp add: rd_d_code_def d_code_def rd_def drop_bit_eq_div)

lemma compress_sym_writes:
  assumes inv: "bit_inv s" and x: "lx < length (d_buf s)" "lx < length (l_buf s)" "sym_ok (d_buf s ! lx, l_buf s ! lx)"
    and e: "sym_encodes ltree dtree llens dlens (d_buf s ! lx, l_buf s ! lx)"
  shows "\<exists>s'. compress_sym ltree dtree s lx = Some s' \<and> writes s s' (sym_bits llens dlens (d_buf s ! lx, l_buf s ! lx))"
proof -
  let ?d = "d_buf s ! lx" and ?lc = "l_buf s ! lx"
  have lc: "?lc < 256" "?d \<le> 32768" using x(3) by (simp_all add: sym_ok_def)
  show ?thesis
  proof (cases "?d = 0")
    case True
    then have "encodes ltree llens ?lc" using e by (simp add: sym_encodes_def lsym_def)
    then show ?thesis using writes_code[OF _ inv] x True by (simp add: compress_sym_def sym_bits_def)
  next
    case False
    define c where "c = length_code ! ?lc"
    define d where "d = d_code (?d - 1)"
    have enc: "encodes ltree llens (c + 257)" "encodes dtree dlens d"
      using e False by (simp_all add: sym_encodes_def lsym_def dsym_def c_def d_def)
    note lk = length_ok[OF lc(1), unfolded length_ok_def Let_def, folded c_def]
    have "?d - 1 < 32768" using lc(2) False by simp
    note dk = dist_ok[OF this, unfolded dist_ok_def Let_def, folded d_def]
    have b: "c < 29" "d < 30" "extra_lbits ! c \<le> 16" "extra_dbits ! d \<le> 16" using lk dk by simp_all
    obtain s1 where s1: "send_code s (c + 257) ltree = Some s1" "writes s s1 (code_word llens (c + 257))"
      using writes_code[OF enc(1) inv] by blast
    define s2 where "s2 = (if extra_lbits ! c \<noteq> 0 then send_bits s1 (?lc - base_length ! c) (extra_lbits ! c) else s1)"
    have s2: "writes s1 s2 (bits_of (extra_lbits ! c) (?lc - base_length ! c))"
      using writes_send[OF writes_inv[OF s1(2)]] writes_refl[OF writes_inv[OF s1(2)]] lk b by (auto simp: s2_def split: if_splits)
    obtain s3 where s3: "send_code s2 d dtree = Some s3" "writes s2 s3 (code_word dlens d)"
      using writes_code[OF enc(2) writes_inv[OF s2]] by blast
    define s4 where "s4 = (if extra_dbits ! d \<noteq> 0 then send_bits s3 (?d - 1 - base_dist ! d) (extra_dbits ! d) else s3)"
    have s4: "writes s3 s4 (bits_of (extra_dbits ! d) (?d - 1 - base_dist ! d))"
      using writes_send[OF writes_inv[OF s3(2)]] writes_refl[OF writes_inv[OF s3(2)]] dk b by (auto simp: s4_def)
    have "rd_d_code (?d - 1) = Some d" using rd_d_code_Some[of "?d - 1"] lc(2) False by (simp add: d_def)
    then have "compress_sym ltree dtree s lx = Some s4"
      using x lc False s1(1) s3(1)[unfolded s2_def] b unfolding compress_sym_def s4_def
      by (cases "extra_lbits ! c = 0"; cases "extra_dbits ! d = 0")
        (simp_all add: c_def[symmetric] LITERALS_def Let_def add.commute)
    moreover have "writes s s4 (sym_bits llens dlens (?d, ?lc))"
      using writes_trans[OF writes_trans[OF writes_trans[OF s1(2) s2] s3(2)] s4] False
      by (simp add: sym_bits_def Let_def c_def d_def)
    ultimately show ?thesis by blast
  qed
qed

text \<open>The symbols in the buffer.\<close>

definition block_syms :: "'a trees_state_scheme \<Rightarrow> (nat \<times> nat) list" where
  "block_syms s = map (\<lambda>i. (d_buf s ! i, l_buf s ! i)) [0..<last_lit s]"

definition buf_ok :: "'a trees_state_scheme \<Rightarrow> bool" where
  "buf_ok s \<longleftrightarrow> last_lit s \<le> length (d_buf s) \<and> length (l_buf s) = length (d_buf s) \<and> list_all sym_ok (block_syms s)"

definition block_bits :: "nat list \<Rightarrow> nat list \<Rightarrow> (nat \<times> nat) list \<Rightarrow> bool list" where
  "block_bits llens dlens syms = concat (map (sym_bits llens dlens) syms) @ code_word llens 256"

lemma compress_block_writes:
  assumes inv: "bit_inv s" and buf: "buf_ok s"
    and e: "\<forall>x\<in>set (block_syms s). sym_encodes ltree dtree llens dlens x" "encodes ltree llens 256"
  shows "\<exists>s'. compress_block s ltree dtree = Some s' \<and> writes s s' (block_bits llens dlens (block_syms s))"
proof -
  let ?x = "\<lambda>i. (d_buf s ! i, l_buf s ! i)"
  let ?I = "\<lambda>i s'. writes s s' (concat (map (\<lambda>i. sym_bits llens dlens (?x i)) [0..<i]))"
  have "\<exists>s'. foldM (compress_sym ltree dtree) s [0..<last_lit s] = Some s' \<and> ?I (last_lit s) s'"
  proof (rule foldM_upt_inv[where I = ?I])
    show "?I 0 s" using inv by (simp add: writes_refl)
    fix i s1 assume i: "i < last_lit s" and w: "?I i s1"
    have f: "d_buf s1 = d_buf s" "l_buf s1 = l_buf s" using out_frame_fields[OF writes_frame[OF w]] by simp_all
    have x: "?x i \<in> set (block_syms s)" using i by (simp add: block_syms_def)
    have l: "i < length (d_buf s)" "i < length (l_buf s)" "sym_ok (?x i)"
      using buf i x by (simp_all add: buf_ok_def list_all_iff)
    have en: "sym_encodes ltree dtree llens dlens (?x i)" using e(1) x by blast
    obtain s2 where "compress_sym ltree dtree s1 i = Some s2" "writes s1 s2 (sym_bits llens dlens (?x i))"
      using compress_sym_writes[OF writes_inv[OF w], of i ltree dtree llens dlens] l en unfolding f by blast
    then show "\<exists>s2. compress_sym ltree dtree s1 i = Some s2 \<and> ?I (Suc i) s2"
      using writes_trans[OF w] by auto
  qed simp
  then obtain s1 where s1: "foldM (compress_sym ltree dtree) s [0..<last_lit s] = Some s1" "?I (last_lit s) s1" by blast
  obtain s2 where "send_code s1 256 ltree = Some s2" "writes s1 s2 (code_word llens 256)"
    using writes_code[OF e(2) writes_inv[OF s1(2)]] by blast
  then show ?thesis
    using s1(1) writes_trans[OF s1(2)] by (auto simp: compress_block_def END_BLOCK_def block_bits_def block_syms_def comp_def)
qed

section \<open>Decoding\<close>

definition lens_decode :: "nat list \<Rightarrow> bool" where
  "lens_decode lens \<longleftrightarrow> (\<forall>l\<in>set lens. l \<le> 15) \<and> kraft lens \<le> 2 ^ 15"

lemma decode_code: "lens_decode lens \<Longrightarrow> encodes tree lens s \<Longrightarrow> decode_sym lens (code_word lens s @ rest) = Some (s, rest)"
  by (rule decode_code_word) (simp_all add: lens_decode_def encodes_def)

lemma decode_sym_bits:
  assumes l: "lens_decode llens" "lens_decode dlens" and x: "sym_ok x" "sym_encodes ltree dtree llens dlens x"
  shows "decode_data llens dlens out (sym_bits llens dlens x @ rest)
    = (case apply_sym out x of None \<Rightarrow> None | Some out \<Rightarrow> decode_data llens dlens out rest)"
proof -
  obtain dist lc where x': "x = (dist, lc)" by (cases x)
  have b: "lc < 256" "dist \<le> 32768" using x(1) by (simp_all add: x' sym_ok_def)
  show ?thesis
  proof (cases "dist = 0")
    case True
    have "encodes ltree llens lc" using x(2) True by (simp add: sym_encodes_def lsym_def x')
    from decode_code[OF l(1) this, of rest] show ?thesis
      using True b by (subst decode_data.simps) (simp add: sym_bits_def x' apply_sym_def)
  next
    case False
    define c where "c = length_code ! lc"
    define d where "d = d_code (dist - 1)"
    have enc: "encodes ltree llens (c + 257)" "encodes dtree dlens d"
      using x(2) False by (simp_all add: sym_encodes_def lsym_def dsym_def c_def d_def x')
    note lk = length_ok[OF b(1), unfolded length_ok_def Let_def, folded c_def]
    have "dist - 1 < 32768" using b(2) False by simp
    note dk = dist_ok[OF this, unfolded dist_ok_def Let_def, folded d_def]
    let ?lx = "if extra_lbits ! c = 0 then 0 else lc - base_length ! c"
    have bl: "bits_of (extra_lbits ! c) (lc - base_length ! c) = bits_of (extra_lbits ! c) ?lx" by simp
    have tl: "take_bits (lext ! c - 16) (bits_of (extra_lbits ! c) ?lx @ r) = Some (?lx, r)" for r
      using take_bits_of[of ?lx "extra_lbits ! c" r] lk by (simp split: if_splits)
    have td: "take_bits (dext ! d - 16) (bits_of (extra_dbits ! d) (dist - 1 - base_dist ! d) @ r) = Some (dist - 1 - base_dist ! d, r)" for r
      using take_bits_of[of "dist - 1 - base_dist ! d" "extra_dbits ! d" r] dk by simp
    have len: "lbase ! c + ?lx = lc + 3" "dbase ! d + (dist - 1 - base_dist ! d) = dist"
    proof -
      show "lbase ! c + ?lx = lc + 3" using lk by (cases "extra_lbits ! c = 0") (simp_all only: if_True if_False simp_thms add_0_right)
      show "dbase ! d + (dist - 1 - base_dist ! d) = dist" using dk False by linarith
    qed
    let ?r = "code_word dlens d @ bits_of (extra_dbits ! d) (dist - 1 - base_dist ! d) @ rest"
    have m: "decode_match dlens (c + 257) (bits_of (extra_lbits ! c) ?lx @ ?r) = Some (lc + 3, dist, rest)"
      using lk dk tl[of ?r] td[of rest] decode_code[OF l(2) enc(2)] len by (simp add: decode_match_def)
    have "sym_bits llens dlens x @ rest = code_word llens (c + 257) @ bits_of (extra_lbits ! c) ?lx @ ?r"
      using False bl by (simp add: sym_bits_def x' Let_def c_def d_def)
    then show ?thesis
      using decode_code[OF l(1) enc(1), of "bits_of (extra_lbits ! c) ?lx @ ?r"] m False
      by (subst decode_data.simps) (simp add: apply_sym_def x' split: option.split)
  qed
qed

lemma decode_end:
  assumes "lens_decode llens" "encodes ltree llens 256"
  shows "decode_data llens dlens out (code_word llens 256 @ rest) = Some (out, rest)"
  using decode_code[OF assms] by (subst decode_data.simps) simp

text \<open>Decoding what \<open>compress_block\<close> writes gives the data that the symbols describe.\<close>

lemma decode_block_bits:
  assumes l: "lens_decode llens" "lens_decode dlens" and e: "encodes ltree llens 256"
  shows "\<forall>x\<in>set syms. sym_ok x \<and> sym_encodes ltree dtree llens dlens x \<Longrightarrow>
    decode_data llens dlens out (block_bits llens dlens syms @ rest) = map_option (\<lambda>out. (out, rest)) (lz_syms out syms)"
proof (induction syms arbitrary: out)
  case Nil
  then show ?case using decode_end[OF l(1) e] by (simp add: block_bits_def lz_syms_def)
next
  case (Cons x syms)
  have "block_bits llens dlens (x # syms) @ rest = sym_bits llens dlens x @ block_bits llens dlens syms @ rest"
    by (simp add: block_bits_def)
  then show ?case
    using decode_sym_bits[OF l, of x ltree dtree out "block_bits llens dlens syms @ rest"] Cons
    by (simp add: lz_syms_def split: option.split)
qed

end
