(* ===== verification/Block_Trees.thy ===== *)
theory Block_Trees
  imports Block_Data
begin

text \<open>
  The description of the trees in the header of a dynamic block: \<open>scan_tree\<close> and \<open>send_tree\<close> describe
  the code lengths by the same run lengths, and decoding them gives the lengths back.
\<close>

section \<open>Runs\<close>

text \<open>
  The code length symbols, with the value and the number of their extra bits, for a run of \<open>cnt\<close>
  lengths \<open>cur\<close>.
\<close>

type_synonym token = "nat \<times> nat \<times> nat"

definition run_tokens :: "int \<Rightarrow> nat \<Rightarrow> nat \<Rightarrow> nat \<Rightarrow> token list" where
  "run_tokens prev mn cur cnt =
     (if cnt < mn then replicate cnt (cur, 0, 0)
      else if cur \<noteq> 0 then (if int cur \<noteq> prev then [(cur, 0, 0), (16, cnt - 1 - 3, 2)] else [(16, cnt - 3, 2)])
      else if cnt \<le> 10 then [(17, cnt - 3, 3)] else [(18, cnt - 11, 7)])"

definition tok_step :: "(nat \<Rightarrow> nat) \<Rightarrow> token list \<times> rle \<Rightarrow> nat \<Rightarrow> token list \<times> rle" where
  "tok_step len st n = (case st of (toks, r) \<Rightarrow>
     if rcount r + 1 < max_count r \<and> nextlen r = len (n + 1) then (toks, r\<lparr>nextlen := len (n + 1), rcount := rcount r + 1\<rparr>)
     else (toks @ run_tokens (prevlen r) (min_count r) (nextlen r) (rcount r + 1), rle_reset r (len (n + 1))))"

definition toks_upto :: "(nat \<Rightarrow> nat) \<Rightarrow> nat \<Rightarrow> token list \<times> rle" where
  "toks_upto len n = foldl (tok_step len) ([], rle_start (len 0)) [0..<n]"

lemma toks_upto_Suc: "toks_upto len (Suc n) = tok_step len (toks_upto len n) n"
  by (simp add: toks_upto_def)

text \<open>
  After \<open>n\<close> lengths, the last \<open>rcount\<close> of them are an unfinished run of \<open>nextlen\<close>, which the tokens
  do not cover yet.
\<close>

definition rle_limits :: "rle \<Rightarrow> bool" where
  "rle_limits r \<longleftrightarrow> (if nextlen r = 0 then max_count r = 138 \<and> min_count r = 3
     else if int (nextlen r) = prevlen r then max_count r = 6 \<and> min_count r = 3
     else max_count r = 7 \<and> min_count r = 4)"

definition rle_inv :: "(nat \<Rightarrow> nat) \<Rightarrow> nat \<Rightarrow> rle \<Rightarrow> bool" where
  "rle_inv len n r \<longleftrightarrow> nextlen r = len n \<and> rcount r \<le> n \<and> rcount r < max_count r \<and> rle_limits r
     \<and> (\<forall>j. n - rcount r \<le> j \<and> j < n \<longrightarrow> len j = nextlen r)
     \<and> prevlen r = (if n - rcount r = 0 then -1 else int (len (n - rcount r - 1)))"

lemma rle_inv_start: "rle_inv len 0 (rle_start (len 0))"
  by (simp add: rle_inv_def rle_limits_def rle_start_def)

lemma rle_inv_run:
  assumes "rle_inv len n r" "n - rcount r \<le> j" "j \<le> n"
  shows "len j = nextlen r"
proof (cases "j = n")
  case True
  then show ?thesis using assms(1) by (simp add: rle_inv_def)
next
  case False
  then have "n - rcount r \<le> j \<and> j < n" using assms(2,3) by simp
  then show ?thesis using assms(1) unfolding rle_inv_def by blast
qed

lemma rle_inv_step:
  assumes inv: "rle_inv len n r"
  shows "rle_inv len (Suc n) (snd (tok_step len (toks, r) n))"
proof (cases "rcount r + 1 < max_count r \<and> nextlen r = len (n + 1)")
  case True
  have e: "Suc n - Suc (rcount r) = n - rcount r" by simp
  have "len j = nextlen r" if "n - rcount r \<le> j" "j < Suc n" for j using rle_inv_run[OF inv that(1)] that(2) by simp
  moreover have "rle_limits (r\<lparr>nextlen := len (n + 1), rcount := rcount r + 1\<rparr>)"
    using inv True by (simp add: rle_inv_def rle_limits_def)
  ultimately show ?thesis
    unfolding tok_step_def prod.case if_P[OF True] snd_conv rle_inv_def using inv True
    by (simp add: e rle_inv_def del: diff_Suc_Suc)
next
  case False
  then show ?thesis
    unfolding tok_step_def prod.case if_not_P[OF False] snd_conv rle_inv_def using inv
    by (simp add: rle_reset_def Let_def rle_limits_def rle_inv_def)
qed

lemma toks_upto_inv: "rle_inv len n (snd (toks_upto len n))"
proof (induction n)
  case 0
  then show ?case by (simp add: toks_upto_def rle_inv_start)
next
  case (Suc n)
  then show ?case using rle_inv_step[of len n "snd (toks_upto len n)" "fst (toks_upto len n)"] by (simp add: toks_upto_Suc)
qed

section \<open>Decoding runs\<close>

definition tok_bits :: "nat list \<Rightarrow> token \<Rightarrow> bool list" where
  "tok_bits cl t = (case t of (c, v, b) \<Rightarrow> code_word cl c @ bits_of b v)"

definition toks_bits :: "nat list \<Rightarrow> token list \<Rightarrow> bool list" where
  "toks_bits cl toks = concat (map (tok_bits cl) toks)"

lemma toks_bits_append: "toks_bits cl (xs @ ys) = toks_bits cl xs @ toks_bits cl ys"
  by (simp add: toks_bits_def)

lemma decode_literals:
  assumes cl: "lens_decode cl" "encodes bl cl cur" and cur: "cur < 16"
  shows "length acc + cnt \<le> N \<Longrightarrow>
    decode_lens cl N acc (toks_bits cl (replicate cnt (cur, 0, 0)) @ rest) = decode_lens cl N (acc @ replicate cnt cur) rest"
proof (induction cnt arbitrary: acc)
  case (Suc cnt)
  have "toks_bits cl (replicate (Suc cnt) (cur, 0, 0)) @ rest = code_word cl cur @ toks_bits cl (replicate cnt (cur, 0, 0)) @ rest"
    by (simp add: toks_bits_def tok_bits_def)
  then show ?case
    using decode_code[OF cl, of "toks_bits cl (replicate cnt (cur, 0, 0)) @ rest"] Suc cur
    by (subst decode_lens.simps) simp
qed (simp add: toks_bits_def)

lemma decode_repeat:
  assumes cl: "lens_decode cl" "encodes bl cl 16" and k: "k < 4" and acc: "acc \<noteq> []" "length acc < N"
  shows "decode_lens cl N acc (tok_bits cl (16, k, 2) @ rest) = decode_lens cl N (acc @ replicate (3 + k) (last acc)) rest"
  using decode_code[OF cl, of "bits_of 2 k @ rest"] take_bits_of[of k 2 rest] k acc
  by (subst decode_lens.simps) (simp add: tok_bits_def)

lemma decode_zeros3:
  assumes cl: "lens_decode cl" "encodes bl cl 17" and k: "k < 8" and acc: "length acc < N"
  shows "decode_lens cl N acc (tok_bits cl (17, k, 3) @ rest) = decode_lens cl N (acc @ replicate (3 + k) 0) rest"
  using decode_code[OF cl, of "bits_of 3 k @ rest"] take_bits_of[of k 3 rest] k acc
  by (subst decode_lens.simps) (simp add: tok_bits_def)

lemma decode_zeros11:
  assumes cl: "lens_decode cl" "encodes bl cl 18" and k: "k < 128" and acc: "length acc < N"
  shows "decode_lens cl N acc (tok_bits cl (18, k, 7) @ rest) = decode_lens cl N (acc @ replicate (11 + k) 0) rest"
  using decode_code[OF cl, of "bits_of 7 k @ rest"] take_bits_of[of k 7 rest] k acc
  by (subst decode_lens.simps) (simp add: tok_bits_def)

text \<open>The bounds on the length of a run that the limits of the loop give.\<close>

definition run_ok :: "int \<Rightarrow> nat \<Rightarrow> nat \<Rightarrow> nat \<Rightarrow> bool" where
  "run_ok prev mn cur cnt \<longleftrightarrow> 1 \<le> cnt \<and> cur < 16
     \<and> (if cur = 0 then cnt \<le> 138 \<and> mn = 3 else if int cur = prev then cnt \<le> 6 \<and> mn = 3 else cnt \<le> 7 \<and> mn = 4)"

lemma decode_run:
  assumes cl: "lens_decode cl" and e: "\<forall>t\<in>set (run_tokens prev mn cur cnt). encodes bl cl (fst t)"
    and r: "run_ok prev mn cur cnt" and acc: "int cur = prev \<longrightarrow> acc \<noteq> [] \<and> last acc = cur" "length acc + cnt \<le> N"
  shows "decode_lens cl N acc (toks_bits cl (run_tokens prev mn cur cnt) @ rest) = decode_lens cl N (acc @ replicate cnt cur) rest"
proof -
  have cur: "cur < 16" "1 \<le> cnt" using r by (simp_all add: run_ok_def)
  consider "cnt < mn" | "mn \<le> cnt" "cur \<noteq> 0" "int cur \<noteq> prev" | "mn \<le> cnt" "cur \<noteq> 0" "int cur = prev"
    | "mn \<le> cnt" "cur = 0" "cnt \<le> 10" | "mn \<le> cnt" "cur = 0" "10 < cnt" by linarith
  then show ?thesis
  proof cases
    case 1
    then have t: "run_tokens prev mn cur cnt = replicate cnt (cur, 0, 0)" by (simp add: run_tokens_def)
    then have "encodes bl cl cur" using e cur(2) by (auto simp: in_set_replicate)
    from decode_literals[OF cl this cur(1) acc(2)] show ?thesis by (simp add: t)
  next
    case 2
    have t: "run_tokens prev mn cur cnt = [(cur, 0, 0), (16, cnt - 4, 2)]" using 2 by (simp add: run_tokens_def)
    have b: "4 \<le> cnt" "cnt \<le> 7" using 2 r by (simp_all add: run_ok_def)
    have en: "encodes bl cl cur" "encodes bl cl 16" using e t by simp_all
    have "toks_bits cl (run_tokens prev mn cur cnt) @ rest
        = toks_bits cl (replicate 1 (cur, 0, 0)) @ tok_bits cl (16, cnt - 4, 2) @ rest" by (simp add: t toks_bits_def)
    also have "decode_lens cl N acc \<dots> = decode_lens cl N (acc @ [cur]) (tok_bits cl (16, cnt - 4, 2) @ rest)"
      using decode_literals[OF cl en(1) cur(1), of acc 1 N] acc(2) b by simp
    also have "\<dots> = decode_lens cl N (acc @ cur # replicate (3 + (cnt - 4)) cur) rest"
      using decode_repeat[OF cl en(2), of "cnt - 4" "acc @ [cur]"] acc(2) b by simp
    also have "cur # replicate (3 + (cnt - 4)) cur = replicate cnt cur"
    proof -
      have "cnt = Suc (3 + (cnt - 4))" using b by simp
      then show ?thesis by (metis replicate_Suc)
    qed
    finally show ?thesis .
  next
    case 3
    have t: "run_tokens prev mn cur cnt = [(16, cnt - 3, 2)]" using 3 by (simp add: run_tokens_def)
    have b: "3 \<le> cnt" "cnt \<le> 6" using 3 r by (simp_all add: run_ok_def)
    then show ?thesis using decode_repeat[OF cl, of bl "cnt - 3" acc N rest] e acc 3 by (simp add: t toks_bits_def)
  next
    case 4
    have b: "3 \<le> cnt" using 4 r by (simp add: run_ok_def)
    moreover have "run_tokens prev mn cur cnt = [(17, cnt - 3, 3)]" using 4 by (simp add: run_tokens_def)
    ultimately show ?thesis using decode_zeros3[OF cl, of bl "cnt - 3" acc N rest] e acc 4 by (simp add: toks_bits_def)
  next
    case 5
    have b: "cnt \<le> 138" using 5 r by (simp add: run_ok_def)
    moreover have "run_tokens prev mn cur cnt = [(18, cnt - 11, 7)]" using 5 by (simp add: run_tokens_def)
    ultimately show ?thesis using decode_zeros11[OF cl, of bl "cnt - 11" acc N rest] e acc 5 by (simp add: toks_bits_def)
  qed
qed

lemma rle_inv_run_ok: "rle_inv len n r \<Longrightarrow> len n < 16 \<Longrightarrow> run_ok (prevlen r) (min_count r) (nextlen r) (rcount r + 1)"
proof -
  assume inv: "rle_inv len n r" and l: "len n < 16"
  have "rcount r < max_count r" "rle_limits r" "nextlen r < 16" using inv l unfolding rle_inv_def by metis+
  then show ?thesis by (auto simp: rle_limits_def run_ok_def split: if_splits)
qed

text \<open>Decoding the tokens after \<open>n\<close> lengths gives the lengths before the unfinished run.\<close>

lemma decode_toks:
  assumes cl: "lens_decode cl" and len: "\<And>i. i < m \<Longrightarrow> len i < 16" and n: "n \<le> m" "length acc + m \<le> N"
    and e: "\<forall>t\<in>set (fst (toks_upto len n)). encodes bl cl (fst t)"
  shows "decode_lens cl N acc (toks_bits cl (fst (toks_upto len n)) @ rest)
    = decode_lens cl N (acc @ map len [0..<n - rcount (snd (toks_upto len n))]) rest"
  using n(1) e
proof (induction n arbitrary: rest)
  case 0
  then show ?case by (simp add: toks_upto_def toks_bits_def)
next
  case (Suc n)
  obtain toks r where tr: "toks_upto len n = (toks, r)" by fastforce
  have inv: "rle_inv len n r" using toks_upto_inv[of len n] tr by simp
  note IH = Suc.IH[unfolded tr fst_conv snd_conv]
  show ?case
  proof (cases "rcount r + 1 < max_count r \<and> nextlen r = len (n + 1)")
    case True
    then show ?thesis using IH Suc.prems by (simp add: toks_upto_Suc tr tok_step_def)
  next
    case False
    let ?k = "n - rcount r" and ?t = "run_tokens (prevlen r) (min_count r) (nextlen r) (rcount r + 1)"
    have st: "toks_upto len (Suc n) = (toks @ ?t, rle_reset r (len (n + 1)))"
      unfolding toks_upto_Suc tr tok_step_def prod.case if_not_P[OF False] by (rule refl)
    have z: "rcount (rle_reset r x) = 0" for x by (simp add: rle_reset_def Let_def)
    have en: "\<forall>t\<in>set toks. encodes bl cl (fst t)" "\<forall>t\<in>set ?t. encodes bl cl (fst t)" using Suc.prems(2) st by auto
    have k: "rcount r \<le> n" "\<And>j. ?k \<le> j \<Longrightarrow> j \<le> n \<Longrightarrow> len j = nextlen r" using inv rle_inv_run[OF inv] by (simp_all add: rle_inv_def)
    have run: "map len [0..<?k] @ replicate (rcount r + 1) (nextlen r) = map len [0..<Suc n]"
    proof -
      have "[0..<Suc n] = [0..<?k] @ [?k..<Suc n]" using upt_add_eq_append[of 0 ?k "rcount r + 1"] k(1) by simp
      moreover have "map len [?k..<Suc n] = map (\<lambda>_. nextlen r) [?k..<Suc n]" using k(2) by (intro map_cong) auto
      ultimately show ?thesis using k(1) by (simp add: map_replicate_const del: upt_Suc)
    qed
    have "decode_lens cl N acc (toks_bits cl (toks @ ?t) @ rest) = decode_lens cl N (acc @ map len [0..<?k]) (toks_bits cl ?t @ rest)"
      using IH[of "toks_bits cl ?t @ rest"] Suc.prems(1) en(1) by (simp add: toks_bits_append)
    also have "\<dots> = decode_lens cl N ((acc @ map len [0..<?k]) @ replicate (rcount r + 1) (nextlen r)) rest"
    proof (rule decode_run[OF cl en(2) rle_inv_run_ok[OF inv]])
      show "len n < 16" using len Suc.prems(1) by simp
      show "int (nextlen r) = prevlen r \<longrightarrow> acc @ map len [0..<?k] \<noteq> [] \<and> last (acc @ map len [0..<?k]) = nextlen r"
      proof
        assume p: "int (nextlen r) = prevlen r"
        then have "?k \<noteq> 0" "nextlen r = len (?k - 1)" using inv by (auto simp: rle_inv_def split: if_splits)
        moreover have "[0..<?k] = [0..<?k - 1] @ [?k - 1]" using calculation(1) by (cases ?k) simp_all
        ultimately show "acc @ map len [0..<?k] \<noteq> [] \<and> last (acc @ map len [0..<?k]) = nextlen r" by simp
      qed
      show "length (acc @ map len [0..<?k]) + (rcount r + 1) \<le> N" using Suc.prems(1) n(2) k(1) by simp
    qed
    finally show ?thesis using run by (simp add: st z del: upt_Suc)
  qed
qed

section \<open>Scanning and sending follow the runs\<close>

lemma length_run_tokens: "run_ok prev mn cur cnt \<Longrightarrow> length (run_tokens prev mn cur cnt) \<le> cnt"
  by (auto simp: run_ok_def run_tokens_def split: if_splits)

lemma length_toks:
  assumes "\<And>i. i < n \<Longrightarrow> len i < 16"
  shows "length (fst (toks_upto len n)) + rcount (snd (toks_upto len n)) \<le> n"
  using assms
proof (induction n)
  case 0
  then show ?case by (simp add: toks_upto_def rle_start_def)
next
  case (Suc n)
  obtain toks r where tr: "toks_upto len n = (toks, r)" by fastforce
  have "rle_inv len n r" using toks_upto_inv[of len n] tr by simp
  then have "length (run_tokens (prevlen r) (min_count r) (nextlen r) (rcount r + 1)) \<le> rcount r + 1"
    using Suc.prems[of n] by (intro length_run_tokens rle_inv_run_ok[of len n]) simp_all
  moreover have "rcount (rle_reset r x) = 0" for x by (simp add: rle_reset_def Let_def)
  ultimately show ?case using Suc tr by (simp add: toks_upto_Suc tok_step_def)
qed

text \<open>The frequencies are counted, without wrapping.\<close>

definition freqs :: "ct_data list \<Rightarrow> (nat \<Rightarrow> nat) \<Rightarrow> bool" where
  "freqs bl f \<longleftrightarrow> length bl = 39 \<and> (\<forall>c<19. Freq (bl ! c) = f c)"

lemma add_freq_spec:
  assumes "freqs bl f" "c < 19" "f c + k < 65536"
  shows "\<exists>bl'. add_freq bl c k = Some bl' \<and> freqs bl' (f(c := f c + k))"
proof -
  have "c < length bl" "Freq (bl ! c) = f c" using assms by (simp_all add: freqs_def)
  then have "add_freq bl c k = Some (bl[c := (bl ! c)\<lparr>fc := f c + k\<rparr>])" using assms(3) by (simp add: add_freq_def ushort_def)
  moreover have "freqs (bl[c := (bl ! c)\<lparr>fc := f c + k\<rparr>]) (f(c := f c + k))"
    using assms by (auto simp: freqs_def nth_list_update)
  ultimately show ?thesis by blast
qed

definition plus_toks :: "(nat \<Rightarrow> nat) \<Rightarrow> token list \<Rightarrow> nat \<Rightarrow> nat" where
  "plus_toks f toks = (\<lambda>c. f c + count_list (map fst toks) c)"

lemma plus_toks_append: "plus_toks f (xs @ ys) = plus_toks (plus_toks f xs) ys"
  by (simp add: plus_toks_def fun_eq_iff)

lemma plus_toks_bound: "f c \<le> b \<Longrightarrow> plus_toks f toks c \<le> b + length toks"
  using count_le_length[of "map fst toks" c] by (simp add: plus_toks_def)

lemma scan_step_spec:
  assumes bl: "freqs bl f" and r: "run_ok (prevlen r) (min_count r) (nextlen r) (rcount r + 1)"
    and f: "\<And>c. f c + rcount r + 1 < 65536" and n: "n + 1 < length tree"
  shows "\<exists>bl'. scan_step tree (bl, r) n = Some (bl', snd (tok_step (\<lambda>i. Len (tree ! i)) (toks, r) n))
    \<and> (\<exists>new. fst (tok_step (\<lambda>i. Len (tree ! i)) (toks, r) n) = toks @ new \<and> freqs bl' (plus_toks f new))"
proof (cases "rcount r + 1 < max_count r \<and> nextlen r = Len (tree ! (n + 1))")
  case True
  have "freqs bl (plus_toks f [])" using bl by (simp add: plus_toks_def)
  then show ?thesis using True n by (simp add: scan_step_def tok_step_def)
next
  case False
  let ?cur = "nextlen r" and ?cnt = "rcount r + 1"
  let ?t = "run_tokens (prevlen r) (min_count r) ?cur ?cnt"
  have cur: "?cur < 16" using r by (simp add: run_ok_def)
  have "\<exists>bl'. (if ?cnt < min_count r then add_freq bl ?cur ?cnt
              else if ?cur \<noteq> 0 then do {
                bl \<leftarrow> (if int ?cur \<noteq> prevlen r then add_freq bl ?cur 1 else Some bl);
                add_freq bl REP_3_6 1 }
              else if ?cnt \<le> 10 then add_freq bl REPZ_3_10 1
              else add_freq bl REPZ_11_138 1) = Some bl' \<and> freqs bl' (plus_toks f ?t)" (is "\<exists>bl'. ?e = Some bl' \<and> _")
  proof -
    have one: "\<exists>bl'. add_freq bl0 c 1 = Some bl' \<and> freqs bl' (plus_toks g [(c, v, b)])" if "freqs bl0 g" "c < 19" "g c + 1 < 65536" for bl0 g c v b
    proof -
      have "g(c := g c + 1) = plus_toks g [(c, v, b)]" by (auto simp: plus_toks_def fun_eq_iff)
      then show ?thesis using add_freq_spec[OF that] by simp
    qed
    consider "?cnt < min_count r" | "min_count r \<le> ?cnt" "?cur \<noteq> 0" "int ?cur \<noteq> prevlen r" | "min_count r \<le> ?cnt" "?cur \<noteq> 0" "int ?cur = prevlen r"
      | "min_count r \<le> ?cnt" "?cur = 0" "?cnt \<le> 10" | "min_count r \<le> ?cnt" "?cur = 0" "10 < ?cnt" by linarith
    then show ?thesis
    proof cases
      case 1
      have "f(?cur := f ?cur + ?cnt) = plus_toks f (replicate ?cnt (?cur, 0, 0))"
        by (auto simp: plus_toks_def fun_eq_iff count_replicate)
      then show ?thesis using 1 add_freq_spec[OF bl, of ?cur ?cnt] cur f[of ?cur] by (simp add: run_tokens_def)
    next
      case 2
      obtain bl1 where b1: "add_freq bl ?cur 1 = Some bl1" "freqs bl1 (plus_toks f [(?cur, 0, 0)])"
        using one[OF bl, of ?cur 0 0] cur f[of ?cur] by auto
      have "plus_toks f [(?cur, 0, 0)] 16 + 1 < 65536" using cur f[of 16] by (simp add: plus_toks_def)
      then obtain bl2 where "add_freq bl1 16 1 = Some bl2" "freqs bl2 (plus_toks (plus_toks f [(?cur, 0, 0)]) [(16, ?cnt - 1 - 3, 2)])"
        using one[OF b1(2), of 16 "?cnt - 1 - 3" 2] by auto
      then show ?thesis using 2 b1(1) by (simp add: run_tokens_def REP_3_6_def plus_toks_append[symmetric])
    next
      case 3
      then show ?thesis using one[OF bl, of 16 "?cnt - 3" 2] f[of 16] by (simp add: run_tokens_def REP_3_6_def)
    next
      case 4
      then show ?thesis using one[OF bl, of 17 "?cnt - 3" 3] f[of 17] by (simp add: run_tokens_def REPZ_3_10_def)
    next
      case 5
      then show ?thesis using one[OF bl, of 18 "?cnt - 11" 7] f[of 18] by (simp add: run_tokens_def REPZ_11_138_def)
    qed
  qed
  then obtain bl' where b: "?e = Some bl'" "freqs bl' (plus_toks f ?t)" by blast
  have t: "tok_step (\<lambda>i. Len (tree ! i)) (toks, r) n = (toks @ ?t, rle_reset r (Len (tree ! (n + 1))))"
    unfolding tok_step_def prod.case if_not_P[OF False] by (rule refl)
  show ?thesis
    unfolding scan_step_def prod.case Let_def rd_Some[OF n] Option.bind_lunit if_not_P[OF False] b(1) t fst_conv snd_conv
    using b(2) by blast
qed

text \<open>The tokens that describe a tree with the guard \<open>0xffff\<close> after its last code.\<close>

definition tree_toks :: "ct_data list \<Rightarrow> nat \<Rightarrow> token list" where
  "tree_toks tree mc = fst (toks_upto (\<lambda>i. Len (tree ! i)) (mc + 1))"

definition guarded :: "ct_data list \<Rightarrow> nat \<Rightarrow> bool" where
  "guarded tree mc \<longleftrightarrow> mc + 1 < length tree \<and> (\<forall>i\<le>mc. Len (tree ! i) < 16) \<and> Len (tree ! (mc + 1)) = 0xffff"

lemma guarded_complete: "guarded tree mc \<Longrightarrow> rcount (snd (toks_upto (\<lambda>i. Len (tree ! i)) (mc + 1))) = 0"
proof -
  assume g: "guarded tree mc"
  obtain toks r where tr: "toks_upto (\<lambda>i. Len (tree ! i)) mc = (toks, r)" by fastforce
  have "nextlen r = Len (tree ! mc)" using toks_upto_inv[of "\<lambda>i. Len (tree ! i)" mc] tr by (simp add: rle_inv_def)
  moreover have "Len (tree ! mc) < 16" "Len (tree ! (mc + 1)) = 65535" using g by (simp_all add: guarded_def)
  ultimately have f: "\<not> (rcount r + 1 < max_count r \<and> nextlen r = Len (tree ! (mc + 1)))" by simp
  have "snd (tok_step (\<lambda>i. Len (tree ! i)) (toks, r) mc) = rle_reset r (Len (tree ! (mc + 1)))"
    unfolding tok_step_def prod.case if_not_P[OF f] by simp
  then show ?thesis by (simp add: toks_upto_Suc tr) (simp add: rle_reset_def Let_def)
qed

lemma toks_upto_run_ok:
  assumes "guarded tree mc" "n \<le> mc" "snd (toks_upto (\<lambda>i. Len (tree ! i)) n) = r"
  shows "run_ok (prevlen r) (min_count r) (nextlen r) (rcount r + 1)"
proof (rule rle_inv_run_ok)
  show "rle_inv (\<lambda>i. Len (tree ! i)) n r" using toks_upto_inv[of "\<lambda>i. Len (tree ! i)" n] assms(3) by simp
  show "Len (tree ! n) < 16" using assms(1,2) by (simp add: guarded_def)
qed

lemma scan_tree_spec:
  assumes bl: "freqs bl f" "\<And>c. f c \<le> 1000" and t: "mc + 1 < length tree" "\<forall>i\<le>mc. Len (tree ! i) < 16" "mc \<le> 1000"
  shows "\<exists>bl' tree'. scan_tree bl tree mc = Some (bl', tree') \<and> tree' = tree[mc + 1 := (tree ! (mc + 1))\<lparr>dl := 0xffff\<rparr>]
    \<and> guarded tree' mc \<and> freqs bl' (plus_toks f (tree_toks tree' mc)) \<and> length (tree_toks tree' mc) \<le> mc + 1"
proof -
  define tree' where "tree' = tree[mc + 1 := (tree ! (mc + 1))\<lparr>dl := 0xffff\<rparr>]"
  have g: "guarded tree' mc" using t by (simp add: guarded_def tree'_def)
  let ?len = "\<lambda>i. Len (tree' ! i)"
  let ?I = "\<lambda>n (bl, r). r = snd (toks_upto ?len n) \<and> freqs bl (plus_toks f (fst (toks_upto ?len n)))"
  have l16: "?len i < 16" if "i < mc + 1" for i using g that by (simp add: guarded_def)
  have "\<exists>st. foldM (scan_step tree') (bl, rle_start (?len 0)) [0..<mc + 1] = Some st \<and> ?I (mc + 1) st"
  proof (rule foldM_upt_inv[where I = ?I])
    have "plus_toks f [] = f" by (simp add: plus_toks_def)
    then show "?I 0 (bl, rle_start (?len 0))" using bl(1) by (simp add: toks_upto_def)
    fix n st assume n: "n < mc + 1" and inv: "?I n st"
    obtain bl1 r where st: "st = (bl1, r)" by fastforce
    obtain toks where tr: "toks_upto ?len n = (toks, r)" using inv st by (cases "toks_upto ?len n") simp
    have fr: "freqs bl1 (plus_toks f toks)" using inv st tr by simp
    have ro: "run_ok (prevlen r) (min_count r) (nextlen r) (rcount r + 1)" using toks_upto_run_ok[OF g, of n] n tr by simp
    have "length toks + rcount r \<le> n" using length_toks[of n ?len] l16 n tr by simp
    then have b: "plus_toks f toks c + rcount r + 1 < 65536" for c
      using plus_toks_bound[of f c 1000 toks] bl(2)[of c] n t(3) by linarith
    have nl: "n + 1 < length tree'" using n t by (simp add: tree'_def)
    obtain bl2 new where s: "scan_step tree' (bl1, r) n = Some (bl2, snd (tok_step ?len (toks, r) n))"
      "fst (tok_step ?len (toks, r) n) = toks @ new" "freqs bl2 (plus_toks (plus_toks f toks) new)"
      using scan_step_spec[OF fr ro b nl, of toks] by blast
    then show "\<exists>st'. scan_step tree' st n = Some st' \<and> ?I (Suc n) st'"
      by (simp add: st toks_upto_Suc tr plus_toks_append)
  qed simp
  then obtain bl' r where fold: "foldM (scan_step tree') (bl, rle_start (?len 0)) [0..<mc + 1] = Some (bl', r)"
    "freqs bl' (plus_toks f (tree_toks tree' mc))" by (auto simp: tree_toks_def simp del: upt_Suc)
  have "Len (tree ! 0) = ?len 0" "0 < length tree" using t by (auto simp: tree'_def)
  then have "scan_tree bl tree mc = Some (bl', tree')"
    using t fold(1) by (simp add: scan_tree_def tree'_def del: upt_Suc)
  moreover have "length (tree_toks tree' mc) \<le> mc + 1" using length_toks[of "mc + 1" ?len] l16 by (simp add: tree_toks_def)
  ultimately show ?thesis using g fold(2) by (auto simp: tree'_def)
qed

lemma send_rep_writes:
  assumes "encodes bl cl c"
  shows "bit_inv s \<Longrightarrow> 1 \<le> n \<Longrightarrow> \<exists>s'. send_rep s c bl n = Some s' \<and> writes s s' (toks_bits cl (replicate n (c, 0, 0)))"
proof (induction n arbitrary: s)
  case (Suc n)
  obtain s1 where s1: "send_code s c bl = Some s1" "writes s s1 (code_word cl c)" using writes_code[OF assms Suc.prems(1)] by blast
  have b: "toks_bits cl (replicate (Suc n) (c, 0, 0)) = code_word cl c @ toks_bits cl (replicate n (c, 0, 0))"
    by (simp add: toks_bits_def tok_bits_def)
  show ?case
  proof (cases "n = 0")
    case True
    then show ?thesis using s1 by (subst send_rep.simps) (simp add: toks_bits_def tok_bits_def)
  next
    case False
    then obtain s2 where "send_rep s1 c bl n = Some s2" "writes s1 s2 (toks_bits cl (replicate n (c, 0, 0)))"
      using Suc.IH[OF writes_inv[OF s1(2)]] by auto
    then show ?thesis unfolding b using s1 False writes_trans[OF s1(2)] by (subst send_rep.simps) auto
  qed
qed simp

lemma send_tok_writes:
  assumes "bit_inv s" "encodes bl cl c" "v < 2 ^ b" "b \<le> 16"
  shows "\<exists>s1. send_code s c bl = Some s1 \<and> writes s (send_bits s1 v b) (tok_bits cl (c, v, b))"
proof -
  obtain s1 where s1: "send_code s c bl = Some s1" "writes s s1 (code_word cl c)" using writes_code[OF assms(2,1)] by blast
  have "writes s (send_bits s1 v b) (code_word cl c @ bits_of b v)"
    by (rule writes_trans[OF s1(2) writes_send[OF writes_inv[OF s1(2)] assms(3,4)]])
  then show ?thesis using s1(1) by (simp add: tok_bits_def)
qed

lemma send_step_spec:
  assumes inv: "bit_inv s" and r: "run_ok (prevlen r) (min_count r) (nextlen r) (rcount r + 1)" and n: "n + 1 < length tree"
    and e: "\<forall>t\<in>set (fst (tok_step (\<lambda>i. Len (tree ! i)) (toks, r) n)). encodes bl cl (fst t)"
  shows "\<exists>s'. send_step bl tree (s, r) n = Some (s', snd (tok_step (\<lambda>i. Len (tree ! i)) (toks, r) n))
    \<and> (\<exists>new. fst (tok_step (\<lambda>i. Len (tree ! i)) (toks, r) n) = toks @ new \<and> writes s s' (toks_bits cl new))"
proof (cases "rcount r + 1 < max_count r \<and> nextlen r = Len (tree ! (n + 1))")
  case True
  have "writes s s (toks_bits cl [])" using inv by (simp add: toks_bits_def writes_refl)
  then show ?thesis using True n by (simp add: send_step_def tok_step_def)
next
  case False
  let ?cur = "nextlen r" and ?cnt = "rcount r + 1"
  let ?t = "run_tokens (prevlen r) (min_count r) ?cur ?cnt"
  have t: "tok_step (\<lambda>i. Len (tree ! i)) (toks, r) n = (toks @ ?t, rle_reset r (Len (tree ! (n + 1))))"
    unfolding tok_step_def prod.case if_not_P[OF False] by (rule refl)
  have en: "\<forall>t\<in>set ?t. encodes bl cl (fst t)" using e unfolding t by simp
  have "\<exists>s'. (if ?cnt < min_count r then send_rep s ?cur bl ?cnt
             else if ?cur \<noteq> 0 then do {
               (s, cnt) \<leftarrow> (if int ?cur \<noteq> prevlen r then do { s \<leftarrow> send_code s ?cur bl; Some (s, ?cnt - 1) } else Some (s, ?cnt));
               s \<leftarrow> send_code s REP_3_6 bl;
               Some (send_bits s (cnt - 3) 2) }
             else if ?cnt \<le> 10 then do { s \<leftarrow> send_code s REPZ_3_10 bl; Some (send_bits s (?cnt - 3) 3) }
             else do { s \<leftarrow> send_code s REPZ_11_138 bl; Some (send_bits s (?cnt - 11) 7) }) = Some s' \<and> writes s s' (toks_bits cl ?t)"
    (is "\<exists>s'. ?e = Some s' \<and> _")
  proof -
    consider "?cnt < min_count r" | "min_count r \<le> ?cnt" "?cur \<noteq> 0" "int ?cur \<noteq> prevlen r" | "min_count r \<le> ?cnt" "?cur \<noteq> 0" "int ?cur = prevlen r"
      | "min_count r \<le> ?cnt" "?cur = 0" "?cnt \<le> 10" | "min_count r \<le> ?cnt" "?cur = 0" "10 < ?cnt" by linarith
    then show ?thesis
    proof cases
      case 1
      then have tk: "?t = replicate ?cnt (?cur, 0, 0)" by (simp add: run_tokens_def)
      then have "encodes bl cl ?cur" using en by simp
      from send_rep_writes[OF this inv, of ?cnt] show ?thesis using 1 tk by simp
    next
      case 2
      have tk: "?t = [(?cur, 0, 0), (16, ?cnt - 1 - 3, 2)]" using 2 by (simp add: run_tokens_def)
      have "?cnt \<le> 7" using 2 r by (simp add: run_ok_def)
      then have b: "?cnt - 1 - 3 < 2 ^ 2" by simp
      have ec: "encodes bl cl ?cur" "encodes bl cl 16" using en tk by simp_all
      obtain s1 where s1: "send_code s ?cur bl = Some s1" "writes s s1 (code_word cl ?cur)" using writes_code[OF ec(1) inv] by blast
      obtain s2 where s2: "send_code s1 16 bl = Some s2" "writes s1 (send_bits s2 (?cnt - 1 - 3) 2) (tok_bits cl (16, ?cnt - 1 - 3, 2))"
        using send_tok_writes[OF writes_inv[OF s1(2)] ec(2) b] by auto
      have "toks_bits cl ?t = code_word cl ?cur @ tok_bits cl (16, ?cnt - 1 - 3, 2)" unfolding tk by (simp add: toks_bits_def tok_bits_def)
      then show ?thesis using 2 s1(1) s2(1) writes_trans[OF s1(2) s2(2)] by (simp add: REP_3_6_def)
    next
      case 3
      have "?t = [(16, ?cnt - 3, 2)]" using 3 by (simp add: run_tokens_def)
      moreover have "?cnt \<le> 6" using 3 r by (simp add: run_ok_def)
      then have "?cnt - 3 < 2 ^ 2" by simp
      ultimately show ?thesis using 3 send_tok_writes[OF inv, of bl cl 16 "?cnt - 3" 2] en by (auto simp: REP_3_6_def toks_bits_def)
    next
      case 4
      have "?t = [(17, ?cnt - 3, 3)]" using 4 by (simp add: run_tokens_def)
      moreover have "?cnt - 3 < 2 ^ 3" using 4 by simp
      ultimately show ?thesis using 4 send_tok_writes[OF inv, of bl cl 17 "?cnt - 3" 3] en by (auto simp: REPZ_3_10_def toks_bits_def)
    next
      case 5
      have "?t = [(18, ?cnt - 11, 7)]" using 5 by (simp add: run_tokens_def)
      moreover have "?cnt \<le> 138" using 5 r by (simp add: run_ok_def)
      then have "?cnt - 11 < 2 ^ 7" by simp
      ultimately show ?thesis using 5 send_tok_writes[OF inv, of bl cl 18 "?cnt - 11" 7] en by (auto simp: REPZ_11_138_def toks_bits_def)
    qed
  qed
  then obtain s' where s': "?e = Some s'" "writes s s' (toks_bits cl ?t)" by blast
  show ?thesis
    unfolding send_step_def prod.case Let_def rd_Some[OF n] Option.bind_lunit if_not_P[OF False] s'(1) t fst_conv snd_conv
    using s'(2) by blast
qed

lemma send_tree_spec:
  assumes inv: "bit_inv s" and g: "guarded tree mc" and e: "\<forall>t\<in>set (tree_toks tree mc). encodes bl cl (fst t)"
  shows "\<exists>s'. send_tree s bl tree mc = Some s' \<and> writes s s' (toks_bits cl (tree_toks tree mc))"
proof -
  let ?len = "\<lambda>i. Len (tree ! i)"
  let ?I = "\<lambda>n (s', r). r = snd (toks_upto ?len n) \<and> writes s s' (toks_bits cl (fst (toks_upto ?len n)))"
  have mono: "set (fst (toks_upto ?len n)) \<subseteq> set (fst (toks_upto ?len (n + k)))" for n k
  proof (induction k)
    case (Suc k)
    have "set (fst st) \<subseteq> set (fst (tok_step ?len st m))" for st m by (auto simp: tok_step_def split: prod.split)
    then show ?case using Suc by (simp add: toks_upto_Suc) blast
  qed simp
  have "\<exists>st. foldM (send_step bl tree) (s, rle_start (?len 0)) [0..<mc + 1] = Some st \<and> ?I (mc + 1) st"
  proof (rule foldM_upt_inv[where I = ?I])
    show "?I 0 (s, rle_start (?len 0))" using inv by (simp add: toks_upto_def toks_bits_def writes_refl)
    fix n st assume n: "n < mc + 1" and I: "?I n st"
    obtain s1 r where st: "st = (s1, r)" by fastforce
    obtain toks where tr: "toks_upto ?len n = (toks, r)" using I st by (cases "toks_upto ?len n") simp
    have w: "writes s s1 (toks_bits cl toks)" using I st tr by simp
    have ro: "run_ok (prevlen r) (min_count r) (nextlen r) (rcount r + 1)" using toks_upto_run_ok[OF g, of n] n tr by simp
    have nl: "n + 1 < length tree" using n g by (simp add: guarded_def)
    have "set (fst (tok_step ?len (toks, r) n)) \<subseteq> set (tree_toks tree mc)"
      using mono[of "Suc n" "mc - n"] n by (simp add: toks_upto_Suc tr tree_toks_def)
    then have e': "\<forall>t\<in>set (fst (tok_step ?len (toks, r) n)). encodes bl cl (fst t)" using e by blast
    obtain s2 new where s2: "send_step bl tree (s1, r) n = Some (s2, snd (tok_step ?len (toks, r) n))"
      "fst (tok_step ?len (toks, r) n) = toks @ new" "writes s1 s2 (toks_bits cl new)"
      using send_step_spec[OF writes_inv[OF w] ro nl e'] by blast
    then show "\<exists>st'. send_step bl tree st n = Some st' \<and> ?I (Suc n) st'"
      using writes_trans[OF w s2(3)] by (simp add: st toks_upto_Suc tr toks_bits_append)
  qed simp
  moreover have "0 < length tree" using g by (auto simp: guarded_def)
  ultimately show ?thesis by (auto simp: send_tree_def tree_toks_def simp del: upt_Suc)
qed

lemma decode_tree_toks:
  assumes cl: "lens_decode cl" and g: "guarded tree mc" and e: "\<forall>t\<in>set (tree_toks tree mc). encodes bl cl (fst t)"
    and N: "length acc + (mc + 1) \<le> N"
  shows "decode_lens cl N acc (toks_bits cl (tree_toks tree mc) @ rest) = decode_lens cl N (acc @ tree_lens tree mc) rest"
proof -
  have "mc < length tree" using g by (simp add: guarded_def)
  then have "tree_lens tree mc = map (\<lambda>i. Len (tree ! i)) [0..<mc + 1]" by (rule tree_lens_map)
  then show ?thesis
    using decode_toks[OF cl, of "mc + 1" "\<lambda>i. Len (tree ! i)" "mc + 1" acc N bl rest] g e N guarded_complete[OF g]
    by (simp add: tree_toks_def guarded_def del: upt_Suc)
qed

text \<open>Every length that occurs is sent literally at least once.\<close>

lemma toks_cover:
  assumes "\<And>i. i < n \<Longrightarrow> len i < 16"
  shows "\<forall>i<n - rcount (snd (toks_upto len n)). len i \<noteq> 0 \<longrightarrow> (len i, 0, 0) \<in> set (fst (toks_upto len n))"
  using assms
proof (induction n)
  case (Suc n)
  obtain toks r where tr: "toks_upto len n = (toks, r)" by fastforce
  have inv: "rle_inv len n r" using toks_upto_inv[of len n] tr by simp
  have ok: "run_ok (prevlen r) (min_count r) (nextlen r) (rcount r + 1)" using Suc.prems[of n] by (intro rle_inv_run_ok[OF inv]) simp
  note IH = Suc.IH[unfolded tr fst_conv snd_conv]
  show ?case
  proof (cases "rcount r + 1 < max_count r \<and> nextlen r = len (n + 1)")
    case True
    then show ?thesis using IH Suc.prems by (simp add: toks_upto_Suc tr tok_step_def)
  next
    case False
    let ?t = "run_tokens (prevlen r) (min_count r) (nextlen r) (rcount r + 1)"
    have st: "toks_upto len (Suc n) = (toks @ ?t, rle_reset r (len (n + 1)))"
      unfolding toks_upto_Suc tr tok_step_def prod.case if_not_P[OF False] by (rule refl)
    have "(len i, 0, 0) \<in> set (toks @ ?t)" if i: "i < Suc n" "len i \<noteq> 0" for i
    proof (cases "i < n - rcount r")
      case True
      then show ?thesis using IH Suc.prems i by simp
    next
      case out: False
      then have cur: "len i = nextlen r" using i by (intro rle_inv_run[OF inv]) simp_all
      show ?thesis
      proof (cases "int (nextlen r) = prevlen r")
        case True
        then have "n - rcount r \<noteq> 0" "nextlen r = len (n - rcount r - 1)" using inv by (auto simp: rle_inv_def split: if_splits)
        then have "(nextlen r, 0, 0) \<in> set toks" using IH Suc.prems cur i(2) by simp
        then show ?thesis using cur by simp
      next
        case False
        then have "(nextlen r, 0, 0) \<in> set ?t" using ok cur i(2) by (auto simp: run_tokens_def run_ok_def)
        then show ?thesis using cur by simp
      qed
    qed
    moreover have "rcount (rle_reset r x) = 0" for x by (simp add: rle_reset_def Let_def)
    ultimately show ?thesis by (simp add: st)
  qed
qed (simp add: toks_upto_def)

lemma tree_toks_cover:
  assumes g: "guarded tree mc" and i: "i \<le> mc" "Len (tree ! i) \<noteq> 0"
  shows "(Len (tree ! i), 0, 0) \<in> set (tree_toks tree mc)"
proof -
  have "Len (tree ! k) < 16" if "k < mc + 1" for k using g that by (simp add: guarded_def)
  then show ?thesis
    using toks_cover[of "mc + 1" "\<lambda>i. Len (tree ! i)"] guarded_complete[OF g] i by (simp add: tree_toks_def)
qed

end
