(* ===== verification/Block_Writer.thy ===== *)
theory Block_Writer
  imports Block_Trees
begin

text \<open>
  Every block that \<open>_tr_flush_block\<close> writes, in whichever of the three encodings it chooses, is a block
  of the format that decodes to the data of the symbols in the buffer.
\<close>

section \<open>The code length code\<close>

text \<open>Symbols without a code do not change the codes of the others.\<close>

lemma first_code_cong: "(\<And>b. 1 \<le> b \<Longrightarrow> count_list xs b = count_list ys b) \<Longrightarrow> first_code xs n = first_code ys n"
  by (induction n) auto

lemma canon_code_pad:
  assumes "s < length lens" "lens ! s \<noteq> 0"
  shows "canon_code (lens @ replicate k 0) s = canon_code lens s"
proof -
  have "first_code (lens @ replicate k 0) n = first_code lens n" for n
    by (rule first_code_cong) (simp add: count_replicate)
  then show ?thesis using assms by (simp add: canon_code_def canon_value_def nth_append)
qed

lemma kraft_pad: "kraft (lens @ replicate k 0) = kraft lens"
  by (simp add: kraft_def filter_replicate)

definition bl_lens :: "ct_data list \<Rightarrow> nat list" where
  "bl_lens bl = map Len (take 19 bl)"

lemma bl_lens_pad:
  assumes "code_tree 19 7 mc bl"
  shows "bl_lens bl = tree_lens bl mc @ replicate (18 - mc) 0"
proof (rule nth_equalityI)
  have l: "mc < 19" "19 < length bl" using assms by (simp_all add: code_tree_def)
  then show "length (bl_lens bl) = length (tree_lens bl mc @ replicate (18 - mc) 0)" by (simp add: bl_lens_def tree_lens_def)
  fix i assume "i < length (bl_lens bl)"
  then have i: "i < 19" using l by (simp add: bl_lens_def)
  show "bl_lens bl ! i = (tree_lens bl mc @ replicate (18 - mc) 0) ! i"
    using assms i l by (auto simp: bl_lens_def tree_lens_def nth_append code_tree_def)
qed

lemma bl_lens_props:
  assumes t: "code_tree 19 7 mc bl"
  shows "lens_decode (bl_lens bl)" "kraft (bl_lens bl) = 2 ^ 15" "length (bl_lens bl) = 19"
    "\<And>c. c < 19 \<Longrightarrow> Len (bl ! c) \<noteq> 0 \<Longrightarrow> encodes bl (bl_lens bl) c" "\<And>c. c < 19 \<Longrightarrow> bl_lens bl ! c = Len (bl ! c)"
proof -
  note cl = code_tree_lens[OF t] bl_lens_pad[OF t]
  show k: "kraft (bl_lens bl) = 2 ^ 15" using cl by (simp add: kraft_pad)
  show len: "length (bl_lens bl) = 19" using t by (simp add: bl_lens_def code_tree_def)
  show nth: "bl_lens bl ! c = Len (bl ! c)" if "c < 19" for c using t that by (simp add: bl_lens_def code_tree_def)
  show "lens_decode (bl_lens bl)" using cl k by (auto simp: lens_decode_def)
  show "encodes bl (bl_lens bl) c" if c: "c < 19" "Len (bl ! c) \<noteq> 0" for c
  proof -
    have e: "encodes bl (tree_lens bl mc) c" by (rule code_tree_encodes[OF t _ c]) simp
    then have "canon_code (bl_lens bl) c = canon_code (tree_lens bl mc) c"
      unfolding cl(4) by (intro canon_code_pad) (simp_all add: encodes_def)
    then show ?thesis using e nth[OF c(1)] len c(1) by (simp add: encodes_def)
  qed
qed

lemma bl_order_props: "length bl_order = 19" "cl_order = bl_order" "k < 19 \<Longrightarrow> bl_order ! k < 19" "c < 19 \<Longrightarrow> \<exists>k<19. bl_order ! k = c"
  "1 \<le> c \<Longrightarrow> c < 16 \<Longrightarrow> \<exists>k<19. 3 \<le> k \<and> bl_order ! k = c" "distinct bl_order"
proof -
  show "length bl_order = 19" "cl_order = bl_order" "distinct bl_order" by (simp_all add: bl_order_def cl_order_def)
  have "list_all (\<lambda>k. bl_order ! k < 19) [0..<19]" by code_simp
  then show "bl_order ! k < 19" if "k < 19" using that by (simp add: list_all_iff)
  have "list_all (\<lambda>c. list_ex (\<lambda>k. bl_order ! k = c) [0..<19]) [0..<19]" by code_simp
  then show "\<exists>k<19. bl_order ! k = c" if "c < 19" using that by (fastforce simp: list_all_iff list_ex_iff)
  have ex: "list_all (\<lambda>c. list_ex (\<lambda>k. bl_order ! k = c) [3..<19]) [1..<16]" by code_simp
  show "\<exists>k<19. 3 \<le> k \<and> bl_order ! k = c" if "1 \<le> c" "c < 16"
  proof -
    have "list_ex (\<lambda>k. bl_order ! k = c) [3..<19]" by (rule list_all_upt[OF ex that])
    then obtain k where "k \<in> set [3..<19]" "bl_order ! k = c" unfolding list_ex_iff by blast
    then show ?thesis unfolding set_upt atLeastLessThan_iff by blast
  qed
qed

lemma last_blindex_spec:
  assumes "length bl = 39"
  shows "k < 19 \<Longrightarrow> j \<le> k \<Longrightarrow> 3 \<le> j \<Longrightarrow> Len (bl ! (bl_order ! j)) \<noteq> 0 \<Longrightarrow>
    \<exists>m. last_blindex bl k = Some m \<and> j \<le> m \<and> m \<le> k \<and> (\<forall>i. m < i \<and> i \<le> k \<longrightarrow> Len (bl ! (bl_order ! i)) = 0)"
proof (induction k)
  case (Suc k)
  have rd: "rd bl_order (Suc k) = Some (bl_order ! Suc k)" "rd bl (bl_order ! Suc k) = Some (bl ! (bl_order ! Suc k))"
    using Suc.prems(1) assms bl_order_props(1) bl_order_props(3)[of "Suc k"] by (simp_all add: rd_def)
  show ?case
  proof (cases "Len (bl ! (bl_order ! Suc k)) = 0")
    case True
    then have "j \<le> k" using Suc.prems by (metis le_SucE)
    then obtain m where m: "last_blindex bl k = Some m" "j \<le> m" "m \<le> k" "\<forall>i. m < i \<and> i \<le> k \<longrightarrow> Len (bl ! (bl_order ! i)) = 0"
      using Suc.IH Suc.prems by auto
    have "last_blindex bl (Suc k) = Some m" using rd True Suc.prems m(1) by (subst last_blindex.simps) simp
    moreover have "\<forall>i. m < i \<and> i \<le> Suc k \<longrightarrow> Len (bl ! (bl_order ! i)) = 0" using m(4) True by (auto simp: le_Suc_eq)
    ultimately show ?thesis using m by auto
  next
    case False
    have "last_blindex bl (Suc k) = Some (Suc k)" using rd False Suc.prems by (subst last_blindex.simps) simp
    then show ?thesis using Suc.prems by auto
  qed
qed simp

section \<open>The header of a dynamic block\<close>

definition clens_bits :: "ct_data list \<Rightarrow> nat list \<Rightarrow> bool list" where
  "clens_bits bl is = concat (map (\<lambda>i. bits_of 3 (Len (bl ! i))) is)"

lemma decode_clens_bits:
  assumes "\<forall>i\<in>set is. Len (bl ! i) < 8"
  shows "decode_clens is cl (clens_bits bl is @ rest) = Some (foldl (\<lambda>cl i. cl[i := Len (bl ! i)]) cl is, rest)"
  using assms
proof (induction "is" arbitrary: cl)
  case (Cons i "is")
  have "take_bits 3 (bits_of 3 (Len (bl ! i)) @ clens_bits bl is @ rest) = Some (Len (bl ! i), clens_bits bl is @ rest)"
    using Cons.prems by (intro take_bits_of) simp
  moreover have "clens_bits bl (i # is) @ rest = bits_of 3 (Len (bl ! i)) @ clens_bits bl is @ rest" by (simp add: clens_bits_def)
  ultimately show ?case using Cons by simp
qed (simp add: clens_bits_def)

lemma foldl_update_nth:
  "c < length xs \<Longrightarrow> (foldl (\<lambda>xs i. xs[i := f i]) xs is) ! c = (if c \<in> set is then f c else xs ! c)"
proof (induction "is" arbitrary: xs)
  case (Cons i "is")
  then show ?case by (auto simp: nth_list_update)
qed simp

lemma length_foldl_update: "length (foldl (\<lambda>xs i. xs[i := f i]) xs is) = length xs"
  by (induction "is" arbitrary: xs) simp_all

text \<open>Leaving out the trailing zero lengths loses nothing.\<close>

lemma clens_all:
  assumes t: "code_tree 19 7 mc bl" and m: "m < 19" "\<forall>i. m < i \<and> i < 19 \<longrightarrow> Len (bl ! (bl_order ! i)) = 0"
  shows "foldl (\<lambda>cl i. cl[i := Len (bl ! i)]) (replicate 19 0) (take (m + 1) bl_order) = bl_lens bl"
proof (rule nth_equalityI)
  let ?f = "foldl (\<lambda>cl i. cl[i := Len (bl ! i)]) (replicate 19 0) (take (m + 1) bl_order)"
  show "length ?f = length (bl_lens bl)" using bl_lens_props(3)[OF t] by (simp add: length_foldl_update)
  fix c assume "c < length ?f"
  then have c: "c < 19" by (simp add: length_foldl_update)
  obtain k where k: "k < 19" "bl_order ! k = c" using bl_order_props(4)[OF c] by blast
  have "Len (bl ! c) = 0" if "c \<notin> set (take (m + 1) bl_order)"
  proof -
    have "take (m + 1) bl_order ! k \<in> set (take (m + 1) bl_order)" if "k \<le> m"
      using that k bl_order_props(1) by (intro nth_mem) simp
    then have "\<not> k \<le> m" using that k(2) by auto
    then show ?thesis using m(2) k by auto
  qed
  then show "?f ! c = bl_lens bl ! c" using c bl_lens_props(5)[OF t c] by (auto simp: foldl_update_nth)
qed

text \<open>The trees as \<open>build_trees\<close> leaves them, ready to be sent.\<close>

definition trees_ready :: "'a trees_state_scheme \<Rightarrow> nat \<Rightarrow> nat \<Rightarrow> nat \<Rightarrow> bool" where
  "trees_ready s lmc dmc m \<longleftrightarrow>
     256 \<le> lmc \<and> lmc < 286 \<and> dmc < 30 \<and> 3 \<le> m \<and> m < 19
   \<and> guarded (dyn_ltree s) lmc \<and> guarded (dyn_dtree s) dmc
   \<and> (\<exists>mc. code_tree 19 7 mc (bl_tree s)) \<and> length (bl_tree s) = 39
   \<and> (\<forall>i. m < i \<and> i < 19 \<longrightarrow> Len (bl_tree s ! (bl_order ! i)) = 0)
   \<and> (\<forall>t\<in>set (tree_toks (dyn_ltree s) lmc) \<union> set (tree_toks (dyn_dtree s) dmc). encodes (bl_tree s) (bl_lens (bl_tree s)) (fst t))
   \<and> kraft (tree_lens (dyn_ltree s) lmc) = 2 ^ 15 \<and> kraft (tree_lens (dyn_dtree s) dmc) = 2 ^ 15
   \<and> Len (dyn_ltree s ! 256) \<noteq> 0"

definition header_bits :: "'a trees_state_scheme \<Rightarrow> nat \<Rightarrow> nat \<Rightarrow> nat \<Rightarrow> bool list" where
  "header_bits s lmc dmc m = bits_of 5 (lmc - 256) @ bits_of 5 dmc @ bits_of 4 (m - 3) @ clens_bits (bl_tree s) (take (m + 1) bl_order)
     @ toks_bits (bl_lens (bl_tree s)) (tree_toks (dyn_ltree s) lmc) @ toks_bits (bl_lens (bl_tree s)) (tree_toks (dyn_dtree s) dmc)"

lemma send_all_trees_writes:
  assumes r: "trees_ready s lmc dmc m" and inv: "bit_inv s"
  shows "\<exists>s'. send_all_trees s (lmc + 1) (dmc + 1) (m + 1) = Some s' \<and> writes s s' (header_bits s lmc dmc m)"
proof -
  note R = r[unfolded trees_ready_def]
  let ?bl = "bl_tree s" and ?cl = "bl_lens (bl_tree s)"
  obtain mc where t: "code_tree 19 7 mc ?bl" using R by blast
  define s1 where "s1 = send_bits s (lmc - 256) 5"
  define s2 where "s2 = send_bits s1 dmc 5"
  define s3 where "s3 = send_bits s2 (m - 3) 4"
  have nb: "lmc - 256 < 2 ^ 5" "dmc < 2 ^ 5" "m - 3 < 2 ^ 4" using R by simp_all linarith+
  have w1: "writes s s1 (bits_of 5 (lmc - 256))" unfolding s1_def using nb by (intro writes_send[OF inv]) simp_all
  have w2: "writes s1 s2 (bits_of 5 dmc)" unfolding s2_def using nb by (intro writes_send[OF writes_inv[OF w1]]) simp_all
  have w3: "writes s2 s3 (bits_of 4 (m - 3))" unfolding s3_def using nb by (intro writes_send[OF writes_inv[OF w2]]) simp_all
  have f: "out_frame s s3" using w1 w2 w3 by (meson out_frame_trans writes_frame)
  let ?step = "\<lambda>s rank. do { o1 \<leftarrow> rd bl_order rank; t \<leftarrow> rd (bl_tree s) o1; Some (send_bits s (Len t) 3) }"
  have "\<exists>s4. foldM ?step s3 [0..<m + 1] = Some s4 \<and> writes s3 s4 (clens_bits ?bl (take (m + 1) bl_order))"
  proof (rule foldM_upt_inv[where I = "\<lambda>n s4. writes s3 s4 (clens_bits ?bl (take n bl_order))"])
    show "writes s3 s3 (clens_bits ?bl (take 0 bl_order))" using writes_inv[OF w3] by (simp add: clens_bits_def writes_refl)
    fix n s4 assume n: "n < m + 1" and w: "writes s3 s4 (clens_bits ?bl (take n bl_order))"
    have n19: "n < 19" using n R by simp
    then have o1: "rd bl_order n = Some (bl_order ! n)" "bl_order ! n < 19" using bl_order_props by (simp_all add: rd_def)
    have bl: "bl_tree s4 = ?bl" using out_frame_fields(3)[OF out_frame_trans[OF f writes_frame[OF w]]] .
    have "Len (?bl ! (bl_order ! n)) \<le> 7" using t o1(2) by (simp add: code_tree_def)
    then have "writes s4 (send_bits s4 (Len (?bl ! (bl_order ! n))) 3) (bits_of 3 (Len (?bl ! (bl_order ! n))))"
      by (intro writes_send[OF writes_inv[OF w]]) simp_all
    from writes_trans[OF w this]
    have "writes s3 (send_bits s4 (Len (?bl ! (bl_order ! n))) 3) (clens_bits ?bl (take (Suc n) bl_order))"
      using n19 bl_order_props(1) by (simp add: clens_bits_def take_Suc_conv_app_nth)
    then show "\<exists>s5. ?step s4 n = Some s5 \<and> writes s3 s5 (clens_bits ?bl (take (Suc n) bl_order))"
      using o1 bl R by simp
  qed simp
  then obtain s4 where s4: "foldM ?step s3 [0..<m + 1] = Some s4" "writes s3 s4 (clens_bits ?bl (take (m + 1) bl_order))" by blast
  have f4: "out_frame s s4" using f out_frame_trans writes_frame[OF s4(2)] by blast
  note e4 = out_frame_fields[OF f4]
  obtain s5 where s5: "send_tree s4 ?bl (dyn_ltree s) lmc = Some s5" "writes s4 s5 (toks_bits ?cl (tree_toks (dyn_ltree s) lmc))"
    using send_tree_spec[OF writes_inv[OF s4(2)], of "dyn_ltree s" lmc ?bl ?cl] R by auto
  note e5 = out_frame_fields[OF out_frame_trans[OF f4 writes_frame[OF s5(2)]]]
  obtain s6 where s6: "send_tree s5 ?bl (dyn_dtree s) dmc = Some s6" "writes s5 s6 (toks_bits ?cl (tree_toks (dyn_dtree s) dmc))"
    using send_tree_spec[OF writes_inv[OF s5(2)], of "dyn_dtree s" dmc ?bl ?cl] R by auto
  have "lmc + 1 - 257 = lmc - 256" "m + 1 - 4 = m - 3" by simp_all
  then have "send_all_trees s (lmc + 1) (dmc + 1) (m + 1) = Some s6"
    unfolding send_all_trees_def Let_def using s4(1) s5(1) s6(1) e4 e5
    by (simp add: s1_def[symmetric] s2_def[symmetric] s3_def[symmetric] del: upt_Suc)
  moreover have "writes s s6 (header_bits s lmc dmc m)"
    unfolding header_bits_def
    using writes_trans[OF w1 writes_trans[OF w2 writes_trans[OF w3 writes_trans[OF s4(2) writes_trans[OF s5(2) s6(2)]]]]] by simp
  ultimately show ?thesis by blast
qed

lemma not_bad_complete: "kraft lens = 2 ^ 15 \<Longrightarrow> \<not> bad_lens type lens"
  by (simp add: bad_lens_def)

lemma decode_header_bits:
  assumes r: "trees_ready s lmc dmc m"
  shows "decode_trees (header_bits s lmc dmc m @ rest) = Some (tree_lens (dyn_ltree s) lmc, tree_lens (dyn_dtree s) dmc, rest)"
proof -
  note R = r[unfolded trees_ready_def]
  let ?bl = "bl_tree s" and ?cl = "bl_lens (bl_tree s)" and ?ll = "tree_lens (dyn_ltree s) lmc" and ?dl = "tree_lens (dyn_dtree s) dmc"
  let ?tl = "toks_bits ?cl (tree_toks (dyn_ltree s) lmc)" and ?td = "toks_bits ?cl (tree_toks (dyn_dtree s) dmc)"
  let ?N = "lmc + 1 + (dmc + 1)"
  obtain mc where t: "code_tree 19 7 mc ?bl" using R by blast
  note cl = bl_lens_props[OF t]
  have l: "length ?ll = lmc + 1" "length ?dl = dmc + 1" using R by (auto simp: tree_lens_def guarded_def)
  have c: "decode_clens (take (m + 1) cl_order) (replicate 19 0) (clens_bits ?bl (take (m + 1) bl_order) @ q) = Some (?cl, q)" for q
  proof -
    have "\<forall>i\<in>set (take (m + 1) bl_order). Len (?bl ! i) < 8"
    proof
      fix i assume "i \<in> set (take (m + 1) bl_order)"
      then have "i \<in> set bl_order" by (rule in_set_takeD)
      then obtain k where "k < 19" "i = bl_order ! k" using bl_order_props(1) by (metis in_set_conv_nth)
      then have "i < 19" using bl_order_props(3) by simp
      then show "Len (?bl ! i) < 8" using t by (simp add: code_tree_def less_Suc_eq_le[symmetric])
    qed
    from decode_clens_bits[OF this] clens_all[OF t] show ?thesis unfolding bl_order_props(2) using R by simp
  qed
  have d: "decode_lens ?cl ?N [] (?tl @ ?td @ rest) = Some (?ll @ ?dl, rest)"
  proof -
    have "decode_lens ?cl ?N [] (?tl @ ?td @ rest) = decode_lens ?cl ?N ([] @ ?ll) (?td @ rest)"
      using R by (intro decode_tree_toks[OF cl(1)]) auto
    also have "\<dots> = decode_lens ?cl ?N (?ll @ ?dl) rest"
      using R l decode_tree_toks[OF cl(1), of "dyn_dtree s" dmc ?bl ?ll ?N rest] by auto
    also have "\<dots> = Some (?ll @ ?dl, rest)" using l by (subst decode_lens.simps) simp
    finally show ?thesis .
  qed
  have nb: "lmc - 256 < 2 ^ 5" "dmc < 2 ^ 5" "m - 3 < 2 ^ 4" using R by simp_all linarith+
  have ll: "?ll ! 256 = Len (dyn_ltree s ! 256)" using R by (simp add: tree_lens_def guarded_def)
  let ?c = "clens_bits ?bl (take (m + 1) bl_order) @ ?tl @ ?td @ rest"
  have b: "take_bits 5 (bits_of 5 (lmc - 256) @ bits_of 5 dmc @ bits_of 4 (m - 3) @ ?c) = Some (lmc - 256, bits_of 5 dmc @ bits_of 4 (m - 3) @ ?c)"
    "take_bits 5 (bits_of 5 dmc @ bits_of 4 (m - 3) @ ?c) = Some (dmc, bits_of 4 (m - 3) @ ?c)"
    "take_bits 4 (bits_of 4 (m - 3) @ ?c) = Some (m - 3, ?c)"
    by (rule take_bits_of[OF nb(1)], rule take_bits_of[OF nb(2)], rule take_bits_of[OF nb(3)])
  have e: "lmc - 256 + 257 = lmc + 1" "m - 3 + 4 = m + 1" using R by simp_all
  have k: "\<not> (lmc + 1 > 286 \<or> dmc + 1 > 30)" "\<not> bad_lens CODES ?cl"
    "\<not> (?ll ! 256 = 0 \<or> bad_lens LENS ?ll \<or> bad_lens DISTS ?dl)"
    using R cl(2) not_bad_complete ll by auto
  have h: "header_bits s lmc dmc m @ rest = bits_of 5 (lmc - 256) @ bits_of 5 dmc @ bits_of 4 (m - 3) @ ?c" by (simp add: header_bits_def)
  have sp: "take (lmc + 1) (?ll @ ?dl) = ?ll" "drop (lmc + 1) (?ll @ ?dl) = ?dl" using l by simp_all
  show ?thesis
    unfolding decode_trees_def h b Option.bind_lunit prod.case Let_def e c if_not_P[OF k(1)] if_not_P[OF k(2)] d sp if_not_P[OF k(3)]
    by (rule refl)
qed

section \<open>The invariant of the symbol buffer\<close>

text \<open>
  The frequencies are the numbers of occurrences of the symbols in the buffer, with one end of block.
\<close>

definition lcount :: "(nat \<times> nat) list \<Rightarrow> nat \<Rightarrow> nat" where
  "lcount syms c = count_list (map lsym syms) c + (if c = 256 then 1 else 0)"

definition dcount :: "(nat \<times> nat) list \<Rightarrow> nat \<Rightarrow> nat" where
  "dcount syms c = count_list (map dsym (filter (\<lambda>x. fst x \<noteq> 0) syms)) c"

definition trees_arrays :: "'a trees_state_scheme \<Rightarrow> bool" where
  "trees_arrays s \<longleftrightarrow> length (dyn_ltree s) = 573 \<and> length (dyn_dtree s) = 61 \<and> length (bl_tree s) = 39 \<and> work_arrays s
     \<and> length (d_buf s) = lit_bufsize s \<and> length (l_buf s) = lit_bufsize s \<and> lit_bufsize s \<le> 32768"

definition trees_inv :: "'a trees_state_scheme \<Rightarrow> bool" where
  "trees_inv s \<longleftrightarrow> trees_arrays s \<and> buf_ok s
     \<and> (\<forall>c<286. Freq (dyn_ltree s ! c) = lcount (block_syms s) c)
     \<and> (\<forall>c<30. Freq (dyn_dtree s ! c) = dcount (block_syms s) c)
     \<and> (\<forall>c<19. Freq (bl_tree s ! c) = 0)"

lemma lsym_less: "sym_ok x \<Longrightarrow> lsym x < 286"
  using length_ok[of "snd x"] by (auto simp: sym_ok_def lsym_def length_ok_def Let_def split: prod.splits)

lemma dsym_less: "sym_ok x \<Longrightarrow> fst x \<noteq> 0 \<Longrightarrow> dsym x < 30"
  using dist_ok[of "fst x - 1"] by (auto simp: sym_ok_def dsym_def dist_ok_def Let_def split: prod.splits)

lemma count_list_pos: "x \<in> set xs \<Longrightarrow> count_list xs x \<noteq> 0"
  by (simp add: count_list_0_iff)

lemma lcount_pos: "x \<in> set syms \<Longrightarrow> lcount syms (lsym x) \<noteq> 0"
  using count_list_pos[of "lsym x" "map lsym syms"] by (simp add: lcount_def)

lemma dcount_pos: "x \<in> set syms \<Longrightarrow> fst x \<noteq> 0 \<Longrightarrow> dcount syms (dsym x) \<noteq> 0"
  using count_list_pos[of "dsym x" "map dsym (filter (\<lambda>x. fst x \<noteq> 0) syms)"] by (simp add: dcount_def)

lemma tree_frame_fields:
  assumes "tree_frame s (s' :: 'a trees_state_scheme)"
  shows "dyn_ltree s' = dyn_ltree s" "dyn_dtree s' = dyn_dtree s" "bl_tree s' = bl_tree s" "l_buf s' = l_buf s" "d_buf s' = d_buf s"
    "last_lit s' = last_lit s" "lit_bufsize s' = lit_bufsize s" "l_max_code s' = l_max_code s" "d_max_code s' = d_max_code s"
    "level s' = level s" "strategy s' = strategy s" "matches s' = matches s" "data_type s' = data_type s"
  using assms by (cases s; cases s'; simp add: tree_frame_def)+

lemma tree_frame_out:
  assumes "tree_frame s s'"
  shows "out_bits s' = out_bits s" "bit_inv s' = bit_inv s"
  using assms by (simp_all add: tree_frame_def out_bits_def bit_inv_def)

text \<open>Building the three trees: they are ready to be sent, and have codes for all symbols of the block.\<close>

lemma guard_nth: "i \<le> mc \<Longrightarrow> tree[mc + 1 := x] ! i = tree ! i"
  by simp

lemma tree_lens_guard: "tree_lens (tree[mc + 1 := x]) mc = tree_lens tree mc"
  by (simp add: tree_lens_def)

lemma encodes_guard: "encodes tree (tree_lens tree mc) c \<Longrightarrow> encodes (tree[mc + 1 := x]) (tree_lens tree mc) c"
proof -
  assume e: "encodes tree (tree_lens tree mc) c"
  then have "c < mc + 1" by (simp add: encodes_def tree_lens_def)
  then show ?thesis using e by (simp add: encodes_def)
qed

lemma detect_data_type_Some: "length (dyn_ltree s) = 573 \<Longrightarrow> \<exists>d. detect_data_type s = Some d"
proof -
  assume l: "length (dyn_ltree s) = 573"
  have b: "\<exists>d. black_loop (dyn_ltree s) m ns = Some d" if "\<forall>n\<in>set ns. n < 573" for m ns
    using that l by (induction ns arbitrary: m) auto
  have w: "\<exists>d. white_loop (dyn_ltree s) ns = Some d" if "\<forall>n\<in>set ns. n < 573" for ns
    using that l by (induction ns) auto
  obtain d1 where d1: "black_loop (dyn_ltree s) 0xf3ffc07f [0..<32] = Some d1" using b[of "[0..<32]"] by fastforce
  obtain d2 where d2: "white_loop (dyn_ltree s) [9, 10, 13] = Some d2" using w[of "[9, 10, 13]"] by fastforce
  have "\<forall>n\<in>set [32..<LITERALS]. n < 573" unfolding set_upt LITERALS_def by simp
  from w[OF this] obtain d3 where d3: "white_loop (dyn_ltree s) [32..<LITERALS] = Some d3" by blast
  show ?thesis unfolding detect_data_type_def d1 d2 d3 Option.bind_lunit by simp
qed

text \<open>The symbols of the code length code that describe a tree.\<close>

lemma run_tokens_less: "t \<in> set (run_tokens p mn cur cnt) \<Longrightarrow> cur < 16 \<Longrightarrow> fst t < 19"
  by (auto simp: run_tokens_def split: if_splits)

lemma toks_upto_less: "(\<And>i. i < n \<Longrightarrow> len i < 16) \<Longrightarrow> t \<in> set (fst (toks_upto len n)) \<Longrightarrow> fst t < 19"
proof (induction n)
  case (Suc n)
  obtain toks r where tr: "toks_upto len n = (toks, r)" by fastforce
  have "nextlen r = len n" using toks_upto_inv[of len n] tr by (simp add: rle_inv_def)
  then have "nextlen r < 16" using Suc.prems(1)[of n] by simp
  moreover have "t \<in> set toks \<or> t \<in> set (run_tokens (prevlen r) (min_count r) (nextlen r) (rcount r + 1))"
    using Suc.prems(2) by (auto simp: toks_upto_Suc tr tok_step_def split: if_splits)
  moreover have "fst t < 19" if "t \<in> set toks" using Suc.IH Suc.prems(1) that by (simp add: tr)
  ultimately show ?case using run_tokens_less by blast
qed (simp add: toks_upto_def)

lemma tree_toks_less: "guarded tree mc \<Longrightarrow> t \<in> set (tree_toks tree mc) \<Longrightarrow> fst t < 19"
  unfolding tree_toks_def by (rule toks_upto_less) (simp_all add: guarded_def)

lemma code_tree_less: "code_tree E mxl mc tree \<Longrightarrow> i \<le> mc \<Longrightarrow> Len (tree ! i) < mxl + 1"
  by (simp add: code_tree_def less_Suc_eq_le)

lemma build_bl_tree_spec:
  assumes arr: "trees_arrays s" and f0: "\<forall>c<19. Freq (bl_tree s ! c) = 0"
    and lt: "code_tree 286 15 lmc (dyn_ltree s)" "l_max_code s = int lmc" "256 \<le> lmc" "Len (dyn_ltree s ! 256) \<noteq> 0"
    and dt: "code_tree 30 15 dmc (dyn_dtree s)" "d_max_code s = int dmc"
  shows "\<exists>m s'. build_bl_tree s = Some (m, s') \<and> trees_ready s' lmc dmc m \<and> trees_arrays s'
    \<and> dyn_ltree s' = (dyn_ltree s)[lmc + 1 := (dyn_ltree s ! (lmc + 1))\<lparr>dl := 0xffff\<rparr>]
    \<and> dyn_dtree s' = (dyn_dtree s)[dmc + 1 := (dyn_dtree s ! (dmc + 1))\<lparr>dl := 0xffff\<rparr>]
    \<and> pending_buf s' = pending_buf s \<and> bi_buf s' = bi_buf s \<and> bi_valid s' = bi_valid s
    \<and> d_buf s' = d_buf s \<and> l_buf s' = l_buf s \<and> last_lit s' = last_lit s \<and> lit_bufsize s' = lit_bufsize s
    \<and> l_max_code s' = l_max_code s \<and> d_max_code s' = d_max_code s \<and> level s' = level s \<and> strategy s' = strategy s"
proof -
  have al: "length (dyn_ltree s) = 573" "length (dyn_dtree s) = 61" "length (bl_tree s) = 39" "work_arrays s" using arr by (simp_all add: trees_arrays_def)
  have lb: "lmc < 286" "dmc < 30" using lt(1) dt(1) by (simp_all add: code_tree_def)
  have lens: "\<forall>i\<le>lmc. Len (dyn_ltree s ! i) < 16" "\<forall>i\<le>dmc. Len (dyn_dtree s ! i) < 16"
    using code_tree_less[OF lt(1)] code_tree_less[OF dt(1)] by simp_all
  have fr0: "freqs (bl_tree s) (\<lambda>_. 0)" using al f0 by (simp add: freqs_def)
  obtain bl1 lt1 where s1: "scan_tree (bl_tree s) (dyn_ltree s) lmc = Some (bl1, lt1)"
    "lt1 = (dyn_ltree s)[lmc + 1 := (dyn_ltree s ! (lmc + 1))\<lparr>dl := 0xffff\<rparr>]" "guarded lt1 lmc"
    "freqs bl1 (plus_toks (\<lambda>_. 0) (tree_toks lt1 lmc))" "length (tree_toks lt1 lmc) \<le> lmc + 1"
    using scan_tree_spec[OF fr0, of lmc "dyn_ltree s"] al lb lens by auto
  have b1: "plus_toks (\<lambda>_. 0) (tree_toks lt1 lmc) c \<le> 1000" for c
    using plus_toks_bound[of "\<lambda>_. 0" c 0 "tree_toks lt1 lmc"] s1(5) lb by simp
  obtain bl2 dt1 where s2: "scan_tree bl1 (dyn_dtree s) dmc = Some (bl2, dt1)"
    "dt1 = (dyn_dtree s)[dmc + 1 := (dyn_dtree s ! (dmc + 1))\<lparr>dl := 0xffff\<rparr>]" "guarded dt1 dmc"
    "freqs bl2 (plus_toks (plus_toks (\<lambda>_. 0) (tree_toks lt1 lmc)) (tree_toks dt1 dmc))"
    using scan_tree_spec[OF s1(4) b1, of dmc "dyn_dtree s"] al lb lens by auto
  let ?toks = "tree_toks lt1 lmc @ tree_toks dt1 dmc"
  let ?s = "s\<lparr>dyn_ltree := lt1, dyn_dtree := dt1\<rparr>"
  have wa: "work_arrays ?s" using al(4) by (simp add: work_arrays_def)
  have l39: "2 * elems static_bl_desc < length bl2" using s2(4) by (simp add: freqs_def static_bl_desc_def BL_CODES_def)
  obtain mc bl3 s3 where b: "build_tree static_bl_desc (bl2, ?s) = Some (int mc, bl3, s3)" "length bl3 = length bl2" "tree_frame ?s s3"
    "code_tree (elems static_bl_desc) (max_length static_bl_desc) mc bl3" "work_arrays s3"
    "\<forall>n<elems static_bl_desc. Freq (bl2 ! n) \<noteq> 0 \<longrightarrow> Len (bl3 ! n) \<noteq> 0"
    using build_tree_spec[OF desc_ok_static(3) l39 wa] by blast
  have ct: "code_tree 19 7 mc bl3" and l3: "length bl3 = 39"
    using b(2,4) s2(4) by (simp_all add: static_bl_desc_def BL_CODES_def MAX_BL_BITS_def freqs_def)
  have used: "Len (bl3 ! fst t) \<noteq> 0 \<and> fst t < 19" if "t \<in> set ?toks" for t
  proof -
    have c: "fst t < 19" using that tree_toks_less[OF s1(3)] tree_toks_less[OF s2(3)] unfolding set_append Un_iff by blast
    have "Freq (bl2 ! fst t) = count_list (map fst ?toks) (fst t)"
      using s2(4) c by (simp add: freqs_def plus_toks_def)
    moreover have "count_list (map fst ?toks) (fst t) \<noteq> 0" using that by (intro count_list_pos) force
    ultimately show ?thesis using b(6) c by (simp add: static_bl_desc_def BL_CODES_def)
  qed
  have l256: "(Len (lt1 ! 256), 0, 0) \<in> set ?toks" "1 \<le> Len (lt1 ! 256)" "Len (lt1 ! 256) < 16"
  proof -
    have e: "Len (lt1 ! 256) = Len (dyn_ltree s ! 256)" using lt(3) s1(2) by simp
    then show "1 \<le> Len (lt1 ! 256)" "Len (lt1 ! 256) < 16" using lt(3,4) lens(1) by simp_all
    show "(Len (lt1 ! 256), 0, 0) \<in> set ?toks" using tree_toks_cover[OF s1(3), of 256] lt(3,4) e by simp
  qed
  obtain k where k: "k < 19" "3 \<le> k" "bl_order ! k = Len (lt1 ! 256)" using bl_order_props(5)[OF l256(2,3)] by blast
  have "Len (bl3 ! (bl_order ! k)) \<noteq> 0" using used[OF l256(1)] k(3) by simp
  then obtain m where m: "last_blindex bl3 18 = Some m" "k \<le> m" "m \<le> 18" "\<forall>i. m < i \<and> i \<le> 18 \<longrightarrow> Len (bl3 ! (bl_order ! i)) = 0"
    using last_blindex_spec[OF l3, of 18 k] k by auto
  let ?s' = "s3\<lparr>bl_tree := bl3, bl_max_code := int mc, opt_len := opt_len s3 + (3 * (of_nat m + 1) + 5 + 5 + 4)\<rparr>"
  have run: "build_bl_tree s = Some (m, ?s')"
    unfolding build_bl_tree_def using s1(1) s2(1) b(1) m(1) lt(2) dt(2) by (simp add: BL_CODES_def)
  note ff = tree_frame_fields[OF b(3)]
  have en: "\<forall>t\<in>set (tree_toks lt1 lmc) \<union> set (tree_toks dt1 dmc). encodes bl3 (bl_lens bl3) (fst t)"
    using used bl_lens_props(4)[OF ct] by simp
  have "trees_ready ?s' lmc dmc m"
  proof -
    have "kraft (tree_lens lt1 lmc) = 2 ^ 15" "kraft (tree_lens dt1 dmc) = 2 ^ 15"
      using lt(1) dt(1) unfolding s1(2) s2(2) tree_lens_guard by (simp_all add: code_tree_def)
    moreover have "\<forall>i. m < i \<and> i < 19 \<longrightarrow> Len (bl3 ! (bl_order ! i)) = 0" using m(4) by auto
    moreover have "Len (lt1 ! 256) \<noteq> 0" using l256(2) by simp
    ultimately show ?thesis
      using ff ct l3 m(2,3) k lt(3) lb(1,2) s1(3) s2(3) en unfolding trees_ready_def by (auto simp del: One_nat_def)
  qed
  moreover have "trees_arrays ?s'" using arr ff s1(2) s2(2) l3 b(5) by (simp add: trees_arrays_def work_arrays_def)
  ultimately show ?thesis using run ff s1(2) s2(2) b(3) by (auto simp: tree_frame_def)
qed

text \<open>The part of the state that building the trees leaves alone.\<close>

definition buf_frame :: "'a trees_state_scheme \<Rightarrow> 'a trees_state_scheme \<Rightarrow> bool" where
  "buf_frame s s' \<longleftrightarrow> pending_buf s' = pending_buf s \<and> bi_buf s' = bi_buf s \<and> bi_valid s' = bi_valid s
     \<and> d_buf s' = d_buf s \<and> l_buf s' = l_buf s \<and> last_lit s' = last_lit s \<and> lit_bufsize s' = lit_bufsize s
     \<and> level s' = level s \<and> strategy s' = strategy s"

lemma buf_frame_out:
  assumes "buf_frame s s'"
  shows "out_bits s' = out_bits s" "bit_inv s' = bit_inv s" "block_syms s' = block_syms s" "buf_ok s' = buf_ok s"
  using assms by (simp_all add: buf_frame_def out_bits_def bit_inv_def block_syms_def buf_ok_def)

lemma build_trees_spec:
  assumes inv: "trees_inv s"
  shows "\<exists>m s' lmc dmc. build_trees s = Some (m, s') \<and> trees_ready s' lmc dmc m \<and> l_max_code s' = int lmc \<and> d_max_code s' = int dmc
    \<and> trees_arrays s' \<and> buf_frame s s'
    \<and> (\<forall>x\<in>set (block_syms s). sym_encodes (dyn_ltree s') (dyn_dtree s') (tree_lens (dyn_ltree s') lmc) (tree_lens (dyn_dtree s') dmc) x)
    \<and> encodes (dyn_ltree s') (tree_lens (dyn_ltree s') lmc) 256"
proof -
  have arr: "trees_arrays s" "buf_ok s" and
    fr: "\<forall>c<286. Freq (dyn_ltree s ! c) = lcount (block_syms s) c" "\<forall>c<30. Freq (dyn_dtree s ! c) = dcount (block_syms s) c"
      "\<forall>c<19. Freq (bl_tree s ! c) = 0" using inv unfolding trees_inv_def by blast+
  have al: "length (dyn_ltree s) = 573" "length (dyn_dtree s) = 61" "work_arrays s" using arr by (simp_all add: trees_arrays_def)
  obtain d where d: "detect_data_type s = Some d" using detect_data_type_Some[OF al(1)] by blast
  define s0 where "s0 = (if data_type s = Z_UNKNOWN then s\<lparr>data_type := d\<rparr> else s)"
  have s0: "(if data_type s = Z_UNKNOWN then do { d \<leftarrow> detect_data_type s; Some (s\<lparr>data_type := d\<rparr>) } else Some s) = Some s0"
    using d by (simp add: s0_def)
  have f0: "buf_frame s s0" "dyn_ltree s0 = dyn_ltree s" "dyn_dtree s0 = dyn_dtree s" "bl_tree s0 = bl_tree s" "work_arrays s0"
    using al(3) by (simp_all add: s0_def buf_frame_def work_arrays_def)
  have E: "elems static_l_desc = 286" "elems static_d_desc = 30" "max_length static_l_desc = 15" "max_length static_d_desc = 15"
    by (simp_all add: static_l_desc_def static_d_desc_def L_CODES_def LITERALS_def LENGTH_CODES_def D_CODES_def MAX_BITS_def)
  have ll: "2 * elems static_l_desc < length (dyn_ltree s)" "2 * elems static_d_desc < length (dyn_dtree s)" using E al by simp_all
  obtain lmc lt s1 where b1: "build_tree static_l_desc (dyn_ltree s, s0) = Some (int lmc, lt, s1)" "length lt = length (dyn_ltree s)"
    "tree_frame s0 s1" "code_tree 286 15 lmc lt" "work_arrays s1" "\<forall>n<286. Freq (dyn_ltree s ! n) \<noteq> 0 \<longrightarrow> Len (lt ! n) \<noteq> 0"
    using build_tree_spec[OF desc_ok_static(1) ll(1) f0(5)] unfolding E by blast
  define s2 where "s2 = s1\<lparr>dyn_ltree := lt, l_max_code := int lmc\<rparr>"
  note f1 = tree_frame_fields[OF b1(3)]
  have f2: "dyn_dtree s2 = dyn_dtree s" "work_arrays s2" using f1 f0 b1(5) by (simp_all add: s2_def work_arrays_def)
  obtain dmc dt s3 where b2: "build_tree static_d_desc (dyn_dtree s, s2) = Some (int dmc, dt, s3)" "length dt = length (dyn_dtree s)"
    "tree_frame s2 s3" "code_tree 30 15 dmc dt" "work_arrays s3" "\<forall>n<30. Freq (dyn_dtree s ! n) \<noteq> 0 \<longrightarrow> Len (dt ! n) \<noteq> 0"
    using build_tree_spec[OF desc_ok_static(2) ll(2) f2(2)] unfolding E by blast
  define s4 where "s4 = s3\<lparr>dyn_dtree := dt, d_max_code := int dmc\<rparr>"
  note f3 = tree_frame_fields[OF b2(3)]
  have s4: "dyn_ltree s4 = lt" "dyn_dtree s4 = dt" "bl_tree s4 = bl_tree s" "l_max_code s4 = int lmc" "d_max_code s4 = int dmc"
    using f3 f1 f0 by (simp_all add: s4_def s2_def)
  have fr4: "buf_frame s s4"
    using f3 f1 f0(1) b1(3) b2(3) by (simp add: s4_def s2_def buf_frame_def tree_frame_def)
  have a4: "trees_arrays s4" using arr(1) fr4 s4 b1(2) b2(2,5) by (simp add: trees_arrays_def buf_frame_def work_arrays_def s4_def)
  have l256: "Len (lt ! 256) \<noteq> 0" using b1(6) fr(1) by (simp add: lcount_def)
  have lm: "256 \<le> lmc"
  proof (rule ccontr)
    assume "\<not> 256 \<le> lmc"
    then show False using l256 b1(4) by (simp add: code_tree_def)
  qed
  obtain m s5 where b3: "build_bl_tree s4 = Some (m, s5)" "trees_ready s5 lmc dmc m" "trees_arrays s5"
    "dyn_ltree s5 = lt[lmc + 1 := (lt ! (lmc + 1))\<lparr>dl := 0xffff\<rparr>]" "dyn_dtree s5 = dt[dmc + 1 := (dt ! (dmc + 1))\<lparr>dl := 0xffff\<rparr>]"
    "buf_frame s4 s5" "l_max_code s5 = int lmc" "d_max_code s5 = int dmc"
    using build_bl_tree_spec[OF a4, of lmc dmc] fr(3) b1(4) b2(4) lm l256 unfolding s4 buf_frame_def by blast
  have run: "build_trees s = Some (m, s5)"
    unfolding build_trees_def s0 Option.bind_lunit f0(2) b1(1) prod.case Let_def s2_def[symmetric] f2(1) b2(1) s4_def[symmetric] by (rule b3(1))
  have e: "encodes (dyn_ltree s5) (tree_lens (dyn_ltree s5) lmc) c" if "c < 286" "Len (lt ! c) \<noteq> 0" for c
    unfolding b3(4) tree_lens_guard by (rule encodes_guard[OF code_tree_encodes[OF b1(4) order_refl that]])
  have ed: "encodes (dyn_dtree s5) (tree_lens (dyn_dtree s5) dmc) c" if "c < 30" "Len (dt ! c) \<noteq> 0" for c
    unfolding b3(5) tree_lens_guard by (rule encodes_guard[OF code_tree_encodes[OF b2(4) order_refl that]])
  have "sym_encodes (dyn_ltree s5) (dyn_dtree s5) (tree_lens (dyn_ltree s5) lmc) (tree_lens (dyn_dtree s5) dmc) x" if x: "x \<in> set (block_syms s)" for x
  proof -
    have ok: "sym_ok x" using arr(2) x by (simp add: buf_ok_def list_all_iff)
    have "Len (lt ! lsym x) \<noteq> 0" using b1(6) fr(1) lsym_less[OF ok] lcount_pos[OF x] by metis
    moreover have "Len (dt ! dsym x) \<noteq> 0" if "fst x \<noteq> 0" using b2(6) fr(2) dsym_less[OF ok that] dcount_pos[OF x that] by metis
    ultimately show ?thesis using e[OF lsym_less[OF ok]] ed dsym_less[OF ok] by (simp add: sym_encodes_def)
  qed
  moreover have "buf_frame s s5" using fr4 b3(6) by (simp add: buf_frame_def)
  ultimately show ?thesis using run b3 e[of 256] l256 by auto
qed

section \<open>Stored blocks\<close>

lemma take_bytes_bits: "to_bytes (length bs) (bytes_bits bs @ rest) = bs"
proof (induction bs)
  case (Cons b bs)
  have "bval (byte_bits b) = unat b"
  proof -
    have "byte_bits b = bits_of 8 (unat b)" by (simp add: byte_bits_def bits_of_def bit_unsigned_iff)
    moreover have "unat b < 256" by (rule order_less_le_trans[OF unsigned_less]) simp
    ultimately show ?thesis by (simp add: bval_bits_of)
  qed
  then show ?case using Cons by (simp add: bytes_bits_def)
qed simp

lemma map_bit_ush: "map (bit (w :: ush)) [0..<16] = bits_of 16 (unat w)"
  by (simp add: bits_of_def bit_unsigned_iff del: upt_Suc)

definition stored_bits :: "byte list \<Rightarrow> bool list" where
  "stored_bits bs = bits_of 16 (length bs) @ bits_of 16 (65535 - length bs) @ bytes_bits bs"

lemma decode_stored_bits:
  assumes "length bs < 65536" "length rest mod 8 = 0" "k < 8"
  shows "decode_stored out (replicate k False @ stored_bits bs @ rest) = Some (out @ bs, rest)"
proof -
  have l: "length (stored_bits bs @ rest) mod 8 = 0" using assms(2) by (simp add: stored_bits_def) presburger
  have "length (replicate k False @ stored_bits bs @ rest) mod 8 = k"
    using l assms(3) by (simp del: length_append add: length_append[of "replicate k False"]) (metis add.right_neutral mod_add_right_eq mod_less)
  then have d: "drop (length (replicate k False @ stored_bits bs @ rest) mod 8) (replicate k False @ stored_bits bs @ rest)
    = bits_of 16 (length bs) @ bits_of 16 (65535 - length bs) @ bytes_bits bs @ rest" by (simp add: stored_bits_def)
  have t: "take_bits 16 (bits_of 16 (length bs) @ r) = Some (length bs, r)"
    "take_bits 16 (bits_of 16 (65535 - length bs) @ r) = Some (65535 - length bs, r)" for r
    using assms(1) by (auto intro!: take_bits_of)
  show ?thesis unfolding decode_stored_def Let_def d t Option.bind_lunit prod.case
    using assms(1) by (simp add: take_bytes_bits)
qed

lemma out_frame_windup [simp]: "out_frame s (bi_windup s)"
  unfolding bi_windup_def Let_def by (auto intro!: out_frame_upd)

lemma writes_windup: "bit_inv s \<Longrightarrow> writes s (bi_windup s) (replicate (pad_len (length (out_bits s))) False)"
  using bi_windup_stream[of s] by (simp add: writes_def)

lemma put_short_aligned:
  assumes "bit_inv s" "bi_valid s = 0"
  shows "writes s (put_short s w) (bits_of 16 (unat w))" "bi_valid (put_short s w) = 0"
proof -
  show v: "bi_valid (put_short s w) = 0" using assms(2) by (simp add: put_short_def put_byte_def)
  have "bi_buf (put_short s w) = bi_buf s" by (simp add: put_short_def put_byte_def)
  then show "writes s (put_short s w) (bits_of 16 (unat w))"
    using assms v put_short_bits[of s w] by (simp add: writes_def bit_inv_def out_bits_def map_bit_ush)
qed

lemma unat_not_ush: "n < 65536 \<Longrightarrow> unat (NOT (of_nat n) :: ush) = 65535 - n"
proof -
  assume n: "n < 65536"
  have "(NOT (of_nat n) :: ush) = -1 - of_nat n" by (simp add: not_eq_complement)
  moreover have "unat (-1 - of_nat n :: ush) = unat (-1 :: ush) - unat (of_nat n :: ush)" by (rule unat_sub) simp
  ultimately show ?thesis using n by (simp add: unsigned_of_nat take_bit_nat_eq_self unsigned_minus_1_eq_mask mask_eq_exp_minus_1)
qed

lemma tr_stored_block_writes:
  assumes inv: "bit_inv s" and l: "stored_len \<le> length b" "stored_len < 65536" "lst \<le> 1"
  shows "\<exists>s' k. tr_stored_block s b stored_len lst = Some s' \<and> k = pad_len (length (out_bits s) + 3)
    \<and> writes s s' (bits_of 3 lst @ replicate k False @ stored_bits (take stored_len b)) \<and> bi_valid s' = 0"
proof -
  define s1 where "s1 = send_bits s lst 3"
  define s2 where "s2 = bi_windup s1"
  define s3 where "s3 = put_short s2 (of_nat stored_len)"
  define s4 where "s4 = put_short s3 (NOT (of_nat stored_len))"
  let ?s5 = "s4\<lparr>pending_buf := pending_buf s4 @ take stored_len b\<rparr>"
  have w1: "writes s s1 (bits_of 3 lst)" unfolding s1_def using l(3) by (intro writes_send[OF inv]) simp_all
  have w2: "writes s1 s2 (replicate (pad_len (length (out_bits s1))) False)" "bi_valid s2 = 0"
    unfolding s2_def using writes_windup[OF writes_inv[OF w1]] bi_windup_stream(2)[OF writes_inv[OF w1]] by simp_all
  note w3 = put_short_aligned[OF writes_inv[OF w2(1)] w2(2), of "of_nat stored_len", folded s3_def]
  note w4 = put_short_aligned[OF writes_inv[OF w3(1)] w3(2), of "NOT (of_nat stored_len)", folded s4_def]
  have w5: "writes s4 ?s5 (bytes_bits (take stored_len b))"
  proof -
    have "out_frame s4 ?s5" unfolding out_frame_def by (intro exI[of _ "pending_buf ?s5"] exI[of _ "bi_buf s4"] exI[of _ "bi_valid s4"]) simp
    then show ?thesis using writes_inv[OF w4(1)] w4(2) by (simp add: writes_def bit_inv_def out_bits_def)
  qed
  have "unat (of_nat stored_len :: ush) = stored_len" using l(2) by (simp add: unsigned_of_nat take_bit_nat_eq_self)
  moreover have "length (out_bits s1) = length (out_bits s) + 3" using w1 by (simp add: writes_def)
  ultimately have "writes s ?s5 (bits_of 3 lst @ replicate (pad_len (length (out_bits s) + 3)) False @ stored_bits (take stored_len b))"
    using writes_trans[OF w1 writes_trans[OF w2(1) writes_trans[OF w3(1) writes_trans[OF w4(1) w5]]]] l
    by (simp add: stored_bits_def unat_not_ush)
  moreover have "tr_stored_block s b stored_len lst = Some ?s5"
    using l(1) by (simp add: tr_stored_block_def Let_def STORED_BLOCK_def s1_def s2_def s3_def s4_def)
  ultimately show ?thesis using w4(2) by simp
qed

section \<open>Flushing a block\<close>

lemma clear_freqs_spec:
  assumes "n \<le> length tree"
  shows "\<exists>tree'. clear_freqs tree n = Some tree' \<and> length tree' = length tree \<and> (\<forall>c<n. Freq (tree' ! c) = 0)"
proof -
  let ?I = "\<lambda>k t. length t = length tree \<and> (\<forall>c<k. Freq (t ! c) = 0)"
  have "\<exists>t. clear_freqs tree n = Some t \<and> ?I n t"
    unfolding clear_freqs_def
  proof (rule foldM_upt_inv[where I = ?I])
    fix i t assume "i < n" "?I i t"
    then show "\<exists>t'. do { e \<leftarrow> rd t i; wr t i (e\<lparr>fc := 0\<rparr>) } = Some t' \<and> ?I (Suc i) t'"
      using assms by (auto simp: nth_list_update less_Suc_eq)
  qed simp_all
  then show ?thesis by blast
qed

text \<open>What blocks and symbols leave as it is: the parameters, and in between the bits written.\<close>

definition same_params :: "'a trees_state_scheme \<Rightarrow> 'a trees_state_scheme \<Rightarrow> bool" where
  "same_params s s' \<longleftrightarrow> lit_bufsize s' = lit_bufsize s \<and> level s' = level s \<and> strategy s' = strategy s"

definition same_bits :: "'a bit_state_scheme \<Rightarrow> 'a bit_state_scheme \<Rightarrow> bool" where
  "same_bits s s' \<longleftrightarrow> pending_buf s' = pending_buf s \<and> bi_buf s' = bi_buf s \<and> bi_valid s' = bi_valid s"

lemma same_bits_out: "same_bits s s' \<Longrightarrow> out_bits s' = out_bits s \<and> bit_inv s' = bit_inv s"
  by (simp add: same_bits_def out_bits_def bit_inv_def)

lemma init_block_spec:
  assumes arr: "trees_arrays s"
  shows "\<exists>s'. init_block s = Some s' \<and> trees_inv s' \<and> block_syms s' = []
    \<and> pending_buf s' = pending_buf s \<and> bi_buf s' = bi_buf s \<and> bi_valid s' = bi_valid s \<and> same_params s s'"
proof -
  note a = arr[unfolded trees_arrays_def]
  obtain lt where lt: "clear_freqs (dyn_ltree s) L_CODES = Some lt" "length lt = length (dyn_ltree s)" "\<forall>c<L_CODES. Freq (lt ! c) = 0"
    using clear_freqs_spec[of L_CODES "dyn_ltree s"] a by (auto simp: L_CODES_def LITERALS_def LENGTH_CODES_def)
  obtain dt where dt: "clear_freqs (dyn_dtree s) D_CODES = Some dt" "length dt = length (dyn_dtree s)" "\<forall>c<D_CODES. Freq (dt ! c) = 0"
    using clear_freqs_spec[of D_CODES "dyn_dtree s"] a by (auto simp: D_CODES_def)
  obtain bt where bt: "clear_freqs (bl_tree s) BL_CODES = Some bt" "length bt = length (bl_tree s)" "\<forall>c<BL_CODES. Freq (bt ! c) = 0"
    using clear_freqs_spec[of BL_CODES "bl_tree s"] a by (auto simp: BL_CODES_def)
  have E: "END_BLOCK = 256" "L_CODES = 286" "D_CODES = 30" "BL_CODES = 19"
    by (simp_all add: END_BLOCK_def L_CODES_def LITERALS_def LENGTH_CODES_def D_CODES_def BL_CODES_def)
  let ?lt = "lt[256 := (lt ! 256)\<lparr>fc := 1\<rparr>]"
  let ?s = "s\<lparr>dyn_ltree := ?lt, dyn_dtree := dt, bl_tree := bt, opt_len := 0, static_len := 0, last_lit := 0, matches := 0\<rparr>"
  have l: "256 < length lt" using lt(2) a by simp
  have run: "init_block s = Some ?s"
    unfolding init_block_def lt(1) dt(1) bt(1) Option.bind_lunit E(1) using l by simp
  have "trees_arrays ?s" using a lt(2) dt(2) bt(2) by (simp add: trees_arrays_def work_arrays_def)
  moreover have "\<forall>c<286. Freq (?lt ! c) = lcount [] c" using lt(2,3) a E by (simp add: lcount_def nth_list_update)
  moreover have "\<forall>c<30. Freq (dt ! c) = dcount [] c" using dt(3) E by (simp add: dcount_def)
  ultimately have "trees_inv ?s"
    using bt(3) E a by (simp add: trees_inv_def buf_ok_def block_syms_def)
  then show ?thesis using run by (simp add: block_syms_def same_params_def)
qed

lemma decode_block_head:
  assumes "lst \<le> 1" "t < 4"
  shows "take_bits 1 (bits_of 3 (t * 2 + lst) @ r) = Some (lst, bits_of 2 t @ r)" "take_bits 2 (bits_of 2 t @ r) = Some (t, r)"
proof -
  have "bits_of 3 (t * 2 + lst) = bits_of 1 lst @ bits_of 2 t"
    using assms(1) bits_of_Suc[of 2 "t * 2 + lst"] bits_of_Suc[of 0 lst] by (cases "lst = 0") simp_all
  then show "take_bits 1 (bits_of 3 (t * 2 + lst) @ r) = Some (lst, bits_of 2 t @ r)"
    using assms(1) take_bits_of[of lst 1] by simp
  show "take_bits 2 (bits_of 2 t @ r) = Some (t, r)" using assms(2) by (intro take_bits_of) simp
qed

text \<open>The bits of a block after the data \<open>hist\<close>, from position \<open>pos\<close> of the stream on.\<close>

definition block_of :: "nat \<Rightarrow> byte list \<Rightarrow> nat \<Rightarrow> byte list \<Rightarrow> bool list \<Rightarrow> bool" where
  "block_of pos hist lst out bs \<longleftrightarrow>
     (\<forall>rest. (pos + length bs + length rest) mod 8 = 0 \<longrightarrow> decode_block hist (bs @ rest) = Some (lst, out, rest))"

lemma pad_len_aligned: "8 dvd n + pad_len n"
proof (cases "n mod 8 = 0")
  case False
  then have "pad_len n = 8 - n mod 8" by (simp add: pad_len_def)
  then have "n + pad_len n = 8 * (n div 8) + 8" using mult_div_mod_eq[of 8 n] mod_less_divisor[of 8 n] by linarith
  then show ?thesis by simp
qed (simp add: pad_len_def dvd_eq_mod_eq_0)

lemma stored_block_of:
  assumes "lst \<le> 1" "length b < 65536"
  shows "block_of pos hist lst (hist @ b) (bits_of 3 lst @ replicate (pad_len (pos + 3)) False @ stored_bits b)"
  unfolding block_of_def
proof (intro allI impI)
  fix rest :: "bool list"
  let ?k = "pad_len (pos + 3)"
  assume al: "(pos + length (bits_of 3 lst @ replicate ?k False @ stored_bits b) + length rest) mod 8 = 0"
  have "8 dvd pos + 3 + ?k + length (stored_bits b)"
    by (rule dvd_add[OF pad_len_aligned]) (simp add: stored_bits_def)
  moreover have "8 dvd pos + 3 + ?k + length (stored_bits b) + length rest"
    using al by (simp add: dvd_eq_mod_eq_0 add.assoc)
  ultimately have r: "length rest mod 8 = 0" unfolding dvd_eq_mod_eq_0[symmetric] by (metis dvd_add_right_iff)
  have k: "?k < 8" by (simp add: pad_len_def)
  note h = decode_block_head[OF assms(1), of 0, simplified]
  show "decode_block hist ((bits_of 3 lst @ replicate ?k False @ stored_bits b) @ rest) = Some (lst, hist @ b, rest)"
    using decode_stored_bits[OF assms(2) r k, of hist] by (simp add: decode_block_def h)
qed

lemma static_lens_kraft: "kraft static_lens = 2 ^ 15" "\<forall>l\<in>set static_lens. l \<le> 15"
  by (simp_all add: kraft_def static_lens_def filter_replicate sum_list_replicate)

lemma static_block_of:
  assumes "lst \<le> 1" "\<forall>x\<in>set syms. sym_ok x" "lz_syms hist syms = Some out"
  shows "block_of pos hist lst out (bits_of 3 (STATIC_TREES * 2 + lst) @ block_bits static_lens fixed_dlens syms)"
proof -
  have ld: "lens_decode static_lens" "lens_decode fixed_dlens"
    using static_lens_kraft fixed_dlens_kraft by (simp_all add: lens_decode_def)
  have "\<forall>x\<in>set syms. sym_ok x \<and> sym_encodes static_ltree static_dtree static_lens fixed_dlens x"
    using assms(2) static_l_encodes[OF lsym_less] static_d_encodes[OF dsym_less] by (simp add: sym_encodes_def)
  note d = decode_block_bits[OF ld static_l_encodes[of 256, simplified] this, of hist]
  note h = decode_block_head[OF assms(1), of 1, simplified]
  show ?thesis
    unfolding block_of_def STATIC_TREES_def using d assms(3) by (simp add: decode_block_def h)
qed

lemma dynamic_block_of:
  assumes l: "lst \<le> 1" and s: "\<forall>x\<in>set syms. sym_ok x" "lz_syms hist syms = Some out" and r: "trees_ready s lmc dmc m"
    and e: "\<forall>x\<in>set syms. sym_encodes (dyn_ltree s) (dyn_dtree s) (tree_lens (dyn_ltree s) lmc) (tree_lens (dyn_dtree s) dmc) x"
      "encodes (dyn_ltree s) (tree_lens (dyn_ltree s) lmc) 256"
  shows "block_of pos hist lst out (bits_of 3 (DYN_TREES * 2 + lst) @ header_bits s lmc dmc m
    @ block_bits (tree_lens (dyn_ltree s) lmc) (tree_lens (dyn_dtree s) dmc) syms)"
proof -
  let ?ll = "tree_lens (dyn_ltree s) lmc" and ?dl = "tree_lens (dyn_dtree s) dmc"
  note R = r[unfolded trees_ready_def]
  have ld: "lens_decode ?ll" "lens_decode ?dl"
    using R by (auto simp: lens_decode_def tree_lens_def guarded_def in_set_conv_nth less_Suc_eq_le[symmetric])
  have "\<forall>x\<in>set syms. sym_ok x \<and> sym_encodes (dyn_ltree s) (dyn_dtree s) ?ll ?dl x" using s(1) e(1) by blast
  note d = decode_block_bits[OF ld e(2) this, of hist]
  note h = decode_block_head[OF l, of 2, simplified]
  show ?thesis
    unfolding block_of_def DYN_TREES_def using d s(2) by (simp add: decode_block_def h decode_header_bits[OF r])
qed

text \<open>The first part of \<open>_tr_flush_block\<close>: the trees and the lengths of the encodings.\<close>

definition flush_plan :: "'a trees_state_scheme \<Rightarrow> nat \<Rightarrow> (nat \<times> 'a trees_state_scheme \<times> ulg \<times> ulg) option" where
  "flush_plan s stored_len = (if level s > 0 then do {
          (max_blindex, s) \<leftarrow> build_trees s;
          let opt_lenb = drop_bit 3 (opt_len s + 3 + 7);
          let static_lenb = drop_bit 3 (static_len s + 3 + 7);
          Some (max_blindex, s, if static_lenb \<le> opt_lenb then static_lenb else opt_lenb, static_lenb) }
        else Some (0, s, of_nat stored_len + 5, of_nat stored_len + 5))"

definition dyn_ready :: "'a trees_state_scheme \<Rightarrow> (nat \<times> nat) list \<Rightarrow> nat \<Rightarrow> bool" where
  "dyn_ready s syms m \<longleftrightarrow> (\<exists>lmc dmc. trees_ready s lmc dmc m \<and> l_max_code s = int lmc \<and> d_max_code s = int dmc
     \<and> (\<forall>x\<in>set syms. sym_encodes (dyn_ltree s) (dyn_dtree s) (tree_lens (dyn_ltree s) lmc) (tree_lens (dyn_dtree s) dmc) x)
     \<and> encodes (dyn_ltree s) (tree_lens (dyn_ltree s) lmc) 256)"

lemma flush_plan_spec:
  assumes inv: "trees_inv s"
  shows "\<exists>m s' ol sl. flush_plan s stored_len = Some (m, s', ol, sl) \<and> buf_frame s s' \<and> trees_arrays s'
    \<and> (dyn_ready s' (block_syms s) m \<or> sl = ol)"
proof (cases "level s > 0")
  case True
  obtain m s' lmc dmc where b: "build_trees s = Some (m, s')" "trees_ready s' lmc dmc m" "l_max_code s' = int lmc" "d_max_code s' = int dmc"
    "trees_arrays s'" "buf_frame s s'"
    "\<forall>x\<in>set (block_syms s). sym_encodes (dyn_ltree s') (dyn_dtree s') (tree_lens (dyn_ltree s') lmc) (tree_lens (dyn_dtree s') dmc) x"
    "encodes (dyn_ltree s') (tree_lens (dyn_ltree s') lmc) 256"
    using build_trees_spec[OF inv] by blast
  have "dyn_ready s' (block_syms s) m" unfolding dyn_ready_def using b by blast
  then show ?thesis using True b(1,5,6) by (simp add: flush_plan_def Let_def)
next
  case False
  then show ?thesis using inv by (simp add: flush_plan_def buf_frame_def trees_inv_def)
qed

text \<open>Each of the three encodings writes a block of the format.\<close>

lemma write_static:
  assumes inv: "bit_inv s" and buf: "buf_ok s" and l: "lst \<le> 1" and z: "lz_syms hist (block_syms s) = Some out"
  shows "\<exists>s' bs. compress_block (send_bits s (STATIC_TREES * 2 + lst) 3) static_ltree static_dtree = Some s' \<and> writes s s' bs
    \<and> block_of (length (out_bits s)) hist lst out bs"
proof -
  let ?s1 = "send_bits s (STATIC_TREES * 2 + lst) 3"
  have w1: "writes s ?s1 (bits_of 3 (STATIC_TREES * 2 + lst))" using l by (intro writes_send[OF inv]) (simp_all add: STATIC_TREES_def)
  note f = out_frame_fields[OF writes_frame[OF w1]]
  have same: "block_syms ?s1 = block_syms s" "buf_ok ?s1" using f buf by (simp_all add: block_syms_def buf_ok_def)
  have ok: "\<forall>x\<in>set (block_syms s). sym_ok x" using buf by (simp add: buf_ok_def list_all_iff)
  then have "\<forall>x\<in>set (block_syms ?s1). sym_encodes static_ltree static_dtree static_lens fixed_dlens x"
    using static_l_encodes[OF lsym_less] static_d_encodes[OF dsym_less] same by (simp add: sym_encodes_def)
  from compress_block_writes[OF writes_inv[OF w1] same(2) this static_l_encodes[of 256, simplified]]
  obtain s2 where "compress_block ?s1 static_ltree static_dtree = Some s2" "writes ?s1 s2 (block_bits static_lens fixed_dlens (block_syms s))"
    unfolding same by blast
  then show ?thesis using writes_trans[OF w1] static_block_of[OF l ok z] by blast
qed

lemma write_dynamic:
  assumes inv: "bit_inv s" and buf: "buf_ok s" and l: "lst \<le> 1" and z: "lz_syms hist (block_syms s) = Some out"
    and d: "dyn_ready s (block_syms s) m"
  shows "\<exists>s1 s' bs. send_all_trees (send_bits s (DYN_TREES * 2 + lst) 3) (nat (l_max_code s) + 1) (nat (d_max_code s) + 1) (m + 1) = Some s1
    \<and> compress_block s1 (dyn_ltree s1) (dyn_dtree s1) = Some s' \<and> writes s s' bs \<and> block_of (length (out_bits s)) hist lst out bs"
proof -
  obtain lmc dmc where r: "trees_ready s lmc dmc m" "l_max_code s = int lmc" "d_max_code s = int dmc"
    "\<forall>x\<in>set (block_syms s). sym_encodes (dyn_ltree s) (dyn_dtree s) (tree_lens (dyn_ltree s) lmc) (tree_lens (dyn_dtree s) dmc) x"
    "encodes (dyn_ltree s) (tree_lens (dyn_ltree s) lmc) 256"
    using d unfolding dyn_ready_def by blast
  let ?s1 = "send_bits s (DYN_TREES * 2 + lst) 3"
  have w1: "writes s ?s1 (bits_of 3 (DYN_TREES * 2 + lst))" using l by (intro writes_send[OF inv]) (simp_all add: DYN_TREES_def)
  note f1 = out_frame_fields[OF writes_frame[OF w1]]
  have r1: "trees_ready ?s1 lmc dmc m" "header_bits ?s1 lmc dmc m = header_bits s lmc dmc m"
    using r(1) f1 by (simp_all add: trees_ready_def header_bits_def)
  obtain s2 where s2: "send_all_trees ?s1 (lmc + 1) (dmc + 1) (m + 1) = Some s2" "writes ?s1 s2 (header_bits s lmc dmc m)"
    using send_all_trees_writes[OF r1(1) writes_inv[OF w1]] r1(2) by auto
  note w2 = writes_trans[OF w1 s2(2)]
  note f2 = out_frame_fields[OF writes_frame[OF w2]]
  have same: "block_syms s2 = block_syms s" "buf_ok s2" using f2 buf by (simp_all add: block_syms_def buf_ok_def)
  obtain s3 where s3: "compress_block s2 (dyn_ltree s) (dyn_dtree s) = Some s3"
    "writes s2 s3 (block_bits (tree_lens (dyn_ltree s) lmc) (tree_lens (dyn_dtree s) dmc) (block_syms s))"
    using compress_block_writes[OF writes_inv[OF w2] same(2) _ r(5), of "dyn_dtree s" "tree_lens (dyn_dtree s) dmc"] r(4) unfolding same by blast
  have ok: "\<forall>x\<in>set (block_syms s). sym_ok x" using buf by (simp add: buf_ok_def list_all_iff)
  have "writes s s3 (bits_of 3 (DYN_TREES * 2 + lst) @ header_bits s lmc dmc m
    @ block_bits (tree_lens (dyn_ltree s) lmc) (tree_lens (dyn_dtree s) dmc) (block_syms s))"
    using writes_trans[OF w2 s3(2)] by simp
  moreover have "compress_block s2 (dyn_ltree s2) (dyn_dtree s2) = Some s3" using s3(1) f2 by simp
  moreover note dynamic_block_of[OF l ok z r(1) r(4,5)] s2(1)
  ultimately show ?thesis unfolding r(2,3) nat_int by blast
qed

lemma trees_arrays_frame: "out_frame s s' \<Longrightarrow> trees_arrays s \<Longrightarrow> trees_arrays s'"
  by (simp add: trees_arrays_def work_arrays_def out_frame_fields)

lemma tr_flush_block_spec:
  assumes inv: "trees_inv s" "bit_inv s" and l: "lst \<le> 1" and z: "lz_syms hist (block_syms s) = Some out"
    and buf: "\<And>b. buf = Some b \<Longrightarrow> stored_len < 65536 \<and> stored_len \<le> length b \<and> out = hist @ take stored_len b"
  shows "\<exists>s' bs. tr_flush_block s buf stored_len lst = Some s' \<and> trees_inv s' \<and> bit_inv s' \<and> block_syms s' = []
    \<and> block_of (length (out_bits s)) hist lst out bs \<and> same_params s s'
    \<and> out_bits s' = out_bits s @ bs @ (if lst = 0 then [] else replicate (pad_len (length (out_bits s @ bs))) False)"
proof -
  obtain m s1 ol sl where p: "flush_plan s stored_len = Some (m, s1, ol, sl)" "buf_frame s s1" "trees_arrays s1"
    "dyn_ready s1 (block_syms s) m \<or> sl = ol" using flush_plan_spec[OF inv(1)] by blast
  note f = buf_frame_out[OF p(2)]
  have bo: "buf_ok s1" "bit_inv s1" using inv f by (simp_all add: trees_inv_def)
  let ?step = "if of_nat stored_len + 4 \<le> ol \<and> buf \<noteq> None then tr_stored_block s1 (the buf) stored_len lst
           else if strategy s1 = Z_FIXED \<or> sl = ol then
             compress_block (send_bits s1 (STATIC_TREES * 2 + lst) 3) static_ltree static_dtree
           else do {
             s \<leftarrow> send_all_trees (send_bits s1 (DYN_TREES * 2 + lst) 3) (nat (l_max_code s1) + 1) (nat (d_max_code s1) + 1) (m + 1);
             compress_block s (dyn_ltree s) (dyn_dtree s) }"
  have "\<exists>s2 bs. ?step = Some s2 \<and> writes s1 s2 bs \<and> block_of (length (out_bits s1)) hist lst out bs"
  proof -
    consider (stored) b where "of_nat stored_len + 4 \<le> ol \<and> buf \<noteq> None" "buf = Some b"
      | (static) "\<not> (of_nat stored_len + 4 \<le> ol \<and> buf \<noteq> None)" "strategy s1 = Z_FIXED \<or> sl = ol"
      | (dynamic) "\<not> (of_nat stored_len + 4 \<le> ol \<and> buf \<noteq> None)" "\<not> (strategy s1 = Z_FIXED \<or> sl = ol)" by blast
    then show ?thesis
    proof cases
      case stored
      have b: "stored_len \<le> length b" "out = hist @ take stored_len b" "stored_len < 65536" using buf[OF stored(2)] by simp_all
      obtain s2 where "tr_stored_block s1 b stored_len lst = Some s2"
        "writes s1 s2 (bits_of 3 lst @ replicate (pad_len (length (out_bits s1) + 3)) False @ stored_bits (take stored_len b))"
        using tr_stored_block_writes[OF bo(2) b(1,3) l] by blast
      moreover have "length (take stored_len b) < 65536" "the buf = b" using b(3) stored(2) by simp_all
      ultimately show ?thesis
        using stored_block_of[OF l, of "take stored_len b" "length (out_bits s1)" hist] unfolding if_P[OF stored(1)] b(2) by metis
    next
      case static
      show ?thesis unfolding if_not_P[OF static(1)] if_P[OF static(2)] using write_static[OF bo(2,1) l] z f(3) by simp
    next
      case dynamic
      have "dyn_ready s1 (block_syms s1) m" using p(4) dynamic(2) f(3) by simp
      then show ?thesis unfolding if_not_P[OF dynamic(1)] if_not_P[OF dynamic(2)]
        using write_dynamic[OF bo(2,1) l, of hist out m] z f(3) by auto
    qed
  qed
  then obtain s2 bs where s2: "?step = Some s2" "writes s1 s2 bs" "block_of (length (out_bits s1)) hist lst out bs" by blast
  obtain s3 where s3: "init_block s2 = Some s3" "trees_inv s3" "block_syms s3 = []" "pending_buf s3 = pending_buf s2" "bi_buf s3 = bi_buf s2" "bi_valid s3 = bi_valid s2" "same_params s2 s3"
    using init_block_spec[OF trees_arrays_frame[OF writes_frame[OF s2(2)] p(3)]] by blast
  have o3: "out_bits s3 = out_bits s @ bs" "bit_inv s3"
    using s2(2) s3(4-6) f(1) by (simp_all add: writes_def out_bits_def bit_inv_def)
  let ?s4 = "if lst \<noteq> 0 then bi_windup s3 else s3"
  have run: "tr_flush_block s buf stored_len lst = Some ?s4"
    unfolding tr_flush_block_def flush_plan_def[symmetric] p(1) Option.bind_lunit prod.case s2(1) s3(1) by (rule refl)
  have w: "out_frame s3 ?s4" by simp
  have "trees_inv ?s4 \<and> block_syms ?s4 = []"
    using s3(2,3) trees_arrays_frame[OF w] out_frame_fields[OF w] by (auto simp: trees_inv_def buf_ok_def block_syms_def)
  moreover have "bit_inv ?s4" "out_bits ?s4 = out_bits s @ bs @ (if lst = 0 then [] else replicate (pad_len (length (out_bits s @ bs))) False)"
    using bi_windup_stream[OF o3(2)] o3 by (auto simp del: length_append)
  moreover have "same_params s ?s4"
    using out_frame_fields[OF w] out_frame_fields[OF writes_frame[OF s2(2)]] s3(7) p(2) by (simp add: same_params_def buf_frame_def del: if_split)
  ultimately show ?thesis using run s2(3) f(1) by auto
qed

section \<open>Filling the buffer\<close>

lemma add_freq_Some:
  assumes "i < length tree" "Freq (tree ! i) + k < 65536"
  shows "add_freq tree i k = Some (tree[i := (tree ! i)\<lparr>fc := Freq (tree ! i) + k\<rparr>])"
  using assms by (simp add: add_freq_def ushort_def)

lemma lcount_snoc: "lcount (syms @ [x]) c = lcount syms c + (if lsym x = c then 1 else 0)"
  by (simp add: lcount_def)

lemma dcount_snoc: "dcount (syms @ [x]) c = dcount syms c + (if fst x \<noteq> 0 \<and> dsym x = c then 1 else 0)"
  by (simp add: dcount_def)

lemma lcount_bound: "lcount syms c \<le> length syms + 1"
  using count_le_length[of "map lsym syms" c] by (auto simp: lcount_def)

lemma dcount_bound: "dcount syms c \<le> length syms"
  unfolding dcount_def by (rule order_trans[OF count_le_length]) simp

lemma length_block_syms [simp]: "length (block_syms s) = last_lit s"
  by (simp add: block_syms_def)

text \<open>Recording a symbol: the buffers and the frequencies change together.\<close>

definition bump :: "ct_data list \<Rightarrow> nat \<Rightarrow> ct_data list" where
  "bump tree i = tree[i := (tree ! i)\<lparr>fc := Freq (tree ! i) + 1\<rparr>]"

lemma Freq_bump: "c < length tree \<Longrightarrow> Freq (bump tree i ! c) = Freq (tree ! c) + (if i = c then 1 else 0)"
  by (simp add: bump_def nth_list_update)

lemma length_bump [simp]: "length (bump tree i) = length tree"
  by (simp add: bump_def)

lemma tally_room:
  assumes inv: "trees_inv s" and room: "last_lit s < lit_bufsize s" and ok: "sym_ok x"
  shows "add_freq (dyn_ltree s) (lsym x) 1 = Some (bump (dyn_ltree s) (lsym x))"
    "fst x \<noteq> 0 \<Longrightarrow> add_freq (dyn_dtree s) (dsym x) 1 = Some (bump (dyn_dtree s) (dsym x))"
    "last_lit s < length (d_buf s)" "last_lit s < length (l_buf s)"
proof -
  note i = inv[unfolded trees_inv_def trees_arrays_def]
  have b: "last_lit s < 32768" using i room by linarith
  show "last_lit s < length (d_buf s)" "last_lit s < length (l_buf s)" using i room by simp_all
  have "Freq (dyn_ltree s ! lsym x) \<le> last_lit s + 1" using i lsym_less[OF ok] lcount_bound[of "block_syms s" "lsym x"] by simp
  then show "add_freq (dyn_ltree s) (lsym x) 1 = Some (bump (dyn_ltree s) (lsym x))"
    unfolding bump_def using i b lsym_less[OF ok] by (intro add_freq_Some) simp_all
  assume f: "fst x \<noteq> 0"
  have "Freq (dyn_dtree s ! dsym x) \<le> last_lit s" using i dsym_less[OF ok f] dcount_bound[of "block_syms s" "dsym x"] by simp
  then show "add_freq (dyn_dtree s) (dsym x) 1 = Some (bump (dyn_dtree s) (dsym x))"
    unfolding bump_def using i b dsym_less[OF ok f] by (intro add_freq_Some) simp_all
qed

lemma tally_inv:
  assumes inv: "trees_inv s" and room: "last_lit s < lit_bufsize s" and ok: "sym_ok x"
    and s': "d_buf s' = (d_buf s)[last_lit s := fst x]" "l_buf s' = (l_buf s)[last_lit s := snd x]" "last_lit s' = last_lit s + 1"
      "dyn_ltree s' = bump (dyn_ltree s) (lsym x)" "dyn_dtree s' = (if fst x = 0 then dyn_dtree s else bump (dyn_dtree s) (dsym x))"
      "bl_tree s' = bl_tree s" "lit_bufsize s' = lit_bufsize s" "heap s' = heap s" "depth s' = depth s" "bl_count s' = bl_count s"
  shows "trees_inv s'" "block_syms s' = block_syms s @ [x]"
proof -
  note i = inv[unfolded trees_inv_def trees_arrays_def work_arrays_def]
  have l: "last_lit s < length (d_buf s)" "last_lit s < length (l_buf s)" using i room by simp_all
  show b: "block_syms s' = block_syms s @ [x]"
    using l s' by (auto simp: block_syms_def nth_list_update)
  have "buf_ok s'" using i ok s' l unfolding buf_ok_def b by simp
  moreover have "trees_arrays s'" using i s' by (simp add: trees_arrays_def work_arrays_def)
  moreover have "\<forall>c<286. Freq (dyn_ltree s' ! c) = lcount (block_syms s') c"
    using i unfolding b s' by (simp add: Freq_bump lcount_snoc)
  moreover have "\<forall>c<30. Freq (dyn_dtree s' ! c) = dcount (block_syms s') c"
    using i unfolding b s' by (simp add: Freq_bump dcount_snoc)
  moreover have "\<forall>c<19. Freq (bl_tree s' ! c) = 0" using i s' by simp
  ultimately show "trees_inv s'" by (simp add: trees_inv_def)
qed

lemma lsym_match: "d \<noteq> 0 \<Longrightarrow> length_code ! lc + LITERALS + 1 = lsym (d, lc)"
  by (simp add: lsym_def LITERALS_def)

lemma tr_tally_lit_spec:
  assumes inv: "trees_inv s" and room: "last_lit s < lit_bufsize s" and c: "c < 256"
  shows "\<exists>s'. tr_tally_lit s c = Some (last_lit s + 1 = lit_bufsize s - 1, s') \<and> trees_inv s' \<and> block_syms s' = block_syms s @ [(0, c)]
    \<and> same_bits s s' \<and> same_params s s'"
proof -
  have ok: "sym_ok (0, c)" using c by (simp add: sym_ok_def)
  note r = tally_room[OF inv room ok]
  let ?s = "s\<lparr>d_buf := (d_buf s)[last_lit s := 0], l_buf := (l_buf s)[last_lit s := c], last_lit := last_lit s + 1, dyn_ltree := bump (dyn_ltree s) c\<rparr>"
  have l: "lsym (0, c) = c" by (simp add: lsym_def)
  have "tr_tally_lit s c = Some (last_lit s + 1 = lit_bufsize s - 1, ?s)"
    using r c unfolding l by (simp add: tr_tally_lit_def uchar_def)
  moreover have "trees_inv ?s" "block_syms ?s = block_syms s @ [(0, c)]"
    using tally_inv[OF inv room ok, of ?s] l by simp_all
  ultimately show ?thesis by (simp add: same_bits_def same_params_def)
qed

lemma tr_tally_dist_spec:
  assumes inv: "trees_inv s" and room: "last_lit s < lit_bufsize s" and d: "1 \<le> d" "d \<le> 32768" and c: "len < 256"
  shows "\<exists>s'. tr_tally_dist s d len = Some (last_lit s + 1 = lit_bufsize s - 1, s') \<and> trees_inv s' \<and> block_syms s' = block_syms s @ [(d, len)]
    \<and> same_bits s s' \<and> same_params s s'"
proof -
  have ok: "sym_ok (d, len)" using d c by (simp add: sym_ok_def)
  note r = tally_room[OF inv room ok]
  let ?s = "s\<lparr>d_buf := (d_buf s)[last_lit s := d], l_buf := (l_buf s)[last_lit s := len], last_lit := last_lit s + 1,
    dyn_ltree := bump (dyn_ltree s) (lsym (d, len)), dyn_dtree := bump (dyn_dtree s) (dsym (d, len))\<rparr>"
  have w: "ushort d = d" "ushort (d + 65535) = d - 1" "uchar len = len"
  proof -
    have "d + 65535 = d - 1 + 65536" using d by simp
    then show "ushort (d + 65535) = d - 1" using d unfolding ushort_def by (simp only: mod_add_self2) simp
  qed (use d c in \<open>simp_all add: ushort_def uchar_def\<close>)
  have dc: "rd_d_code (d - 1) = Some (dsym (d, len))" using rd_d_code_Some[of "d - 1"] d by (simp add: dsym_def)
  have d0: "d \<noteq> 0" using d by simp
  have "tr_tally_dist s d len = Some (last_lit s + 1 = lit_bufsize s - 1, ?s)"
    using r d0 c dc unfolding tr_tally_dist_def Let_def w by (simp add: lsym_match del: One_nat_def add_Suc_right)
  moreover have "trees_inv ?s" "block_syms ?s = block_syms s @ [(d, len)]"
    using tally_inv[OF inv room ok, of ?s] d0 by simp_all
  ultimately show ?thesis by (simp add: same_bits_def same_params_def)
qed

lemma tr_tally_spec:
  assumes inv: "trees_inv s" and room: "last_lit s < lit_bufsize s" and d: "d \<le> 32768" and c: "lc < 256"
  shows "\<exists>s'. tr_tally s d lc = Some (last_lit s + 1 = lit_bufsize s - 1, s') \<and> trees_inv s' \<and> block_syms s' = block_syms s @ [(d, lc)]
    \<and> out_bits s' = out_bits s \<and> matches s' = matches s + (if d = 0 then 0 else 1)"
proof -
  have ok: "sym_ok (d, lc)" using d c by (simp add: sym_ok_def)
  note r = tally_room[OF inv room ok]
  let ?s = "s\<lparr>d_buf := (d_buf s)[last_lit s := d], l_buf := (l_buf s)[last_lit s := lc], last_lit := last_lit s + 1\<rparr>"
  have w: "ushort d = d" "uchar lc = lc" using d c by (simp_all add: ushort_def uchar_def)
  show ?thesis
  proof (cases "d = 0")
    case True
    let ?t = "?s\<lparr>dyn_ltree := bump (dyn_ltree s) lc\<rparr>"
    have l: "lsym (0, lc) = lc" by (simp add: lsym_def)
    have "tr_tally s d lc = Some (last_lit s + 1 = lit_bufsize s - 1, ?t)"
      using r True l w by (simp add: tr_tally_def Let_def)
    moreover have "trees_inv ?t" "block_syms ?t = block_syms s @ [(d, lc)]"
      using tally_inv[OF inv room ok, of ?t] True l by simp_all
    ultimately show ?thesis using True by (simp add: out_bits_def)
  next
    case False
    let ?t = "?s\<lparr>matches := matches s + 1, dyn_ltree := bump (dyn_ltree s) (lsym (d, lc)), dyn_dtree := bump (dyn_dtree s) (dsym (d, lc))\<rparr>"
    have dc: "rd_d_code (d - 1) = Some (dsym (d, lc))" using rd_d_code_Some[of "d - 1"] d False by (simp add: dsym_def)
    have "tr_tally s d lc = Some (last_lit s + 1 = lit_bufsize s - 1, ?t)"
      using r False c dc unfolding tr_tally_def Let_def w by (simp add: lsym_match del: One_nat_def add_Suc_right)
    moreover have "trees_inv ?t" "block_syms ?t = block_syms s @ [(d, lc)]"
      using tally_inv[OF inv room ok, of ?t] False by simp_all
    ultimately show ?thesis using False by (simp add: out_bits_def)
  qed
qed

lemma tr_init_spec:
  assumes "trees_arrays s" "pending_buf s = []"
  shows "\<exists>s'. tr_init s = Some s' \<and> trees_inv s' \<and> bit_inv s' \<and> block_syms s' = [] \<and> out_bits s' = []
    \<and> bi_valid s' = 0 \<and> pending_buf s' = [] \<and> same_params s s'"
proof -
  have "trees_arrays (s\<lparr>bi_buf := 0, bi_valid := 0\<rparr>)" using assms(1) by (simp add: trees_arrays_def work_arrays_def)
  from init_block_spec[OF this] show ?thesis using assms(2) by (auto simp: tr_init_def bit_inv_def out_bits_def same_params_def)
qed

text \<open>\<open>_tr_align\<close> appends an empty static block and writes all complete bytes.\<close>

lemma tr_align_spec:
  assumes inv: "bit_inv s"
  shows "\<exists>s' bs. tr_align s = Some s' \<and> out_bits s' = out_bits s @ bs \<and> length bs = 10 \<and> block_of (length (out_bits s)) out 0 out bs
    \<and> bi_valid s' < 8 \<and> bit_inv s'"
proof -
  let ?s1 = "send_bits s (STATIC_TREES * 2) 3"
  have w1: "writes s ?s1 (bits_of 3 (STATIC_TREES * 2 + 0))" using writes_send[OF inv, of 2 3] by (simp add: STATIC_TREES_def)
  have e: "encodes static_ltree static_lens 256" by (rule static_l_encodes) simp
  obtain s2 where s2: "send_code ?s1 256 static_ltree = Some s2" "writes ?s1 s2 (code_word static_lens 256)"
    using writes_code[OF e writes_inv[OF w1]] by blast
  note w = writes_trans[OF w1 s2(2)]
  let ?bs = "bits_of 3 (STATIC_TREES * 2 + 0) @ block_bits static_lens fixed_dlens []"
  have "block_of (length (out_bits s)) out 0 out ?bs" by (rule static_block_of) (simp_all add: lz_syms_def)
  moreover have "out_bits s2 = out_bits s @ ?bs" "bit_inv s2" using w by (simp_all add: writes_def block_bits_def)
  moreover have "length ?bs = 10" by (simp add: block_bits_def code_word_def static_lens_nth)
  moreover have "tr_align s = Some (bi_flush s2)" using s2(1) by (simp add: tr_align_def END_BLOCK_def)
  ultimately show ?thesis using bi_flush_stream[of s2] by auto
qed

section \<open>Properties\<close>

text \<open>The state after the literal \<open>a\<close> and a match of length 3 at distance 1, with a buffer of eight symbols.\<close>

definition sample_state :: trees_state where
  "sample_state = \<lparr>pending_buf = [], bi_buf = 0, bi_valid = 0,
     bl_count = replicate 16 0, heap = replicate 573 0, heap_len = 0, heap_max = 0, depth = replicate 573 0, opt_len = 0, static_len = 0,
     dyn_ltree = (replicate 573 \<lparr>fc = 0, dl = 0\<rparr>)[97 := \<lparr>fc = 1, dl = 0\<rparr>, 256 := \<lparr>fc = 1, dl = 0\<rparr>, 257 := \<lparr>fc = 1, dl = 0\<rparr>],
     dyn_dtree = (replicate 61 \<lparr>fc = 0, dl = 0\<rparr>)[0 := \<lparr>fc = 1, dl = 0\<rparr>], bl_tree = replicate 39 \<lparr>fc = 0, dl = 0\<rparr>,
     l_max_code = 0, d_max_code = 0, bl_max_code = 0,
     l_buf = [97, 0, 0, 0, 0, 0, 0, 0], d_buf = [0, 1, 0, 0, 0, 0, 0, 0], lit_bufsize = 8, last_lit = 2, matches = 0,
     level = 6, strategy = 0, data_type = Z_UNKNOWN\<rparr>"

lemma sample_syms: "block_syms sample_state = [(0, 97), (1, 0)]"
  by (simp add: block_syms_def sample_state_def numeral_2_eq_2)

lemma sample_inv: "trees_inv sample_state" "bit_inv sample_state" "out_bits sample_state = []" "trees_arrays sample_state"
proof -
  have w: "work_arrays sample_state"
    by (simp add: work_arrays_def sample_state_def HEAP_SIZE_def L_CODES_def LITERALS_def LENGTH_CODES_def)
  then show a: "trees_arrays sample_state" by (simp add: trees_arrays_def) (simp add: sample_state_def)
  have l: "map lsym [(0, 97), (1, 0)] = [97, 257]" "map dsym (filter (\<lambda>x. fst x \<noteq> 0) [(0, 97), (1, 0)]) = [0]"
    by (simp_all add: lsym_def dsym_def length_code_def d_code_def dist_code_def)
  have "\<forall>c<286. Freq (dyn_ltree sample_state ! c) = lcount [(0, 97), (1, 0)] c"
    unfolding lcount_def l by (auto simp: sample_state_def nth_list_update)
  moreover have "\<forall>c<30. Freq (dyn_dtree sample_state ! c) = dcount [(0, 97), (1, 0)] c"
    unfolding dcount_def l by (auto simp: sample_state_def nth_list_update)
  moreover have "\<forall>c<19. Freq (bl_tree sample_state ! c) = 0" by (simp add: sample_state_def)
  moreover have "buf_ok sample_state" by (simp add: buf_ok_def sample_syms sym_ok_def) (simp add: sample_state_def)
  ultimately show "trees_inv sample_state" using a by (simp add: trees_inv_def sample_syms)
  show "bit_inv sample_state" "out_bits sample_state = []" by (simp_all add: bit_inv_def out_bits_def sample_state_def)
qed

lemma sample_data: "lz_syms [] (block_syms sample_state) = Some [97, 97, 97, 97]"
  by (simp add: sample_syms lz_syms_def apply_sym_def put_match_def eval_nat_numeral)

text \<open>
  C4: \<open>_tr_flush_block\<close> always succeeds without an access out of bounds, and whichever of the three
  encodings it chooses, it appends to the stream one block of the format whose decoding gives the data
  of the buffered symbols; it leaves an empty symbol buffer with its invariant, and pads the last block
  to a byte boundary.  Only a block whose bytes are at hand (\<open>buf\<close> is not null, so that it can be stored)
  has to be shorter than \<open>2 ^ 16\<close>.
\<close>

theorem tr_flush_block_correct:
  assumes "trees_inv s" "bit_inv s" and "lst \<le> 1" and "lz_syms hist (block_syms s) = Some out"
    and "\<And>b. buf = Some b \<Longrightarrow> stored_len < 65536 \<and> stored_len \<le> length b \<and> out = hist @ take stored_len b"
  shows "\<exists>s' bs. tr_flush_block s buf stored_len lst = Some s' \<and> trees_inv s' \<and> bit_inv s' \<and> block_syms s' = []
    \<and> (\<forall>rest. (length (out_bits s) + length bs + length rest) mod 8 = 0 \<longrightarrow> decode_block hist (bs @ rest) = Some (lst, out, rest))
    \<and> out_bits s' = out_bits s @ bs @ (if lst = 0 then [] else replicate (pad_len (length (out_bits s @ bs))) False)"
  using tr_flush_block_spec[OF assms] unfolding block_of_def by blast

theorem tr_flush_block_correct_witness:
  "\<exists>s' bs. tr_flush_block sample_state (Some [97, 97, 97, 97]) 4 1 = Some s'
    \<and> (\<forall>rest. (length bs + length rest) mod 8 = 0 \<longrightarrow> decode_block [] (bs @ rest) = Some (1, [97, 97, 97, 97], rest))"
  using tr_flush_block_correct[OF sample_inv(1,2) _ sample_data, of 1 "Some [97, 97, 97, 97]" 4] sample_inv(3) by auto

text \<open>
  C6: building the trees of a block always succeeds, and the trees have codes for every symbol of the
  block and the end of block: the header that \<open>send_all_trees\<close> then writes decodes to exactly the code
  lengths of the two trees.
\<close>

theorem build_trees_correct:
  assumes "trees_inv s"
  shows "\<exists>m s' lmc dmc. build_trees s = Some (m, s') \<and> l_max_code s' = int lmc \<and> d_max_code s' = int dmc
    \<and> (\<forall>x\<in>set (block_syms s). sym_encodes (dyn_ltree s') (dyn_dtree s') (tree_lens (dyn_ltree s') lmc) (tree_lens (dyn_dtree s') dmc) x)
    \<and> encodes (dyn_ltree s') (tree_lens (dyn_ltree s') lmc) 256
    \<and> (bit_inv s \<longrightarrow> (\<exists>t bs. send_all_trees s' (lmc + 1) (dmc + 1) (m + 1) = Some t \<and> out_bits t = out_bits s @ bs
        \<and> (\<forall>rest. decode_trees (bs @ rest) = Some (tree_lens (dyn_ltree s') lmc, tree_lens (dyn_dtree s') dmc, rest))))"
proof -
  obtain m s' lmc dmc where b: "build_trees s = Some (m, s')" "trees_ready s' lmc dmc m" "l_max_code s' = int lmc" "d_max_code s' = int dmc"
    "buf_frame s s'"
    "\<forall>x\<in>set (block_syms s). sym_encodes (dyn_ltree s') (dyn_dtree s') (tree_lens (dyn_ltree s') lmc) (tree_lens (dyn_dtree s') dmc) x"
    "encodes (dyn_ltree s') (tree_lens (dyn_ltree s') lmc) 256"
    using build_trees_spec[OF assms] by blast
  note f = buf_frame_out[OF b(5)]
  have "\<exists>t bs. send_all_trees s' (lmc + 1) (dmc + 1) (m + 1) = Some t \<and> out_bits t = out_bits s @ bs
        \<and> (\<forall>rest. decode_trees (bs @ rest) = Some (tree_lens (dyn_ltree s') lmc, tree_lens (dyn_dtree s') dmc, rest))" if "bit_inv s"
    using send_all_trees_writes[OF b(2)] decode_header_bits[OF b(2)] that f(1,2) unfolding writes_def by metis
  then show ?thesis using b by blast
qed

theorem build_trees_correct_witness:
  "\<exists>m s' lmc dmc. build_trees sample_state = Some (m, s')
    \<and> (\<exists>t bs. send_all_trees s' (lmc + 1) (dmc + 1) (m + 1) = Some t
        \<and> (\<forall>rest. decode_trees (bs @ rest) = Some (tree_lens (dyn_ltree s') lmc, tree_lens (dyn_dtree s') dmc, rest)))"
  using build_trees_correct[OF sample_inv(1)] sample_inv(2) by blast

text \<open>
  C10: recording a literal or a match, by \<open>_tr_tally\<close> or by the inline versions of \<open>deflate.h\<close>,
  appends it to the symbols of the block and keeps the invariant, in particular that the 16 bit
  frequencies are the numbers of occurrences; the result tells whether the buffer is full.
\<close>

theorem tr_tally_correct:
  assumes "trees_inv s" "last_lit s < lit_bufsize s" "dist \<le> 32768" "lc < 256"
  shows "(\<exists>s'. tr_tally s dist lc = Some (last_lit s + 1 = lit_bufsize s - 1, s') \<and> trees_inv s' \<and> block_syms s' = block_syms s @ [(dist, lc)])
    \<and> (\<exists>s'. tr_tally_lit s lc = Some (last_lit s + 1 = lit_bufsize s - 1, s') \<and> trees_inv s' \<and> block_syms s' = block_syms s @ [(0, lc)])
    \<and> (1 \<le> dist \<longrightarrow> (\<exists>s'. tr_tally_dist s dist lc = Some (last_lit s + 1 = lit_bufsize s - 1, s') \<and> trees_inv s'
        \<and> block_syms s' = block_syms s @ [(dist, lc)]))"
  using tr_tally_spec[OF assms] tr_tally_lit_spec[OF assms(1,2,4)] tr_tally_dist_spec[OF assms(1,2) _ assms(3,4)] by blast

theorem tr_tally_correct_witness:
  "\<exists>s'. tr_tally_dist sample_state 4 255 = Some (False, s') \<and> trees_inv s' \<and> block_syms s' = [(0, 97), (1, 0), (4, 255)]"
proof -
  have "last_lit sample_state = 2" "lit_bufsize sample_state = 8" by (simp_all add: sample_state_def)
  then show ?thesis using tr_tally_correct[OF sample_inv(1), of 4 255] by (simp add: sample_syms)
qed

text \<open>
  C12: \<open>_tr_align\<close> appends ten bits, an empty block that does not end the stream and adds no data,
  and leaves less than a byte in the bit buffer.
\<close>

theorem tr_align_correct:
  assumes "bit_inv s"
  shows "\<exists>s' bs. tr_align s = Some s' \<and> out_bits s' = out_bits s @ bs \<and> length bs = 10
    \<and> (\<forall>rest. (length (out_bits s) + length bs + length rest) mod 8 = 0 \<longrightarrow> decode_block out (bs @ rest) = Some (0, out, rest))
    \<and> bi_valid s' < 8 \<and> bit_inv s'"
  using tr_align_spec[OF assms] unfolding block_of_def by blast

theorem tr_align_correct_witness:
  "\<exists>s' bs. tr_align sample_state = Some s' \<and> out_bits s' = bs \<and> length bs = 10 \<and> bi_valid s' < 8"
  using tr_align_correct[OF sample_inv(2)] sample_inv(3) by fastforce

end
