(* ===== verification/Inflate_Bits.thy ===== *)
theory Inflate_Bits
  imports Inflate Block_Writer
begin

text \<open>
  The bit accumulator and the decoding tables of \<open>inflate\<close> as a stream of bits: the bits in the
  accumulator, then those of the input.  Taking bits and decoding symbols are the operations of the
  format's decoder on that stream; running out of input leaves the stream unchanged.
\<close>

section \<open>The stream\<close>

definition hold_bits :: "inflate_state \<Rightarrow> bool list" where
  "hold_bits st = bits_of (i_bits st) (i_hold st)"

definition rem_bits :: "inflate_state \<Rightarrow> bool list" where
  "rem_bits st = hold_bits st @ bytes_bits (next_in st)"

text \<open>The accumulator holds nothing above its bits.\<close>

definition acc_ok :: "inflate_state \<Rightarrow> bool" where
  "acc_ok st \<longleftrightarrow> i_hold st < 2 ^ i_bits st \<and> i_bits st \<le> 32"

text \<open>Only input and accumulator change.\<close>

definition bits_frame :: "inflate_state \<Rightarrow> inflate_state \<Rightarrow> bool" where
  "bits_frame st st' \<longleftrightarrow> (\<exists>i h b. st' = st\<lparr>next_in := i, i_hold := h, i_bits := b\<rparr>)"

lemma bits_frame_refl [simp]: "bits_frame st st"
  unfolding bits_frame_def by (intro exI[of _ "next_in st"] exI[of _ "i_hold st"] exI[of _ "i_bits st"]) simp

lemma bits_frame_trans: "bits_frame st st1 \<Longrightarrow> bits_frame st1 st2 \<Longrightarrow> bits_frame st st2"
  by (auto simp: bits_frame_def) (intro exI, rule refl)

text \<open>Reading ahead: the same stream, with more of it in the accumulator.\<close>

definition ahead :: "inflate_state \<Rightarrow> inflate_state \<Rightarrow> bool" where
  "ahead st st' \<longleftrightarrow> bits_frame st st' \<and> rem_bits st' = rem_bits st \<and> acc_ok st' \<and> i_bits st \<le> i_bits st'
     \<and> i_hold st' mod 2 ^ i_bits st = i_hold st \<and> (i_bits st' + 8 * length (next_in st') = i_bits st + 8 * length (next_in st))"

lemma ahead_refl: "acc_ok st \<Longrightarrow> ahead st st"
  by (simp add: ahead_def acc_ok_def)

lemma ahead_trans: "ahead st st1 \<Longrightarrow> ahead st1 st2 \<Longrightarrow> ahead st st2"
  unfolding ahead_def using bits_frame_trans mod_prefix[of "i_bits st" "i_bits st1" "i_hold st2"] by (metis le_trans)

lemma ahead_acc: "ahead st st' \<Longrightarrow> acc_ok st'"
  by (simp add: ahead_def)

lemma bits_of_append: "bits_of (m + n) x = bits_of m x @ bits_of n (x div 2 ^ m)"
proof (induction m arbitrary: x)
  case (Suc m)
  then show ?case by (simp add: bits_of_Suc div_mult2_eq mult.commute)
qed simp

lemma bits_of_mod: "bits_of n (x mod 2 ^ n) = bits_of n x"
  by (auto simp: bits_of_def bit_take_bit_iff take_bit_eq_mod[symmetric])

lemma byte_bits_of: "byte_bits b = bits_of 8 (unat b)"
  by (simp add: byte_bits_def bits_of_def bit_unsigned_iff)

lemma pull_ahead:
  assumes acc: "acc_ok st" "i_bits st \<le> 24" and p: "PULLBYTE st = Some st'"
  shows "ahead st st'" "i_bits st' = i_bits st + 8" "length (next_in st') < length (next_in st)"
proof -
  obtain b bs where i: "next_in st = b # bs" using p by (auto simp: PULLBYTE_def split: list.splits)
  let ?n = "i_bits st" and ?h = "i_hold st + unat b * 2 ^ i_bits st"
  have h: "i_hold st < 2 ^ ?n" using acc by (simp add: acc_ok_def)
  have b: "unat b + 1 \<le> 256" using byte_unat_le[of b] by simp
  have "?h < (unat b + 1) * 2 ^ ?n" using h by simp
  also have "\<dots> \<le> 256 * 2 ^ ?n" using b by (intro mult_right_mono) simp_all
  finally have lt: "?h < 2 ^ (?n + 8)" by (simp add: power_add mult.commute)
  also have "\<dots> \<le> 2 ^ 64" using acc(2) by (intro power_increasing) simp_all
  finally have m: "?h mod 2 ^ 64 = ?h" by simp
  have st': "st' = st\<lparr>next_in := bs, i_hold := ?h, i_bits := ?n + 8\<rparr>" using p i m by (simp add: PULLBYTE_def)
  have "bits_of (?n + 8) ?h = bits_of ?n ?h @ bits_of 8 (?h div 2 ^ ?n)" by (rule bits_of_append)
  moreover have "bits_of ?n ?h = bits_of ?n (i_hold st)" using bits_of_mod[of ?n ?h] bits_of_mod[of ?n "i_hold st"] by simp
  moreover have "?h div 2 ^ ?n = unat b" using h by simp
  ultimately have r: "rem_bits st' = rem_bits st"
    by (simp add: rem_bits_def hold_bits_def st' i bytes_bits_def byte_bits_of)
  show "ahead st st'" unfolding ahead_def
    using r lt acc h by (auto simp: st' bits_frame_def acc_ok_def i)
  show "i_bits st' = i_bits st + 8" "length (next_in st') < length (next_in st)" by (simp_all add: st' i)
qed

lemma pull_None: "PULLBYTE st = None \<longleftrightarrow> next_in st = []"
  by (simp add: PULLBYTE_def split: list.splits)

lemma NEEDBITS_ahead:
  "acc_ok st \<Longrightarrow> n \<le> 25 \<or> n \<le> 32 \<and> i_bits st mod 8 = 0 \<Longrightarrow> ahead st (NEEDBITS n st) \<and> (i_bits (NEEDBITS n st) < n \<longrightarrow> next_in (NEEDBITS n st) = [])
     \<and> (i_bits (NEEDBITS n st) = i_bits st \<or> i_bits (NEEDBITS n st) < n + 8)"
proof (induction "length (next_in st)" arbitrary: st rule: less_induct)
  case less
  show ?case
  proof (cases "i_bits st < n")
    case False
    then have "NEEDBITS n st = st" by (simp add: NEEDBITS.simps)
    then show ?thesis using ahead_refl less.prems False by simp
  next
    case True
    show ?thesis
    proof (cases "PULLBYTE st")
      case None
      then have "NEEDBITS n st = st" by (simp add: NEEDBITS.simps)
      then show ?thesis using ahead_refl less.prems None by (simp add: pull_None)
    next
      case (Some st')
      have b: "i_bits st \<le> 24" using True less.prems(2) by presburger
      note p = pull_ahead[OF less.prems(1) b Some]
      have n: "n \<le> 25 \<or> n \<le> 32 \<and> i_bits st' mod 8 = 0" using less.prems(2) p(2) by presburger
      have "NEEDBITS n st = NEEDBITS n st'" using True Some by (subst NEEDBITS.simps) simp
      then show ?thesis using less.hyps[OF p(3) ahead_acc[OF p(1)] n] ahead_trans[OF p(1)] p(2) True by auto
    qed
  qed
qed

text \<open>Taking bits that are there.\<close>

lemma drop_rem:
  assumes "acc_ok st" "n \<le> i_bits st"
  shows "rem_bits st = bits_of n (i_hold st) @ rem_bits (DROPBITS n st)" "acc_ok (DROPBITS n st)"
proof -
  show "rem_bits st = bits_of n (i_hold st) @ rem_bits (DROPBITS n st)"
    using bits_of_append[of n "i_bits st - n" "i_hold st"] assms(2) by (simp add: rem_bits_def hold_bits_def DROPBITS_def)
  have "i_hold st < 2 ^ n * 2 ^ (i_bits st - n)" using assms by (simp add: acc_ok_def power_add[symmetric])
  then have "i_hold st div 2 ^ n < 2 ^ (i_bits st - n)" by (simp add: less_mult_imp_div_less mult.commute)
  then show "acc_ok (DROPBITS n st)" using assms(1) by (auto simp: acc_ok_def DROPBITS_def)
qed

lemma take_rem:
  assumes "acc_ok st" "n \<le> i_bits st"
  shows "take_bits n (rem_bits st @ fut) = Some (BITS n st, rem_bits (DROPBITS n st) @ fut)"
  using take_bits_of[of "i_hold st mod 2 ^ n" n "rem_bits (DROPBITS n st) @ fut"] drop_rem[OF assms]
  by (simp add: bits_of_mod BITS_def)

lemma length_rem: "length (rem_bits st) = i_bits st + 8 * length (next_in st)"
  by (simp add: rem_bits_def hold_bits_def)

lemma take_none: "i_bits st < n \<Longrightarrow> next_in st = [] \<Longrightarrow> take_bits n (rem_bits st) = None"
  by (simp add: take_bits_def length_rem)

lemma rem_frame [simp]: "rem_bits (st\<lparr>i_mode := m\<rparr>) = rem_bits st"
  by (simp add: rem_bits_def hold_bits_def)

section \<open>Tables\<close>

text \<open>
  The entry that decodes symbol \<open>s\<close> with \<open>b\<close> bits of its code.  The symbols that may not occur in data
  have entries for an invalid code, which differ between the tables.
\<close>

definition no_sym :: "codetype \<Rightarrow> nat \<Rightarrow> bool" where
  "no_sym type s \<longleftrightarrow> type = LENS \<and> s \<ge> 286 \<or> type = DISTS \<and> s \<ge> 30"

definition ok_entry :: "codetype \<Rightarrow> nat \<Rightarrow> nat \<Rightarrow> code \<Rightarrow> bool" where
  "ok_entry type s b e \<longleftrightarrow> code_bits e = b \<and> \<not> is_link e
     \<and> (if no_sym type s then code_op e \<noteq> 0 \<and> code_op e AND 64 \<noteq> 0 \<and> code_op e AND 16 = 0 \<and> code_op e AND 32 = 0
        else e = sym_entry type s b)"

definition table_finds :: "codetype \<Rightarrow> nat list \<Rightarrow> code list \<Rightarrow> nat \<Rightarrow> nat \<Rightarrow> nat \<Rightarrow> bool" where
  "table_finds type lens tab root t s \<longleftrightarrow>
     (let e = tab ! (t mod 2 ^ root) in
      if lens ! s \<le> root then ok_entry type s (lens ! s) e
      else is_link e \<and> code_bits e = root \<and> code_op e \<le> 15 \<and> code_val e + 2 ^ code_op e \<le> length tab
        \<and> ok_entry type s (lens ! s - root) (tab ! (code_val e + t div 2 ^ root mod 2 ^ code_op e)))"

definition table_ok :: "codetype \<Rightarrow> nat list \<Rightarrow> code list \<Rightarrow> nat \<Rightarrow> bool" where
  "table_ok type lens tab root \<longleftrightarrow> 1 \<le> root \<and> root \<le> 15 \<and> 2 ^ root \<le> length tab
     \<and> (\<forall>l\<in>set lens. l \<le> 15) \<and> length lens \<le> max_codes type
     \<and> (kraft lens = 2 ^ 15 \<or> kraft lens < 2 ^ 15 \<and> (\<forall>l\<in>set lens. l \<le> 1))
     \<and> (\<forall>t s. sym_matches lens t s \<longrightarrow> table_finds type lens tab root t s)
     \<and> (\<forall>t. (\<forall>s. \<not> sym_matches lens t s) \<longrightarrow> tab ! (t mod 2 ^ root) = \<lparr>code_op = 64, code_bits = 1, code_val = 0\<rparr>)"

lemma sym_entry_no_sym:
  assumes "s < max_codes type" "no_sym type s"
  shows "sym_op type s \<noteq> 0 \<and> sym_op type s AND 64 \<noteq> 0 \<and> sym_op type s AND 16 = 0 \<and> sym_op type s AND 32 = 0"
proof (cases type)
  case LENS
  then have "s = 286 \<or> s = 287" using assms by (auto simp: max_codes_def no_sym_def)
  then show ?thesis using LENS by (auto simp: sym_op_def lext_def)
next
  case DISTS
  then have "s = 30 \<or> s = 31" using assms by (auto simp: max_codes_def no_sym_def)
  then show ?thesis using DISTS by (auto simp: sym_op_def dext_def)
qed (use assms in \<open>simp add: no_sym_def\<close>)

lemma sym_entry_ok: "s < max_codes type \<Longrightarrow> ok_entry type s b (sym_entry type s b)"
  using sym_entry_not_link[of s type b] sym_entry_no_sym[of s type] by (auto simp: ok_entry_def sym_entry_def)

lemma good_table_ok:
  assumes "good_table type lens tab used root" "\<not> bad_lens type lens"
  shows "table_ok type lens tab root"
proof -
  note g = assms(1)[unfolded good_table_def]
  have "table_finds type lens tab root t s" if m: "sym_matches lens t s" for t s
  proof -
    have "s < max_codes type" using g m unfolding sym_matches_def by (meson less_le_trans)
    moreover have "finds type lens tab used root t s" using g m by blast
    moreover have "used \<le> length tab" using g by blast
    ultimately show ?thesis using sym_entry_ok[of s type]
      by (auto simp: finds_def table_finds_def Let_def split: if_splits)
  qed
  moreover have "kraft lens = 2 ^ 15 \<or> kraft lens < 2 ^ 15 \<and> (\<forall>l\<in>set lens. l \<le> 1)"
  proof (cases "\<forall>l\<in>set lens. l = 0")
    case True
    then have "kraft lens = 0" by (simp add: kraft_def filter_empty_conv)
    moreover have "\<forall>l\<in>set lens. l \<le> 1" using True by auto
    ultimately show ?thesis by simp
  next
    case False
    then have "kraft lens \<le> 2 ^ 15" "kraft lens < 2 ^ 15 \<Longrightarrow> \<forall>l\<in>set lens. l \<le> 1"
      using assms(2) unfolding bad_lens_def by (meson not_le)+
    then show ?thesis by linarith
  qed
  moreover have "2 ^ root \<le> length tab" using g by linarith
  ultimately show ?thesis using g unfolding table_ok_def by blast
qed

lemma table_ok_kraft: "table_ok type lens tab root \<Longrightarrow> kraft lens \<le> 2 ^ 15 \<and> (\<forall>l\<in>set lens. l \<le> 15)"
  by (auto simp: table_ok_def)

lemma table_ok_decode: "table_ok type lens tab root \<Longrightarrow> lens_decode lens"
  by (auto simp: table_ok_def lens_decode_def)

lemma table_ok_append: 
  assumes t: "table_ok type lens tab root"
  shows "table_ok type lens (tab @ xs) root"
proof -
  note g = t[unfolded table_ok_def]
  have i: "t mod 2 ^ root < length tab" for t :: nat
  proof -
    have "t mod 2 ^ root < 2 ^ root" by simp
    then show ?thesis using g by linarith
  qed
  have "table_finds type lens (tab @ xs) root t s" if m: "sym_matches lens t s" for t s
  proof -
    let ?e = "tab ! (t mod 2 ^ root)"
    have f: "table_finds type lens tab root t s" using g m by blast
    show ?thesis
    proof (cases "lens ! s \<le> root")
      case True
      then show ?thesis using f i by (simp add: table_finds_def nth_append Let_def)
    next
      case False
      have "t div 2 ^ root mod 2 ^ code_op ?e < 2 ^ code_op ?e" by simp
      moreover have "code_val ?e + 2 ^ code_op ?e \<le> length tab" using f False by (simp add: table_finds_def Let_def)
      ultimately have "code_val ?e + t div 2 ^ root mod 2 ^ code_op ?e < length tab" by linarith
      then show ?thesis using f i False by (simp add: table_finds_def nth_append Let_def)
    qed
  qed
  then show ?thesis using g i by (auto simp: table_ok_def nth_append)
qed

section \<open>Looking up a code\<close>

definition tab_at :: "code list \<Rightarrow> code_ptr \<Rightarrow> code list" where
  "tab_at codes p = (case p of Lenfix \<Rightarrow> lenfix | Distfix \<Rightarrow> distfix | Codes k \<Rightarrow> drop k codes)"

abbreviation ptr_tab :: "inflate_state \<Rightarrow> code_ptr \<Rightarrow> code list" where
  "ptr_tab st p \<equiv> tab_at (i_codes st) p"

lemma tab_rd_ptr: "tab_rd st p i = rd (ptr_tab st p) i"
  by (auto simp: tab_rd_def tab_at_def rd_def split: code_ptr.split)

lemma ptr_tab_frame: "bits_frame st st' \<Longrightarrow> ptr_tab st' p = ptr_tab st p"
  by (auto simp: bits_frame_def tab_at_def split: code_ptr.split)

lemma sym_matches_unique:
  assumes "table_ok type lens tab root" "sym_matches lens t s" "sym_matches lens t r"
  shows "r = s"
proof -
  define bs where "bs = bits_of 15 t"
  have "begins_with lens bs x" if "sym_matches lens t x" for x
  proof -
    have "lens ! x \<le> 15" using that assms(1) by (simp add: sym_matches_def table_ok_def)
    then have "take (lens ! x) bs = bits_of (lens ! x) t"
      using bits_of_append[of "lens ! x" "15 - lens ! x" t] by (simp add: bs_def)
    then show ?thesis using that \<open>lens ! x \<le> 15\<close> by (simp add: begins_with_def sym_matches_def bval_bits_of bs_def)
  qed
  then show ?thesis using begins_with_unique[of lens s bs r] assms table_ok_kraft[OF assms(1)] by (simp add: sym_matches_def)
qed

text \<open>A symbol whose code is in the accumulator is decoded; without one the format's decoder fails, too.\<close>

lemma decode_match_sym:
  assumes tab: "table_ok type lens tab root" and acc: "acc_ok st" and m: "sym_matches lens (i_hold st) s" and b: "lens ! s \<le> i_bits st"
  shows "decode_sym lens (rem_bits st @ fut) = Some (s, rem_bits (DROPBITS (lens ! s) st) @ fut)"
proof -
  have "rem_bits st @ fut = code_word lens s @ rem_bits (DROPBITS (lens ! s) st) @ fut"
    using drop_rem(1)[OF acc b] m bits_of_mod[of "lens ! s" "i_hold st"] by (simp add: code_word_def sym_matches_def)
  then show ?thesis using decode_code_word[of lens s] table_ok_kraft[OF tab] m by (simp add: sym_matches_def)
qed

lemma find_None: "find P xs = None \<longleftrightarrow> (\<forall>x\<in>set xs. \<not> P x)"
  by (induction xs) auto

lemma decode_sym_None: "decode_sym lens bs = None \<longleftrightarrow> (\<forall>s<length lens. \<not> begins_with lens bs s)"
  by (auto simp: decode_sym_def find_None)

lemma begins_hold:
  assumes "acc_ok st" "begins_with lens (rem_bits st @ fut) s" "lens ! s \<le> i_bits st" "s < length lens"
  shows "sym_matches lens (i_hold st) s"
proof -
  have "take (lens ! s) (rem_bits st @ fut) = bits_of (lens ! s) (i_hold st)"
    using drop_rem(1)[OF assms(1,3)] by simp
  then show ?thesis using assms by (simp add: begins_with_def sym_matches_def bval_bits_of)
qed

lemma decode_none_short:
  assumes "acc_ok st" "next_in st = []" "\<And>s. sym_matches lens (i_hold st) s \<Longrightarrow> i_bits st < lens ! s"
  shows "decode_sym lens (rem_bits st) = None"
  unfolding decode_sym_None
proof (intro allI impI notI)
  fix s assume s: "s < length lens" "begins_with lens (rem_bits st) s"
  then have l: "lens ! s \<le> i_bits st" using assms(2) by (simp add: begins_with_def length_rem)
  have "sym_matches lens (i_hold st) s" using begins_hold[of st lens "[]" s] assms(1) s l by simp
  then show False using assms(3) l by fastforce
qed

text \<open>An incomplete code has one code of one bit at most: one bit shows that there is no symbol.\<close>

lemma no_match_short:
  assumes tab: "table_ok type lens tab root" and no: "\<forall>s. \<not> sym_matches lens h s"
  shows "kraft lens \<noteq> 2 ^ 15 \<and> (\<forall>l\<in>set lens. l \<le> 1)"
proof -
  have "kraft lens \<noteq> 2 ^ 15"
  proof
    assume "kraft lens = 2 ^ 15"
    then have "\<exists>s<length lens. lens ! s \<noteq> 0 \<and> h mod 2 ^ (lens ! s) = canon_code lens s"
      using canon_code_total[of lens h] table_ok_kraft[OF tab] by simp
    then show False using no unfolding sym_matches_def by blast
  qed
  then show ?thesis using tab by (auto simp: table_ok_def)
qed

lemma decode_none_invalid:
  assumes tab: "table_ok type lens tab root" and acc: "acc_ok st" "1 \<le> i_bits st" and no: "\<forall>s. \<not> sym_matches lens (i_hold st) s"
  shows "decode_sym lens (rem_bits st @ fut) = None"
proof -
  have one: "\<forall>l\<in>set lens. l \<le> 1" using no_match_short[OF tab no] by blast
  show ?thesis
  unfolding decode_sym_None
proof (intro allI impI notI)
  fix s assume s: "s < length lens" "begins_with lens (rem_bits st @ fut) s"
  have "lens ! s \<le> 1" using one s(1) by simp
  then show False using begins_hold[OF acc(1) s(2) _ s(1)] acc(2) no by simp
qed
qed


lemma table_ok_bits:
  assumes "table_ok type lens tab root"
  shows "1 \<le> code_bits (tab ! (t mod 2 ^ root)) \<and> code_bits (tab ! (t mod 2 ^ root)) \<le> 15"
proof (cases "\<exists>s. sym_matches lens t s")
  case True
  then obtain s where s: "sym_matches lens t s" by blast
  have "lens ! s \<le> 15" "lens ! s \<noteq> 0" "1 \<le> root" "root \<le> 15" using assms s by (auto simp: table_ok_def sym_matches_def)
  moreover have "table_finds type lens tab root t s" using assms s by (simp add: table_ok_def)
  ultimately show ?thesis by (auto simp: table_finds_def Let_def ok_entry_def split: if_splits)
next
  case False
  then have "tab ! (t mod 2 ^ root) = \<lparr>code_op = 64, code_bits = 1, code_val = 0\<rparr>" using assms by (simp add: table_ok_def)
  then show ?thesis by simp
qed

text \<open>No more bytes are read ahead than the next code needs; an invalid one is found with its first bit.\<close>

definition lazy_at :: "nat list \<Rightarrow> nat \<Rightarrow> nat \<Rightarrow> bool" where
  "lazy_at lens h b \<longleftrightarrow> (\<forall>s. sym_matches lens h s \<longrightarrow> b < lens ! s + 8) \<and> ((\<forall>s. \<not> sym_matches lens h s) \<longrightarrow> b < 9)"

abbreviation lazy :: "nat list \<Rightarrow> inflate_state \<Rightarrow> bool" where
  "lazy lens st \<equiv> lazy_at lens (i_hold st) (i_bits st)"

lemma lazy_small: "b < 8 \<Longrightarrow> lazy_at lens h b"
  by (simp add: lazy_at_def)

lemma lazy_pull:
  assumes tab: "table_ok type lens tab root"
    and q: "ahead st st'" "i_bits st' = i_bits st + 8" and l: "\<And>s. sym_matches lens (i_hold st) s \<Longrightarrow> i_bits st < lens ! s"
    and n: "\<forall>s. \<not> sym_matches lens (i_hold st) s \<Longrightarrow> i_bits st = 0"
  shows "lazy lens st'"
  unfolding lazy_at_def
proof (intro conjI allI impI)
  fix s assume m: "sym_matches lens (i_hold st') s"
  show "i_bits st' < lens ! s + 8"
  proof (cases "lens ! s \<le> i_bits st")
    case True
    have "i_hold st' mod 2 ^ i_bits st = i_hold st" using q(1) by (simp add: ahead_def)
    then have "i_hold st' mod 2 ^ (lens ! s) = i_hold st mod 2 ^ (lens ! s)" using True mod_prefix[of "lens ! s" "i_bits st" "i_hold st'"] by simp
    then show ?thesis using l[of s] m True by (simp add: sym_matches_def)
  qed (use q(2) in simp)
next
  assume no: "\<forall>s. \<not> sym_matches lens (i_hold st') s"
  have "i_bits st = 0"
  proof (cases "\<exists>s. sym_matches lens (i_hold st) s")
    case True
    then obtain s where m: "sym_matches lens (i_hold st) s" by blast
    then have "lens ! s \<le> 1" using no_match_short[OF tab no] by (simp add: sym_matches_def)
    then show ?thesis using l[OF m] by simp
  qed (use n in blast)
  then show "i_bits st' < 9" using q(2) by simp
qed

text \<open>The outcomes of the first loop.\<close>

lemma root_loop_ahead:
  assumes "table_ok type lens (ptr_tab st p) root" "acc_ok st"
  shows "(\<exists>st'. ahead st st' \<and> (lazy lens st \<longrightarrow> lazy lens st') \<and>
      (root_loop p root st = Got st' (ptr_tab st p ! (i_hold st' mod 2 ^ root)) \<and> code_bits (ptr_tab st p ! (i_hold st' mod 2 ^ root)) \<le> i_bits st'
     \<or> root_loop p root st = Short st' \<and> next_in st' = [] \<and> i_bits st' < code_bits (ptr_tab st p ! (i_hold st' mod 2 ^ root))))"
  using assms
proof (induction "length (next_in st)" arbitrary: st rule: less_induct)
  case less
  let ?e = "ptr_tab st p ! (i_hold st mod 2 ^ root)"
  note t = less.prems(1)[unfolded table_ok_def]
  have "i_hold st mod 2 ^ root < 2 ^ root" by simp
  then have ix: "i_hold st mod 2 ^ root < length (ptr_tab st p)" using t by linarith
  then have e: "tab_rd st p (BITS root st) = Some ?e" by (simp add: tab_rd_ptr BITS_def)
  show ?case
  proof (cases "code_bits ?e \<le> i_bits st")
    case True
    then have "root_loop p root st = Got st ?e" using e by (subst root_loop.simps) simp
    then show ?thesis using True ahead_refl[OF less.prems(2)] by blast
  next
    case False
    show ?thesis
    proof (cases "PULLBYTE st")
      case None
      then have "root_loop p root st = Short st" using e False by (subst root_loop.simps) simp
      moreover have "next_in st = []" using None by (simp add: pull_None)
      ultimately show ?thesis using False ahead_refl[OF less.prems(2)] not_le by blast
    next
      case (Some st')
      have "code_bits ?e \<le> 15" using table_ok_bits[OF less.prems(1)] by blast
      then have b: "i_bits st \<le> 24" using False by simp
      note q = pull_ahead[OF less.prems(2) b Some]
      have tab: "ptr_tab st' p = ptr_tab st p" using q(1) ptr_tab_frame by (simp add: ahead_def)
      have r: "root_loop p root st = root_loop p root st'" using e False Some by (subst root_loop.simps) simp
      have "table_ok type lens (ptr_tab st' p) root" using less.prems(1) tab by simp
      note h = less.hyps[OF q(3) this ahead_acc[OF q(1)]]
      have "lazy lens st'"
      proof (rule lazy_pull[OF less.prems(1) q(1,2)])
        show "i_bits st = 0" if "\<forall>s. \<not> sym_matches lens (i_hold st) s"
        proof -
          have "?e = \<lparr>code_op = 64, code_bits = 1, code_val = 0\<rparr>" using that t by blast
          then show ?thesis using False by simp
        qed
        fix s assume "sym_matches lens (i_hold st) s"
        then have "table_finds type lens (ptr_tab st p) root (i_hold st) s" using t by blast
        then show "i_bits st < lens ! s" using False by (auto simp: table_finds_def Let_def ok_entry_def split: if_splits)
      qed
      with h show ?thesis unfolding r tab using ahead_trans[OF q(1)] by blast
    qed
  qed
qed

text \<open>
  What \<open>inflate\<close> gets for a code of the first level: no more input, the entry for invalid codes, the
  entry of a symbol, or a link.  In the last case the second loop finds the symbol.
\<close>

lemma fetch_root:
  assumes tab: "table_ok type lens (ptr_tab st p) root" and acc: "acc_ok st"
  obtains
    (short) st' where "root_loop p root st = Short st'" "ahead st st'" "lazy lens st \<longrightarrow> lazy lens st'" "next_in st' = []" "decode_sym lens (rem_bits st) = None"
  | (invalid) st' where "root_loop p root st = Got st' \<lparr>code_op = 64, code_bits = 1, code_val = 0\<rparr>" "ahead st st'" "1 \<le> i_bits st'"
      "kraft lens < 2 ^ 15" "\<And>fut. decode_sym lens (rem_bits st @ fut) = None"
  | (symbol) st' e s where "root_loop p root st = Got st' e" "ahead st st'" "lazy lens st \<longrightarrow> i_bits st' < code_bits e + 8" "s < length lens" "1 \<le> code_bits e" "code_bits e \<le> i_bits st'" "code_bits e \<le> 15"
      "ok_entry type s (code_bits e) e" "\<And>fut. decode_sym lens (rem_bits st @ fut) = Some (s, rem_bits (DROPBITS (code_bits e) st') @ fut)"
  | (link) st' e where "root_loop p root st = Got st' e" "ahead st st'" "lazy lens st \<longrightarrow> lazy lens st'" "e = ptr_tab st p ! (i_hold st' mod 2 ^ root)"
      "is_link e" "code_bits e = root" "root \<le> i_bits st'"
proof -
  let ?t = "ptr_tab st p"
  obtain st' where a: "ahead st st'" and lz: "lazy lens st \<longrightarrow> lazy lens st'" and r: "root_loop p root st = Got st' (?t ! (i_hold st' mod 2 ^ root)) \<and> code_bits (?t ! (i_hold st' mod 2 ^ root)) \<le> i_bits st'
     \<or> root_loop p root st = Short st' \<and> next_in st' = [] \<and> i_bits st' < code_bits (?t ! (i_hold st' mod 2 ^ root))"
    using root_loop_ahead[OF assms] by blast
  have acc': "acc_ok st'" and eq: "rem_bits st' = rem_bits st" using a by (simp_all add: ahead_def)
  note t = tab[unfolded table_ok_def]
  let ?e = "?t ! (i_hold st' mod 2 ^ root)"
  have bits: "1 \<le> code_bits ?e" "code_bits ?e \<le> 15" using table_ok_bits[OF tab] by blast+
  have find: "table_finds type lens ?t root (i_hold st') s" if "sym_matches lens (i_hold st') s" for s using t that by blast
  show thesis
  proof (cases "root_loop p root st = Short st'")
    case True
    have nx: "next_in st' = []" and b: "i_bits st' < code_bits ?e" using r True by auto
    have "i_bits st' < lens ! s" if m: "sym_matches lens (i_hold st') s" for s
      using find[OF m] b by (auto simp: table_finds_def Let_def ok_entry_def split: if_splits)
    from decode_none_short[OF acc' nx this] show thesis using short[OF True a lz nx] eq by simp
  next
    case False
    then have got: "root_loop p root st = Got st' ?e" and b: "code_bits ?e \<le> i_bits st'" using r by auto
    show thesis
    proof (cases "\<exists>s. sym_matches lens (i_hold st') s")
      case no: False
      then have e: "?e = \<lparr>code_op = 64, code_bits = 1, code_val = 0\<rparr>" using t by blast
      have "1 \<le> i_bits st'" using b e by simp
      moreover have "kraft lens \<noteq> 2 ^ 15" using canon_code_total[of lens "i_hold st'"] no t unfolding sym_matches_def by blast
      moreover have "decode_sym lens (rem_bits st' @ fut) = None" for fut
        using decode_none_invalid[OF tab acc' \<open>1 \<le> i_bits st'\<close>] no by blast
      ultimately show thesis using invalid[of st'] got a e eq t by auto
    next
      case True
      then obtain s where m: "sym_matches lens (i_hold st') s" by blast
      have s: "s < length lens" using m by (simp add: sym_matches_def)
      show thesis
      proof (cases "lens ! s \<le> root")
        case le: True
        then have ok: "ok_entry type s (lens ! s) ?e" using find[OF m] by (simp add: table_finds_def Let_def)
        then have cb: "code_bits ?e = lens ! s" by (simp add: ok_entry_def)
        have "decode_sym lens (rem_bits st' @ fut) = Some (s, rem_bits (DROPBITS (code_bits ?e) st') @ fut)" for fut
          using decode_match_sym[OF tab acc' m] b unfolding cb by blast
        moreover have "lazy lens st \<longrightarrow> i_bits st' < code_bits ?e + 8" using lz m cb by (simp add: lazy_at_def)
        ultimately show thesis using symbol[OF got a _ s bits(1) b bits(2)] ok cb eq by simp
      next
        case gt: False
        then show thesis using link[OF got a lz] find[OF m] b by (simp add: table_finds_def Let_def)
      qed
    qed
  qed
qed

lemma sub_loop_ahead:
  assumes tab: "table_ok type lens (ptr_tab st p) root" and acc: "acc_ok st" and e: "e = ptr_tab st p ! (i_hold st mod 2 ^ root)"
    "is_link e" "code_bits e = root" "root \<le> i_bits st"
  obtains st' s e' where "ahead st st'" "lazy lens st \<longrightarrow> lazy lens st'" "sym_matches lens (i_hold st') s" "lens ! s = root + code_bits e'" "ok_entry type s (code_bits e') e'"
    "sub_loop p e st = Got st' e' \<and> lens ! s \<le> i_bits st' \<or> sub_loop p e st = Short st' \<and> next_in st' = [] \<and> i_bits st' < lens ! s"
  using assms
proof (induction "length (next_in st)" arbitrary: thesis st rule: less_induct)
  case less
  let ?t = "ptr_tab st p"
  note t = less.prems(2)[unfolded table_ok_def]
  have "\<exists>s. sym_matches lens (i_hold st) s"
  proof (rule ccontr)
    assume "\<not> ?thesis"
    then have "e = \<lparr>code_op = 64, code_bits = 1, code_val = 0\<rparr>" using t less.prems(4) by blast
    then show False using less.prems(5) by (simp add: is_link_def)
  qed
  then obtain s where m: "sym_matches lens (i_hold st) s" by blast
  have f: "table_finds type lens ?t root (i_hold st) s" using t m by blast
  have gt: "\<not> lens ! s \<le> root"
  proof
    assume "lens ! s \<le> root"
    then show False using f less.prems(4,5) by (simp add: table_finds_def Let_def ok_entry_def)
  qed
  let ?k = "code_val e + i_hold st div 2 ^ root mod 2 ^ code_op e"
  let ?h = "?t ! ?k"
  have le: "code_val e + 2 ^ code_op e \<le> length ?t" and ok: "ok_entry type s (lens ! s - root) ?h"
    using f gt less.prems(4) by (simp_all add: table_finds_def Let_def)
  have "i_hold st div 2 ^ root mod 2 ^ code_op e < 2 ^ code_op e" by simp
  then have ix: "?k < length ?t" using le by linarith
  have "BITS (code_bits e + code_op e) st div 2 ^ code_bits e = i_hold st div 2 ^ root mod 2 ^ code_op e"
    using less.prems(6) by (simp add: BITS_def power_add mod_mult2_eq)
  then have rd: "tab_rd st p (code_val e + BITS (code_bits e + code_op e) st div 2 ^ code_bits e) = Some ?h"
    using ix by (simp add: tab_rd_ptr)
  have cb: "code_bits ?h = lens ! s - root" using ok by (simp add: ok_entry_def)
  have l: "lens ! s = root + code_bits ?h" "code_bits e + code_bits ?h = lens ! s" "ok_entry type s (code_bits ?h) ?h"
    using gt cb ok less.prems(6) by simp_all
  have refl: "ahead st st" using ahead_refl less.prems(3) .
  show ?case
  proof (cases "lens ! s \<le> i_bits st")
    case True
    then have "sub_loop p e st = Got st ?h" using rd l(2) by (subst sub_loop.simps) simp
    then show ?thesis using less.prems(1)[OF refl _ m l(1,3)] True by blast
  next
    case False
    show ?thesis
    proof (cases "PULLBYTE st")
      case None
      then have "sub_loop p e st = Short st" using rd l(2) False by (subst sub_loop.simps) simp
      then show ?thesis using less.prems(1)[OF refl _ m l(1,3)] False None by (auto simp: pull_None)
    next
      case (Some st')
      have "lens ! s \<le> 15" using t m by (simp add: sym_matches_def)
      then have b: "i_bits st \<le> 24" using False by simp
      note q = pull_ahead[OF less.prems(3) b Some]
      have tab: "ptr_tab st' p = ?t" using q(1) ptr_tab_frame by (simp add: ahead_def)
      have r: "sub_loop p e st = sub_loop p e st'" using rd l(2) False Some by (subst sub_loop.simps) simp
      have "i_hold st' mod 2 ^ i_bits st = i_hold st" using q(1) by (simp add: ahead_def)
      then have "i_hold st' mod 2 ^ root = i_hold st mod 2 ^ root"
        using less.prems(7) mod_prefix[of root "i_bits st" "i_hold st'"] by simp
      then have e: "e = ptr_tab st' p ! (i_hold st' mod 2 ^ root)" using less.prems(4) tab by simp
      have tk: "table_ok type lens (ptr_tab st' p) root" using less.prems(2) tab by simp
      have "root \<le> i_bits st'" using q(2) less.prems(7) by simp
      have lz: "lazy lens st'"
      proof (rule lazy_pull[OF less.prems(2) q(1,2)])
        show "i_bits st = 0" if "\<forall>s. \<not> sym_matches lens (i_hold st) s" using that m by blast
        fix x assume "sym_matches lens (i_hold st) x"
        then show "i_bits st < lens ! x" using sym_matches_unique[OF less.prems(2) m] False by simp
      qed
      show ?thesis
      proof (rule less.hyps[OF q(3) _ tk ahead_acc[OF q(1)] e less.prems(5,6) \<open>root \<le> i_bits st'\<close>])
        fix st'' s e' assume x: "ahead st' st''" "lazy lens st' \<longrightarrow> lazy lens st''" "sym_matches lens (i_hold st'') s" "lens ! s = root + code_bits e'" "ok_entry type s (code_bits e') e'"
          "sub_loop p e st' = Got st'' e' \<and> lens ! s \<le> i_bits st'' \<or> sub_loop p e st' = Short st'' \<and> next_in st'' = [] \<and> i_bits st'' < lens ! s"
        show ?thesis using less.prems(1)[OF ahead_trans[OF q(1) x(1)] _ x(3-5)] x(2,6) lz unfolding r by blast
      qed
    qed
  qed
qed

lemma DROPBITS_twice: "DROPBITS m (DROPBITS n st) = DROPBITS (n + m) st"
  by (simp add: DROPBITS_def power_add div_mult2_eq)

lemma fetch_sub:
  assumes tab: "table_ok type lens (ptr_tab st p) root" and acc: "acc_ok st" and e: "e = ptr_tab st p ! (i_hold st mod 2 ^ root)"
    "is_link e" "code_bits e = root" "root \<le> i_bits st"
  obtains
    (short) st' where "sub_loop p e st = Short st'" "ahead st st'" "lazy lens st \<longrightarrow> lazy lens st'" "next_in st' = []" "decode_sym lens (rem_bits st) = None"
  | (symbol) st' e' s where "sub_loop p e st = Got st' e'" "ahead st st'" "lazy lens st \<longrightarrow> i_bits st' < code_bits e + code_bits e' + 8" "s < length lens" "1 \<le> code_bits e + code_bits e'"
      "code_bits e + code_bits e' \<le> i_bits st'" "code_bits e + code_bits e' \<le> 15" "ok_entry type s (code_bits e') e'"
      "\<And>fut. decode_sym lens (rem_bits st @ fut) = Some (s, rem_bits (DROPBITS (code_bits e') (DROPBITS (code_bits e) st')) @ fut)"
proof -
  obtain st' s e' where a: "ahead st st'" and lz: "lazy lens st \<longrightarrow> lazy lens st'" and m: "sym_matches lens (i_hold st') s" and l: "lens ! s = root + code_bits e'" "ok_entry type s (code_bits e') e'"
    and r: "sub_loop p e st = Got st' e' \<and> lens ! s \<le> i_bits st' \<or> sub_loop p e st = Short st' \<and> next_in st' = [] \<and> i_bits st' < lens ! s"
    using sub_loop_ahead[OF assms] by metis
  have acc': "acc_ok st'" and eq: "rem_bits st' = rem_bits st" using a by (simp_all add: ahead_def)
  have s: "s < length lens" "lens ! s \<noteq> 0" "lens ! s \<le> 15" using m tab by (auto simp: sym_matches_def table_ok_def)
  show thesis
  proof (cases "sub_loop p e st = Short st'")
    case True
    have nx: "next_in st' = []" and b: "i_bits st' < lens ! s" using r True by auto
    have "i_bits st' < lens ! x" if "sym_matches lens (i_hold st') x" for x
      using sym_matches_unique[OF tab m that] b by simp
    from decode_none_short[OF acc' nx this] show thesis using short[OF True a lz nx] eq by simp
  next
    case False
    then have g: "sub_loop p e st = Got st' e'" "lens ! s \<le> i_bits st'" using r by auto
    have "decode_sym lens (rem_bits st @ fut) = Some (s, rem_bits (DROPBITS (code_bits e') (DROPBITS (code_bits e) st')) @ fut)" for fut
      using decode_match_sym[OF tab acc' m g(2)] eq l(1) e(3) by (simp add: DROPBITS_twice)
    moreover have "lazy lens st \<longrightarrow> i_bits st' < code_bits e + code_bits e' + 8"
    proof
      assume "lazy lens st"
      then have "i_bits st' < lens ! s + 8" using lz m unfolding lazy_at_def by blast
      then show "i_bits st' < code_bits e + code_bits e' + 8" using l(1) e(3) by simp
    qed
    ultimately show thesis using symbol[OF g(1) a _ s(1)] s(2,3) l e(3) g(2) by simp
  qed
qed

end
