(* ===== verification/Inflate_Fixed.thy ===== *)
theory Inflate_Fixed
  imports Inflate_Bits
begin

text \<open>
  The tables of \<open>inffixed.h\<close> decode the fixed codes of the format: indexed with nine bits (five for
  distances) they hold the entry of the symbol whose canonical code these bits begin with.
\<close>

section \<open>The entries in order\<close>

text \<open>The symbol of the nine bits \<open>v\<close>, most significant first, and the length of its code.\<close>

definition fixed_sym :: "nat \<Rightarrow> nat \<times> nat" where
  "fixed_sym v = (if v < 96 then (256 + v div 4, 7) else if v < 384 then (v div 2 - 48, 8)
     else if v < 400 then (v div 2 + 88, 8) else (v - 256, 9))"

definition fixed_entry :: "codetype \<Rightarrow> nat \<Rightarrow> nat \<Rightarrow> code" where
  "fixed_entry type s b = (if no_sym type s then \<lparr>code_op = 64, code_bits = b, code_val = 0\<rparr> else sym_entry type s b)"

text \<open>The reversed numbers of \<open>n\<close> bits in order.\<close>

primrec rev_list :: "nat \<Rightarrow> nat list" where
  "rev_list 0 = [0]"
| "rev_list (Suc n) = (let r = rev_list n in map (\<lambda>y. 2 * y) r @ map (\<lambda>y. 2 * y + 1) r)"

lemma rev_list_rbits: "map (rbits n) [0..<2 ^ n] = rev_list n"
proof (induction n)
  case (Suc n)
  have a: "rbits (Suc n) x = 2 * rbits n x" if "x < 2 ^ n" for x using that by (simp add: rbits_snoc del: rbits.simps)
  have b: "rbits (Suc n) (x + 2 ^ n) = 2 * rbits n x + 1" if "x < 2 ^ n" for x
    using that rbits_mod[of n "x + 2 ^ n"] rbits_mod[of n x] div_add_self2[of "2 ^ n" x] by (simp add: rbits_snoc del: rbits.simps)
  have "[0..<2 ^ Suc n] = [0..<2 ^ n] @ map (\<lambda>x. x + 2 ^ n) [0..<2 ^ n]"
    using upt_add_eq_append[of 0 "2 ^ n" "2 ^ n"] by (simp add: map_add_upt mult_2)
  then show ?case using a b by (simp add: Suc[symmetric] Let_def comp_def del: rbits.simps)
qed simp

lemma rev_list_numeral: "rev_list (numeral k) = (let r = rev_list (pred_numeral k) in map (\<lambda>y. 2 * y) r @ map (\<lambda>y. 2 * y + 1) r)"
  by (simp add: numeral_eq_Suc)

definition lenfix_syms :: "(nat \<times> nat) list" where
  "lenfix_syms = [
     (256, 7), (80, 8), (16, 8), (280, 8), (272, 7), (112, 8), (48, 8), (192, 9), (264, 7), (96, 8), (32, 8), (160,
     9), (0, 8), (128, 8), (64, 8), (224, 9), (260, 7), (88, 8), (24, 8), (144, 9), (276, 7), (120, 8), (56,
     8), (208, 9), (268, 7), (104, 8), (40, 8), (176, 9), (8, 8), (136, 8), (72, 8), (240, 9), (258, 7), (84,
     8), (20, 8), (284, 8), (274, 7), (116, 8), (52, 8), (200, 9), (266, 7), (100, 8), (36, 8), (168, 9), (4,
     8), (132, 8), (68, 8), (232, 9), (262, 7), (92, 8), (28, 8), (152, 9), (278, 7), (124, 8), (60, 8), (216,
     9), (270, 7), (108, 8), (44, 8), (184, 9), (12, 8), (140, 8), (76, 8), (248, 9), (257, 7), (82, 8), (18,
     8), (282, 8), (273, 7), (114, 8), (50, 8), (196, 9), (265, 7), (98, 8), (34, 8), (164, 9), (2, 8), (130,
     8), (66, 8), (228, 9), (261, 7), (90, 8), (26, 8), (148, 9), (277, 7), (122, 8), (58, 8), (212, 9), (269,
     7), (106, 8), (42, 8), (180, 9), (10, 8), (138, 8), (74, 8), (244, 9), (259, 7), (86, 8), (22, 8), (286,
     8), (275, 7), (118, 8), (54, 8), (204, 9), (267, 7), (102, 8), (38, 8), (172, 9), (6, 8), (134, 8), (70,
     8), (236, 9), (263, 7), (94, 8), (30, 8), (156, 9), (279, 7), (126, 8), (62, 8), (220, 9), (271, 7), (110,
     8), (46, 8), (188, 9), (14, 8), (142, 8), (78, 8), (252, 9), (256, 7), (81, 8), (17, 8), (281, 8), (272,
     7), (113, 8), (49, 8), (194, 9), (264, 7), (97, 8), (33, 8), (162, 9), (1, 8), (129, 8), (65, 8), (226,
     9), (260, 7), (89, 8), (25, 8), (146, 9), (276, 7), (121, 8), (57, 8), (210, 9), (268, 7), (105, 8), (41,
     8), (178, 9), (9, 8), (137, 8), (73, 8), (242, 9), (258, 7), (85, 8), (21, 8), (285, 8), (274, 7), (117,
     8), (53, 8), (202, 9), (266, 7), (101, 8), (37, 8), (170, 9), (5, 8), (133, 8), (69, 8), (234, 9), (262,
     7), (93, 8), (29, 8), (154, 9), (278, 7), (125, 8), (61, 8), (218, 9), (270, 7), (109, 8), (45, 8), (186,
     9), (13, 8), (141, 8), (77, 8), (250, 9), (257, 7), (83, 8), (19, 8), (283, 8), (273, 7), (115, 8), (51,
     8), (198, 9), (265, 7), (99, 8), (35, 8), (166, 9), (3, 8), (131, 8), (67, 8), (230, 9), (261, 7), (91,
     8), (27, 8), (150, 9), (277, 7), (123, 8), (59, 8), (214, 9), (269, 7), (107, 8), (43, 8), (182, 9), (11,
     8), (139, 8), (75, 8), (246, 9), (259, 7), (87, 8), (23, 8), (287, 8), (275, 7), (119, 8), (55, 8), (206,
     9), (267, 7), (103, 8), (39, 8), (174, 9), (7, 8), (135, 8), (71, 8), (238, 9), (263, 7), (95, 8), (31,
     8), (158, 9), (279, 7), (127, 8), (63, 8), (222, 9), (271, 7), (111, 8), (47, 8), (190, 9), (15, 8), (143,
     8), (79, 8), (254, 9), (256, 7), (80, 8), (16, 8), (280, 8), (272, 7), (112, 8), (48, 8), (193, 9), (264,
     7), (96, 8), (32, 8), (161, 9), (0, 8), (128, 8), (64, 8), (225, 9), (260, 7), (88, 8), (24, 8), (145,
     9), (276, 7), (120, 8), (56, 8), (209, 9), (268, 7), (104, 8), (40, 8), (177, 9), (8, 8), (136, 8), (72,
     8), (241, 9), (258, 7), (84, 8), (20, 8), (284, 8), (274, 7), (116, 8), (52, 8), (201, 9), (266, 7), (100,
     8), (36, 8), (169, 9), (4, 8), (132, 8), (68, 8), (233, 9), (262, 7), (92, 8), (28, 8), (153, 9), (278,
     7), (124, 8), (60, 8), (217, 9), (270, 7), (108, 8), (44, 8), (185, 9), (12, 8), (140, 8), (76, 8), (249,
     9), (257, 7), (82, 8), (18, 8), (282, 8), (273, 7), (114, 8), (50, 8), (197, 9), (265, 7), (98, 8), (34,
     8), (165, 9), (2, 8), (130, 8), (66, 8), (229, 9), (261, 7), (90, 8), (26, 8), (149, 9), (277, 7), (122,
     8), (58, 8), (213, 9), (269, 7), (106, 8), (42, 8), (181, 9), (10, 8), (138, 8), (74, 8), (245, 9), (259,
     7), (86, 8), (22, 8), (286, 8), (275, 7), (118, 8), (54, 8), (205, 9), (267, 7), (102, 8), (38, 8), (173,
     9), (6, 8), (134, 8), (70, 8), (237, 9), (263, 7), (94, 8), (30, 8), (157, 9), (279, 7), (126, 8), (62,
     8), (221, 9), (271, 7), (110, 8), (46, 8), (189, 9), (14, 8), (142, 8), (78, 8), (253, 9), (256, 7), (81,
     8), (17, 8), (281, 8), (272, 7), (113, 8), (49, 8), (195, 9), (264, 7), (97, 8), (33, 8), (163, 9), (1,
     8), (129, 8), (65, 8), (227, 9), (260, 7), (89, 8), (25, 8), (147, 9), (276, 7), (121, 8), (57, 8), (211,
     9), (268, 7), (105, 8), (41, 8), (179, 9), (9, 8), (137, 8), (73, 8), (243, 9), (258, 7), (85, 8), (21,
     8), (285, 8), (274, 7), (117, 8), (53, 8), (203, 9), (266, 7), (101, 8), (37, 8), (171, 9), (5, 8), (133,
     8), (69, 8), (235, 9), (262, 7), (93, 8), (29, 8), (155, 9), (278, 7), (125, 8), (61, 8), (219, 9), (270,
     7), (109, 8), (45, 8), (187, 9), (13, 8), (141, 8), (77, 8), (251, 9), (257, 7), (83, 8), (19, 8), (283,
     8), (273, 7), (115, 8), (51, 8), (199, 9), (265, 7), (99, 8), (35, 8), (167, 9), (3, 8), (131, 8), (67,
     8), (231, 9), (261, 7), (91, 8), (27, 8), (151, 9), (277, 7), (123, 8), (59, 8), (215, 9), (269, 7), (107,
     8), (43, 8), (183, 9), (11, 8), (139, 8), (75, 8), (247, 9), (259, 7), (87, 8), (23, 8), (287, 8), (275,
     7), (119, 8), (55, 8), (207, 9), (267, 7), (103, 8), (39, 8), (175, 9), (7, 8), (135, 8), (71, 8), (239,
     9), (263, 7), (95, 8), (31, 8), (159, 9), (279, 7), (127, 8), (63, 8), (223, 9), (271, 7), (111, 8), (47,
     8), (191, 9), (15, 8), (143, 8), (79, 8), (255, 9)]"

lemma lenfix_syms_sorted: "map fixed_sym (rev_list 9) = lenfix_syms"
  by (simp add: rev_list_numeral fixed_sym_def lenfix_syms_def)

lemma fixed_entry_lit: "s < 256 \<Longrightarrow> fixed_entry LENS s b = mk_code (0, b, s)"
  by (simp add: fixed_entry_def no_sym_def sym_entry_def sym_op_def sym_val_def mk_code_def)

lemma fixed_entry_length:
  shows "fixed_entry LENS 256 b = mk_code (96, b, 0)" "fixed_entry LENS 286 b = mk_code (64, b, 0)" "fixed_entry LENS 287 b = mk_code (64, b, 0)"
    and
    "fixed_entry LENS 257 b = mk_code (16, b, 3)" "fixed_entry LENS 258 b = mk_code (16, b, 4)"
    "fixed_entry LENS 259 b = mk_code (16, b, 5)" "fixed_entry LENS 260 b = mk_code (16, b, 6)"
    "fixed_entry LENS 261 b = mk_code (16, b, 7)" "fixed_entry LENS 262 b = mk_code (16, b, 8)"
    "fixed_entry LENS 263 b = mk_code (16, b, 9)" "fixed_entry LENS 264 b = mk_code (16, b, 10)"
    "fixed_entry LENS 265 b = mk_code (17, b, 11)" "fixed_entry LENS 266 b = mk_code (17, b, 13)"
    "fixed_entry LENS 267 b = mk_code (17, b, 15)" "fixed_entry LENS 268 b = mk_code (17, b, 17)"
    "fixed_entry LENS 269 b = mk_code (18, b, 19)" "fixed_entry LENS 270 b = mk_code (18, b, 23)"
    "fixed_entry LENS 271 b = mk_code (18, b, 27)" "fixed_entry LENS 272 b = mk_code (18, b, 31)"
    "fixed_entry LENS 273 b = mk_code (19, b, 35)" "fixed_entry LENS 274 b = mk_code (19, b, 43)"
    "fixed_entry LENS 275 b = mk_code (19, b, 51)" "fixed_entry LENS 276 b = mk_code (19, b, 59)"
    "fixed_entry LENS 277 b = mk_code (20, b, 67)" "fixed_entry LENS 278 b = mk_code (20, b, 83)"
    "fixed_entry LENS 279 b = mk_code (20, b, 99)" "fixed_entry LENS 280 b = mk_code (20, b, 115)"
    "fixed_entry LENS 281 b = mk_code (21, b, 131)" "fixed_entry LENS 282 b = mk_code (21, b, 163)"
    "fixed_entry LENS 283 b = mk_code (21, b, 195)" "fixed_entry LENS 284 b = mk_code (21, b, 227)"
    "fixed_entry LENS 285 b = mk_code (16, b, 258)"
  by (simp_all add: fixed_entry_def no_sym_def sym_entry_def sym_op_def sym_val_def mk_code_def lext_def lbase_def)

lemma lenfix_syms_entries: "lenfix = map (\<lambda>(s, b). fixed_entry LENS s b) lenfix_syms"
  unfolding lenfix_def lenfix_syms_def list.map by (simp add: fixed_entry_lit fixed_entry_length)

lemma lenfix_entries: "lenfix = map (\<lambda>x. case fixed_sym (rbits 9 x) of (s, b) \<Rightarrow> fixed_entry LENS s b) [0..<512]"
proof -
  have "map (rbits 9) [0..<512] = rev_list 9" using rev_list_rbits[of 9] by simp
  then have "map (\<lambda>x. fixed_sym (rbits 9 x)) [0..<512] = lenfix_syms"
    unfolding lenfix_syms_sorted[symmetric] by (metis (no_types, lifting) list.map_comp map_eq_conv comp_apply)
  then show ?thesis unfolding lenfix_syms_entries by (metis (no_types, lifting) list.map_comp map_eq_conv comp_apply)
qed

lemma distfix_entries: "distfix = map (\<lambda>x. fixed_entry DISTS (rbits 5 x) 5) [0..<32]"
  by (simp add: upt_rec rbits_numeral distfix_def mk_code_def fixed_entry_def no_sym_def sym_entry_def sym_op_def sym_val_def dext_def dbase_def)

lemma fixed_entry_ok: "s < max_codes type \<Longrightarrow> ok_entry type s b (fixed_entry type s b)"
  using sym_entry_ok[of s type b] by (simp add: fixed_entry_def ok_entry_def is_link_def)

section \<open>The tables\<close>

lemma lenfix_nth:
  assumes "s < 288" "t mod 2 ^ (static_lens ! s) = canon_code static_lens s"
  shows "lenfix ! (t mod 512) = fixed_entry LENS s (static_lens ! s)"
proof -
  let ?v = "rbits 9 t"
  have v: "rbits 9 (t mod 512) = ?v" using rbits_mod[of 9 t] by simp
  have d: "?v div 2 ^ (9 - l) = rbits l t" if "l \<le> 9" for l using rbits_div[of l 9 t] that by simp
  have "fixed_sym ?v = (s, static_lens ! s)"
  proof -
    consider "s < 144" | "144 \<le> s" "s < 256" | "256 \<le> s" "s < 280" | "280 \<le> s" by linarith
    then show ?thesis
    proof cases
      case 1
      then have "rbits 8 t = 48 + s"
        using assms rbits_eq_iff[of "48 + s" 8 t] by (simp add: static_lens_nth static_canon)
      then have "?v div 2 = 48 + s" using d[of 8] by simp
      moreover have "?v \<ge> 96" "?v < 384" using calculation 1 by linarith+
      ultimately show ?thesis using 1 by (simp add: fixed_sym_def static_lens_nth)
    next
      case 2
      then have "?v = 256 + s" using assms rbits_eq_iff[of "256 + s" 9 t] by (simp add: static_lens_nth static_canon)
      then show ?thesis using 2 by (simp add: fixed_sym_def static_lens_nth)
    next
      case 3
      then have "rbits 7 t = s - 256" using assms rbits_eq_iff[of "s - 256" 7 t] by (simp add: static_lens_nth static_canon)
      then have "?v div 4 = s - 256" using d[of 7] by simp
      moreover have "?v < 96" using calculation 3 by linarith
      ultimately show ?thesis using 3 by (simp add: fixed_sym_def static_lens_nth)
    next
      case 4
      then have "rbits 8 t = s - 88" using assms rbits_eq_iff[of "s - 88" 8 t] by (simp add: static_lens_nth static_canon)
      then have "?v div 2 = s - 88" using d[of 8] by simp
      moreover have "?v \<ge> 384" "?v < 400" using calculation 4 assms(1) by linarith+
      ultimately show ?thesis using 4 assms(1) by (simp add: fixed_sym_def static_lens_nth)
    qed
  qed
  then show ?thesis by (simp add: lenfix_entries v)
qed

lemma lenfix_ok: "table_ok LENS static_lens lenfix 9"
proof -
  have le: "\<forall>l\<in>set static_lens. l \<le> 15" by (rule static_lens_kraft(2))
  have all: "(\<forall>s. \<not> sym_matches static_lens t s) = False" for t
    using canon_code_total[OF le static_kraft, of t] unfolding sym_matches_def by blast
  have finds: "table_finds LENS static_lens lenfix 9 t s" if "sym_matches static_lens t s" for t s
  proof -
    have s: "s < 288" "t mod 2 ^ (static_lens ! s) = canon_code static_lens s" using that by (simp_all add: sym_matches_def length_static_lens)
    have "static_lens ! s \<le> 9" using s(1) by (simp add: static_lens_nth)
    then show ?thesis using lenfix_nth[OF s] fixed_entry_ok[of s LENS] s(1) by (simp add: table_finds_def max_codes_def)
  qed
  have "length lenfix = 512" by (simp add: lenfix_entries)
  then show ?thesis
    using le static_kraft finds unfolding table_ok_def all length_static_lens max_codes_def by simp
qed

lemma distfix_ok: "table_ok DISTS fixed_dlens distfix 5"
proof -
  note le = fixed_dlens_kraft(2)
  have all: "(\<forall>s. \<not> sym_matches fixed_dlens t s) = False" for t
    using canon_code_total[OF le fixed_dlens_kraft(1), of t] unfolding sym_matches_def by blast
  have finds: "table_finds DISTS fixed_dlens distfix 5 t s" if "sym_matches fixed_dlens t s" for t s
  proof -
    have s: "s < 32" "t mod 32 = rbits 5 s" using that fixed_canon[of s] by (auto simp: sym_matches_def fixed_dlens_def)
    have "rbits 5 (t mod 32) = s" unfolding s(2) rbits_twice using s(1) by simp
    then show ?thesis using fixed_entry_ok[of s DISTS 5] s(1) by (simp add: table_finds_def max_codes_def distfix_entries fixed_dlens_def)
  qed
  have "length distfix = 32" "length fixed_dlens = 32" by (simp_all add: distfix_entries fixed_dlens_def)
  then show ?thesis
    using le fixed_dlens_kraft finds unfolding table_ok_def all max_codes_def by simp
qed

end
