(* ===== verification/Inflate_Spec.thy ===== *)
theory Inflate_Spec
  imports Inflate_Fixed
begin

text \<open>
  What a state of the decompressor has still to do, in terms of the format's decoder: the result that
  the decoder has for the rest of the stream.  The state is correct as long as this result is that of
  the whole stream.
\<close>

section \<open>Streams of blocks\<close>

lemma take_bits_le: "take_bits n bs = Some (v, bs') \<Longrightarrow> length bs' \<le> length bs"
  using take_bits_length[of n bs v bs'] by simp

lemma decode_data_le: "decode_data lens dlens out bs = Some (out', bs') \<Longrightarrow> length bs' \<le> length bs"
proof (induction "length bs" arbitrary: out bs rule: less_induct)
  case less
  have IH: "length b < length bs \<Longrightarrow> decode_data lens dlens o1 b = Some (out', bs') \<Longrightarrow> length bs' \<le> length bs" for o1 b
    using less.hyps[of b o1] by simp
  have IH2: "length c < length b \<Longrightarrow> length b < length bs \<Longrightarrow> decode_data lens dlens o1 c = Some (out', bs') \<Longrightarrow> length bs' \<le> length bs" for o1 b c
    using less.hyps[of c o1] by simp
  from less.prems show ?case
    by (subst (asm) decode_data.simps)
       (auto split: option.splits if_splits dest!: decode_sym_less decode_match_less, (rule IH IH2; assumption)+)
qed

lemma decode_lens_le: "decode_lens cl n acc bs = Some (lens, bs') \<Longrightarrow> length bs' \<le> length bs"
proof (induction "length bs" arbitrary: acc bs rule: less_induct)
  case less
  have IH: "length b < length bs \<Longrightarrow> decode_lens cl n a b = Some (lens, bs') \<Longrightarrow> length bs' \<le> length bs" for a b
    using less.hyps[of b a] by simp
  have IH2: "length c \<le> length b \<Longrightarrow> length b < length bs \<Longrightarrow> decode_lens cl n a c = Some (lens, bs') \<Longrightarrow> length bs' \<le> length bs" for a b c
    using less.hyps[of c a] by simp
  show ?case
  proof (cases "n \<le> length acc")
    case True
    then show ?thesis using less.prems by (subst (asm) decode_lens.simps) (simp split: if_splits)
  next
    case False
    obtain s b where b: "decode_sym cl bs = Some (s, b)"
      using less.prems False by (subst (asm) decode_lens.simps) (auto split: option.splits)
    note l = decode_sym_less[OF b]
    show ?thesis using less.prems False b l
      by (subst (asm) decode_lens.simps)
         (auto split: option.splits if_splits dest!: take_bits_le, (rule IH IH2; assumption)+)
  qed
qed

lemma decode_clens_le: "decode_clens ks cl bs = Some (cl', bs') \<Longrightarrow> length bs' \<le> length bs"
proof (induction ks arbitrary: cl bs)
  case (Cons k ks)
  then obtain v b where b: "take_bits 3 bs = Some (v, b)" "decode_clens ks (cl[k := v]) b = Some (cl', bs')"
    by (auto split: option.splits)
  show ?case using Cons.IH[OF b(2)] take_bits_le[OF b(1)] by simp
qed simp

lemma decode_trees_le: "decode_trees bs = Some (l, d, bs') \<Longrightarrow> length bs' \<le> length bs"
  by (auto simp: decode_trees_def Let_def split: bind_splits if_splits dest!: take_bits_le decode_clens_le decode_lens_le)

lemma decode_stored_le: "decode_stored out bs = Some (out', bs') \<Longrightarrow> length bs' \<le> length bs"
  by (auto simp: decode_stored_def Let_def split: bind_splits if_splits dest!: take_bits_le, linarith)

lemma decode_block_less: "decode_block out bs = Some (final, out', bs') \<Longrightarrow> length bs' < length bs"
  by (auto simp: decode_block_def split: bind_splits if_splits
      dest!: take_bits_length decode_stored_le decode_data_le decode_trees_le)

text \<open>The blocks up to the last one, and the rest of the stream from the next byte on.\<close>

function decode_blocks :: "byte list \<Rightarrow> bool list \<Rightarrow> (byte list \<times> bool list) option" where
  "decode_blocks out bs = (case decode_block out bs of None \<Rightarrow> None
     | Some (final, out, bs) \<Rightarrow> if final \<noteq> 0 then Some (out, drop (length bs mod 8) bs) else decode_blocks out bs)"
  by pat_completeness auto
termination
  by (relation "measure (\<lambda>(_, bs). length bs)") (auto dest: decode_block_less)

declare decode_blocks.simps [simp del]

section \<open>Check values\<close>

definition check_value :: "nat \<Rightarrow> byte list \<Rightarrow> uLong" where
  "check_value flags h = (if flags \<noteq> 0 then crc32_upd (crc32 True 0 0 None) h else adler32 (adler32 0 None) (Some h))"

text \<open>What follows the data: nothing, its Adler-32, or its CRC and length.\<close>

definition length_trailer :: "nat \<Rightarrow> nat \<Rightarrow> byte list \<Rightarrow> bool list \<Rightarrow> (byte list \<times> bool list) option" where
  "length_trailer wrap flags h bs = (if wrap \<noteq> 0 \<and> flags \<noteq> 0 then do {
       (n, bs) \<leftarrow> take_bits 32 bs;
       if n = length h mod 2 ^ 32 then Some (h, bs) else None }
     else Some (h, bs))"

definition trailer :: "nat \<Rightarrow> nat \<Rightarrow> byte list \<Rightarrow> bool list \<Rightarrow> (byte list \<times> bool list) option" where
  "trailer wrap flags h bs = (if wrap = 0 then Some (h, bs) else do {
     (c, bs) \<leftarrow> take_bits 32 bs;
     if (if flags \<noteq> 0 then of_nat c else zswap32 c) = check_value flags h then length_trailer wrap flags h bs else None })"

text \<open>After a block, the last one or not.\<close>

definition finish_at :: "nat \<Rightarrow> nat \<Rightarrow> nat \<Rightarrow> (byte list \<times> bool list) option \<Rightarrow> (byte list \<times> bool list) option" where
  "finish_at last_block wrap flags x = (case x of None \<Rightarrow> None
     | Some (h, bs) \<Rightarrow>
       (case (if last_block \<noteq> 0 then Some (h, drop (length bs mod 8) bs) else decode_blocks h bs) of None \<Rightarrow> None
        | Some (h, bs) \<Rightarrow> trailer wrap flags h bs))"

abbreviation finish :: "inflate_state \<Rightarrow> (byte list \<times> bool list) option \<Rightarrow> (byte list \<times> bool list) option" where
  "finish st \<equiv> finish_at (i_last st) (i_wrap st) (i_flags st)"

lemma finish_None [simp]: "finish_at l w f None = None"
  by (simp add: finish_at_def)

lemma length_to_bytes [simp]: "length (to_bytes n bs) = n"
  by (induction n arbitrary: bs) simp_all

section \<open>The rest of a block\<close>

definition copy_stored :: "nat \<Rightarrow> byte list \<Rightarrow> bool list \<Rightarrow> (byte list \<times> bool list) option" where
  "copy_stored len h bs = (if length bs < 8 * len then None else Some (h @ to_bytes len bs, drop (8 * len) bs))"

definition lens_rest :: "nat \<Rightarrow> byte list \<Rightarrow> (nat list \<times> bool list) option \<Rightarrow> (byte list \<times> bool list) option" where
  "lens_rest nlen h x = (case x of None \<Rightarrow> None
     | Some (lens, bs) \<Rightarrow>
       if take nlen lens ! 256 = 0 \<or> bad_lens LENS (take nlen lens) \<or> bad_lens DISTS (drop nlen lens) then None
       else decode_data (take nlen lens) (drop nlen lens) h bs)"

definition clens_rest :: "nat \<Rightarrow> nat \<Rightarrow> byte list \<Rightarrow> (nat list \<times> bool list) option \<Rightarrow> (byte list \<times> bool list) option" where
  "clens_rest nlen ndist h x = (case x of None \<Rightarrow> None
     | Some (cl, bs) \<Rightarrow> if bad_lens CODES cl then None else lens_rest nlen h (decode_lens cl (nlen + ndist) [] bs))"

definition trees_rest :: "byte list \<Rightarrow> bool list \<Rightarrow> (byte list \<times> bool list) option" where
  "trees_rest h bs = (case decode_trees bs of None \<Rightarrow> None | Some (l, d, bs) \<Rightarrow> decode_data l d h bs)"

lemma trees_rest_unfold: "trees_rest h bs = do {
     (hlit, bs) \<leftarrow> take_bits 5 bs;
     (hdist, bs) \<leftarrow> take_bits 5 bs;
     (hclen, bs) \<leftarrow> take_bits 4 bs;
     if hlit + 257 > 286 \<or> hdist + 1 > 30 then None
     else clens_rest (hlit + 257) (hdist + 1) h (decode_clens (take (hclen + 4) cl_order) (replicate 19 0) bs) }"
  by (auto simp: trees_rest_def decode_trees_def clens_rest_def lens_rest_def Let_def split: option.splits bind_splits)

definition match_rest :: "nat list \<Rightarrow> nat list \<Rightarrow> byte list \<Rightarrow> nat \<Rightarrow> nat \<Rightarrow> bool list \<Rightarrow> (byte list \<times> bool list) option" where
  "match_rest lens dlens h len dist bs = (case put_match h len dist of None \<Rightarrow> None | Some h \<Rightarrow> decode_data lens dlens h bs)"

definition distext_rest :: "nat list \<Rightarrow> nat list \<Rightarrow> byte list \<Rightarrow> nat \<Rightarrow> nat \<Rightarrow> nat \<Rightarrow> bool list \<Rightarrow> (byte list \<times> bool list) option" where
  "distext_rest lens dlens h len dist ex bs = do { (x, bs) \<leftarrow> take_bits ex bs; match_rest lens dlens h len (dist + x) bs }"

definition dist_rest :: "nat list \<Rightarrow> nat list \<Rightarrow> byte list \<Rightarrow> nat \<Rightarrow> bool list \<Rightarrow> (byte list \<times> bool list) option" where
  "dist_rest lens dlens h len bs = do {
     (d, bs) \<leftarrow> decode_sym dlens bs;
     if d \<ge> 30 then None else distext_rest lens dlens h len (dbase ! d) (dext ! d - 16) bs }"

definition lenext_rest :: "nat list \<Rightarrow> nat list \<Rightarrow> byte list \<Rightarrow> nat \<Rightarrow> nat \<Rightarrow> bool list \<Rightarrow> (byte list \<times> bool list) option" where
  "lenext_rest lens dlens h len ex bs = do { (x, bs) \<leftarrow> take_bits ex bs; dist_rest lens dlens h (len + x) bs }"

lemma decode_data_unfold: "decode_data lens dlens h bs = (case decode_sym lens bs of None \<Rightarrow> None
     | Some (s, bs) \<Rightarrow>
       if s < 256 then decode_data lens dlens (h @ [of_nat s]) bs
       else if s = 256 then Some (h, bs)
       else if s \<ge> 286 then None
       else lenext_rest lens dlens h (lbase ! (s - 257)) (lext ! (s - 257) - 16) bs)"
  by (subst decode_data.simps)
     (auto simp: lenext_rest_def dist_rest_def distext_rest_def match_rest_def decode_match_def split: option.splits bind_splits)

lemma decode_block_unfold: "decode_block h bs = do {
     (final, bs) \<leftarrow> take_bits 1 bs;
     (type, bs) \<leftarrow> take_bits 2 bs;
     map_option (Pair final) (if type = 0 then decode_stored h bs
       else if type = 1 then decode_data static_lens fixed_dlens h bs
       else if type = 2 then trees_rest h bs else None) }"
  by (auto simp: decode_block_def trees_rest_def split: option.splits bind_splits)

text \<open>Decoding only appends.\<close>

lemma lz_copy_length: "length (lz_copy out dist n) = length out + n"
  by (induction n arbitrary: out) simp_all

lemma decode_data_mono: "decode_data lens dlens out bs = Some (out', bs') \<Longrightarrow> length out \<le> length out'"
proof (induction "length bs" arbitrary: out bs rule: less_induct)
  case less
  obtain s b where b: "decode_sym lens bs = Some (s, b)"
    using less.prems by (subst (asm) decode_data.simps) (auto split: option.splits)
  note l = decode_sym_less[OF b]
  show ?case
  proof (cases "s < 256")
    case True
    then have "decode_data lens dlens (out @ [of_nat s]) b = Some (out', bs')"
      using less.prems b by (subst (asm) decode_data.simps) simp
    from less.hyps[OF l this] show ?thesis by simp
  next
    case False
    show ?thesis
    proof (cases "s = 256")
      case True
      then show ?thesis using less.prems b by (subst (asm) decode_data.simps) simp
    next
      case ne: False
      obtain len dist b2 o2 where m: "decode_match dlens s b = Some (len, dist, b2)" "put_match out len dist = Some o2" "decode_data lens dlens o2 b2 = Some (out', bs')"
        using less.prems b False ne by (subst (asm) decode_data.simps) (auto split: option.splits)
      have "length b2 < length bs" using decode_match_less[OF m(1)] l by simp
      from less.hyps[OF this m(3)] show ?thesis using m(2) by (auto simp: put_match_def lz_copy_length split: if_splits)
    qed
  qed
qed

lemma decode_block_mono: "decode_block out bs = Some (final, out', bs') \<Longrightarrow> length out \<le> length out'"
  by (auto simp: decode_block_def decode_stored_def Let_def split: bind_splits if_splits dest!: decode_data_mono)

lemma decode_blocks_mono: "decode_blocks out bs = Some (out', bs') \<Longrightarrow> length out \<le> length out'"
proof (induction "length bs" arbitrary: out bs rule: less_induct)
  case less
  obtain l o1 b1 where b: "decode_block out bs = Some (l, o1, b1)"
    using less.prems by (subst (asm) decode_blocks.simps) (auto split: option.splits)
  show ?case
  proof (cases "l = 0")
    case True
    then have "decode_blocks o1 b1 = Some (out', bs')" using less.prems b by (subst (asm) decode_blocks.simps) simp
    from less.hyps[OF decode_block_less[OF b] this] show ?thesis using decode_block_mono[OF b] by simp
  next
    case False
    then show ?thesis using less.prems b decode_block_mono[OF b] by (subst (asm) decode_blocks.simps) simp
  qed
qed

lemma trailer_data: "trailer wrap flags h bs = Some (h', bs') \<Longrightarrow> h' = h"
  by (auto simp: trailer_def length_trailer_def split: if_splits bind_splits)

lemma finish_mono: "finish_at l w f (Some (h, bs)) = Some (h', bs') \<Longrightarrow> length h \<le> length h'"
  by (auto simp: finish_at_def split: if_splits option.splits dest!: trailer_data decode_blocks_mono)

end
