(* ===== verification/Inflate_Inv.thy ===== *)
theory Inflate_Inv
  imports Inflate_Spec
begin

text \<open>
  The invariant of the decompressor and its relation to the format's decoder.  \<open>H\<close> is the output of
  earlier calls, \<open>fut\<close> the bits of the input of later calls, and \<open>r\<close> the result of the decoder for the
  whole stream.
\<close>

section \<open>The window\<close>

definition window_of :: "inflate_state \<Rightarrow> byte list" where
  "window_of st = (case i_window st of None \<Rightarrow> [] | Some w \<Rightarrow> w)"

text \<open>The window in the order of time.\<close>

definition ring :: "inflate_state \<Rightarrow> byte list" where
  "ring st = drop (i_wnext st) (window_of st) @ take (i_wnext st) (window_of st)"

definition win_mem :: "inflate_state \<Rightarrow> bool" where
  "win_mem st \<longleftrightarrow> (i_window st \<noteq> None \<longrightarrow> length (window_of st) = 2 ^ i_wbits st)
     \<and> (i_wsize st \<noteq> 0 \<longrightarrow> i_wsize st = 2 ^ i_wbits st \<and> i_window st \<noteq> None \<and> i_wnext st < i_wsize st \<and> i_whave st \<le> i_wsize st
         \<and> (i_whave st < i_wsize st \<longrightarrow> i_wnext st = i_whave st))"

text \<open>It holds the last bytes of the history.\<close>

definition win_hist :: "inflate_state \<Rightarrow> byte list \<Rightarrow> bool" where
  "win_hist st H \<longleftrightarrow> (if i_wsize st = 0 then H = [] \<and> i_whave st = 0
     else i_whave st = min (i_wsize st) (length H)
       \<and> drop (length H - i_whave st) H = drop (i_wsize st - i_whave st) (ring st))"

section \<open>The invariant of all modes\<close>

definition new_count :: "inflate_state \<Rightarrow> nat" where
  "new_count st = i_out st - avail_out st"

definition base :: "inflate_state \<Rightarrow> byte list \<Rightarrow> bool" where
  "base st H \<longleftrightarrow> acc_ok st \<and> length (i_lens st) = 320 \<and> length (i_work st) = 288
     \<and> i_wbits st = 15 \<and> i_sane st \<and> (i_wrap st \<noteq> 0 \<longrightarrow> i_wrap st AND 4 \<noteq> 0) \<and> win_mem st
     \<and> avail_out st \<le> i_out st \<and> new_count st \<le> length (out_buf st)
     \<and> (i_wrap st \<noteq> 0 \<longrightarrow>
          i_check st = check_value (i_flags st) (take (length H + length (out_buf st) - new_count st) (H @ out_buf st)))
     \<and> i_total st = of_nat (length H + length (out_buf st) - new_count st)"

section \<open>What remains to be done\<close>

definition two_tables :: "inflate_state \<Rightarrow> nat list \<Rightarrow> nat list \<Rightarrow> bool" where
  "two_tables st lens dlens \<longleftrightarrow> table_ok LENS lens (ptr_tab st (i_lencode st)) (i_lenbits st)
     \<and> table_ok DISTS dlens (ptr_tab st (i_distcode st)) (i_distbits st)"

definition code_side :: "inflate_state \<Rightarrow> nat list \<Rightarrow> nat list \<Rightarrow> bool" where
  "code_side st lens dlens \<longleftrightarrow> (case i_mode st of
       LEN \<Rightarrow> lazy lens st
     | LENEXT \<Rightarrow> i_bits st < 8 \<and> i_extra st \<le> 5 \<and> 1 \<le> i_length st
     | DIST \<Rightarrow> lazy dlens st \<and> 1 \<le> i_length st
     | DISTEXT \<Rightarrow> (i_bits st < 8 \<or> i_bits st < i_extra st) \<and> i_extra st \<le> 13 \<and> 1 \<le> i_offset st \<and> i_offset st + 2 ^ i_extra st \<le> 32769 \<and> 1 \<le> i_length st
     | MATCH \<Rightarrow> i_bits st < 8 \<and> 1 \<le> i_offset st \<and> i_offset st \<le> 32768 \<and> 1 \<le> i_length st
     | _ \<Rightarrow> i_bits st < 8)"

definition code_rest :: "inflate_state \<Rightarrow> nat list \<Rightarrow> nat list \<Rightarrow> byte list \<Rightarrow> bool list \<Rightarrow> (byte list \<times> bool list) option" where
  "code_rest st lens dlens h bs = (case i_mode st of
       LIT \<Rightarrow> decode_data lens dlens (h @ [of_nat (i_length st)]) bs
     | LENEXT \<Rightarrow> lenext_rest lens dlens h (i_length st) (i_extra st) bs
     | DIST \<Rightarrow> dist_rest lens dlens h (i_length st) bs
     | DISTEXT \<Rightarrow> distext_rest lens dlens h (i_length st) (i_offset st) (i_extra st) bs
     | MATCH \<Rightarrow> match_rest lens dlens h (i_length st) (i_offset st) bs
     | _ \<Rightarrow> decode_data lens dlens h bs)"

text \<open>The lengths of the code length code that are there already.\<close>

definition clens_so_far :: "inflate_state \<Rightarrow> nat list \<Rightarrow> bool" where
  "clens_so_far st cl \<longleftrightarrow> length cl = 19 \<and> (\<forall>k<19. cl ! (cl_order ! k) = (if k < i_have st then i_lens st ! (cl_order ! k) else 0))
     \<and> (\<forall>k<19. cl ! k < 8)"

definition table_sizes :: "inflate_state \<Rightarrow> bool" where
  "table_sizes st \<longleftrightarrow> 257 \<le> i_nlen st \<and> i_nlen st \<le> 286 \<and> 1 \<le> i_ndist st \<and> i_ndist st \<le> 30"

text \<open>
  Without any code for the code lengths the decoder fails at once, while \<open>inflate\<close> reads zeros until
  it finds the code of the end of block missing.
\<close>

definition codelens_todo :: "inflate_state \<Rightarrow> byte list \<Rightarrow> bool list \<Rightarrow> (byte list \<times> bool list) option \<Rightarrow> bool" where
  "codelens_todo st h bs r \<longleftrightarrow> table_sizes st \<and> i_have st \<le> i_nlen st + i_ndist st
     \<and> (\<exists>cl. table_ok CODES cl (ptr_tab st (i_lencode st)) (i_lenbits st) \<and> (\<forall>l\<in>set cl. l \<le> i_lenbits st) \<and>
         (if \<forall>l\<in>set cl. l = 0 then r = None \<and> (\<forall>k<i_have st. i_lens st ! k = 0)
          else kraft cl = 2 ^ 15 \<and> lazy cl st \<and> (i_have st < i_nlen st + i_ndist st \<or> i_bits st < 8) \<and> (\<forall>k<i_have st. i_lens st ! k \<le> 15)
            \<and> r = finish st (lens_rest (i_nlen st) h (decode_lens cl (i_nlen st + i_ndist st) (take (i_have st) (i_lens st)) bs))))"

definition block_todo :: "inflate_state \<Rightarrow> byte list \<Rightarrow> bool list \<Rightarrow> (byte list \<times> bool list) option \<Rightarrow> bool" where
  "block_todo st h bs r \<longleftrightarrow> (case i_mode st of
       TYPE0 \<Rightarrow> i_bits st < 8 \<and> r = finish st (Some (h, bs))
     | TYPEDO \<Rightarrow> i_bits st < 8 \<and> r = finish st (Some (h, bs))
     | STORED \<Rightarrow> r = finish st (decode_stored h bs)
     | COPY1 \<Rightarrow> i_bits st = 0 \<and> r = finish st (copy_stored (i_length st) h bs)
     | COPY \<Rightarrow> i_bits st = 0 \<and> r = finish st (copy_stored (i_length st) h bs)
     | TABLE \<Rightarrow> i_bits st < 14 \<and> r = finish st (trees_rest h bs)
     | LENLENS \<Rightarrow> i_bits st < 8 \<and> table_sizes st \<and> i_have st \<le> i_ncode st \<and> i_ncode st \<le> 19 \<and> (\<exists>cl. clens_so_far st cl
         \<and> r = finish st (clens_rest (i_nlen st) (i_ndist st) h (decode_clens (drop (i_have st) (take (i_ncode st) cl_order)) cl bs)))
     | CODELENS \<Rightarrow> codelens_todo st h bs r
     | _ \<Rightarrow> (\<exists>lens dlens. two_tables st lens dlens \<and> code_side st lens dlens \<and> r = finish st (code_rest st lens dlens h bs)))"

definition block_modes :: "inflate_mode set" where
  "block_modes = {TYPE0, TYPEDO, STORED, COPY1, COPY, TABLE, LENLENS, CODELENS, LEN1, LEN, LENEXT, DIST, DISTEXT, MATCH, LIT}"

text \<open>In the modes of the blocks, all output of the call is new.  An error is found only in a stream that the decoder rejects.\<close>

definition good :: "inflate_state \<Rightarrow> byte list \<Rightarrow> bool list \<Rightarrow> (byte list \<times> bool list) option \<Rightarrow> bool" where
  "good st H fut r \<longleftrightarrow> base st H \<and>
     (if i_mode st \<in> block_modes then win_hist st H \<and> length (i_codes st) = ENOUGH \<and> new_count st = length (out_buf st)
        \<and> block_todo st (H @ out_buf st) (rem_bits st @ fut) r
      else case i_mode st of
        CHECK \<Rightarrow> i_bits st mod 8 = 0 \<and> new_count st = length (out_buf st) \<and> r = trailer (i_wrap st) (i_flags st) (H @ out_buf st) (rem_bits st @ fut)
      | LENGTH0 \<Rightarrow> i_bits st mod 8 = 0 \<and> (i_wrap st \<noteq> 0 \<longrightarrow> new_count st = 0) \<and> r = length_trailer (i_wrap st) (i_flags st) (H @ out_buf st) (rem_bits st @ fut)
      | DONE \<Rightarrow> r = Some (H @ out_buf st, rem_bits st @ fut)
      | BAD \<Rightarrow> r = None
      | _ \<Rightarrow> False)"

section \<open>Progress\<close>

primrec mode_rank :: "inflate_mode \<Rightarrow> nat" where
  "mode_rank HEAD = 31" | "mode_rank FLAGS = 30" | "mode_rank TIME = 29" | "mode_rank OS = 28"
| "mode_rank EXLEN = 27" | "mode_rank EXTRA = 26" | "mode_rank NAME = 25" | "mode_rank COMMENT = 24"
| "mode_rank HCRC = 23" | "mode_rank DICTID = 22" | "mode_rank DICT = 21" | "mode_rank TABLE = 20"
| "mode_rank LENLENS = 19" | "mode_rank CODELENS = 18" | "mode_rank LEN1 = 17" | "mode_rank LEN = 16"
| "mode_rank LENEXT = 15" | "mode_rank DIST = 14" | "mode_rank DISTEXT = 13" | "mode_rank MATCH = 12" | "mode_rank LIT = 11"
| "mode_rank STORED = 10" | "mode_rank COPY1 = 9" | "mode_rank COPY = 8" | "mode_rank TYPE0 = 7" | "mode_rank TYPEDO = 7"
| "mode_rank CHECK = 6" | "mode_rank LENGTH0 = 5" | "mode_rank DONE = 4" | "mode_rank BAD = 3" | "mode_rank MEM = 2" | "mode_rank SYNC = 1"

text \<open>Every step that reads or writes nothing goes on to a mode of lower rank.\<close>

definition work_left :: "inflate_state \<Rightarrow> nat" where
  "work_left st = 64 * (i_bits st + 8 * length (next_in st) + avail_out st) + mode_rank (i_mode st)"

text \<open>Why \<open>inflate\<close> may stop without an end or an error.\<close>

definition may_stop :: "nat \<Rightarrow> inflate_state \<Rightarrow> byte list \<Rightarrow> bool list \<Rightarrow> (byte list \<times> bool list) option \<Rightarrow> bool" where
  "may_stop flush st H fut r \<longleftrightarrow> next_in st = [] \<and> (fut = [] \<longrightarrow> r = None)
     \<or> avail_out st = 0 \<and> (\<forall>out bs. r = Some (out, bs) \<longrightarrow> length H + length (out_buf st) < length out)
     \<or> flush = Z_BLOCK \<or> flush = Z_TREES"

definition step_ok :: "nat \<Rightarrow> inflate_state \<Rightarrow> byte list \<Rightarrow> bool list \<Rightarrow> (byte list \<times> bool list) option \<Rightarrow> step \<Rightarrow> bool" where
  "step_ok flush st H fut r x \<longleftrightarrow> (case x of
       Go st' \<Rightarrow> good st' H fut r \<and> work_left st' < work_left st
     | Leave st' ret \<Rightarrow> good st' H fut r \<and> (ret = Z_OK \<and> i_mode st' \<noteq> DONE \<and> i_mode st' \<noteq> BAD \<and> may_stop flush st' H fut r
         \<or> ret = Z_STREAM_END \<and> i_mode st' = DONE \<or> ret = Z_DATA_ERROR \<and> i_mode st' = BAD)
     | _ \<Rightarrow> False)"

end
