(* ===== verification/Inftrees_Enough.thy ===== *)
theory Inftrees_Enough
  imports Inftrees
begin

text \<open>
  The bounds \<open>ENOUGH_LENS\<close> and \<open>ENOUGH_DISTS\<close> of \<open>inftrees.h\<close> are enough: for the numbers of symbols and the
  root bits that \<open>inflate\<close> uses, no complete set of lengths makes \<open>inflate_table\<close> need more entries, so that
  it never returns 1.

  A sub-table for the codes \<open>k\<close>, ..., \<open>e - 1\<close> of the sorted list has \<open>2 ^ (b - root)\<close> entries, where \<open>b\<close> is the length of
  its last code.  It has many codes when its first code is long: one step deeper costs a code, so that
  the entries without a code of their own add up to at most \<open>spare (15 - root)\<close> over all sub-tables.
\<close>

section \<open>Blocks of codes with the same first bits\<close>

definition spare :: "nat \<Rightarrow> nat" where
  "spare d = 2 ^ d - d - 1"

lemma spare_add: "spare d + d + 1 = 2 ^ d"
proof -
  have "d < (2::nat) ^ d" by (rule less_exp)
  then show ?thesis unfolding spare_def by linarith
qed

lemma spare_mono: "a \<le> b \<Longrightarrow> spare a \<le> spare b"
proof (induction b rule: nat_induct_at_least)
  case (Suc b)
  have "spare b \<le> spare (Suc b)" using spare_add[of b] spare_add[of "Suc b"] less_exp[of b] by simp
  then show ?case using Suc by simp
qed simp

lemma double_exp: "1 \<le> x \<Longrightarrow> x + d \<le> x * 2 ^ d" for x :: nat
proof (induction d)
  case (Suc d)
  have "1 \<le> x * 2 ^ d" using Suc.prems by simp
  then show ?case using Suc by simp
qed simp

text \<open>Codes that fill \<open>r\<close> nodes of the depth of the first: at least \<open>r\<close> of them, and one more for each further depth.\<close>

lemma fill_count:
  assumes ls: "code_lens ls"
  shows "i < e \<Longrightarrow> e \<le> length ls \<Longrightarrow> code_pos ls e = code_pos ls i + r * 2 ^ (15 - ls ! i) \<Longrightarrow> r + (ls ! (e - 1) - ls ! i) \<le> e - i"
proof (induction "e - i" arbitrary: i r)
  case (Suc n)
  note p = code_pos_Suc[of i ls]
  show ?case
  proof (cases "Suc i = e")
    case True
    then have "r = 1" using Suc.prems p by simp
    then show ?thesis using True by auto
  next
    case False
    have lt: "Suc i < e" "Suc i < length ls" using Suc.prems False by simp_all
    let ?d = "ls ! Suc i - ls ! i"
    have m: "ls ! i \<le> ls ! Suc i" "ls ! Suc i \<le> ls ! (e - 1)" using lt Suc.prems by (auto intro!: code_lens_mono[OF ls])
    have l: "ls ! Suc i \<le> 15" using code_lens_nth[OF ls lt(2)] by simp
    have w: "(2::nat) ^ (15 - ls ! i) = 2 ^ ?d * 2 ^ (15 - ls ! Suc i)" using m l by (simp add: power_add[symmetric])
    have "code_pos ls (Suc i) < code_pos ls e" by (rule code_pos_strict[OF ls lt(1) Suc.prems(2)])
    then have "2 ^ (15 - ls ! i) < r * 2 ^ (15 - ls ! i)" using Suc.prems p by simp
    then have r: "2 \<le> r" by (cases r) auto
    then obtain q where q: "r = Suc q" "1 \<le> q" by (cases r) auto
    have "code_pos ls e = code_pos ls (Suc i) + q * 2 ^ (15 - ls ! i)" using Suc.prems p q(1) by simp
    then have "code_pos ls e = code_pos ls (Suc i) + (q * 2 ^ ?d) * 2 ^ (15 - ls ! Suc i)" unfolding w by (simp add: mult.assoc)
    moreover have "n = e - Suc i" using Suc.hyps(2) by simp
    ultimately have "q * 2 ^ ?d + (ls ! (e - 1) - ls ! Suc i) \<le> e - Suc i" using Suc.hyps(1)[of "Suc i"] lt Suc.prems(2) by simp
    then show ?thesis using double_exp[OF q(2), of ?d] q(1) m lt by linarith
  qed
qed simp

text \<open>Where the codes of a prefix of \<open>root\<close> bits begin and end.\<close>

definition block :: "nat list \<Rightarrow> nat \<Rightarrow> nat \<Rightarrow> nat" where
  "block ls root i = code_pos ls i div 2 ^ (15 - root)"

lemma block_mono: "i \<le> j \<Longrightarrow> block ls root i \<le> block ls root j"
  unfolding block_def by (intro div_le_mono code_pos_mono)

lemma same_block_iff:
  assumes "code_lens ls" "i < length ls" "j < length ls" "root \<le> ls ! i" "root \<le> ls ! j"
  shows "hcode ls i mod 2 ^ root = hcode ls j mod 2 ^ root \<longleftrightarrow> block ls root i = block ls root j"
  unfolding block_def by (rule same_prefix_iff[OF assms])

lemma dvd_between: "w dvd x \<Longrightarrow> w dvd y \<Longrightarrow> x < y \<Longrightarrow> y \<le> x + w \<Longrightarrow> y = x + (w :: nat)"
  using dvd_imp_le[of w "y - x"] by (simp add: dvd_diff_nat)

text \<open>The first code of a block begins where the block does, and the block ends where its last code does.\<close>

lemma block_begin:
  assumes ls: "code_lens ls" and k: "k < length ls" "0 < k \<Longrightarrow> block ls root (k - 1) \<noteq> block ls root k"
  shows "code_pos ls k = block ls root k * 2 ^ (15 - root)"
proof (cases k)
  case 0
  then show ?thesis by (simp add: block_def)
next
  case (Suc i)
  let ?B = "2 ^ (15 - root) :: nat" and ?w = "2 ^ (15 - ls ! i) :: nat" and ?q = "block ls root k"
  have i: "i < length ls" "code_pos ls k = code_pos ls i + ?w" using Suc k(1) code_pos_Suc[of i ls] by simp_all
  have w: "?w dvd code_pos ls i" by (rule code_pos_dvd_self[OF ls i(1)])
  have q: "?q * ?B \<le> code_pos ls k" unfolding block_def by simp
  have "block ls root i < ?q" using k(2) Suc block_mono[of i k ls root] by simp
  then have lt: "code_pos ls i < ?q * ?B" unfolding block_def[of ls root i] by (simp add: div_less_iff_less_mult)
  show ?thesis
  proof (cases "root \<le> ls ! i")
    case True
    then have "?w dvd ?B" by (intro le_imp_power_dvd) simp
    then have "?w dvd ?q * ?B" by (rule dvd_mult)
    from dvd_between[OF w this lt] show ?thesis using q i(2) by simp
  next
    case False
    then have "?B dvd ?w" by (intro le_imp_power_dvd) simp
    then have "?B dvd code_pos ls k" using i(2) w by (metis dvd_add dvd_refl dvd_trans)
    then show ?thesis unfolding block_def by simp
  qed
qed

lemma block_finish:
  assumes ls: "code_lens ls" and e: "0 < e" "e \<le> length ls" "root \<le> ls ! (e - 1)" "root \<le> 15"
    and next_block: "if e < length ls then block ls root e \<noteq> block ls root (e - 1) else code_pos ls (length ls) = 2 ^ 15"
  shows "code_pos ls e = Suc (block ls root (e - 1)) * 2 ^ (15 - root)"
proof -
  let ?B = "2 ^ (15 - root) :: nat" and ?w = "2 ^ (15 - ls ! (e - 1)) :: nat" and ?q = "block ls root (e - 1)"
  have i: "e - 1 < length ls" "code_pos ls e = code_pos ls (e - 1) + ?w" using e code_pos_Suc[of "e - 1" ls] by simp_all
  have w: "?w dvd code_pos ls (e - 1)" by (rule code_pos_dvd_self[OF ls i(1)])
  have B: "?w dvd ?B" using e(3) by (intro le_imp_power_dvd) simp
  have lt: "code_pos ls (e - 1) < Suc ?q * ?B" unfolding block_def using dividend_less_div_times[of ?B "code_pos ls (e - 1)"] by simp
  have "Suc ?q * ?B \<le> code_pos ls e"
  proof (cases "e < length ls")
    case True
    then have "Suc ?q \<le> block ls root e" using next_block block_mono[of "e - 1" e ls root] by simp
    then have "Suc ?q * ?B \<le> block ls root e * ?B" by (rule mult_le_mono1)
    also have "\<dots> \<le> code_pos ls e" unfolding block_def by simp
    finally show ?thesis .
  next
    case False
    then have "code_pos ls e = 2 ^ 15" using next_block e(2) by simp
    moreover have "?q < 2 ^ root" unfolding block_def by (rule block_less[OF ls i(1) e(4)])
    then have "Suc ?q * ?B \<le> 2 ^ root * ?B" by (intro mult_le_mono1) simp
    ultimately show ?thesis using exp15_split[OF e(4)] by simp
  qed
  moreover have "?w dvd Suc ?q * ?B" using B by (rule dvd_mult)
  ultimately show ?thesis using dvd_between[OF w _ lt] i(2) by simp
qed

lemma block_exists:
  assumes "k < length ls"
  obtains e where "k < e" "e \<le> length ls" "\<And>j. k \<le> j \<Longrightarrow> j < e \<Longrightarrow> block ls root j = block ls root k"
    "e < length ls \<Longrightarrow> block ls root e \<noteq> block ls root k"
proof -
  define P where "P e \<longleftrightarrow> k < e \<and> (e < length ls \<longrightarrow> block ls root e \<noteq> block ls root k)" for e
  define e where "e = (LEAST e. P e)"
  have ex: "P (length ls)" using assms by (simp add: P_def)
  then have "P e" unfolding e_def by (rule LeastI)
  then have e: "k < e" "e < length ls \<Longrightarrow> block ls root e \<noteq> block ls root k" by (simp_all add: P_def)
  have le: "e \<le> length ls" unfolding e_def using ex by (rule Least_le)
  have "block ls root j = block ls root k" if "k \<le> j" "j < e" for j
  proof -
    have "\<not> P j" using not_less_Least[of j P] that(2) by (simp add: e_def)
    then show ?thesis using that le by (cases "j = k") (auto simp: P_def)
  qed
  then show ?thesis using that e le by blast
qed

text \<open>The number of codes of a block, from the length of its first and of its last code.\<close>

lemma block_count:
  assumes ls: "code_lens ls" and full: "code_pos ls (length ls) = 2 ^ 15"
    and k: "0 < k \<Longrightarrow> block ls root (k - 1) \<noteq> block ls root k" "root < ls ! k"
    and e: "k < e" "e \<le> length ls" "\<And>j. k \<le> j \<Longrightarrow> j < e \<Longrightarrow> block ls root j = block ls root k" "e < length ls \<Longrightarrow> block ls root e \<noteq> block ls root k"
  shows "code_pos ls e = code_pos ls k + 2 ^ (15 - root)" "2 ^ (ls ! k - root) + (ls ! (e - 1) - ls ! k) \<le> e - k"
proof -
  have kl: "k < length ls" using e(1,2) by simp
  have l: "ls ! k \<le> 15" using code_lens_nth[OF ls kl] by simp
  have m: "ls ! k \<le> ls ! (e - 1)" by (rule code_lens_mono[OF ls]) (use e(1,2) in simp_all)
  have b: "block ls root (e - 1) = block ls root k" using e(1) by (intro e(3)) simp_all
  have "code_pos ls e = Suc (block ls root (e - 1)) * 2 ^ (15 - root)"
    using e(1,2,4) m k(2) l b full by (intro block_finish[OF ls]) simp_all
  then show pos: "code_pos ls e = code_pos ls k + 2 ^ (15 - root)"
    unfolding b using block_begin[OF ls kl k(1)] by simp
  have "(2::nat) ^ (15 - root) = 2 ^ (ls ! k - root) * 2 ^ (15 - ls ! k)" using k(2) l by (simp add: power_add[symmetric])
  then show "2 ^ (ls ! k - root) + (ls ! (e - 1) - ls ! k) \<le> e - k"
    using fill_count[OF ls e(1,2)] pos by simp
qed

section \<open>The number of entries used\<close>

definition shorts :: "nat list \<Rightarrow> nat \<Rightarrow> nat" where
  "shorts ls root = length (takeWhile (\<lambda>l. l \<le> root) ls)"

lemma shorts_le: "shorts ls root \<le> length ls"
  unfolding shorts_def by (rule length_takeWhile_le)

lemma shorts_index:
  assumes ls: "code_lens ls" and i: "i < length ls"
  shows "ls ! i \<le> root \<longleftrightarrow> i < shorts ls root"
proof
  assume a: "ls ! i \<le> root"
  show "i < shorts ls root"
  proof (rule ccontr)
    assume "\<not> i < shorts ls root"
    then have n: "shorts ls root \<le> i" by simp
    then have "shorts ls root < length ls" using i by simp
    then have "\<not> ls ! shorts ls root \<le> root" unfolding shorts_def by (rule nth_length_takeWhile)
    moreover have "ls ! shorts ls root \<le> ls ! i" by (rule code_lens_mono[OF ls n i])
    ultimately show False using a by simp
  qed
next
  assume "i < shorts ls root"
  then have "takeWhile (\<lambda>l. l \<le> root) ls ! i \<in> set (takeWhile (\<lambda>l. l \<le> root) ls)" "takeWhile (\<lambda>l. l \<le> root) ls ! i = ls ! i"
    unfolding shorts_def by (rule nth_mem, rule takeWhile_nth)
  then show "ls ! i \<le> root" by (auto dest: set_takeWhileD)
qed

text \<open>The sub-table being filled ends with code \<open>e - 1\<close>.\<close>

definition used_upto :: "nat list \<Rightarrow> nat \<Rightarrow> nat \<Rightarrow> nat \<Rightarrow> nat \<Rightarrow> bool" where
  "used_upto ls root e cu used \<longleftrightarrow> root + cu = ls ! (e - 1) \<and> used + shorts ls root \<le> 2 ^ root + e + spare cu"

definition size_inv :: "nat list \<Rightarrow> nat \<Rightarrow> nat \<Rightarrow> tstate \<Rightarrow> bool" where
  "size_inv ls root i st \<longleftrightarrow> even (t_used st) \<and>
     (if ls ! i \<le> root then t_used st = 2 ^ root
      else \<exists>e. i < e \<and> e \<le> length ls \<and> (\<forall>j. i \<le> j \<and> j < e \<longrightarrow> block ls root j = block ls root i)
        \<and> (e < length ls \<longrightarrow> block ls root e \<noteq> block ls root i) \<and> used_upto ls root e (t_curr st) (t_used st))"

text \<open>The size that a new sub-table gets: exactly that of its longest code.\<close>

lemma weight_upto_block:
  assumes ls: "code_lens ls" and e: "k < e" "e \<le> length ls"
  shows "code_pos ls e \<le> code_pos ls k + weight_upto (drop k ls) (ls ! (e - 1))"
proof -
  let ?t = "take (e - k) (drop k ls)"
  have "l \<le> ls ! (e - 1)" if l: "l \<in> set ?t" for l
  proof -
    obtain i where "i < e - k" "l = ls ! (k + i)" using l e by (auto simp: in_set_conv_nth)
    then show ?thesis using code_lens_mono[OF ls, of "k + i" "e - 1"] e by simp
  qed
  then have "filter (\<lambda>l. l \<le> ls ! (e - 1)) ?t = ?t" by (simp add: filter_id_conv)
  moreover have "drop k ls = ?t @ drop e ls" using e by (metis append_take_drop_id drop_drop le_add_diff_inverse2 less_imp_le)
  moreover have "weight_upto (?t @ drop e ls) m = weight_upto ?t m + weight_upto (drop e ls) m" for m by (simp add: weight_upto_def)
  ultimately have "weight_upto (drop k ls) (ls ! (e - 1)) = sum_list (map (\<lambda>l. 2 ^ (15 - l)) ?t) + weight_upto (drop e ls) (ls ! (e - 1))"
    by (metis weight_upto_def)
  then show ?thesis using code_pos_add[of ls k "e - k"] e by simp
qed

lemma new_subtable_size:
  assumes ctx: "table_ctx type lens work ls w root mx M" and full: "code_pos ls (length ls) = 2 ^ 15"
    and mv: "table_moved type ls w root mx M k st" and new: "root < ls ! k" "block ls root (k - 1) \<noteq> block ls root k"
    and before: "if ls ! (k - 1) \<le> root then t_used st = 2 ^ root else used_upto ls root k (t_curr st) (t_used st)" and ev: "even (t_used st)"
  obtains cu e where "k < e" "e \<le> length ls" "\<And>j. k \<le> j \<Longrightarrow> j < e \<Longrightarrow> block ls root j = block ls root k"
    "e < length ls \<Longrightarrow> block ls root e \<noteq> block ls root k" "used_upto ls root e cu (t_used st + 2 ^ cu)" "even (t_used st + 2 ^ cu)"
    "\<And>st'. new_subtable type root mx st = Return1 st' \<Longrightarrow> too_much type (t_used st + 2 ^ cu)"
    "\<And>st'. new_subtable type root mx st = Continue st' \<Longrightarrow> t_used st' = t_used st + 2 ^ cu \<and> t_curr st' = cu"
proof -
  note m = mv[unfolded table_moved_def]
  have ls: "code_lens ls" using ctx by (simp add: table_ctx_def)
  have k: "k < length ls" "0 < k" using m by auto
  have r: "1 \<le> root" "mx \<le> 15" using ctx ctx_mx15[OF ctx] by (auto simp: table_ctx_def)
  obtain e where e: "k < e" "e \<le> length ls" "\<And>j. k \<le> j \<Longrightarrow> j < e \<Longrightarrow> block ls root j = block ls root k"
    "e < length ls \<Longrightarrow> block ls root e \<noteq> block ls root k" using block_exists[OF k(1)] by blast
  note bc = block_count[OF ls full new(2) new(1) e]
  let ?a = "ls ! k" and ?b = "ls ! (e - 1)"
  have ab: "?a \<le> ?b" by (rule code_lens_mono[OF ls]) (use e(1,2) in simp_all)
  have rb: "root \<le> ?b" using ab new(1) by simp
  have same: "hcode ls k mod 2 ^ root = hcode ls (e - 1) mod 2 ^ root"
    using same_block_iff[OF ls k(1), of "e - 1" root] e(1,2) e(3)[of "e - 1"] new(1) rb by simp
  define cu where "cu = curr_loop (t_count st) root mx (?a - root) (2 ^ (?a - root))"
  note c = moved_curr[OF ctx mv new(1), folded cu_def]
  have "?b - root \<le> cu"
  proof -
    have "?b \<le> mx" using ctx_max[OF ctx, of "e - 1"] e(1,2) by simp
    moreover have "?b \<le> root + cu" if "2 ^ (15 - root) \<le> weight_upto (drop k ls) (root + cu)"
      using subtable_fits[OF ls _ _ _ that same] e(1,2) new(1) by simp
    ultimately show ?thesis using c(3) by auto
  qed
  moreover have "cu \<le> ?b - root"
  proof (rule ccontr)
    assume "\<not> cu \<le> ?b - root"
    then have "weight_upto (drop k ls) (root + (?b - root)) < 2 ^ (15 - root)" using ab by (intro c(4)) simp_all
    then show False using weight_upto_block[OF ls e(1,2)] bc(1) rb by simp
  qed
  ultimately have cu: "root + cu = ?b" using rb by simp
  have sh: "shorts ls root \<le> k" using shorts_index[OF ls k(1), of root] new(1) by simp
  have "t_used st + 2 ^ cu + shorts ls root \<le> 2 ^ root + e + spare cu"
  proof (cases "ls ! (k - 1) \<le> root")
    case True
    have "2 ^ (?a - root) + (?b - ?a) \<le> e - k" by (rule bc(2))
    moreover have "?a - root < 2 ^ (?a - root)" by (rule less_exp)
    ultimately have "cu + 1 + k \<le> e" using cu ab new(1) by linarith
    then show ?thesis using before True sh spare_add[of cu] by simp
  next
    case False
    then have u: "used_upto ls root k (t_curr st) (t_used st)" using before by simp
    have "ls ! (k - 1) \<le> ?a" by (rule code_lens_mono[OF ls]) (use k in simp_all)
    then have "t_curr st \<le> ?a - root" using u unfolding used_upto_def by linarith
    then have "spare (t_curr st) \<le> spare (?a - root)" by (rule spare_mono)
    then show ?thesis using u bc(2) spare_add[of "?a - root"] spare_add[of cu] cu ab new(1) e(1) unfolding used_upto_def by linarith
  qed
  then have up: "used_upto ls root e cu (t_used st + 2 ^ cu)" using cu by (simp add: used_upto_def)
  have dr: "(if t_drop st = 0 then root else t_drop st) = root" using m by (auto split: if_splits)
  have "1 \<le> cu" using c(1) new(1) by simp
  then have ev': "even (t_used st + 2 ^ cu)" using ev by simp
  have len: "t_len st = ?a" using m by simp
  have ret: "too_much type (t_used st + 2 ^ cu)" if "new_subtable type root mx st = Return1 st'" for st'
    using that by (simp add: new_subtable_def Let_def dr len cu_def split: if_splits)
  have cont: "t_used st' = t_used st + 2 ^ cu \<and> t_curr st' = cu" if "new_subtable type root mx st = Continue st'" for st'
    using that by (auto simp: new_subtable_def Let_def dr len cu_def split: if_splits)
  show ?thesis by (rule that[OF e up ev' ret cont])
qed

text \<open>So the entries used stay below a bound for the whole loop.\<close>

definition never_more :: "codetype \<Rightarrow> nat list \<Rightarrow> nat \<Rightarrow> bool" where
  "never_more type ls root \<longleftrightarrow> (\<forall>e\<le>length ls. \<forall>cu used. 0 < e \<longrightarrow> even used \<longrightarrow> used_upto ls root e cu used \<longrightarrow> root < ls ! (e - 1)
     \<longrightarrow> \<not> too_much type used)"

lemma table_pass_size:
  assumes ctx: "table_ctx type lens work ls w root mx M" and full: "code_pos ls (length ls) = 2 ^ 15 \<or> mx \<le> root" and never: "never_more type ls root"
    and inv: "table_inv type ls w root mx M i st" and sz: "size_inv ls root i st"
  shows "table_pass type lens work root mx st \<noteq> Return1 st'"
    "table_pass type lens work root mx st = Continue st' \<Longrightarrow> size_inv ls root (Suc i) st'"
proof -
  have ls: "code_lens ls" using ctx by (simp add: table_ctx_def)
  have i: "i < length ls" using inv by (simp add: table_inv_def)
  have "table_pass type lens work root mx st \<noteq> Return1 st' \<and> (table_pass type lens work root mx st = Continue st' \<longrightarrow> size_inv ls root (Suc i) st')"
  proof (cases "Suc i = length ls")
    case True
    then show ?thesis using table_pass_moved[OF ctx inv] by auto
  next
    case False
    then have n: "Suc i < length ls" using i by simp
    obtain s1 where s1: "table_moved type ls w root mx M (Suc i) s1" "t_used s1 = t_used st" "t_curr s1 = t_curr st"
      "table_pass type lens work root mx st = (if ls ! Suc i > root \<and> int (t_huff s1 mod 2 ^ root) \<noteq> t_low s1
         then new_subtable type root mx s1 else Continue s1)" using table_pass_moved[OF ctx inv] False by auto
    note m = s1(1)[unfolded table_moved_def]
    have root: "1 \<le> root" "root \<le> 15" using ctx ctx_mx15[OF ctx] by (auto simp: table_ctx_def)
    have mono: "ls ! i \<le> ls ! Suc i" by (rule code_lens_mono[OF ls _ n]) simp
    have huff: "t_huff s1 = hcode ls (Suc i)" using m by simp
    have new_iff: "int (t_huff s1 mod 2 ^ root) \<noteq> t_low s1 \<longleftrightarrow> block ls root i \<noteq> block ls root (Suc i)" if "root < ls ! i"
    proof -
      have "t_low s1 = int (hcode ls i mod 2 ^ root)" using m that by simp
      then show ?thesis using same_block_iff[OF ls i n, of root] that mono huff by auto
    qed
    show ?thesis
    proof (cases "ls ! Suc i > root \<and> int (t_huff s1 mod 2 ^ root) \<noteq> t_low s1")
      case new: True
      have full: "code_pos ls (length ls) = 2 ^ 15" using full new ctx_max[OF ctx n] by auto
      have blk: "block ls root i \<noteq> block ls root (Suc i)"
      proof (cases "root < ls ! i")
        case True
        then show ?thesis using new_iff new by simp
      next
        case False
        then have l: "ls ! i \<le> root" by simp
        let ?B = "2 ^ (15 - root) :: nat"
        have "?B dvd 2 ^ (15 - ls ! i)" using l by (intro le_imp_power_dvd) simp
        then obtain c d where cd: "code_pos ls i = ?B * c" "(2::nat) ^ (15 - ls ! i) = ?B * d"
          using code_pos_dvd_self[OF ls i] by (metis dvd_def dvd_trans)
        have "d \<noteq> 0" using cd(2) by (metis mult_0_right power_not_zero zero_neq_numeral)
        moreover have "code_pos ls (Suc i) = ?B * (c + d)" using cd code_pos_Suc[OF i] by (simp add: algebra_simps)
        ultimately show ?thesis using cd(1) by (simp add: block_def)
      qed
      have before: "if ls ! (Suc i - 1) \<le> root then t_used s1 = 2 ^ root else used_upto ls root (Suc i) (t_curr s1) (t_used s1)"
      proof (cases "ls ! i \<le> root")
        case True
        then show ?thesis using sz s1(2) by (simp add: size_inv_def)
      next
        case False
        then obtain e where e: "i < e" "\<forall>j. i \<le> j \<and> j < e \<longrightarrow> block ls root j = block ls root i" "used_upto ls root e (t_curr st) (t_used st)"
          using sz by (auto simp: size_inv_def)
        have "\<not> Suc i < e" using e(2) blk by (metis le_SucI order_refl)
        then have "e = Suc i" using e(1) by simp
        then show ?thesis using e(3) False s1(2,3) by simp
      qed
      have ev: "even (t_used s1)" using sz s1(2) by (simp add: size_inv_def)
      have p: "table_pass type lens work root mx st = new_subtable type root mx s1" using s1(4) new by simp
      have blk': "block ls root (Suc i - 1) \<noteq> block ls root (Suc i)" using blk by simp
      obtain cu e where e: "Suc i < e" "e \<le> length ls" "\<And>j. Suc i \<le> j \<Longrightarrow> j < e \<Longrightarrow> block ls root j = block ls root (Suc i)"
        "e < length ls \<Longrightarrow> block ls root e \<noteq> block ls root (Suc i)" "used_upto ls root e cu (t_used s1 + 2 ^ cu)" "even (t_used s1 + 2 ^ cu)"
        "\<And>st'. new_subtable type root mx s1 = Return1 st' \<Longrightarrow> too_much type (t_used s1 + 2 ^ cu)"
        "\<And>st'. new_subtable type root mx s1 = Continue st' \<Longrightarrow> t_used st' = t_used s1 + 2 ^ cu \<and> t_curr st' = cu"
        by (rule new_subtable_size[OF ctx full s1(1) conjunct1[OF new] blk' before ev]) (rule that; assumption)
      have "ls ! Suc i \<le> ls ! (e - 1)" by (rule code_lens_mono[OF ls]) (use e(1,2) in simp_all)
      then have "\<not> too_much type (t_used s1 + 2 ^ cu)"
        using never[unfolded never_more_def, rule_format, OF e(2) _ e(6,5)] e(1) new by simp
      moreover have "size_inv ls root (Suc i) st'" if "new_subtable type root mx s1 = Continue st'"
      proof -
        note u = e(8)[OF that]
        have "even (t_used st')" "used_upto ls root e (t_curr st') (t_used st')" using u e(5,6) by simp_all
        moreover have "\<forall>j. Suc i \<le> j \<and> j < e \<longrightarrow> block ls root j = block ls root (Suc i)" using e(3) by blast
        moreover have "e < length ls \<longrightarrow> block ls root e \<noteq> block ls root (Suc i)" using e(4) by blast
        moreover have "\<not> ls ! Suc i \<le> root" using new by simp
        ultimately show ?thesis unfolding size_inv_def using e(1,2) by (simp only: if_False) blast
      qed
      ultimately show ?thesis using p e(7) by auto
    next
      case old: False
      have p: "table_pass type lens work root mx st = Continue s1" using s1(4) old by simp
      have "size_inv ls root (Suc i) s1"
      proof (cases "ls ! Suc i \<le> root")
        case True
        then show ?thesis using sz mono s1(2) root(1) by (simp add: size_inv_def)
      next
        case False
        have li: "root < ls ! i"
        proof (rule ccontr)
          assume "\<not> root < ls ! i"
          then have "t_low s1 = 2 ^ 32 - 1" using m by simp
          then show False using old False root_mod_less[OF root(2), of "t_huff s1"] by simp
        qed
        then have blk: "block ls root i = block ls root (Suc i)" using new_iff old False by auto
        obtain e where e: "i < e" "e \<le> length ls" "\<forall>j. i \<le> j \<and> j < e \<longrightarrow> block ls root j = block ls root i"
          "e < length ls \<longrightarrow> block ls root e \<noteq> block ls root i" "used_upto ls root e (t_curr st) (t_used st)"
          using sz[unfolded size_inv_def if_not_P[OF linorder_not_le[THEN iffD2, OF li]]] by blast
        have "e \<noteq> Suc i" using e(4) blk n by auto
        then have "Suc i < e" using e(1) by simp
        moreover have "even (t_used st)" using sz by (simp add: size_inv_def)
        moreover have "\<forall>j. Suc i \<le> j \<and> j < e \<longrightarrow> block ls root j = block ls root (Suc i)" using e(3) blk by (metis Suc_leD)
        moreover have "e < length ls \<longrightarrow> block ls root e \<noteq> block ls root (Suc i)" using e(4) blk by metis
        ultimately show ?thesis unfolding size_inv_def s1(2,3) if_not_P[OF False] using e(2,5) by blast
      qed
      then show ?thesis using p by auto
    qed
  qed
  then show "table_pass type lens work root mx st \<noteq> Return1 st'"
    "table_pass type lens work root mx st = Continue st' \<Longrightarrow> size_inv ls root (Suc i) st'" by blast+
qed

lemma table_loop_size:
  assumes ctx: "table_ctx type lens work ls w root mx M" and full: "code_pos ls (length ls) = 2 ^ 15 \<or> mx \<le> root" and never: "never_more type ls root"
  shows "table_inv type ls w root mx M i st \<Longrightarrow> size_inv ls root i st \<Longrightarrow> table_loop type lens work root mx st \<noteq> Return1 st'"
proof (induction "length ls - i" arbitrary: i st)
  case 0
  then show ?case by (simp add: table_inv_def)
next
  case (Suc n)
  have n: "n = length ls - Suc i" using Suc.hyps(2) by simp
  note loop = table_loop.simps[of type lens work root mx st]
  note size = table_pass_size[OF ctx full never Suc.prems]
  consider s1 where "table_pass type lens work root mx st = Break s1" | s1 where "table_pass type lens work root mx st = Return1 s1"
    | s1 where "table_pass type lens work root mx st = Continue s1" "table_inv type ls w root mx M (Suc i) s1"
    using table_pass_inv[OF ctx Suc.prems(1)] by blast
  then show ?case
  proof cases
    case (3 s1)
    then show ?thesis using Suc.hyps(1)[OF n 3(2) size(2)[OF 3(1)]] by (simp add: loop)
  qed (use size(1) in \<open>simp_all add: loop\<close>)
qed

section \<open>The bounds\<close>

text \<open>Few short codes leave so much room that there are not enough long ones to fill it.\<close>

lemma long_codes:
  assumes ls: "code_lens ls"
  shows "shorts ls root \<le> k \<Longrightarrow> k \<le> length ls \<Longrightarrow> code_pos ls k \<le> code_pos ls (shorts ls root) + (k - shorts ls root) * 2 ^ (14 - root)"
proof (induction k rule: nat_induct_at_least)
  case (Suc k)
  have k: "k < length ls" using Suc.prems by simp
  have "root < ls ! k" using shorts_index[OF ls k, of root] Suc.hyps by simp
  then have w: "(2::nat) ^ (15 - ls ! k) \<le> 2 ^ (14 - root)" by (intro power_increasing) simp_all
  define X :: nat where "X = 2 ^ (14 - root)"
  have "(Suc k - shorts ls root) * X = (k - shorts ls root) * X + X" using Suc.hyps by (simp add: Suc_diff_le)
  moreover have "code_pos ls k \<le> code_pos ls (shorts ls root) + (k - shorts ls root) * X" using Suc by (simp add: X_def)
  ultimately show ?case using code_pos_Suc[OF k] w unfolding X_def[symmetric] by linarith
qed simp

lemma code_pos_one:
  assumes ls: "code_lens ls" and n: "0 < length ls"
  shows "code_pos ls 1 \<le> 2 ^ 14"
proof -
  have "1 \<le> ls ! 0" using code_lens_nth[OF ls n] by simp
  then have "(2::nat) ^ (15 - ls ! 0) \<le> 2 ^ 14" by (intro power_increasing) simp_all
  then show ?thesis using code_pos_Suc[OF n] by simp
qed

lemma code_pos_two:
  assumes ls: "code_lens ls" and n: "2 < length ls"
  shows "code_pos ls 2 \<le> 2 ^ 14 + 2 ^ 13"
proof -
  have n0: "0 < length ls" "1 < length ls" using n by linarith+
  have l: "1 \<le> ls ! 0" "1 \<le> ls ! 1" "ls ! 0 \<le> ls ! 1"
    using code_lens_nth[OF ls n0(1)] code_lens_nth[OF ls n0(2)] code_lens_mono[OF ls _ n0(2), of 0] by simp_all
  have p: "code_pos ls 2 = code_pos ls 1 + 2 ^ (15 - ls ! 1)" using code_pos_Suc[OF n0(2)] by (simp add: numeral_2_eq_2)
  have "ls ! 1 \<noteq> 1"
  proof
    assume one: "ls ! 1 = 1"
    then have "ls ! 0 = 1" using l by simp
    then have "code_pos ls 2 = 2 ^ 15" using p one code_pos_Suc[OF n0(1)] by simp
    then show False using code_pos_less[OF ls n] by simp
  qed
  then have "(2::nat) ^ (15 - ls ! 1) \<le> 2 ^ 13" using l by (intro power_increasing) simp_all
  then show ?thesis using p code_pos_one[OF ls n0(1)] by simp
qed

lemma spare_values: "spare 6 = 57" "spare 9 = 502"
  by (simp_all add: spare_def)

text \<open>The numbers of symbols and the root bits of the calls in \<open>inflate.c\<close>.\<close>

definition within_enough :: "codetype \<Rightarrow> nat \<Rightarrow> nat \<Rightarrow> bool" where
  "within_enough type n bits = (case type of CODES \<Rightarrow> True | LENS \<Rightarrow> n \<le> 286 \<and> bits = 9 | DISTS \<Rightarrow> n \<le> 30 \<and> bits = 6)"

lemma never_more_enough:
  assumes ls: "code_lens ls" and full: "code_pos ls (length ls) = 2 ^ 15" and w: "within_enough type (length ls) root"
  shows "never_more type ls root"
  unfolding never_more_def
proof (intro allI impI)
  fix e cu used
  assume e: "e \<le> length ls" "0 < e" and ev: "even used" and up: "used_upto ls root e cu used" and long: "root < ls ! (e - 1)"
  let ?s = "shorts ls root" and ?n = "length ls"
  have l15: "root + cu \<le> 15" using up e code_lens_nth[OF ls, of "e - 1"] by (simp add: used_upto_def)
  have "\<not> e - 1 < ?s" using shorts_index[OF ls, of "e - 1" root] e long by simp
  then have s: "?s < e" using e(2) by linarith
  have lc: "2 ^ 15 \<le> code_pos ls ?s + (?n - ?s) * 2 ^ (14 - root)" using long_codes[OF ls, of root ?n] s e full by simp
  have u: "used + ?s \<le> 2 ^ root + e + spare cu" using up by (simp add: used_upto_def)
  have p1: "code_pos ls 1 \<le> 2 ^ 14" by (rule code_pos_one[OF ls]) (use s e in linarith)
  have p2: "code_pos ls 2 \<le> 2 ^ 14 + 2 ^ 13" if "?s = 2" by (rule code_pos_two[OF ls]) (use s e that in linarith)
  consider (zero) "?s = 0" | (one) "?s = 1" | (two) "?s = 2" | (three) "?s = 3" | (more) "4 \<le> ?s" by linarith
  note few = this
  show "\<not> too_much type used"
  proof (cases type)
    case CODES
    then show ?thesis by (simp add: too_much_def)
  next
    case LENS
    have r: "root = 9" "?n \<le> 286" using w LENS by (simp_all add: within_enough_def)
    have "spare cu \<le> 57" using spare_mono[of cu 6] l15 r by (simp add: spare_values)
    then have u': "used + ?s \<le> 569 + ?n" using u r e by simp
    from few have "used \<le> 852"
    proof cases
      case zero
      then show ?thesis using lc r by simp
    next
      case one
      then show ?thesis using lc r p1 by simp
    next
      case two
      have "used \<noteq> 853" using ev by auto
      then show ?thesis using u' r two by linarith
    qed (use u' r in simp_all)
    then show ?thesis using LENS by (simp add: too_much_def ENOUGH_LENS_def)
  next
    case DISTS
    have r: "root = 6" "?n \<le> 30" using w DISTS by (simp_all add: within_enough_def)
    have "spare cu \<le> 502" using spare_mono[of cu 9] l15 r by (simp add: spare_values)
    then have u': "used + ?s \<le> 566 + ?n" using u r e by simp
    from few have "used \<le> 592"
    proof cases
      case zero
      then show ?thesis using lc r by simp
    next
      case one
      then show ?thesis using lc r p1 by simp
    next
      case two
      then show ?thesis using lc r p2 by simp
    next
      case three
      have "used \<noteq> 593" using ev by auto
      then show ?thesis using u' r three by linarith
    qed (use u' r in simp_all)
    then show ?thesis using DISTS by (simp add: too_much_def ENOUGH_DISTS_def)
  qed
qed

section \<open>inflate\_table never gives up\<close>

lemma inflate_table_one:
  assumes "inflate_table type lens tab bits work = Some (1, r)"
  defines "mx \<equiv> find_max (count_lens lens) MAXBITS"
  defines "mn \<equiv> find_min (count_lens lens) mx 1"
  defines "root0 \<equiv> (if bits > mx then mx else bits)"
  defines "root \<equiv> (if root0 < mn then mn else root0)"
  shows "mx \<noteq> 0" "\<exists>left. left_loop (tl (count_lens lens)) 1 = Some left \<and> \<not> (left > 0 \<and> (type = CODES \<or> mx \<noteq> 1))"
    "too_much type (2 ^ root) \<or> (\<exists>wk st'. sort_syms lens (make_offs (count_lens lens)) work = Some wk
       \<and> table_loop type lens wk root mx \<lparr>t_huff = 0, t_sym = 0, t_len = mn, t_next = 0, t_curr = root, t_drop = 0,
            t_low = 2 ^ 32 - 1, t_used = 2 ^ root, t_count = count_lens lens, t_tab = tab\<rparr> = Return1 st')"
  using assms(1) unfolding inflate_table_def Let_def mx_def[symmetric] mn_def[symmetric] root0_def[symmetric] root_def[symmetric]
  by (auto split: if_splits option.splits pass.splits)

lemma inflate_table_enough:
  assumes args: "table_args type lens tab bits work" and w: "within_enough type (length lens) bits"
  shows "inflate_table type lens tab bits work \<noteq> Some (1, r)"
proof
  assume one: "inflate_table type lens tab bits work = Some (1, r)"
  define mx where "mx = find_max (count_lens lens) MAXBITS"
  define mn where "mn = find_min (count_lens lens) mx 1"
  define root0 where "root0 = (if bits > mx then mx else bits)"
  define root where "root = (if root0 < mn then mn else root0)"
  note o = inflate_table_one[OF one, folded mx_def, folded mn_def root0_def, folded root_def]
  let ?ls = "sorted_lens lens"
  have le: "\<forall>l\<in>set lens. l \<le> 15" using args by (simp add: table_args_def)
  have k: "kraft lens \<le> 2 ^ 15" "kraft lens = 2 ^ 15 \<or> mx = 1"
    using o(2) unfolding left_loop_kraft[OF le] by (auto split: if_splits)
  have ls: "code_lens ?ls" by (rule sorted_lens_code_lens[OF le k(1)])
  have n: "length ?ls \<le> length lens"
    using sort_syms_spec[OF le, of "replicate (length lens) 0"] args max_codes_le[of type] by (auto simp: table_args_def)
  have mx: "mx \<le> 15" "mx \<in> set lens" using find_max_facts[OF le, folded mx_def] o(1) by auto
  note c = count_lens_nth[OF le]
  have cm: "count_lens lens ! mx \<noteq> 0" using c mx by (metis count_list_0_iff)
  have mn: "1 \<le> mn" "mn \<le> mx" "\<And>l. 1 \<le> l \<Longrightarrow> l < mn \<Longrightarrow> count_lens lens ! l = 0"
    using find_min_spec[of 1 mx "count_lens lens"] cm o(1) by (auto simp: mn_def)
  have full: "code_pos ?ls (length ?ls) = 2 ^ 15" if "kraft lens = 2 ^ 15" using sorted_lens_kraft[OF le] that by simp
  have full1: "code_pos ?ls (length ?ls) = 2 ^ 15 \<or> mx \<le> root" using k(2) full mn by (auto simp: root_def root0_def)
  have low: "root \<le> bits" if "type \<noteq> CODES"
  proof (rule ccontr)
    assume "\<not> root \<le> bits"
    then have b: "bits < mn" using mn by (auto simp: root_def root0_def split: if_splits)
    have b1: "1 \<le> bits" using args by (simp add: table_args_def)
    then have kf: "kraft lens = 2 ^ 15" using k(2) mn b by auto
    have "?ls \<noteq> []" using full[OF kf] by (metis code_pos_0 length_0_conv power_not_zero zero_neq_numeral)
    then have z: "?ls ! 0 \<in> set ?ls" by (intro nth_mem) (simp only: length_greater_0_conv not_False_eq_True)
    then have r: "1 \<le> ?ls ! 0" "?ls ! 0 \<le> 15" using sorted_lens_range by blast+
    then have "count_lens lens ! (?ls ! 0) \<noteq> 0" using z c sorted_lens_set[OF le r] by (simp add: count_list_0_iff)
    then have "bits < ?ls ! 0" using mn(3)[OF r(1)] b by (metis le_less_trans not_le)
    moreover have "0 < length ?ls" using \<open>?ls \<noteq> []\<close> by (simp only: length_greater_0_conv not_False_eq_True)
    ultimately have "shorts ?ls bits = 0" using shorts_index[OF ls, of 0 bits] by simp
    then have "2 ^ 15 \<le> length ?ls * 2 ^ (14 - bits)" using long_codes[OF ls, of bits "length ?ls"] full[OF kf] by simp
    also have "\<dots> \<le> length lens * 2 ^ (14 - bits)" using n by simp
    finally show False using w that by (cases type) (auto simp: within_enough_def)
  qed
  have not_root: "\<not> too_much type (2 ^ root)"
  proof (cases type)
    case LENS
    then have "root \<le> 9" using w low by (simp add: within_enough_def)
    then have "(2::nat) ^ root \<le> 2 ^ 9" by (intro power_increasing) simp_all
    then show ?thesis using LENS by (simp add: too_much_def ENOUGH_LENS_def)
  next
    case DISTS
    then have "root \<le> 6" using w low by (simp add: within_enough_def)
    then have "(2::nat) ^ root \<le> 2 ^ 6" by (intro power_increasing) simp_all
    then show ?thesis using DISTS by (simp add: too_much_def ENOUGH_DISTS_def)
  qed (simp add: too_much_def)
  then obtain wk st' where wk: "sort_syms lens (make_offs (count_lens lens)) work = Some wk"
    and lp: "table_loop type lens wk root mx \<lparr>t_huff = 0, t_sym = 0, t_len = mn, t_next = 0, t_curr = root, t_drop = 0,
            t_low = 2 ^ 32 - 1, t_used = 2 ^ root, t_count = count_lens lens, t_tab = tab\<rparr> = Return1 st'" using o(3) by blast
  note ts = table_start[OF args k(1), folded mx_def, folded mn_def root0_def, folded root_def, OF o(1) not_root wk]
  have ctx: "table_ctx type lens wk ?ls (sorted_syms lens) root mx (length tab)" using ts by blast
  have never: "never_more type ?ls root"
  proof (cases "mx \<le> root \<or> type = CODES")
    case True
    then show ?thesis unfolding never_more_def
    proof (elim disjE, intro allI impI notI)
      fix e cu used assume a: "mx \<le> root" "e \<le> length ?ls" "0 < e" "root < ?ls ! (e - 1)"
      then have "e - 1 < length ?ls" by linarith
      then show False using ctx_max[OF ctx] a by fastforce
    qed (simp add: too_much_def)
  next
    case False
    then have "root = bits" using low mn by (auto simp: root_def root0_def split: if_splits)
    then have "within_enough type (length ?ls) root" using w n by (cases type) (auto simp: within_enough_def)
    moreover have "code_pos ?ls (length ?ls) = 2 ^ 15" using full1 False by blast
    ultimately show ?thesis using never_more_enough[OF ls] by blast
  qed
  have "1 \<le> root" using mn by (auto simp: root_def root0_def split: if_splits)
  moreover have "?ls ! 0 \<le> root" using ts mn by (auto simp: table_inv_def root_def split: if_splits)
  ultimately have "size_inv ?ls root 0 \<lparr>t_huff = 0, t_sym = 0, t_len = mn, t_next = 0, t_curr = root, t_drop = 0,
            t_low = 2 ^ 32 - 1, t_used = 2 ^ root, t_count = count_lens lens, t_tab = tab\<rparr>" by (simp add: size_inv_def)
  then show False using table_loop_size[OF ctx full1 never conjunct2[OF ts]] lp by blast
qed

text \<open>
  C8: called with the numbers of symbols and the root bits that \<open>inflate\<close> uses, \<open>inflate_table\<close> never accesses
  memory out of bounds and its result is determined: -1 for over-subscribed sets of lengths and for
  incomplete ones other than a single one bit code of literals or distances, 0 for all others.  So it
  never gives up for want of entries: \<open>ENOUGH_LENS\<close> and \<open>ENOUGH_DISTS\<close> are enough.  A table it returns lies
  within the memory given.
\<close>

theorem inflate_table_total:
  assumes "table_args type lens tab bits work" "within_enough type (length lens) bits"
  shows "\<exists>ret tab' used bits'. inflate_table type lens tab bits work = Some (ret, tab', used, bits')
    \<and> ret = (if bad_lens type lens then - 1 else 0)
    \<and> (ret = 0 \<longrightarrow> length tab' = length tab \<and> used \<le> length tab \<and> \<not> too_much type used \<and> 2 ^ bits' \<le> used \<and> 1 \<le> bits' \<and> bits' \<le> 15)"
proof -
  obtain ret tab' used bits' where r: "inflate_table type lens tab bits work = Some (ret, tab', used, bits')"
    "ret = - 1 \<longleftrightarrow> bad_lens type lens" "ret = 0 \<or> ret = 1 \<or> ret = - 1"
    "ret = 0 \<longrightarrow> length tab' = length tab \<and> used \<le> length tab \<and> 2 ^ bits' \<le> used \<and> 1 \<le> bits' \<and> bits' \<le> 15"
    using inflate_table_returns[OF assms(1)] by blast
  have "ret \<noteq> 1" using inflate_table_enough[OF assms] r(1) by auto
  then have "ret = (if bad_lens type lens then - 1 else 0)" using r(2,3) by auto
  moreover have "ret = 0 \<longrightarrow> \<not> too_much type used" using inflate_table_good(3)[OF assms(1)] r(1) by blast
  ultimately show ?thesis using r(1,4) by blast
qed

text \<open>A complete set of lengths for all 286 symbols of literals and lengths.\<close>

definition full_lens :: "nat list" where
  "full_lens = replicate 226 8 @ replicate 60 9"

lemma full_lens_args: "table_args LENS full_lens (replicate 852 \<lparr>code_op = 0, code_bits = 0, code_val = 0\<rparr>) 9 (replicate 288 0)"
  "within_enough LENS (length full_lens) 9"
  by (simp_all add: table_args_def full_lens_def max_codes_def within_enough_def)

lemma full_lens_kraft: "kraft full_lens = 2 ^ 15"
  by (simp add: kraft_def full_lens_def sum_list_replicate)

theorem inflate_table_total_witness:
  "\<exists>tab' used bits'. inflate_table LENS full_lens (replicate 852 \<lparr>code_op = 0, code_bits = 0, code_val = 0\<rparr>) 9 (replicate 288 0)
     = Some (0, tab', used, bits')"
  using inflate_table_total[OF full_lens_args] full_lens_kraft by (auto simp: bad_lens_def)

end
