(* ===== verification/Inflate_Steps.thy ===== *)
theory Inflate_Steps
  imports Inflate_Inv Inftrees_Enough
begin

text \<open>Each case of the \<open>switch\<close> in \<open>inflate\<close> keeps the invariant.\<close>

section \<open>Frames\<close>

text \<open>The fields that reading the head of a block or a code does not change.\<close>

definition frame :: "inflate_state \<Rightarrow> inflate_state \<Rightarrow> bool" where
  "frame st st' \<longleftrightarrow> length (i_lens st') = length (i_lens st) \<and> i_work st' = i_work st
     \<and> i_wbits st' = i_wbits st \<and> i_sane st' = i_sane st \<and> i_wrap st' = i_wrap st \<and> i_flags st' = i_flags st
     \<and> i_window st' = i_window st \<and> i_wsize st' = i_wsize st \<and> i_wnext st' = i_wnext st \<and> i_whave st' = i_whave st
     \<and> avail_out st' = avail_out st \<and> i_out st' = i_out st \<and> out_buf st' = out_buf st \<and> i_check st' = i_check st \<and> i_total st' = i_total st"

lemma frame_facts:
  assumes "frame st st'"
  shows "base st H \<Longrightarrow> acc_ok st' \<Longrightarrow> base st' H" "win_hist st' H = win_hist st H" "new_count st' = new_count st" "out_buf st' = out_buf st"
    "avail_out st' = avail_out st"
proof -
  note eq = assms[unfolded frame_def, THEN conjunct1] assms[unfolded frame_def, THEN conjunct2]
  show "base st H \<Longrightarrow> acc_ok st' \<Longrightarrow> base st' H"
    using eq unfolding base_def win_mem_def window_of_def new_count_def by metis
  show "win_hist st' H = win_hist st H" "new_count st' = new_count st" "out_buf st' = out_buf st" "avail_out st' = avail_out st"
    using eq by (simp_all add: win_hist_def ring_def window_of_def new_count_def)
qed

lemma good_frame:
  assumes "good st H fut r" "i_mode st \<in> block_modes" "frame st st'" "acc_ok st'" "i_mode st' \<in> block_modes"
    "block_todo st' (H @ out_buf st) (rem_bits st' @ fut) r" "length (i_codes st') = length (i_codes st)"
  shows "good st' H fut r"
  using assms frame_facts[OF assms(3)] by (simp add: good_def)

lemma good_bad:
  assumes "good st H fut r" "frame st st'" "acc_ok st'" "i_mode st' = BAD" "r = None"
  shows "good st' H fut r"
  using assms frame_facts[OF assms(2)] by (simp add: good_def block_modes_def)

text \<open>The amount of input and output space left.\<close>

definition room :: "inflate_state \<Rightarrow> nat" where
  "room st = i_bits st + 8 * length (next_in st) + avail_out st"

lemma mode_rank_less: "mode_rank m < 64"
  by (cases m) simp_all

lemma go_reads: "good st' H fut r \<Longrightarrow> room st' < room st \<Longrightarrow> step_ok flush st H fut r (Go st')"
  using mode_rank_less[of "i_mode st'"] by (simp add: step_ok_def work_left_def room_def)

lemma go_rank: "good st' H fut r \<Longrightarrow> room st' \<le> room st \<Longrightarrow> mode_rank (i_mode st') < mode_rank (i_mode st) \<Longrightarrow> step_ok flush st H fut r (Go st')"
  by (simp add: step_ok_def work_left_def room_def)

lemma block_rank: "m \<in> block_modes \<Longrightarrow> 7 \<le> mode_rank m"
  by (auto simp: block_modes_def)

lemma bad_go:
  assumes "good st H fut r" "i_mode st \<in> block_modes" "frame st st'" "acc_ok st'" "room st' \<le> room st" "i_mode st' = BAD" "r = None"
  shows "step_ok flush st H fut r (Go st')"
  using go_rank[OF good_bad[OF assms(1,3,4,6,7)] assms(5)] block_rank[OF assms(2)] assms(6) by simp

lemma bad_ok:
  assumes "good st H fut r" "i_mode st \<in> block_modes" "frame st st'" "acc_ok st'" "room st' \<le> room st" "r = None"
  shows "step_ok flush st H fut r (bad m st')"
  unfolding bad_def
  by (rule bad_go[OF assms(1,2)]) (use assms(3-6) in \<open>auto simp: frame_def acc_ok_def room_def\<close>)

lemma ahead_unfold:
  assumes "ahead st st'"
  obtains i h b where "st' = st\<lparr>next_in := i, i_hold := h, i_bits := b\<rparr>" "acc_ok st'" "rem_bits st' = rem_bits st"
    "b + 8 * length i = i_bits st + 8 * length (next_in st)"
  using assms unfolding ahead_def bits_frame_def by force

text \<open>The definitions in terms of the fields of the state.\<close>

text \<open>\<open>NEEDBITS\<close> in front of a case.\<close>

lemma need_ok:
  assumes acc: "acc_ok st" and n: "n \<le> 25 \<or> n \<le> 32 \<and> i_bits st mod 8 = 0"
    and short: "\<And>st'. ahead st st' \<Longrightarrow> i_bits st' < n \<Longrightarrow> next_in st' = [] \<Longrightarrow> good st' H fut r \<and> i_mode st' \<noteq> DONE \<and> i_mode st' \<noteq> BAD \<and> (fut = [] \<longrightarrow> r = None)"
    and full: "\<And>st'. ahead st st' \<Longrightarrow> n \<le> i_bits st' \<Longrightarrow> i_bits st' = i_bits st \<or> i_bits st' < n + 8 \<Longrightarrow> step_ok flush st' H fut r (k st')"
  shows "step_ok flush st H fut r (need n st k)"
proof -
  let ?s = "NEEDBITS n st"
  note a = NEEDBITS_ahead[OF acc n]
  then have ah: "ahead st ?s" by blast
  obtain i h b where s: "?s = st\<lparr>next_in := i, i_hold := h, i_bits := b\<rparr>" and l: "b + 8 * length i = i_bits st + 8 * length (next_in st)"
    using ahead_unfold[OF ah] by metis
  have w: "work_left ?s = work_left st" using l by (simp add: work_left_def s)
  show ?thesis
  proof (cases "n \<le> i_bits ?s")
    case True
    then show ?thesis using full[OF ah] a w by (auto simp: need_def Let_def step_ok_def split: step.splits)
  next
    case False
    then show ?thesis using short[OF ah] a by (simp add: need_def Let_def step_ok_def may_stop_def)
  qed
qed

lemma work_left_ahead: "ahead st st' \<Longrightarrow> work_left st' = work_left st"
  by (erule ahead_unfold) (simp add: work_left_def)

lemma ahead_frame: "ahead st st' \<Longrightarrow> frame st st'"
  by (erule ahead_unfold) (simp add: frame_def)

lemma ahead_room: "ahead st st' \<Longrightarrow> room st' = room st"
  by (erule ahead_unfold) (simp add: room_def)

lemma step_ok_ahead: "ahead st st' \<Longrightarrow> step_ok flush st' H fut r x = step_ok flush st H fut r x"
  by (simp add: step_ok_def work_left_ahead split: step.split)

lemma good_base: "good st H fut r \<Longrightarrow> base st H"
  by (simp add: good_def)

lemma good_acc: "good st H fut r \<Longrightarrow> acc_ok st"
  by (simp add: good_def base_def)

section \<open>The start of a block\<close>

lemma bytebits_rem:
  assumes "acc_ok st" "length fut mod 8 = 0"
  shows "rem_bits (BYTEBITS st) @ fut = drop (length (rem_bits st @ fut) mod 8) (rem_bits st @ fut)" "acc_ok (BYTEBITS st)"
    "i_bits (BYTEBITS st) mod 8 = 0"
proof -
  have n: "i_bits st mod 8 \<le> i_bits st" by simp
  have d: "BYTEBITS st = DROPBITS (i_bits st mod 8) st" by (simp add: BYTEBITS_def DROPBITS_def)
  have m: "length (rem_bits st @ fut) mod 8 = i_bits st mod 8"
  proof -
    obtain k where "length fut = 8 * k" using assms(2) by auto
    then have "length (rem_bits st @ fut) = i_bits st + 8 * (length (next_in st) + k)" by (simp add: length_rem)
    then show ?thesis by presburger
  qed
  show "rem_bits (BYTEBITS st) @ fut = drop (length (rem_bits st @ fut) mod 8) (rem_bits st @ fut)"
    unfolding m d using drop_rem(1)[OF assms(1) n] by simp
  show "acc_ok (BYTEBITS st)" unfolding d by (rule drop_rem(2)[OF assms(1) n])
  have "i_bits st - i_bits st mod 8 = 8 * (i_bits st div 8)" by (simp add: minus_mod_eq_mult_div)
  then show "i_bits (BYTEBITS st) mod 8 = 0" by (simp add: BYTEBITS_def)
qed

lemma do_typedo_last:
  assumes g: "good st H fut r" and m: "i_mode st = TYPE0 \<or> i_mode st = TYPEDO" and fut: "length fut mod 8 = 0" and l: "i_last st \<noteq> 0"
  shows "step_ok flush st H fut r (do_typedo flush st)"
proof -
  note b = bytebits_rem[OF good_acc[OF g] fut]
  have r: "r = finish st (Some (H @ out_buf st, rem_bits st @ fut))" and bs: "base st H" and nc: "new_count st = length (out_buf st)"
    using g m by (auto simp: good_def block_modes_def block_todo_def)
  have "frame st ((BYTEBITS st)\<lparr>i_mode := CHECK\<rparr>)" by (simp add: frame_def BYTEBITS_def)
  from frame_facts(1)[OF this bs] have "base ((BYTEBITS st)\<lparr>i_mode := CHECK\<rparr>) H" using b(2) by (simp add: acc_ok_def)
  then have "good ((BYTEBITS st)\<lparr>i_mode := CHECK\<rparr>) H fut r"
    using r nc b l by (simp add: good_def block_modes_def finish_at_def new_count_def BYTEBITS_def)
  then show ?thesis using l m by (auto simp: do_typedo_def step_ok_def work_left_def BYTEBITS_def)
qed

definition block_body :: "nat \<Rightarrow> byte list \<Rightarrow> bool list \<Rightarrow> (byte list \<times> bool list) option" where
  "block_body type h bs = (if type = 0 then decode_stored h bs else if type = 1 then decode_data static_lens fixed_dlens h bs
     else if type = 2 then trees_rest h bs else None)"

lemma finish_block:
  assumes "i_last st = 0"
  shows "finish st (Some (h, bs)) = (case take_bits 1 bs of None \<Rightarrow> None
     | Some (l, bs) \<Rightarrow> (case take_bits 2 bs of None \<Rightarrow> None
        | Some (type, bs) \<Rightarrow> finish_at l (i_wrap st) (i_flags st) (block_body type h bs)))"
  by (subst finish_at_def, subst decode_blocks.simps)
     (auto simp: assms decode_block_unfold block_body_def finish_at_def split: option.splits)

text \<open>Taking bits from the front of the stream; \<open>?b\<close> bits are there.\<close>

lemma take_front:
  assumes "acc_ok st" "n \<le> i_bits st"
  shows "take_bits n (rem_bits st @ fut) = Some (BITS n st, rem_bits (DROPBITS n st) @ fut)" "acc_ok (DROPBITS n st)"
    "i_bits (DROPBITS n st) = i_bits st - n" "frame st (DROPBITS n st)" "room (DROPBITS n st) + n = room st" "BITS n st < 2 ^ n"
  using take_rem[OF assms] drop_rem(2)[OF assms] assms(2) by (simp_all add: DROPBITS_def frame_def room_def BITS_def)

lemma frame_trans: "frame st st1 \<Longrightarrow> frame st1 st2 \<Longrightarrow> frame st st2"
  by (simp add: frame_def)

text \<open>Short of input in a mode of the blocks.\<close>

lemma short_ok:
  assumes "good st H fut r" "i_mode st \<in> block_modes" "ahead st st'" "block_todo st' (H @ out_buf st) (rem_bits st @ fut) r"
    "fut = [] \<Longrightarrow> r = None"
  shows "good st' H fut r \<and> i_mode st' \<noteq> DONE \<and> i_mode st' \<noteq> BAD \<and> (fut = [] \<longrightarrow> r = None)"
proof -
  obtain i h b where e: "st' = st\<lparr>next_in := i, i_hold := h, i_bits := b\<rparr>" "acc_ok st'" "rem_bits st' = rem_bits st"
    using ahead_unfold[OF assms(3)] by metis
  have m: "i_mode st' = i_mode st" by (simp add: e(1))
  have "good st' H fut r"
    by (rule good_frame[OF assms(1,2) ahead_frame[OF assms(3)] e(2)]) (use assms(2,4) e(1,3) m in simp_all)
  then show ?thesis using assms(2,5) m by (auto simp: block_modes_def)
qed

lemma do_typedo_block:
  assumes g: "good st H fut r" and m: "i_mode st = TYPE0 \<or> i_mode st = TYPEDO" and l: "i_last st = 0"
  shows "step_ok flush st H fut r (do_typedo flush st)"
proof -
  let ?h = "H @ out_buf st"
  have mb: "i_mode st \<in> block_modes" using m by (auto simp: block_modes_def)
  have r: "r = finish st (Some (?h, rem_bits st @ fut))" and b8: "i_bits st < 8"
    using g m by (auto simp: good_def block_modes_def block_todo_def)
  note fb = finish_block[OF l, of ?h]
  have nl: "\<not> i_last st \<noteq> 0" using l by simp
  show ?thesis unfolding do_typedo_def if_not_P[OF nl]
  proof (rule need_ok[OF good_acc[OF g]])
    fix st' assume a: "ahead st st'" and s: "i_bits st' < 3" "next_in st' = []"
    have rb: "rem_bits st' = rem_bits st" using a by (simp add: ahead_def)
    have "block_todo st' ?h (rem_bits st @ fut) r"
      using r s m by (rule_tac ahead_unfold[OF a]) (auto simp: block_todo_def)
    moreover have "fut = [] \<Longrightarrow> r = None"
      using r fb s rb length_rem[of st'] by (auto simp: take_bits_def)
    ultimately show "good st' H fut r \<and> i_mode st' \<noteq> DONE \<and> i_mode st' \<noteq> BAD \<and> (fut = [] \<longrightarrow> r = None)"
      by (rule short_ok[OF g mb a])
  next
    fix st' assume a: "ahead st st'" and s: "3 \<le> i_bits st'" "i_bits st' = i_bits st \<or> i_bits st' < 3 + 8"
    obtain i h b where e: "st' = st\<lparr>next_in := i, i_hold := h, i_bits := b\<rparr>" and acc: "acc_ok st'" and rb: "rem_bits st' = rem_bits st"
      using ahead_unfold[OF a] by metis
    let ?l = "BITS 1 st'"
    let ?l = "BITS 1 st'"
    let ?s = "DROPBITS 2 (DROPBITS 1 (st'\<lparr>i_last := ?l\<rparr>))" and ?t = "BITS 2 (DROPBITS 1 st')"
    have le: "1 \<le> i_bits st'" "2 \<le> i_bits (DROPBITS 1 st')" using s by (simp_all add: DROPBITS_def)
    note t1 = take_front[OF acc le(1)]
    note t2 = take_front[OF t1(2) le(2)]
    have s2: "rem_bits ?s = rem_bits (DROPBITS 2 (DROPBITS 1 st'))" "acc_ok ?s"
      using t2(2) by (simp_all add: rem_bits_def hold_bits_def DROPBITS_def acc_ok_def)
    have rr: "r = finish_at ?l (i_wrap st) (i_flags st) (block_body ?t ?h (rem_bits ?s @ fut))"
      using r fb t1(1) t2(1) rb s2(1) by simp
    have b8': "i_bits ?s < 8" using s b8 by (auto simp: DROPBITS_def)
    have fr: "frame st ?s" by (simp add: frame_def DROPBITS_def e)
    have rm: "room ?s < room st" using s ahead_room[OF a] by (simp add: room_def DROPBITS_def)
    have go: "step_ok flush st H fut r (Go s')"
      if "frame ?s s'" "i_codes s' = i_codes ?s" "i_bits s' = i_bits ?s" "i_hold s' = i_hold ?s" "next_in s' = next_in ?s" "i_mode s' \<in> block_modes"
        "block_todo s' ?h (rem_bits ?s @ fut) r" for s'
    proof -
      have "rem_bits s' = rem_bits ?s" "acc_ok s'" "room s' = room ?s"
        using that s2(2) frame_facts(5)[OF that(1)] by (simp_all add: rem_bits_def hold_bits_def acc_ok_def room_def)
      then show ?thesis
        using go_reads good_frame[OF g mb frame_trans[OF fr that(1)] _ that(6)] that(2,7) rm e by (simp add: DROPBITS_def)
    qed
    have tt: "BITS 2 (DROPBITS 1 (st'\<lparr>i_last := ?l\<rparr>)) = ?t" by (simp add: BITS_def DROPBITS_def)
    consider "?t = 0" | "?t = 1" | "?t = 2" | "?t = 3" using t2(6) by fastforce
    then show "step_ok flush st' H fut r
      (let st = DROPBITS 1 (st'\<lparr>i_last := ?l\<rparr>) in
       if BITS 2 st = 0 then Go (DROPBITS 2 (st\<lparr>i_mode := STORED\<rparr>))
       else if BITS 2 st = 1 then
         let st = DROPBITS 2 ((fixedtables st)\<lparr>i_mode := LEN1\<rparr>) in if flush = Z_TREES then Leave st Z_OK else Go st
       else if BITS 2 st = 2 then Go (DROPBITS 2 (st\<lparr>i_mode := TABLE\<rparr>))
       else Go (DROPBITS 2 (st\<lparr>msg := Some ''invalid block type'', i_mode := BAD\<rparr>)))"
      unfolding step_ok_ahead[OF a] Let_def tt
    proof cases
      case 1
      have "step_ok flush st H fut r (Go (DROPBITS 2 ((DROPBITS 1 (st'\<lparr>i_last := ?l\<rparr>))\<lparr>i_mode := STORED\<rparr>)))"
        by (rule go) (use rr 1 in \<open>simp_all add: frame_def DROPBITS_def block_modes_def block_todo_def block_body_def e\<close>)
      then show "step_ok flush st H fut r (if ?t = 0 then Go (DROPBITS 2 ((DROPBITS 1 (st'\<lparr>i_last := ?l\<rparr>))\<lparr>i_mode := STORED\<rparr>))
        else if ?t = 1 then X else if ?t = 2 then Y else Z)" for X Y Z using 1 by simp
    next
      case 2
      let ?f = "DROPBITS 2 ((fixedtables (DROPBITS 1 (st'\<lparr>i_last := ?l\<rparr>)))\<lparr>i_mode := LEN1\<rparr>)"
      have "two_tables ?f static_lens fixed_dlens" using lenfix_ok distfix_ok by (simp add: two_tables_def DROPBITS_def fixedtables_def tab_at_def)
      then have todo: "block_todo ?f ?h (rem_bits ?s @ fut) r" using rr 2 b8'
        unfolding block_todo_def by (auto simp: DROPBITS_def fixedtables_def code_side_def code_rest_def block_body_def e)
      have "step_ok flush st H fut r (Go ?f)"
        by (rule go) (use todo in \<open>simp_all add: frame_def DROPBITS_def fixedtables_def block_modes_def\<close>)
      then have "step_ok flush st H fut r (Go ?f)" "step_ok flush st H fut r (if flush = Z_TREES then Leave ?f Z_OK else Go ?f)"
        by (auto simp: step_ok_def may_stop_def DROPBITS_def)
      then show "step_ok flush st H fut r (if ?t = 0 then X else if ?t = 1 then if flush = Z_TREES then Leave ?f Z_OK else Go ?f else Z)" for X Z
        using 2 by simp
    next
      case 3
      have "step_ok flush st H fut r (Go (DROPBITS 2 ((DROPBITS 1 (st'\<lparr>i_last := ?l\<rparr>))\<lparr>i_mode := TABLE\<rparr>)))"
        by (rule go) (use rr 3 b8' in \<open>simp_all add: frame_def DROPBITS_def block_modes_def block_todo_def block_body_def e\<close>)
      then show "step_ok flush st H fut r (if ?t = 0 then X else if ?t = 1 then Y else if ?t = 2
        then Go (DROPBITS 2 ((DROPBITS 1 (st'\<lparr>i_last := ?l\<rparr>))\<lparr>i_mode := TABLE\<rparr>)) else Z)" for X Y Z using 3 by simp
    next
      case 4
      have "r = None" using rr 4 by (simp add: block_body_def)
      have "step_ok flush st H fut r (Go (DROPBITS 2 ((DROPBITS 1 (st'\<lparr>i_last := ?l\<rparr>))\<lparr>msg := Some ''invalid block type'', i_mode := BAD\<rparr>)))"
        by (rule bad_go[OF g mb]) (use fr s2(2) less_imp_le[OF rm] \<open>r = None\<close> in \<open>simp_all add: frame_def acc_ok_def room_def DROPBITS_def\<close>)
      then show "step_ok flush st H fut r (if ?t = 0 then X else if ?t = 1 then Y else if ?t = 2 then Z
        else Go (DROPBITS 2 ((DROPBITS 1 (st'\<lparr>i_last := ?l\<rparr>))\<lparr>msg := Some ''invalid block type'', i_mode := BAD\<rparr>)))" for X Y Z using 4 by simp
    qed
  qed simp
qed

lemma do_typedo_ok:
  assumes "good st H fut r" "i_mode st = TYPE0 \<or> i_mode st = TYPEDO" "length fut mod 8 = 0"
  shows "step_ok flush st H fut r (do_typedo flush st)"
  using do_typedo_last[OF assms] do_typedo_block[OF assms(1,2)] by blast

lemma do_type_ok:
  assumes "good st H fut r" "i_mode st = TYPE0" "length fut mod 8 = 0"
  shows "step_ok flush st H fut r (do_type flush st)"
  using do_typedo_ok[OF assms(1) _ assms(3)] assms(1,2) by (auto simp: do_type_def step_ok_def may_stop_def)

section \<open>Stored blocks\<close>

lemma step_ok_mono: "room st1 \<le> room st \<Longrightarrow> i_mode st1 = i_mode st \<Longrightarrow> step_ok flush st1 H fut r x \<Longrightarrow> step_ok flush st H fut r x"
  by (auto simp: step_ok_def work_left_def room_def split: step.splits)

lemma xor_mask: "n < 2 ^ k \<Longrightarrow> n XOR (2 ^ k - 1) = 2 ^ k - 1 - (n :: nat)"
proof -
  assume n: "n < 2 ^ k"
  have t: "take_bit k (int n) = int n" using n by (simp add: take_bit_eq_mod flip: of_nat_power of_nat_mod)
  have b: "bit (int n) i \<Longrightarrow> i < k" for i using t by (metis bit_take_bit_iff)
  have "int n XOR mask k = take_bit k (NOT (int n))"
    by (rule bit_eqI) (auto simp: bit_xor_iff bit_mask_iff bit_take_bit_iff bit_not_iff dest: b)
  also have "\<dots> = mask k - int n" by (simp add: take_bit_not_eq_mask_diff t)
  finally have "int (n XOR mask k) = int (mask k) - int n" by (simp add: of_nat_xor_eq of_nat_mask_eq)
  then have "n XOR mask k = mask k - n" by linarith
  then show ?thesis by (simp add: mask_eq_exp_minus_1)
qed

lemma decode_stored_drop: "decode_stored h (drop (length bs mod 8) bs) = decode_stored h bs"
proof -
  have "(length bs - length bs mod 8) mod 8 = 0" by (metis minus_mod_eq_mult_div mod_mult_self1_is_0)
  then show ?thesis by (simp add: decode_stored_def Let_def)
qed

lemma decode_stored_aligned: "length bs mod 8 = 0 \<Longrightarrow> decode_stored h bs = (case take_bits 16 bs of None \<Rightarrow> None
     | Some (len, bs) \<Rightarrow> (case take_bits 16 bs of None \<Rightarrow> None
        | Some (nlen, bs) \<Rightarrow> if len + nlen \<noteq> 65535 then None else copy_stored len h bs))"
  by (simp add: decode_stored_def copy_stored_def Let_def split: option.split)

text \<open>The mask in \<open>hold & 0xffff\<close> as a remainder.\<close>

lemma and_ffff: "n AND 0xffff = (n :: nat) mod 2 ^ 16"
  using take_bit_eq_mask[of 16 n] by (simp add: take_bit_eq_mod mask_eq_exp_minus_1)

lemma stored_lengths:
  assumes "h < 2 ^ 32"
  shows "h AND 0xffff \<noteq> (h div 2 ^ 16) XOR 0xffff \<longleftrightarrow> h mod 2 ^ 16 + h div 2 ^ 16 \<noteq> (65535 :: nat)"
proof -
  have "h div 2 ^ 16 < 2 ^ 16" using assms by (simp add: less_mult_imp_div_less)
  then show ?thesis using xor_mask[of "h div 2 ^ 16" 16] by (auto simp: and_ffff)
qed

lemma do_stored_ok:
  assumes g: "good st H fut r" and m: "i_mode st = STORED" and fut: "length fut mod 8 = 0"
  shows "step_ok flush st H fut r (do_stored flush st)"
proof -
  let ?h = "H @ out_buf st" and ?s = "BYTEBITS st"
  have mb: "i_mode st \<in> block_modes" using m by (simp add: block_modes_def)
  have r: "r = finish st (decode_stored ?h (rem_bits st @ fut))" using g m by (simp add: good_def block_modes_def block_todo_def)
  note b = bytebits_rem[OF good_acc[OF g] fut]
  have fr: "frame st ?s" "room ?s \<le> room st" "i_mode ?s = i_mode st" by (simp_all add: frame_def BYTEBITS_def room_def)
  have rs: "r = finish ?s (decode_stored ?h (rem_bits ?s @ fut))"
    unfolding b(1) decode_stored_drop using r by (simp add: BYTEBITS_def)
  have g0: "good ?s H fut r"
    by (rule good_frame[OF g mb fr(1) b(2)]) (use mb rs m in \<open>simp_all add: block_todo_def BYTEBITS_def\<close>)
  have mb0: "i_mode ?s \<in> block_modes" and ob: "out_buf ?s = out_buf st" using mb fr by (simp_all add: frame_def)
  have l8: "length (rem_bits ?s @ fut) mod 8 = 0"
    using b(3) fut by (simp add: length_rem) presburger
  note ds = decode_stored_aligned[OF l8, of ?h]
  show ?thesis unfolding do_stored_def
  proof (rule step_ok_mono[OF fr(2,3)], rule need_ok[OF b(2)])
    fix st' assume a: "ahead ?s st'" and s: "i_bits st' < 32" "next_in st' = []"
    have rb: "rem_bits st' = rem_bits ?s" using a by (simp add: ahead_def)
    have "block_todo st' (H @ out_buf ?s) (rem_bits ?s @ fut) r"
      using rs m fr(3) ob by (rule_tac ahead_unfold[OF a]) (auto simp: block_todo_def)
    moreover have "r = None" if "fut = []"
    proof -
      have l: "length (rem_bits ?s) < 32" using length_rem[of st'] s rb by simp
      have "decode_stored ?h (rem_bits ?s @ fut) = None"
        unfolding ds using that l by (auto simp: take_bits_def split: option.split)
      then show ?thesis using rs by simp
    qed
    ultimately show "good st' H fut r \<and> i_mode st' \<noteq> DONE \<and> i_mode st' \<noteq> BAD \<and> (fut = [] \<longrightarrow> r = None)"
      by (rule short_ok[OF g0 mb0 a])
  next
    fix st' assume a: "ahead ?s st'" and s: "32 \<le> i_bits st'"
    obtain i hh bb where e: "st' = ?s\<lparr>next_in := i, i_hold := hh, i_bits := bb\<rparr>" and acc: "acc_ok st'" and rb: "rem_bits st' = rem_bits ?s"
      using ahead_unfold[OF a] by metis
    have b32: "i_bits st' = 32" using s acc by (simp add: acc_ok_def)
    then have h32: "i_hold st' < 2 ^ 32" using acc by (simp add: acc_ok_def)
    let ?len = "i_hold st' mod 2 ^ 16" and ?nlen = "i_hold st' div 2 ^ 16"
    have le: "16 \<le> i_bits st'" "16 \<le> i_bits (DROPBITS 16 st')" using b32 by (simp_all add: DROPBITS_def)
    note t1 = take_front[OF acc le(1)]
    note t2 = take_front[OF t1(2) le(2)]
    have nl: "BITS 16 (DROPBITS 16 st') = ?nlen" using h32 by (simp add: BITS_def DROPBITS_def less_mult_imp_div_less)
    have rem: "rem_bits (DROPBITS 16 (DROPBITS 16 st')) = bytes_bits (next_in st')"
      using b32 by (simp add: rem_bits_def hold_bits_def DROPBITS_def)
    have "decode_stored ?h (rem_bits ?s @ fut) = (if ?len + ?nlen \<noteq> 65535 then None else copy_stored ?len ?h (bytes_bits (next_in st') @ fut))"
      unfolding ds using t1(1)[of fut] t2(1)[of fut] nl rb rem by (simp add: BITS_def)
    then have rr: "r = finish st (if ?len + ?nlen \<noteq> 65535 then None else copy_stored ?len ?h (bytes_bits (next_in st') @ fut))"
      using rs by (simp add: BYTEBITS_def)
    have fr': "frame ?s st'" "room st' = room ?s" using ahead_frame[OF a] ahead_room[OF a] by simp_all
    show "step_ok flush st' H fut r (if i_hold st' AND 0xffff \<noteq> (i_hold st' div 2 ^ 16) XOR 0xffff then bad ''invalid stored block lengths'' st'
       else let st'' = (INITBITS (st'\<lparr>i_length := i_hold st' AND 0xffff\<rparr>))\<lparr>i_mode := COPY1\<rparr>
            in if flush = Z_TREES then Leave st'' Z_OK else Go st'')"
      unfolding step_ok_ahead[OF a] stored_lengths[OF h32]
    proof (cases "?len + ?nlen = 65535")
      case False
      then have "r = None" using rr by simp
      then show "step_ok flush ?s H fut r (if ?len + ?nlen \<noteq> 65535 then bad ''invalid stored block lengths'' st' else X)" for X
        using bad_ok[OF g0 mb0 fr'(1) acc] fr'(2) False by simp
    next
      case True
      let ?t = "(INITBITS (st'\<lparr>i_length := i_hold st' AND 0xffff\<rparr>))\<lparr>i_mode := COPY1\<rparr>"
      have "good ?t H fut r"
        by (rule good_frame[OF g0 mb0]) (use rr True fr' ob in \<open>simp_all add: frame_def INITBITS_def acc_ok_def block_modes_def block_todo_def
            rem_bits_def hold_bits_def and_ffff e BYTEBITS_def\<close>)
      moreover have "room ?t < room ?s" using fr'(2) b32 by (simp add: room_def INITBITS_def)
      ultimately show "step_ok flush ?s H fut r (if ?len + ?nlen \<noteq> 65535 then X
          else let st'' = ?t in if flush = Z_TREES then Leave st'' Z_OK else Go st'')" for X
        using True go_reads[of ?t H fut r ?s] by (auto simp: step_ok_def may_stop_def INITBITS_def Let_def)
    qed
  qed (use b(3) in simp)
qed

section \<open>Output\<close>

text \<open>Writing \<open>x\<close>.\<close>

lemma good_output:
  assumes g: "good st H fut r" "i_mode st \<in> block_modes" and f: "frame (st\<lparr>out_buf := out_buf st @ x, avail_out := avail_out st - length x\<rparr>) st'"
    and x: "length x \<le> avail_out st" and acc: "acc_ok st'" and m: "i_mode st' \<in> block_modes"
    and t: "block_todo st' (H @ out_buf st @ x) (rem_bits st' @ fut) r" and c: "length (i_codes st') = length (i_codes st)"
  shows "good st' H fut r"
proof -
  let ?s = "st\<lparr>out_buf := out_buf st @ x, avail_out := avail_out st - length x\<rparr>"
  have b: "base st H" "new_count st = length (out_buf st)" "win_hist st H" "length (i_codes st) = ENOUGH" using g by (simp_all add: good_def)
  have "avail_out st \<le> i_out st" using b(1) by (simp add: base_def)
  then have n: "new_count ?s = length (out_buf ?s)" using b(2) x by (simp add: new_count_def)
  have "win_mem ?s = win_mem st" by (simp add: win_mem_def window_of_def)
  moreover have "avail_out ?s \<le> i_out ?s" using \<open>avail_out st \<le> i_out st\<close> by simp
  ultimately have "base ?s H" using b(1,2) n unfolding base_def by (simp add: acc_ok_def)
  note ff = frame_facts[OF f]
  have "win_hist ?s H = win_hist st H" by (simp add: win_hist_def ring_def window_of_def)
  then have w: "win_hist ?s H" using b(3) by simp
  show ?thesis using ff(1)[OF \<open>base ?s H\<close> acc] ff(2)[of H] ff(3,4) n w m t b(4) c by (simp add: good_def)
qed

lemma copy_stored_step:
  assumes "n \<le> len" "n \<le> length inp"
  shows "copy_stored len h (bytes_bits inp @ fut) = copy_stored (len - n) (h @ take n inp) (bytes_bits (drop n inp) @ fut)"
proof -
  have sp: "to_bytes (a + b) bs = to_bytes a bs @ to_bytes b (drop (8 * a) bs)" for a b bs
    by (induction a arbitrary: bs) (simp_all add: add.commute)
  have i: "bytes_bits inp @ fut = bytes_bits (take n inp) @ bytes_bits (drop n inp) @ fut"
    by (simp add: bytes_bits_def flip: append_assoc concat_append map_append)
  have l: "length (bytes_bits (take n inp)) = 8 * n" using assms(2) by simp
  have d: "drop (8 * n) (bytes_bits (take n inp) @ y) = y" for y using l by (metis append_eq_conv_conj)
  have t: "to_bytes n (bytes_bits (take n inp) @ x) = take n inp" for x
    using take_bytes_bits[of "take n inp" x] assms(2) by simp
  have "to_bytes len (bytes_bits inp @ fut) = take n inp @ to_bytes (len - n) (bytes_bits (drop n inp) @ fut)"
    using sp[of n "len - n" "bytes_bits inp @ fut"] assms(1) unfolding i t d by simp
  moreover have "drop (8 * len) (bytes_bits inp @ fut) = drop (8 * (len - n)) (bytes_bits (drop n inp) @ fut)"
    unfolding i using l assms(1) by (simp add: diff_mult_distrib2)
  moreover have "length (bytes_bits inp @ fut) < 8 * len \<longleftrightarrow> length (bytes_bits (drop n inp) @ fut) < 8 * (len - n)"
    using assms by simp arith
  ultimately show ?thesis unfolding copy_stored_def by simp
qed

lemma copy_stored_0: "copy_stored 0 h bs = Some (h, bs)"
  by (simp add: copy_stored_def)

lemma do_copy1_ok:
  assumes "good st H fut r" "i_mode st = COPY1"
  shows "step_ok flush st H fut r (Go (st\<lparr>i_mode := COPY\<rparr>))"
proof -
  let ?s = "st\<lparr>i_mode := COPY\<rparr>"
  have m: "i_mode st \<in> block_modes" using assms(2) by (simp add: block_modes_def)
  have "i_bits st = 0 \<and> r = finish st (copy_stored (i_length st) (H @ out_buf st) (rem_bits st @ fut))"
    using assms by (simp add: good_def block_modes_def block_todo_def)
  then have "good ?s H fut r"
    by (intro good_frame[OF assms(1) m])
       (use good_acc[OF assms(1)] in \<open>simp_all add: frame_def acc_ok_def block_modes_def block_todo_def rem_bits_def hold_bits_def\<close>)
  then show ?thesis using go_rank[of ?s H fut r st] assms(2) by (simp add: room_def)
qed

lemma do_copy_ok:
  assumes g: "good st H fut r" and m: "i_mode st = COPY"
  shows "step_ok flush st H fut r (do_copy st)"
proof -
  let ?h = "H @ out_buf st"
  have mb: "i_mode st \<in> block_modes" using m by (simp add: block_modes_def)
  have b0: "i_bits st = 0" and r: "r = finish st (copy_stored (i_length st) ?h (rem_bits st @ fut))"
    using g m by (simp_all add: good_def block_modes_def block_todo_def)
  have rb: "rem_bits st = bytes_bits (next_in st)" using b0 by (simp add: rem_bits_def hold_bits_def)
  show ?thesis
  proof (cases "i_length st = 0")
    case True
    let ?s = "st\<lparr>i_mode := TYPE0\<rparr>"
    have "good ?s H fut r"
      by (rule good_frame[OF g mb])
         (use r True b0 good_acc[OF g] in \<open>simp_all add: frame_def acc_ok_def block_modes_def block_todo_def rem_bits_def hold_bits_def copy_stored_0\<close>)
    then show ?thesis using go_rank[of ?s H fut r st] m True by (simp add: do_copy_def room_def)
  next
    case False
    define n where "n = min (min (i_length st) (length (next_in st))) (avail_out st)"
    show ?thesis
    proof (cases "n = 0")
      case True
      have stop: "may_stop flush st H fut r"
      proof (cases "next_in st = []")
        case nil: True
        then have "fut = [] \<Longrightarrow> r = None" using r rb False by (simp add: copy_stored_def bytes_bits_def)
        then show ?thesis using nil by (simp add: may_stop_def)
      next
        case ne: False
        have "avail_out st = 0" using True ne False by (auto simp: n_def min_def split: if_splits)
        moreover have "length H + length (out_buf st) < length out" if o: "r = Some (out, bs)" for out bs
        proof -
          obtain o1 b1 where c: "copy_stored (i_length st) ?h (rem_bits st @ fut) = Some (o1, b1)" "finish st (Some (o1, b1)) = Some (out, bs)"
            using r o by (cases "copy_stored (i_length st) ?h (rem_bits st @ fut)") auto
          have "length o1 \<le> length out" by (rule finish_mono[OF c(2)])
          moreover have "length o1 = length ?h + i_length st" using c(1) by (auto simp: copy_stored_def split: if_splits)
          ultimately show ?thesis using False by simp
        qed
        ultimately show ?thesis by (simp add: may_stop_def)
      qed
      then show ?thesis using True False g m by (simp add: do_copy_def Let_def n_def[symmetric] step_ok_def)
    next
      case ne: False
      let ?x = "take n (next_in st)"
      let ?s = "st\<lparr>out_buf := out_buf st @ ?x, next_in := drop n (next_in st), avail_out := avail_out st - n, i_length := i_length st - n\<rparr>"
      have n: "n \<le> i_length st" "n \<le> length (next_in st)" "n \<le> avail_out st" by (simp_all add: n_def)
      have "copy_stored (i_length st) ?h (bytes_bits (next_in st) @ fut) = copy_stored (i_length st - n) (H @ out_buf st @ ?x) (bytes_bits (drop n (next_in st)) @ fut)"
        using copy_stored_step[OF n(1,2), of ?h fut] by simp
      then have "good ?s H fut r"
        by (intro good_output[OF g mb, of ?x])
           (use r rb b0 n good_acc[OF g] m in \<open>simp_all add: frame_def acc_ok_def block_modes_def block_todo_def rem_bits_def hold_bits_def min_absorb2\<close>)
      moreover have "room ?s < room st" using n ne by (simp add: room_def)
      ultimately show ?thesis using go_reads[of ?s H fut r st] False ne by (simp add: do_copy_def Let_def n_def[symmetric])
    qed
  qed
qed

section \<open>The head of a dynamic block\<close>

lemma order_eq: "order = cl_order"
  by (simp add: order_def cl_order_def)

lemma cl_order_facts: "length cl_order = 19" "distinct cl_order" "set cl_order = {0..<19}"
  by (simp_all add: cl_order_def) (auto simp: less_Suc_eq numeral_eq_Suc)

lemma cl_order_less: "k < 19 \<Longrightarrow> cl_order ! k < 19"
  using nth_mem[of k cl_order] by (simp add: cl_order_facts)

lemma cl_order_inj: "j < 19 \<Longrightarrow> k < 19 \<Longrightarrow> cl_order ! j = cl_order ! k \<longleftrightarrow> j = k"
  using nth_eq_iff_index_eq[of cl_order j k] by (simp add: cl_order_facts)

lemma do_table_ok:
  assumes g: "good st H fut r" and m: "i_mode st = TABLE"
  shows "step_ok flush st H fut r (do_table st)"
proof -
  let ?h = "H @ out_buf st"
  have mb: "i_mode st \<in> block_modes" using m by (simp add: block_modes_def)
  have b14: "i_bits st < 14" and r: "r = finish st (trees_rest ?h (rem_bits st @ fut))"
    using g m by (simp_all add: good_def block_modes_def block_todo_def)
  show ?thesis unfolding do_table_def
  proof (rule need_ok[OF good_acc[OF g]])
    fix st' assume a: "ahead st st'" and s: "i_bits st' < 14" "next_in st' = []"
    have rb: "rem_bits st' = rem_bits st" using a by (simp add: ahead_def)
    have "block_todo st' ?h (rem_bits st @ fut) r"
      using r s m by (rule_tac ahead_unfold[OF a]) (auto simp: block_todo_def)
    moreover have "r = None" if "fut = []"
    proof -
      have "length (rem_bits st) < 14" using length_rem[of st'] s rb by simp
      then have "trees_rest ?h (rem_bits st @ fut) = None"
        using that by (auto simp: trees_rest_unfold take_bits_def split: bind_splits)
      then show ?thesis using r by simp
    qed
    ultimately show "good st' H fut r \<and> i_mode st' \<noteq> DONE \<and> i_mode st' \<noteq> BAD \<and> (fut = [] \<longrightarrow> r = None)"
      by (rule short_ok[OF g mb a])
  next
    fix st' assume a: "ahead st st'" and s: "14 \<le> i_bits st'" "i_bits st' = i_bits st \<or> i_bits st' < 14 + 8"
    obtain i hh b where e: "st' = st\<lparr>next_in := i, i_hold := hh, i_bits := b\<rparr>" and acc: "acc_ok st'" and rb: "rem_bits st' = rem_bits st"
      using ahead_unfold[OF a] by metis
    let ?s1 = "DROPBITS 5 st'" let ?s2 = "DROPBITS 5 ?s1" let ?s3 = "DROPBITS 4 ?s2"
    have le: "5 \<le> i_bits st'" "5 \<le> i_bits ?s1" "4 \<le> i_bits ?s2" using s by (simp_all add: DROPBITS_def)
    note t1 = take_front[OF acc le(1)] 
    note t2 = take_front[OF t1(2) le(2)]
    note t3 = take_front[OF t2(2) le(3)]
    let ?nl = "BITS 5 st' + 257" and ?nd = "BITS 5 ?s1 + 1" and ?nc = "BITS 4 ?s2 + 4"
    have rr: "r = finish st (if ?nl > 286 \<or> ?nd > 30 then None
        else clens_rest ?nl ?nd ?h (decode_clens (take ?nc cl_order) (replicate 19 0) (rem_bits ?s3 @ fut)))"
      using r t1(1)[of fut] t2(1)[of fut] t3(1)[of fut] rb by (simp add: trees_rest_unfold)
    define f where "f = DROPBITS 4 ((DROPBITS 5 ((DROPBITS 5 (st'\<lparr>i_nlen := ?nl\<rparr>))\<lparr>i_ndist := ?nd\<rparr>))\<lparr>i_ncode := ?nc\<rparr>)"
    have f: "i_nlen f = ?nl" "i_ndist f = ?nd" "i_ncode f = ?nc" "acc_ok f" "rem_bits f = rem_bits ?s3" "frame st f" "i_bits f < 8" "room f < room st"
      "i_codes f = i_codes st" "i_last f = i_last st" "i_wrap f = i_wrap st" "i_flags f = i_flags st"
      using t3(2) s b14 ahead_room[OF a] by (auto simp: f_def DROPBITS_def acc_ok_def rem_bits_def hold_bits_def frame_def room_def e)
    have eq: "(let st = DROPBITS 5 (st'\<lparr>i_nlen := BITS 5 st' + 257\<rparr>); st = DROPBITS 5 (st\<lparr>i_ndist := BITS 5 st + 1\<rparr>);
           st = DROPBITS 4 (st\<lparr>i_ncode := BITS 4 st + 4\<rparr>)
         in if i_nlen st > 286 \<or> i_ndist st > 30 then bad ''too many length or distance symbols'' st
            else Go (st\<lparr>i_have := 0, i_mode := LENLENS\<rparr>))
       = (if ?nl > 286 \<or> ?nd > 30 then bad ''too many length or distance symbols'' f else Go (f\<lparr>i_have := 0, i_mode := LENLENS\<rparr>))"
      by (simp add: f_def DROPBITS_def BITS_def)
    show "step_ok flush st' H fut r (let st = DROPBITS 5 (st'\<lparr>i_nlen := BITS 5 st' + 257\<rparr>); st = DROPBITS 5 (st\<lparr>i_ndist := BITS 5 st + 1\<rparr>);
           st = DROPBITS 4 (st\<lparr>i_ncode := BITS 4 st + 4\<rparr>)
         in if i_nlen st > 286 \<or> i_ndist st > 30 then bad ''too many length or distance symbols'' st
            else Go (st\<lparr>i_have := 0, i_mode := LENLENS\<rparr>))"
      unfolding step_ok_ahead[OF a] eq
    proof (cases "?nl > 286 \<or> ?nd > 30")
      case True
      then have "r = None" using rr by simp
      then show "step_ok flush st H fut r (if ?nl > 286 \<or> ?nd > 30 then bad ''too many length or distance symbols'' f else X)" for X
        using True bad_ok[OF g mb f(6,4) less_imp_le[OF f(8)]] by simp
    next
      case False
      let ?f = "f\<lparr>i_have := 0, i_mode := LENLENS\<rparr>"
      have "clens_so_far ?f (replicate 19 0)" by (simp add: clens_so_far_def cl_order_less)
      then have "block_todo ?f ?h (rem_bits ?f @ fut) r"
        using rr False f t3(6) by (auto simp: block_todo_def table_sizes_def rem_bits_def hold_bits_def)
      then have "good ?f H fut r"
        by (intro good_frame[OF g mb]) (use f in \<open>simp_all add: frame_def acc_ok_def block_modes_def\<close>)
      then show "step_ok flush st H fut r (if ?nl > 286 \<or> ?nd > 30 then X else Go ?f)" for X
        using False go_reads[of ?f H fut r st] f(8) by (simp add: room_def)
    qed
  qed simp
qed

lemma clens_step:
  assumes c: "clens_so_far st cl" and k: "i_have st < 19" and v: "v < 8" and l: "length (i_lens st) = 320"
    and st': "i_have st' = i_have st + 1" "i_lens st' = (i_lens st)[cl_order ! i_have st := v]"
  shows "clens_so_far st' (cl[cl_order ! i_have st := v])"
proof -
  let ?k = "i_have st"
  have cl: "length cl = 19" using c by (simp add: clens_so_far_def)
  have "cl[cl_order ! ?k := v] ! (cl_order ! j) = (if j < i_have st' then i_lens st' ! (cl_order ! j) else 0)" if j: "j < 19" for j
  proof (cases "j = ?k")
    case True
    then show ?thesis using cl_order_less[OF k] cl l st' by simp
  next
    case False
    then have "cl_order ! ?k \<noteq> cl_order ! j" using cl_order_inj[OF j k] by auto
    then show ?thesis using c j False st' by (auto simp: clens_so_far_def)
  qed
  moreover have "cl[cl_order ! ?k := v] ! j < 8" if "j < 19" for j
    using c v that cl by (cases "j = cl_order ! ?k") (simp_all add: clens_so_far_def)
  ultimately show ?thesis using cl by (simp add: clens_so_far_def)
qed

lemma clear_lens_spec:
  assumes "a \<le> 19" "length lens = 320"
  shows "\<exists>lens'. clear_lens a lens = Some lens' \<and> length lens' = 320
    \<and> (\<forall>j<19. lens' ! (cl_order ! j) = (if j < a then lens ! (cl_order ! j) else 0))"
proof -
  let ?I = "\<lambda>i lens'. length lens' = 320 \<and> (\<forall>j<19. lens' ! (cl_order ! j) = (if a \<le> j \<and> j < i then 0 else lens ! (cl_order ! j)))"
  have "\<exists>lens'. clear_lens a lens = Some lens' \<and> ?I 19 lens'"
    unfolding clear_lens_def
  proof (rule foldM_upt_inv[where I = ?I])
    fix i s assume i: "a \<le> i" "i < 19" and I: "?I i s"
    have o: "cl_order ! i < length s" using cl_order_less[OF i(2)] I by simp
    have "s[cl_order ! i := 0] ! (cl_order ! j) = (if a \<le> j \<and> j < Suc i then 0 else lens ! (cl_order ! j))" if j: "j < 19" for j
    proof (cases "j = i")
      case True
      then show ?thesis using o i by simp
    next
      case False
      then have "cl_order ! i \<noteq> cl_order ! j" using cl_order_inj[OF j i(2)] by auto
      then show ?thesis using I j False by auto
    qed
    then show "\<exists>s'. (rd order i \<bind> (\<lambda>k. wr s k 0)) = Some s' \<and> ?I (Suc i) s'"
      using o I i(2) by (simp add: order_eq cl_order_facts)
  qed (use assms in auto)
  then show ?thesis by auto
qed

text \<open>A call of \<open>inflate_table\<close> that succeeds makes a table for the rest of the decoding.\<close>

lemma table_take_ok:
  assumes g: "good_table type lens tab used root" and b: "\<not> bad_lens type lens"
  shows "table_ok type lens (take used tab) root"
proof -
  note i = g[unfolded good_table_def]
  have ix: "t mod 2 ^ root < used" for t :: nat
  proof -
    have "t mod 2 ^ root < 2 ^ root" by simp
    then show ?thesis using i by linarith
  qed
  have f: "finds type lens (take used tab) used root t s" if m: "sym_matches lens t s" for t s
  proof -
    let ?e = "tab ! (t mod 2 ^ root)"
    have o: "finds type lens tab used root t s" using i m by blast
    have lt: "code_val ?e + t div 2 ^ root mod 2 ^ code_op ?e < used" if l: "lens ! s > root"
    proof -
      have "t div 2 ^ root mod 2 ^ code_op ?e < 2 ^ code_op ?e" by simp
      moreover have "code_val ?e + 2 ^ code_op ?e \<le> used" using o l by (simp add: finds_def Let_def)
      ultimately show ?thesis by linarith
    qed
    then show ?thesis using o ix by (auto simp: finds_def Let_def)
  qed
  have "good_table type lens (take used tab) used root"
    using i f ix by (simp add: good_table_def)
  then show ?thesis using good_table_ok b by blast
qed

lemma call_inflate_table_spec:
  assumes args: "table_args type lens (drop (i_next st) (i_codes st)) bits (i_work st)" and enough: "within_enough type (length lens) bits"
  obtains ret bits' c n where "call_inflate_table type lens bits st = Some (ret, bits', st\<lparr>i_codes := c, i_next := n\<rparr>)"
    "ret = 0 \<or> ret = -1 \<and> bad_lens type lens" "bad_lens type lens \<Longrightarrow> ret = -1"
    "ret = 0 \<Longrightarrow> length c = length (i_codes st) \<and> take (i_next st) c = take (i_next st) (i_codes st) \<and> i_next st \<le> n \<and> n \<le> length c
       \<and> table_ok type lens (drop (i_next st) (take n c)) bits' \<and> \<not> too_much type (n - i_next st)"
proof -
  let ?t = "drop (i_next st) (i_codes st)"
  obtain ret tab used bits' where r: "inflate_table type lens ?t bits (i_work st) = Some (ret, tab, used, bits')"
    "ret = - 1 \<longleftrightarrow> bad_lens type lens" "ret = 0 \<or> ret = - 1"
    using inflate_table_returns[OF args] inflate_table_enough[OF args enough] by blast
  have "2 \<le> length (i_codes st) - i_next st" using args by (simp add: table_args_def)
  then have nx: "i_next st \<le> length (i_codes st)" by simp
  let ?c = "take (i_next st) (i_codes st) @ tab" and ?n = "i_next st + used"
  have "length ?c = length (i_codes st) \<and> take (i_next st) ?c = take (i_next st) (i_codes st) \<and> i_next st \<le> ?n \<and> ?n \<le> length ?c
       \<and> table_ok type lens (drop (i_next st) (take ?n ?c)) bits' \<and> \<not> too_much type (?n - i_next st)" if "ret = 0"
  proof -
    note g = inflate_table_good[OF args, of tab used bits']
    have g: "good_table type lens tab used bits'" "length tab = length ?t" "\<not> too_much type used" "\<not> bad_lens type lens"
      using g r(1) that by simp_all
    have "used \<le> length tab" using g(1) by (simp add: good_table_def)
    then show ?thesis using table_take_ok[OF g(1,4)] g(2,3) nx by (simp add: min_absorb2)
  qed
  then show thesis using that[of ret bits' ?n ?c] r by (auto simp: call_inflate_table_def)
qed

lemma table_ok_take:
  assumes "table_ok type lens (drop k (take n c)) root"
  shows "table_ok type lens (drop k c) root"
proof -
  have "drop k c = drop k (take n c) @ drop (k - length (take n c)) (drop n c)" by (metis append_take_drop_id drop_append)
  then show ?thesis using table_ok_append[OF assms] by simp
qed

lemma do_lenlens_next:
  assumes g: "good st H fut r" and m: "i_mode st = LENLENS" and lt: "i_have st < i_ncode st"
  shows "step_ok flush st H fut r (do_lenlens st)"
proof -
  let ?h = "H @ out_buf st"
  have mb: "i_mode st \<in> block_modes" using m by (simp add: block_modes_def)
  obtain cl where i: "i_bits st < 8" "table_sizes st" "i_ncode st \<le> 19" and cl: "clens_so_far st cl"
    and r: "r = finish st (clens_rest (i_nlen st) (i_ndist st) ?h (decode_clens (drop (i_have st) (take (i_ncode st) cl_order)) cl (rem_bits st @ fut)))"
    using g m by (auto simp: good_def block_modes_def block_todo_def)
  have l320: "length (i_lens st) = 320" using g by (simp add: good_def base_def)
  let ?i = "cl_order ! i_have st"
  have k: "i_have st < 19" using lt i by simp
  have dr: "drop (i_have st) (take (i_ncode st) cl_order) = ?i # drop (i_have st + 1) (take (i_ncode st) cl_order)"
    using Cons_nth_drop_Suc[of "i_have st" "take (i_ncode st) cl_order"] lt i by (simp add: cl_order_facts)
  show ?thesis unfolding do_lenlens_def if_P[OF lt]
  proof (rule need_ok[OF good_acc[OF g]])
    fix st' assume a: "ahead st st'" and s: "i_bits st' < 3" "next_in st' = []"
    have rb: "rem_bits st' = rem_bits st" using a by (simp add: ahead_def)
    have "block_todo st' ?h (rem_bits st @ fut) r"
      using r s m i lt cl by (rule_tac ahead_unfold[OF a]) (auto simp: block_todo_def table_sizes_def clens_so_far_def)
    moreover have "r = None" if "fut = []"
    proof -
      have "length (rem_bits st) < 3" using length_rem[of st'] s rb by simp
      then show ?thesis using that r unfolding dr by (simp add: take_bits_def clens_rest_def)
    qed
    ultimately show "good st' H fut r \<and> i_mode st' \<noteq> DONE \<and> i_mode st' \<noteq> BAD \<and> (fut = [] \<longrightarrow> r = None)"
      by (rule short_ok[OF g mb a])
  next
    fix st' assume a: "ahead st st'" and s: "3 \<le> i_bits st'" "i_bits st' = i_bits st \<or> i_bits st' < 3 + 8"
    obtain ii hh b where e: "st' = st\<lparr>next_in := ii, i_hold := hh, i_bits := b\<rparr>" and acc: "acc_ok st'" and rb: "rem_bits st' = rem_bits st"
      using ahead_unfold[OF a] by metis
    note t = take_front[OF acc s(1)]
    let ?v = "BITS 3 st'"
    have v: "?v < 8" using t(6) by simp
    define f where "f = DROPBITS 3 (st'\<lparr>i_lens := (i_lens st)[?i := ?v], i_have := i_have st + 1\<rparr>)"
    have f: "acc_ok f" "rem_bits f = rem_bits (DROPBITS 3 st')" "frame st f" "i_bits f < 8" "room f < room st" "i_codes f = i_codes st"
      "i_last f = i_last st" "i_wrap f = i_wrap st" "i_flags f = i_flags st" "i_mode f = LENLENS" "i_ncode f = i_ncode st" "i_nlen f = i_nlen st" "i_ndist f = i_ndist st"
      "i_have f = i_have st + 1" "i_lens f = (i_lens st)[?i := ?v]"
      using t(2) s i(1) ahead_room[OF a] m by (auto simp: f_def DROPBITS_def acc_ok_def rem_bits_def hold_bits_def frame_def room_def e)
    have "clens_so_far f (cl[?i := ?v])" by (rule clens_step[OF cl k v l320 f(14,15)])
    moreover have "r = finish f (clens_rest (i_nlen f) (i_ndist f) ?h (decode_clens (drop (i_have f) (take (i_ncode f) cl_order)) (cl[?i := ?v]) (rem_bits f @ fut)))"
      using r t(1)[of fut] rb unfolding dr f by simp
    ultimately have "block_todo f ?h (rem_bits f @ fut) r"
      using f i lt by (auto simp: block_todo_def table_sizes_def)
    then have "good f H fut r"
      by (intro good_frame[OF g mb f(3,1)]) (use f in \<open>simp_all add: block_modes_def\<close>)
    then have go: "step_ok flush st H fut r (Go f)" using go_reads f(5) by blast
    have "rd order (i_have st') = Some ?i" using k by (simp add: order_eq cl_order_facts e)
    moreover have "wr (i_lens st') ?i (ushort ?v) = Some ((i_lens st)[?i := ?v])"
      using v l320 cl_order_less[OF k] by (simp add: e ushort_def)
    moreover have "DROPBITS 3 (st'\<lparr>i_lens := (i_lens st)[?i := ?v], i_have := i_have st' + 1\<rparr>) = f" by (simp add: f_def e)
    ultimately show "step_ok flush st' H fut r (case (do { i \<leftarrow> rd order (i_have st'); wr (i_lens st') i (ushort (BITS 3 st')) }) of None \<Rightarrow> Fault
       | Some lens \<Rightarrow> Go (DROPBITS 3 (st'\<lparr>i_lens := lens, i_have := i_have st' + 1\<rparr>)))"
      unfolding step_ok_ahead[OF a] using go by simp
  qed simp
qed

end
