(* ===== verification/Inflate_Dynamic.thy ===== *)
theory Inflate_Dynamic
  imports Inflate_Steps
begin

text \<open>The tables of a dynamic block.\<close>

section \<open>The code length code\<close>

text \<open>The table has no sub-tables, as the code lengths are at most seven.\<close>

lemma inflate_table_root:
  assumes "inflate_table type lens tab bits work = Some (0, tab', used, bits')" "\<forall>l\<in>set lens. l \<le> bits" "\<forall>l\<in>set lens. l \<le> 15"
  shows "\<forall>l\<in>set lens. l \<le> bits'"
proof -
  note m = find_max_facts(2)[OF assms(3)]
  show ?thesis using assms(1) m assms(2)
    by (auto simp: inflate_table_def Let_def split: if_splits option.splits pass.splits)
qed

lemma call_root:
  assumes "call_inflate_table type lens bits st = Some (0, bits', st')" "\<forall>l\<in>set lens. l \<le> bits" "\<forall>l\<in>set lens. l \<le> 15"
  shows "\<forall>l\<in>set lens. l \<le> bits'"
  using assms by (auto simp: call_inflate_table_def split: bind_splits dest: inflate_table_root)

lemma kraft_zero: "\<forall>l\<in>set lens. l = 0 \<Longrightarrow> kraft lens = 0"
  by (simp add: kraft_def filter_empty_conv)

lemma do_lenlens_build:
  assumes g: "good st H fut r" and m: "i_mode st = LENLENS" and lt: "\<not> i_have st < i_ncode st"
  shows "step_ok flush st H fut r (do_lenlens st)"
proof -
  let ?h = "H @ out_buf st"
  have mb: "i_mode st \<in> block_modes" using m by (simp add: block_modes_def)
  obtain cl where i: "i_bits st < 8" "table_sizes st" "i_ncode st \<le> 19" "i_have st = i_ncode st" and cl: "clens_so_far st cl"
    and r: "r = finish st (clens_rest (i_nlen st) (i_ndist st) ?h (Some (cl, rem_bits st @ fut)))"
    using g m lt by (fastforce simp: good_def block_modes_def block_todo_def)
  have l: "length (i_lens st) = 320" "length (i_work st) = 288" "length (i_codes st) = ENOUGH" "acc_ok st"
    using g mb by (simp_all add: good_def base_def)
  obtain lens' where c: "clear_lens (i_have st) (i_lens st) = Some lens'" "length lens' = 320"
    "\<forall>j<19. lens' ! (cl_order ! j) = (if j < i_have st then i_lens st ! (cl_order ! j) else 0)"
    using clear_lens_spec[OF _ l(1), of "i_have st"] i by auto
  have cle: "take 19 lens' = cl"
  proof (rule nth_equalityI)
    show "length (take 19 lens') = length cl" using c(2) cl by (simp add: clens_so_far_def)
    fix x assume "x < length (take 19 lens')"
    then have "x < 19" by simp
    then have "x \<in> set cl_order" by (simp add: cl_order_facts)
    then obtain j where j: "j < 19" "cl_order ! j = x" using cl_order_facts(1) unfolding in_set_conv_nth by auto
    then show "take 19 lens' ! x = cl ! x" using c(3) cl cl_order_less[OF j(1)] by (auto simp: clens_so_far_def)
  qed
  have "\<forall>k<19. cl ! k \<le> 7" using cl by (simp add: clens_so_far_def less_Suc_eq_le[of _ 7, simplified])
  then have c19: "length cl = 19" "\<forall>l\<in>set cl. l \<le> 7" using cl by (auto simp: clens_so_far_def in_set_conv_nth)
  define s1 where "s1 = st\<lparr>i_lens := lens', i_have := 19, i_next := 0, i_lencode := Codes 0\<rparr>"
  have "table_args CODES cl (drop (i_next s1) (i_codes s1)) 7 (i_work s1)"
    using c19 l by (auto simp: s1_def table_args_def max_codes_def ENOUGH_def ENOUGH_LENS_def ENOUGH_DISTS_def)
  from call_inflate_table_spec[OF this] c19(1) obtain ret bits' cs n where
    k: "call_inflate_table CODES cl 7 s1 = Some (ret, bits', s1\<lparr>i_codes := cs, i_next := n\<rparr>)"
      "ret = 0 \<or> ret = -1 \<and> bad_lens CODES cl" "bad_lens CODES cl \<Longrightarrow> ret = -1"
    and ok: "ret = 0 \<Longrightarrow> length cs = length (i_codes s1) \<and> table_ok CODES cl (drop (i_next s1) (take n cs)) bits'"
    unfolding within_enough_def codetype.case by metis
  define f where "f = s1\<lparr>i_codes := cs, i_next := n, i_lenbits := bits'\<rparr>"
  have f: "frame st f" "acc_ok f" "room f = room st" "i_bits f = i_bits st" "rem_bits f = rem_bits st"
    using l c(2) by (simp_all add: f_def s1_def frame_def acc_ok_def room_def rem_bits_def hold_bits_def)
  have eq: "do_lenlens st = (if ret \<noteq> 0 then bad ''invalid code lengths set'' f else Go (f\<lparr>i_have := 0, i_mode := CODELENS\<rparr>))"
    using lt c(1) cle k(1) by (simp add: do_lenlens_def s1_def f_def Let_def)
  show ?thesis
  proof (cases "ret = 0")
    case False
    then have "r = None" using k(2) r by (simp add: clens_rest_def)
    then show ?thesis unfolding eq using False bad_ok[OF g mb f(1,2)] f(3) by simp
  next
    case True
    let ?f = "f\<lparr>i_have := 0, i_mode := CODELENS\<rparr>"
    have nb: "\<not> bad_lens CODES cl" using k(3) True by auto
    have t: "table_ok CODES cl (ptr_tab ?f (i_lencode ?f)) (i_lenbits ?f)"
      using ok[OF True] table_ok_take[of CODES cl 0 n cs bits'] by (simp add: f_def s1_def tab_at_def)
    have r2: "r = finish st (lens_rest (i_nlen st) ?h (decode_lens cl (i_nlen st + i_ndist st) [] (rem_bits st @ fut)))"
      using r nb by (simp add: clens_rest_def)
    have "if \<forall>l\<in>set cl. l = 0 then r = None else kraft cl = 2 ^ 15"
    proof (cases "\<forall>l\<in>set cl. l = 0")
      case z: True
      have "decode_sym cl bs = None" for bs using z by (auto simp: decode_sym_None begins_with_def)
      then have "decode_lens cl (i_nlen st + i_ndist st) [] (rem_bits st @ fut) = None"
        using i(2) by (subst decode_lens.simps) (simp add: table_sizes_def)
      then show ?thesis using z r2 by (simp add: lens_rest_def)
    next
      case False
      then have "\<not> kraft cl < 2 ^ 15" "\<not> kraft cl > 2 ^ 15" using nb by (auto simp: bad_lens_def)
      then have "kraft cl = 2 ^ 15" by linarith
      then show ?thesis unfolding if_not_P[OF False] .
    qed
    moreover have "\<forall>l\<in>set cl. l \<le> 15" using c19(2) by fastforce
    then have "\<forall>l\<in>set cl. l \<le> bits'" using call_root k(1) c19(2) True by blast
    ultimately have "codelens_todo ?f ?h (rem_bits ?f @ fut) r"
      unfolding codelens_todo_def using t i r2 f
      by (intro conjI exI[of _ cl]) (auto simp: table_sizes_def f_def s1_def rem_bits_def hold_bits_def lazy_small)
    then have "block_todo ?f ?h (rem_bits ?f @ fut) r" by (simp add: block_todo_def)
    then have "good ?f H fut r"
      by (intro good_frame[OF g mb]) (use f l ok[OF True] in \<open>simp_all add: frame_def acc_ok_def block_modes_def f_def s1_def\<close>)
    then show ?thesis unfolding eq using True go_rank[of ?f H fut r st] f(3) m by (simp add: room_def)
  qed
qed

lemma do_lenlens_ok:
  assumes "good st H fut r" "i_mode st = LENLENS"
  shows "step_ok flush st H fut r (do_lenlens st)"
  using do_lenlens_next[OF assms] do_lenlens_build[OF assms] by blast

section \<open>The code lengths\<close>

lemma ahead_drop:
  assumes "ahead st st'" "acc_ok st" "n \<le> i_bits st"
  shows "rem_bits (DROPBITS n st') = rem_bits (DROPBITS n st)"
proof -
  have a: "acc_ok st'" "rem_bits st' = rem_bits st" "n \<le> i_bits st'" using assms by (simp_all add: ahead_def)
  have "bits_of n (i_hold st') @ rem_bits (DROPBITS n st') = bits_of n (i_hold st) @ rem_bits (DROPBITS n st)"
    using drop_rem(1)[OF a(1,3)] drop_rem(1)[OF assms(2,3)] a(2) by simp
  then show ?thesis by (simp add: append_eq_append_conv)
qed

lemma lazy_decoded:
  assumes tab: "table_ok type lens tab root" and acc: "acc_ok st" and b: "b \<le> i_bits st" "i_bits st < b + 8"
    and d: "decode_sym lens (rem_bits st) = Some (s, rem_bits (DROPBITS b st))"
  shows "lazy lens st"
proof -
  note s = decode_sym_Some[OF d]
  have "length (rem_bits (DROPBITS b st)) = length (rem_bits st) - lens ! s" using s(3) by simp
  moreover have "length (rem_bits st) = b + length (rem_bits (DROPBITS b st))" using drop_rem(1)[OF acc b(1)] by simp
  moreover have "lens ! s \<le> length (rem_bits st)" using s(1) by (simp add: begins_with_def)
  ultimately have l: "lens ! s = b" by simp
  have m: "sym_matches lens (i_hold st) s" using begins_hold[OF acc, of lens "[]" s] s(1,2) l b(1) by simp
  show ?thesis unfolding lazy_at_def using sym_matches_unique[OF tab m] l b(2) m by blast
qed

lemma fill_lens_spec:
  "i_have st + n \<le> length (i_lens st) \<Longrightarrow> fill_lens n len st =
     Some (st\<lparr>i_lens := take (i_have st) (i_lens st) @ replicate n (ushort len) @ drop (i_have st + n) (i_lens st), i_have := i_have st + n\<rparr>)"
proof (induction n arbitrary: st)
  case (Suc n)
  let ?s = "st\<lparr>i_lens := (i_lens st)[i_have st := ushort len], i_have := i_have st + 1\<rparr>"
  have h: "i_have st < length (i_lens st)" using Suc.prems by simp
  have t: "take (Suc (i_have st)) ((i_lens st)[i_have st := ushort len]) = take (i_have st) (i_lens st) @ [ushort len]"
    using h by (simp add: take_Suc_conv_app_nth)
  have "fill_lens (Suc n) len st = fill_lens n len ?s" using h by simp
  also have "\<dots> = Some (?s\<lparr>i_lens := take (i_have ?s) (i_lens ?s) @ replicate n (ushort len) @ drop (i_have ?s + n) (i_lens ?s), i_have := i_have ?s + n\<rparr>)"
    by (rule Suc.IH) (use Suc.prems in simp)
  finally show ?case using t by (simp add: replicate_append_same[symmetric])
qed simp

lemma decode_lens_over: "n < length acc \<Longrightarrow> decode_lens cl n acc bs = None"
  by (subst decode_lens.simps) simp

text \<open>What \<open>codelens_todo\<close> says while there is a code.\<close>

definition lens_todo :: "inflate_state \<Rightarrow> nat list \<Rightarrow> byte list \<Rightarrow> nat list \<Rightarrow> bool list \<Rightarrow> (byte list \<times> bool list) option \<Rightarrow> bool" where
  "lens_todo st cl h acc bs r \<longleftrightarrow> r = finish st (lens_rest (i_nlen st) h (decode_lens cl (i_nlen st + i_ndist st) acc bs))"

definition code_known :: "inflate_state \<Rightarrow> nat list \<Rightarrow> bool" where
  "code_known st cl \<longleftrightarrow> table_sizes st \<and> i_have st \<le> i_nlen st + i_ndist st
     \<and> table_ok CODES cl (ptr_tab st (i_lencode st)) (i_lenbits st) \<and> (\<forall>l\<in>set cl. l \<le> i_lenbits st)
     \<and> \<not> (\<forall>l\<in>set cl. l = 0) \<and> kraft cl = 2 ^ 15 \<and> (\<forall>k<i_have st. i_lens st ! k \<le> 15)"

lemma codelens_todoI:
  "code_known st cl \<Longrightarrow> lazy cl st \<Longrightarrow> i_have st < i_nlen st + i_ndist st \<or> i_bits st < 8 \<Longrightarrow> lens_todo st cl h (take (i_have st) (i_lens st)) bs r \<Longrightarrow> codelens_todo st h bs r"
  unfolding code_known_def lens_todo_def codelens_todo_def by auto

lemma put_lens_ok:
  assumes g: "good st H fut r" "i_mode st \<in> block_modes" and f: "frame st f" "acc_ok f" "i_mode f = CODELENS" "room f < room st" "i_bits f < 8"
      "length (i_codes f) = length (i_codes st)"
    and k: "code_known f cl" and len: "len \<le> 15"
    and r: "lens_todo f cl (H @ out_buf st) (take (i_have f) (i_lens f) @ replicate copy len) (rem_bits f @ fut) r"
  shows "step_ok flush st H fut r (put_lens len copy f)"
proof -
  have l: "length (i_lens f) = 320" using g(1) f(1) by (simp add: good_def base_def frame_def)
  have sz: "i_nlen f + i_ndist f \<le> 316" "i_have f \<le> i_nlen f + i_ndist f" using k by (simp_all add: code_known_def table_sizes_def)
  show ?thesis
  proof (cases "i_have f + copy > i_nlen f + i_ndist f")
    case True
    then have "r = None" using r l sz decode_lens_over[of "i_nlen f + i_ndist f" "take (i_have f) (i_lens f) @ replicate copy len" cl]
      by (simp add: lens_todo_def lens_rest_def)
    then show ?thesis using True bad_ok[OF g f(1,2) less_imp_le[OF f(4)]] by (simp add: put_lens_def)
  next
    case False
    let ?l = "take (i_have f) (i_lens f) @ replicate copy len @ drop (i_have f + copy) (i_lens f)"
    let ?s = "f\<lparr>i_lens := ?l, i_have := i_have f + copy\<rparr>"
    have "put_lens len copy f = Go ?s"
      using False fill_lens_spec[of f copy len] l sz len by (simp add: put_lens_def ushort_def)
    moreover have "good ?s H fut r"
    proof (rule good_frame[OF g])
      have "?l ! j \<le> 15" if j: "j < i_have f + copy" for j
        using j k len l sz by (cases "j < i_have f") (auto simp: code_known_def nth_append)
      then have "code_known ?s cl" using k False by (auto simp: code_known_def table_sizes_def)
      moreover have "lazy cl ?s" "i_have ?s < i_nlen ?s + i_ndist ?s \<or> i_bits ?s < 8" using f(5) by (simp_all add: lazy_small)
      moreover have "lens_todo ?s cl (H @ out_buf st) (take (i_have ?s) (i_lens ?s)) (rem_bits ?s @ fut) r"
        using r l sz False by (simp add: lens_todo_def rem_bits_def hold_bits_def)
      ultimately have "codelens_todo ?s (H @ out_buf st) (rem_bits ?s @ fut) r"
        by (rule codelens_todoI)
      then show "block_todo ?s (H @ out_buf st) (rem_bits ?s @ fut) r" using f(3) by (simp add: block_todo_def)
    qed (use f l False sz in \<open>simp_all add: frame_def acc_ok_def block_modes_def\<close>)
    ultimately show ?thesis using go_reads[of ?s H fut r st] f(4) by (simp add: room_def)
  qed
qed

text \<open>A symbol of the code length code has been found: \<open>b\<close> bits of the accumulator.\<close>

definition cl_symbol :: "inflate_state \<Rightarrow> nat list \<Rightarrow> bool list \<Rightarrow> nat \<Rightarrow> nat \<Rightarrow> bool" where
  "cl_symbol st cl fut s b \<longleftrightarrow> acc_ok st \<and> 1 \<le> b \<and> b \<le> i_bits st \<and> b \<le> 15 \<and> i_bits st < b + 8
     \<and> (\<forall>fut. decode_sym cl (rem_bits st @ fut) = Some (s, rem_bits (DROPBITS b st) @ fut))"

lemma frame_ahead_code:
  assumes "ahead st st'"
  shows "code_known st' cl = code_known st cl" "lens_todo st' cl h acc bs r = lens_todo st cl h acc bs r" "i_have st' = i_have st" "i_lens st' = i_lens st"
    "i_mode st' = i_mode st" "i_codes st' = i_codes st" "i_nlen st' = i_nlen st" "i_ndist st' = i_ndist st"
  using assms by (auto elim!: ahead_unfold simp: code_known_def lens_todo_def table_sizes_def)

text \<open>The extra bits of a repeat: \<open>k\<close> bits after the symbol.\<close>

lemma need_code_ok:
  assumes g: "good st H fut r" "i_mode st = CODELENS" and a: "ahead st st'" and y: "cl_symbol st' cl fut s b"
    and kn: "code_known st cl" and td: "lens_todo st cl (H @ out_buf st) (take (i_have st) (i_lens st)) (rem_bits st @ fut) r" and k: "k \<le> 7"
    and lt: "i_have st < i_nlen st + i_ndist st"
    and short: "fut = [] \<Longrightarrow> take_bits k (rem_bits (DROPBITS b st')) = None \<Longrightarrow> r = None"
    and full: "\<And>st''. ahead st' st'' \<Longrightarrow> b + k \<le> i_bits st'' \<Longrightarrow> i_bits st'' < b + k + 8 \<Longrightarrow> step_ok flush st H fut r (K st'')"
  shows "step_ok flush st H fut r (need (b + k) st' K)"
proof -
  have mb: "i_mode st \<in> block_modes" using g(2) by (simp add: block_modes_def)
  have y': "acc_ok st'" "1 \<le> b" "b \<le> i_bits st'" "b \<le> 15" "i_bits st' < b + 8"
    "\<And>fut. decode_sym cl (rem_bits st' @ fut) = Some (s, rem_bits (DROPBITS b st') @ fut)"
    using y by (simp_all add: cl_symbol_def)
  have "step_ok flush st' H fut r (need (b + k) st' K)"
  proof (rule need_ok[OF y'(1)])
    fix st'' assume a2: "ahead st' st''" and s: "i_bits st'' < b + k" "next_in st'' = []"
    note a3 = ahead_trans[OF a a2] and fr = frame_ahead_code[OF ahead_trans[OF a a2]]
    have b2: "b \<le> i_bits st''" and acc2: "acc_ok st''" and rb: "rem_bits st'' = rem_bits st'"
      using a a2 y'(3) by (simp_all add: ahead_def)
    have ds: "decode_sym cl (rem_bits st'') = Some (s, rem_bits (DROPBITS b st''))"
      using y'(6)[of "[]"] rb ahead_drop[OF a2 y'(1,3)] by simp
    have "lazy cl st''"
      by (rule lazy_decoded[OF _ acc2 b2 _ ds]) (use kn s k in \<open>auto simp: code_known_def\<close>)
    then have "block_todo st'' (H @ out_buf st) (rem_bits st @ fut) r"
      using codelens_todoI[of st'' cl "H @ out_buf st" "rem_bits st @ fut" r] kn td g(2) fr lt by (simp add: block_todo_def)
    moreover have "r = None" if "fut = []"
    proof (rule short[OF that])
      have "length (rem_bits (DROPBITS b st'')) < k" using s b2 by (simp add: length_rem DROPBITS_def)
      then show "take_bits k (rem_bits (DROPBITS b st')) = None" using ahead_drop[OF a2 y'(1,3)] by (simp add: take_bits_def)
    qed
    ultimately show "good st'' H fut r \<and> i_mode st'' \<noteq> DONE \<and> i_mode st'' \<noteq> BAD \<and> (fut = [] \<longrightarrow> r = None)"
      by (rule short_ok[OF g(1) mb a3])
  next
    fix st'' assume a2: "ahead st' st''" and s: "b + k \<le> i_bits st''" "i_bits st'' = i_bits st' \<or> i_bits st'' < b + k + 8"
    have "i_bits st'' < b + k + 8" using s y'(5) by auto
    then show "step_ok flush st'' H fut r (K st'')"
      unfolding step_ok_ahead[OF ahead_trans[OF a a2]] by (rule full[OF a2 s(1)])
  qed (use y' k in simp)
  then show ?thesis by (simp add: step_ok_ahead[OF a])
qed

lemma repeat_ok:
  assumes g: "good st H fut r" "i_mode st = CODELENS" and a: "ahead st st'" and y: "cl_symbol st' cl fut s b"
    and kn: "code_known st cl" and td: "lens_todo st cl (H @ out_buf st) (take (i_have st) (i_lens st)) (rem_bits st @ fut) r"
    and k: "k \<le> 7" and lt: "i_have st < i_nlen st + i_ndist st" and len: "len \<le> 15"
    and d: "\<And>fut. decode_lens cl (i_nlen st + i_ndist st) (take (i_have st) (i_lens st)) (rem_bits st @ fut)
        = (case take_bits k (rem_bits (DROPBITS b st') @ fut) of None \<Rightarrow> None
           | Some (x, bs) \<Rightarrow> decode_lens cl (i_nlen st + i_ndist st) (take (i_have st) (i_lens st) @ replicate (c + x) len) bs)"
    and K: "\<And>st''. ahead st' st'' \<Longrightarrow> K st'' = put_lens len (c + BITS k (DROPBITS b st'')) (DROPBITS k (DROPBITS b st''))"
  shows "step_ok flush st H fut r (need (b + k) st' K)"
proof (rule need_code_ok[OF g a y kn td k lt])
  assume "fut = []" "take_bits k (rem_bits (DROPBITS b st')) = None"
  then show "r = None" using td d[of "[]"] by (simp add: lens_todo_def lens_rest_def)
next
  fix st'' assume a2: "ahead st' st''" and s: "b + k \<le> i_bits st''" "i_bits st'' < b + k + 8"
  have y': "acc_ok st'" "1 \<le> b" "b \<le> i_bits st'" using y by (simp_all add: cl_symbol_def)
  have mb: "i_mode st \<in> block_modes" using g(2) by (simp add: block_modes_def)
  note a3 = ahead_trans[OF a a2] and fr = frame_ahead_code[OF ahead_trans[OF a a2]]
  have le: "b \<le> i_bits st''" "k \<le> i_bits (DROPBITS b st'')" and acc2: "acc_ok st''"
    using s a2 by (simp_all add: ahead_def DROPBITS_def)
  note t1 = take_front[OF acc2 le(1)] and t2 = take_front[OF take_front(2)[OF acc2 le(1)] le(2)]
  let ?f = "DROPBITS k (DROPBITS b st'')"
  have "code_known ?f cl = code_known st'' cl" "lens_todo ?f cl h acc bs r = lens_todo st'' cl h acc bs r" for h acc bs
    by (simp_all add: DROPBITS_def code_known_def lens_todo_def table_sizes_def)
  then have ff: "i_have ?f = i_have st" "i_lens ?f = i_lens st" "i_mode ?f = CODELENS" "i_codes ?f = i_codes st" "code_known ?f cl"
      "lens_todo ?f cl h acc bs r = lens_todo st cl h acc bs r" for h acc bs
    using fr g(2) kn by (simp_all add: DROPBITS_def)
  have "decode_lens cl (i_nlen st + i_ndist st) (take (i_have st) (i_lens st)) (rem_bits st @ fut)
      = decode_lens cl (i_nlen st + i_ndist st) (take (i_have st) (i_lens st) @ replicate (c + BITS k (DROPBITS b st'')) len) (rem_bits ?f @ fut)"
    using d[of fut] t2(1)[of fut] ahead_drop[OF a2 y'(1,3)] by simp
  then have rr: "lens_todo ?f cl (H @ out_buf st) (take (i_have ?f) (i_lens ?f) @ replicate (c + BITS k (DROPBITS b st'')) len) (rem_bits ?f @ fut) r"
    using td unfolding ff(1,2,6) by (simp add: lens_todo_def)
  have fs: "frame st ?f" using frame_trans[OF ahead_frame[OF a3] frame_trans[OF t1(4) t2(4)]] .
  have rm: "room ?f < room st" using t1(5) t2(5) y'(2) ahead_room[OF a3] by simp
  have b8: "i_bits ?f < 8" using s by (simp add: DROPBITS_def)
  show "step_ok flush st H fut r (K st'')"
    unfolding K[OF a2] by (rule put_lens_ok[OF g(1) mb fs t2(2) ff(3) rm b8 _ ff(5) len rr]) (simp add: ff)
qed

lemma decode_lens_next:
  assumes "length acc < n" "decode_sym cl bs = Some (s, bs1)" "s < 19"
  shows "decode_lens cl n acc bs = (if s < 16 then decode_lens cl n (acc @ [s]) bs1
     else if s = 16 then if acc = [] then None else (case take_bits 2 bs1 of None \<Rightarrow> None | Some (x, bs) \<Rightarrow> decode_lens cl n (acc @ replicate (3 + x) (last acc)) bs)
     else if s = 17 then (case take_bits 3 bs1 of None \<Rightarrow> None | Some (x, bs) \<Rightarrow> decode_lens cl n (acc @ replicate (3 + x) 0) bs)
     else (case take_bits 7 bs1 of None \<Rightarrow> None | Some (x, bs) \<Rightarrow> decode_lens cl n (acc @ replicate (11 + x) 0) bs))"
  using assms by (subst decode_lens.simps) simp

text \<open>A single length: the value is put as it is.\<close>

lemma code_len_single:
  assumes g: "good st H fut r" "i_mode st = CODELENS" and a: "ahead st st'" and y: "cl_symbol st' cl fut s b" and s: "s < 16"
    and kn: "code_known st cl" and lt: "i_have st < i_nlen st + i_ndist st"
    and td: "lens_todo st cl (H @ out_buf st) (take (i_have st) (i_lens st)) (rem_bits st @ fut) r"
  shows "step_ok flush st H fut r (code_len (sym_entry CODES s b) st')"
proof -
  have mb: "i_mode st \<in> block_modes" using g(2) by (simp add: block_modes_def)
  have y': "acc_ok st'" "1 \<le> b" "b \<le> i_bits st'" "i_bits st' < b + 8" "decode_sym cl (rem_bits st' @ fut) = Some (s, rem_bits (DROPBITS b st') @ fut)"
    using y by (simp_all add: cl_symbol_def)
  note fr = frame_ahead_code[OF a] and t = take_front[OF y'(1,3)]
  have l: "length (i_lens st) = 320" using g by (simp add: good_def base_def)
  have sz: "i_have st < 316" using kn lt by (simp add: code_known_def table_sizes_def)
  define f where "f = (DROPBITS b st')\<lparr>i_lens := (i_lens st)[i_have st := s], i_have := i_have st + 1\<rparr>"
  have eq: "code_len (sym_entry CODES s b) st' = Go f"
    using s l sz fr by (simp add: code_len_def sym_entry_def sym_val_def f_def)
  have "frame st (DROPBITS b st')" using frame_trans[OF ahead_frame[OF a] t(4)] .
  then have f: "frame st f" "acc_ok f" "i_mode f = CODELENS" "i_bits f < 8" "i_codes f = i_codes st" "room f < room st" "rem_bits f = rem_bits (DROPBITS b st')"
    using t(2,5) y'(2,4) ahead_room[OF a] fr g(2)
    by (simp_all add: f_def frame_def DROPBITS_def acc_ok_def room_def rem_bits_def hold_bits_def)
  have tk: "take (i_have f) (i_lens f) = take (i_have st) (i_lens st) @ [s]"
    using l sz by (simp add: f_def take_Suc_conv_app_nth)
  have "code_known f cl"
  proof -
    have "i_lens f ! k \<le> 15" if "k < i_have f" for k
      using that s kn l sz by (cases "k = i_have st") (auto simp: f_def code_known_def)
    moreover have "code_known st' cl" using fr kn by simp
    ultimately show ?thesis using lt fr(3,7,8) kn by (auto simp: f_def code_known_def table_sizes_def DROPBITS_def)
  qed
  moreover have "lazy cl f" "i_have f < i_nlen f + i_ndist f \<or> i_bits f < 8" using f(4) by (simp_all add: lazy_small)
  moreover have "lens_todo f cl (H @ out_buf st) (take (i_have f) (i_lens f)) (rem_bits f @ fut) r"
  proof -
    have "rem_bits st' = rem_bits st" using a by (simp add: ahead_def)
    then have "lens_todo st cl (H @ out_buf st) (take (i_have st) (i_lens st) @ [s]) (rem_bits f @ fut) r"
      using td decode_lens_next[of "take (i_have st) (i_lens st)" "i_nlen st + i_ndist st" cl "rem_bits st @ fut" s] y'(5) s l lt sz f(7)
      by (simp add: lens_todo_def)
    moreover have "lens_todo f cl h acc bs r = lens_todo st' cl h acc bs r" for h acc bs by (simp add: lens_todo_def f_def DROPBITS_def)
    ultimately show ?thesis unfolding tk using fr(2) by simp
  qed
  ultimately have "block_todo f (H @ out_buf st) (rem_bits f @ fut) r" using codelens_todoI f(3) by (simp add: block_todo_def)
  then have "good f H fut r" by (intro good_frame[OF g(1) mb f(1,2)]) (use f in \<open>simp_all add: block_modes_def\<close>)
  then show ?thesis unfolding eq by (rule go_reads[OF _ f(6)])
qed

lemma code_len_ok:
  assumes g: "good st H fut r" "i_mode st = CODELENS" and a: "ahead st st'" and y: "cl_symbol st' cl fut s b" and s: "s < 19"
    and kn: "code_known st cl" and lt: "i_have st < i_nlen st + i_ndist st"
    and td: "lens_todo st cl (H @ out_buf st) (take (i_have st) (i_lens st)) (rem_bits st @ fut) r"
  shows "step_ok flush st H fut r (code_len (sym_entry CODES s b) st')"
proof -
  let ?acc = "take (i_have st) (i_lens st)"
  have mb: "i_mode st \<in> block_modes" using g(2) by (simp add: block_modes_def)
  have l: "length (i_lens st) = 320" using g by (simp add: good_def base_def)
  have sz: "i_have st < 316" using kn lt by (simp add: code_known_def table_sizes_def)
  have rb: "rem_bits st' = rem_bits st" using a by (simp add: ahead_def)
  have nx: "decode_lens cl (i_nlen st + i_ndist st) ?acc (rem_bits st @ fut) = (if s < 16 then decode_lens cl (i_nlen st + i_ndist st) (?acc @ [s]) (rem_bits (DROPBITS b st') @ fut)
     else if s = 16 then if ?acc = [] then None else (case take_bits 2 (rem_bits (DROPBITS b st') @ fut) of None \<Rightarrow> None
       | Some (x, bs) \<Rightarrow> decode_lens cl (i_nlen st + i_ndist st) (?acc @ replicate (3 + x) (last ?acc)) bs)
     else if s = 17 then (case take_bits 3 (rem_bits (DROPBITS b st') @ fut) of None \<Rightarrow> None
       | Some (x, bs) \<Rightarrow> decode_lens cl (i_nlen st + i_ndist st) (?acc @ replicate (3 + x) 0) bs)
     else (case take_bits 7 (rem_bits (DROPBITS b st') @ fut) of None \<Rightarrow> None
       | Some (x, bs) \<Rightarrow> decode_lens cl (i_nlen st + i_ndist st) (?acc @ replicate (11 + x) 0) bs))" for fut
  proof (rule decode_lens_next[OF _ _ s])
    show "length ?acc < i_nlen st + i_ndist st" using l lt sz by simp
    show "decode_sym cl (rem_bits st @ fut) = Some (s, rem_bits (DROPBITS b st') @ fut)" using y rb by (simp add: cl_symbol_def)
  qed
  have fields: "i_have (DROPBITS b x) = i_have st" "i_lens (DROPBITS b x) = i_lens st" if "ahead st' x" for x
    using frame_ahead_code[OF ahead_trans[OF a that]] by (simp_all add: DROPBITS_def)
  note rep = repeat_ok[OF g a y kn td]
  consider "s < 16" | "s = 16" "i_have st = 0" | "s = 16" "i_have st \<noteq> 0" | "s = 17" | "s = 18" using s by linarith
  then show ?thesis
  proof cases
    case 1
    then show ?thesis by (rule code_len_single[OF g a y _ kn lt td])
  next
    case 2
    then have "r = None" using td nx[of fut] by (simp add: lens_todo_def lens_rest_def)
    have "step_ok flush st H fut r (need (b + 2) st' (\<lambda>st. bad ''invalid bit length repeat'' (DROPBITS b st)))"
    proof (rule need_code_ok[OF g a y kn td _ lt])
      fix st'' assume a2: "ahead st' st''" and s: "b + 2 \<le> i_bits st''"
      have "b \<le> i_bits st''" "acc_ok st''" using s a2 by (simp_all add: ahead_def)
      note t = take_front[OF this(2,1)] and a3 = ahead_trans[OF a a2]
      show "step_ok flush st H fut r (bad ''invalid bit length repeat'' (DROPBITS b st''))"
        using bad_ok[OF g(1) mb frame_trans[OF ahead_frame[OF a3] t(4)] t(2)] t(5) ahead_room[OF a3] \<open>r = None\<close> by simp
    qed (use \<open>r = None\<close> in simp_all)
    moreover have "need (b + 2) st' (\<lambda>st. bad ''invalid bit length repeat'' (DROPBITS b st)) = code_len (sym_entry CODES s b) st'"
    proof -
      have "i_have (NEEDBITS (b + 2) st') = 0"
        using fields[of "NEEDBITS (b + 2) st'"] NEEDBITS_ahead[of st' "b + 2"] y 2 by (simp add: cl_symbol_def DROPBITS_def)
      then show ?thesis using 2 by (simp add: code_len_def sym_entry_def sym_val_def need_def Let_def DROPBITS_def)
    qed
    ultimately show ?thesis by simp
  next
    case 3
    let ?len = "i_lens st ! (i_have st - 1)"
    have "length ?acc \<noteq> 0" using 3 l sz by simp
    then have ne: "?acc \<noteq> []" by (simp only: length_0_conv not_False_eq_True)
    have la: "last ?acc = ?len" "?acc \<noteq> []" using last_conv_nth[OF ne] ne 3 l sz by simp_all
    have "?len \<le> 15" using kn 3 by (simp add: code_known_def)
    have d: "decode_lens cl (i_nlen st + i_ndist st) ?acc (rem_bits st @ fut) = (case take_bits 2 (rem_bits (DROPBITS b st') @ fut) of None \<Rightarrow> None
        | Some (x, bs) \<Rightarrow> decode_lens cl (i_nlen st + i_ndist st) (?acc @ replicate (3 + x) ?len) bs)" for fut
      using nx[of fut] la(2) 3 unfolding la(1) by simp
    have "step_ok flush st H fut r (need (b + 2) st' (\<lambda>st. let st = DROPBITS b st in
        if i_have st = 0 then bad ''invalid bit length repeat'' st
        else case rd (i_lens st) (i_have st - 1) of None \<Rightarrow> Fault
          | Some len \<Rightarrow> put_lens len (3 + BITS 2 st) (DROPBITS 2 st)))"
      by (rule rep[OF _ lt \<open>?len \<le> 15\<close> d]) (use 3 l sz fields in \<open>simp_all add: Let_def\<close>)
    then show ?thesis using 3 by (simp add: code_len_def sym_entry_def sym_val_def)
  next
    case 4
    from rep[of 3 0 3 "\<lambda>st. let st = DROPBITS b st in put_lens 0 (3 + BITS 3 st) (DROPBITS 3 st)"]
    show ?thesis using 4 nx lt by (simp add: code_len_def sym_entry_def sym_val_def Let_def)
  next
    case 5
    from rep[of 7 0 11 "\<lambda>st. let st = DROPBITS b st in put_lens 0 (11 + BITS 7 st) (DROPBITS 7 st)"]
    show ?thesis using 5 nx lt by (simp add: code_len_def sym_entry_def sym_val_def Let_def)
  qed
qed

text \<open>Without a code: the entry for invalid codes, taken for a length of zero.\<close>

definition no_code :: "inflate_state \<Rightarrow> nat list \<Rightarrow> bool" where
  "no_code st cl \<longleftrightarrow> table_sizes st \<and> i_have st \<le> i_nlen st + i_ndist st
     \<and> table_ok CODES cl (ptr_tab st (i_lencode st)) (i_lenbits st) \<and> (\<forall>l\<in>set cl. l \<le> i_lenbits st)
     \<and> (\<forall>l\<in>set cl. l = 0) \<and> (\<forall>k<i_have st. i_lens st ! k = 0)"

lemma no_codeI: "no_code st cl \<Longrightarrow> codelens_todo st h bs None"
  unfolding no_code_def codelens_todo_def by auto

lemma code_len_zero:
  assumes g: "good st H fut None" "i_mode st = CODELENS" and a: "ahead st st'" and b: "1 \<le> i_bits st'"
    and nc: "no_code st cl" and lt: "i_have st < i_nlen st + i_ndist st"
  shows "step_ok flush st H fut None (code_len \<lparr>code_op = 64, code_bits = 1, code_val = 0\<rparr> st')"
proof -
  have mb: "i_mode st \<in> block_modes" using g(2) by (simp add: block_modes_def)
  have acc: "acc_ok st'" using a by (simp add: ahead_def)
  note fr = frame_ahead_code[OF a] and t = take_front[OF acc b]
  have l: "length (i_lens st) = 320" using g by (simp add: good_def base_def)
  have sz: "i_have st < 316" using nc lt by (simp add: no_code_def table_sizes_def)
  define f where "f = (DROPBITS 1 st')\<lparr>i_lens := (i_lens st)[i_have st := 0], i_have := i_have st + 1\<rparr>"
  have eq: "code_len \<lparr>code_op = 64, code_bits = 1, code_val = 0\<rparr> st' = Go f"
    using l sz fr by (simp add: code_len_def f_def)
  have "frame st (DROPBITS 1 st')" using frame_trans[OF ahead_frame[OF a] t(4)] .
  then have f: "frame st f" "acc_ok f" "i_mode f = CODELENS" "i_codes f = i_codes st" "room f < room st"
    using t(2,5) ahead_room[OF a] fr g(2) by (simp_all add: f_def frame_def DROPBITS_def acc_ok_def room_def)
  have "no_code st' cl" using nc a by (auto elim!: ahead_unfold simp: no_code_def table_sizes_def)
  then have "no_code f cl" using lt fr sz l nc
    by (auto simp: no_code_def f_def DROPBITS_def table_sizes_def nth_list_update)
  then have "block_todo f (H @ out_buf st) (rem_bits f @ fut) None" using no_codeI f(3) by (simp add: block_todo_def)
  then have "good f H fut None" by (intro good_frame[OF g(1) mb f(1,2)]) (use f in \<open>simp_all add: block_modes_def\<close>)
  then show ?thesis unfolding eq by (rule go_reads[OF _ f(5)])
qed

lemma codelens_cases:
  assumes "codelens_todo st h bs r"
  obtains (codes) cl where "code_known st cl" "lazy cl st" "i_have st < i_nlen st + i_ndist st \<or> i_bits st < 8" "lens_todo st cl h (take (i_have st) (i_lens st)) bs r"
  | (zero) cl where "no_code st cl" "r = None"
proof -
  obtain cl where c: "table_ok CODES cl (ptr_tab st (i_lencode st)) (i_lenbits st)" "\<forall>l\<in>set cl. l \<le> i_lenbits st"
    and i: "if \<forall>l\<in>set cl. l = 0 then r = None \<and> (\<forall>k<i_have st. i_lens st ! k = 0)
          else kraft cl = 2 ^ 15 \<and> lazy cl st \<and> (i_have st < i_nlen st + i_ndist st \<or> i_bits st < 8) \<and> (\<forall>k<i_have st. i_lens st ! k \<le> 15)
            \<and> r = finish st (lens_rest (i_nlen st) h (decode_lens cl (i_nlen st + i_ndist st) (take (i_have st) (i_lens st)) bs))"
    using assms unfolding codelens_todo_def by blast
  have s: "table_sizes st" "i_have st \<le> i_nlen st + i_ndist st" using assms unfolding codelens_todo_def by blast+
  show thesis
  proof (cases "\<forall>l\<in>set cl. l = 0")
    case True
    then show thesis using zero[of cl] i c s unfolding no_code_def if_P[OF True] by blast
  next
    case False
    then show thesis using codes[of cl] i c s unfolding code_known_def lens_todo_def if_not_P[OF False] by blast
  qed
qed

lemma decode_sym_zero: "\<forall>l\<in>set lens. l = 0 \<Longrightarrow> decode_sym lens bs = None"
  by (auto simp: decode_sym_None begins_with_def)

text \<open>All codes are found in the first table.\<close>

lemma no_link:
  assumes "table_ok type lens tab root" "\<forall>l\<in>set lens. l \<le> root"
  shows "\<not> is_link (tab ! (t mod 2 ^ root))"
proof (cases "\<exists>s. sym_matches lens t s")
  case True
  then obtain s where s: "sym_matches lens t s" by blast
  then have "lens ! s \<le> root" "table_finds type lens tab root t s" using assms by (auto simp: table_ok_def sym_matches_def)
  then show ?thesis by (simp add: table_finds_def ok_entry_def Let_def)
next
  case False
  then show ?thesis using assms(1) by (auto simp: table_ok_def is_link_def)
qed

lemma ok_entry_CODES: "ok_entry CODES s b e \<Longrightarrow> e = sym_entry CODES s b"
  by (simp add: ok_entry_def no_sym_def)

lemma do_codelens_next:
  assumes g: "good st H fut r" and m: "i_mode st = CODELENS" and lt: "i_have st < i_nlen st + i_ndist st"
  shows "step_ok flush st H fut r (do_codelens flush st)"
proof -
  let ?h = "H @ out_buf st"
  have mb: "i_mode st \<in> block_modes" using m by (simp add: block_modes_def)
  have td: "codelens_todo st ?h (rem_bits st @ fut) r" using g m by (simp add: good_def block_modes_def block_todo_def)
  have l: "length (i_lens st) = 320" using g by (simp add: good_def base_def)
  have acc: "acc_ok st" by (rule good_acc[OF g])
  show ?thesis
  proof (cases rule: codelens_cases[OF td])
    case (1 cl)
    note codes = 1
    have tab: "table_ok CODES cl (ptr_tab st (i_lencode st)) (i_lenbits st)" and le: "\<forall>l\<in>set cl. l \<le> i_lenbits st" and k: "kraft cl = 2 ^ 15"
      using codes(1) by (simp_all add: code_known_def)
    have c19: "length cl \<le> 19" using tab by (simp add: table_ok_def max_codes_def)
    show ?thesis
    proof (cases rule: fetch_root[OF tab acc])
      case (1 st')
      have "block_todo st' ?h (rem_bits st @ fut) r"
        using codelens_todoI[of st' cl ?h "rem_bits st @ fut" r] codes 1(3) m lt frame_ahead_code[OF 1(2)] by (simp add: block_todo_def)
      moreover have "r = None" if "fut = []"
      proof -
        have "decode_lens cl (i_nlen st + i_ndist st) (take (i_have st) (i_lens st)) (rem_bits st) = None"
          using 1(5) lt by (subst decode_lens.simps) simp
        then show ?thesis using codes(4) that by (simp add: lens_todo_def lens_rest_def)
      qed
      ultimately have "good st' H fut r \<and> i_mode st' \<noteq> DONE \<and> i_mode st' \<noteq> BAD \<and> (fut = [] \<longrightarrow> r = None)"
        by (rule short_ok[OF g mb 1(2)])
      then show ?thesis using 1(1,4) lt by (simp add: do_codelens_def step_ok_def may_stop_def)
    next
      case (2 st')
      then show ?thesis using k by simp
    next
      case (3 st' e s)
      have "e = sym_entry CODES s (code_bits e)" by (rule ok_entry_CODES[OF 3(8)])
      moreover have "cl_symbol st' cl fut s (code_bits e)"
        using 3 codes(2) by (simp add: cl_symbol_def ahead_def)
      moreover have "s < 19" using 3(4) c19 by simp
      ultimately have "step_ok flush st H fut r (code_len e st')"
        using code_len_ok[OF g m 3(2) _ _ codes(1) lt codes(4)] by metis
      then show ?thesis using 3(1) lt by (simp add: do_codelens_def)
    next
      case (4 st' e)
      then show ?thesis using no_link[OF tab le] by simp
    qed
  next
    case (2 cl)
    note zero = 2
    have tab: "table_ok CODES cl (ptr_tab st (i_lencode st)) (i_lenbits st)" and le: "\<forall>l\<in>set cl. l \<le> i_lenbits st" and z: "\<forall>l\<in>set cl. l = 0"
      using zero(1) by (simp_all add: no_code_def)
    note ds = decode_sym_zero[OF z]
    have g0: "good st H fut None" using g zero(2) by simp
    show ?thesis
    proof (cases rule: fetch_root[OF tab acc])
      case (1 st')
      have "no_code st' cl" using zero(1) 1(2) by (auto elim!: ahead_unfold simp: no_code_def table_sizes_def)
      then have "block_todo st' ?h (rem_bits st @ fut) None" using no_codeI m frame_ahead_code(5)[OF 1(2)] by (simp add: block_todo_def)
      from short_ok[OF g0 mb 1(2) this] show ?thesis
        using 1(1,4) lt zero(2) by (simp add: do_codelens_def step_ok_def may_stop_def)
    next
      case (2 st')
      then show ?thesis using code_len_zero[OF g0 m 2(2,3) zero(1) lt] lt zero(2) by (simp add: do_codelens_def)
    next
      case (3 st' e s)
      then show ?thesis using ds by simp
    next
      case (4 st' e)
      then show ?thesis using no_link[OF tab le] by simp
    qed
  qed
qed

section \<open>The tables of a block\<close>

lemma build_codes_eob:
  assumes g: "good st H fut r" and m: "i_mode st = CODELENS" and e: "rd (i_lens st) 256 = Some 0" and r: "r = None"
  shows "step_ok flush st H fut r (build_codes flush st)"
proof -
  have "i_mode st \<in> block_modes" "frame st st" using m by (simp_all add: block_modes_def frame_def)
  from bad_ok[OF g this good_acc[OF g]] show ?thesis using e r by (simp add: build_codes_def)
qed

lemma build_codes_ok:
  assumes g: "good st H fut r" and m: "i_mode st = CODELENS" and hv: "i_have st = i_nlen st + i_ndist st" and kn: "code_known st cl" and b8: "i_bits st < 8"
    and td: "lens_todo st cl (H @ out_buf st) (take (i_have st) (i_lens st)) (rem_bits st @ fut) r"
  shows "step_ok flush st H fut r (build_codes flush st)"
proof -
  let ?h = "H @ out_buf st" and ?ll = "take (i_nlen st) (i_lens st)" and ?dl = "take (i_ndist st) (drop (i_nlen st) (i_lens st))"
  have mb: "i_mode st \<in> block_modes" using m by (simp add: block_modes_def)
  have l: "length (i_lens st) = 320" "length (i_work st) = 288" "length (i_codes st) = 1444" "acc_ok st"
    using g mb by (simp_all add: good_def base_def ENOUGH_def ENOUGH_LENS_def ENOUGH_DISTS_def)
  have sz: "257 \<le> i_nlen st" "i_nlen st \<le> 286" "1 \<le> i_ndist st" "i_ndist st \<le> 30" using kn by (simp_all add: code_known_def table_sizes_def)
  have le15: "i_lens st ! k \<le> 15" if "k < i_nlen st + i_ndist st" for k using kn that hv by (simp add: code_known_def)
  have sp: "take (i_nlen st) (take (i_have st) (i_lens st)) = ?ll" "drop (i_nlen st) (take (i_have st) (i_lens st)) = ?dl"
    using hv by (simp_all add: drop_take min_def)
  have dl: "decode_lens cl (i_nlen st + i_ndist st) (take (i_have st) (i_lens st)) bs = Some (take (i_have st) (i_lens st), bs)" for bs
    using hv l sz by (subst decode_lens.simps) simp
  have r: "r = finish st (if ?ll ! 256 = 0 \<or> bad_lens LENS ?ll \<or> bad_lens DISTS ?dl then None else decode_data ?ll ?dl ?h (rem_bits st @ fut))"
    using td[unfolded lens_todo_def dl lens_rest_def option.case prod.case sp] .
  have eob: "rd (i_lens st) 256 = Some (i_lens st ! 256)" "?ll ! 256 = i_lens st ! 256" using l sz by simp_all
  show ?thesis
  proof (cases "i_lens st ! 256 = 0")
    case True
    then show ?thesis using build_codes_eob[OF g m] eob r by simp
  next
    case nz: False
    define s1 where "s1 = st\<lparr>i_next := 0, i_lencode := Codes 0\<rparr>"
    have "\<forall>x\<in>set ?ll. x \<le> 15" using le15 l sz by (auto simp: in_set_conv_nth)
    then have "table_args LENS ?ll (drop (i_next s1) (i_codes s1)) 9 (i_work s1)"
      using l sz by (simp add: s1_def table_args_def max_codes_def)
    moreover have "within_enough LENS (length ?ll) 9" using sz by (simp add: within_enough_def)
    ultimately obtain ret1 b1 c1 n1 where
      k1: "call_inflate_table LENS ?ll 9 s1 = Some (ret1, b1, s1\<lparr>i_codes := c1, i_next := n1\<rparr>)" "bad_lens LENS ?ll \<Longrightarrow> ret1 = -1"
        "ret1 = 0 \<or> bad_lens LENS ?ll"
      and ok1: "ret1 = 0 \<Longrightarrow> length c1 = 1444 \<and> n1 \<le> length c1 \<and> table_ok LENS ?ll (take n1 c1) b1 \<and> \<not> too_much LENS n1"
      using l call_inflate_table_spec[of LENS ?ll s1 9] by (simp add: s1_def) metis
    define s2 where "s2 = s1\<lparr>i_codes := c1, i_next := n1, i_lenbits := b1\<rparr>"
    have f2: "frame st s2" "acc_ok s2" "room s2 = room st" using l by (simp_all add: s2_def s1_def frame_def acc_ok_def room_def)
    show ?thesis
    proof (cases "ret1 = 0")
      case False
      then have "build_codes flush st = bad ''invalid literal/lengths set'' s2"
        using eob nz k1(1) by (simp add: build_codes_def s1_def s2_def Let_def)
      moreover have "r = None" using r k1(3) False by simp
      ultimately show ?thesis using bad_ok[OF g mb f2(1,2)] f2(3) by simp
    next
      case ret1: True
      define s3 where "s3 = s2\<lparr>i_distcode := Codes n1\<rparr>"
      have n1: "n1 \<le> 852" "length c1 = 1444" using ok1[OF ret1] by (simp_all add: too_much_def ENOUGH_LENS_def)
      have "592 \<le> 1444 - n1" using n1(1) by linarith
      moreover have "\<forall>x\<in>set ?dl. x \<le> 15" using le15 l sz by (auto simp: in_set_conv_nth)
      ultimately have "table_args DISTS ?dl (drop (i_next s3) (i_codes s3)) 6 (i_work s3)"
        using l sz n1 \<open>592 \<le> 1444 - n1\<close> by (simp add: s3_def s2_def s1_def table_args_def max_codes_def)
      moreover have "within_enough DISTS (length ?dl) 6" using sz l by (simp add: within_enough_def)
      ultimately obtain ret2 b2 c2 n2 where
        k2: "call_inflate_table DISTS ?dl 6 s3 = Some (ret2, b2, s3\<lparr>i_codes := c2, i_next := n2\<rparr>)" "bad_lens DISTS ?dl \<Longrightarrow> ret2 = -1"
          "ret2 = 0 \<or> bad_lens DISTS ?dl"
        and ok2: "ret2 = 0 \<Longrightarrow> length c2 = 1444 \<and> take n1 c2 = take n1 c1 \<and> table_ok DISTS ?dl (drop n1 (take n2 c2)) b2"
        using n1 call_inflate_table_spec[of DISTS ?dl s3 6] by (simp add: s3_def s2_def) metis
      define s4 where "s4 = s3\<lparr>i_codes := c2, i_next := n2, i_distbits := b2\<rparr>"
      have f4: "frame st s4" "acc_ok s4" "room s4 = room st" "i_mode s4 = CODELENS"
        using l m by (simp_all add: s4_def s3_def s2_def s1_def frame_def acc_ok_def room_def)
      have eq: "build_codes flush st = (if ret2 \<noteq> 0 then bad ''invalid distances set'' s4
          else if flush = Z_TREES then Leave (s4\<lparr>i_mode := LEN1\<rparr>) Z_OK else Go (s4\<lparr>i_mode := LEN1\<rparr>))"
        using eob nz k1(1) ret1 k2(1) by (simp add: build_codes_def s1_def s2_def s3_def s4_def Let_def)
      show ?thesis
      proof (cases "ret2 = 0")
        case False
        moreover have "r = None" using r k2(3) False by simp
        ultimately show ?thesis unfolding eq using bad_ok[OF g mb f4(1,2)] f4(3) by simp
      next
        case ret2: True
        let ?f = "s4\<lparr>i_mode := LEN1\<rparr>"
        have "table_ok LENS ?ll (drop 0 c2) b1" using table_ok_take[of LENS ?ll 0 n1 c2] ok1[OF ret1] ok2[OF ret2] by simp
        moreover have "table_ok DISTS ?dl (drop n1 c2) b2" using table_ok_take ok2[OF ret2] by blast
        ultimately have tt: "two_tables ?f ?ll ?dl" by (simp add: two_tables_def s4_def s3_def s2_def s1_def tab_at_def)
        have "\<not> bad_lens LENS ?ll" "\<not> bad_lens DISTS ?dl" using k1(2) k2(2) ret1 ret2 by auto
        then have rr: "r = finish st (decode_data ?ll ?dl ?h (rem_bits st @ fut))" using r nz eob by simp
        have "block_todo ?f ?h (rem_bits ?f @ fut) r"
        proof -
          have "code_side ?f ?ll ?dl" using b8 by (simp add: code_side_def s4_def s3_def s2_def s1_def)
          moreover have "r = finish ?f (code_rest ?f ?ll ?dl ?h (rem_bits ?f @ fut))"
            using rr by (simp add: code_rest_def s4_def s3_def s2_def s1_def rem_bits_def hold_bits_def)
          ultimately have "\<exists>lens dlens. two_tables ?f lens dlens \<and> code_side ?f lens dlens \<and> r = finish ?f (code_rest ?f lens dlens ?h (rem_bits ?f @ fut))"
            using tt by blast
          then show ?thesis by (simp add: block_todo_def)
        qed
        then have "good ?f H fut r"
          by (intro good_frame[OF g mb]) (use f4 l ok2[OF ret2] in \<open>simp_all add: frame_def acc_ok_def block_modes_def s4_def\<close>)
        then show ?thesis unfolding eq using ret2 go_rank[of ?f H fut r st flush] f4(3) m
          by (auto simp: room_def step_ok_def may_stop_def)
      qed
    qed
  qed
qed

lemma do_codelens_ok:
  assumes g: "good st H fut r" and m: "i_mode st = CODELENS"
  shows "step_ok flush st H fut r (do_codelens flush st)"
proof (cases "i_have st < i_nlen st + i_ndist st")
  case True
  then show ?thesis by (rule do_codelens_next[OF g m])
next
  case False
  have td: "codelens_todo st (H @ out_buf st) (rem_bits st @ fut) r" using g m by (simp add: good_def block_modes_def block_todo_def)
  have l: "length (i_lens st) = 320" using g by (simp add: good_def base_def)
  have "step_ok flush st H fut r (build_codes flush st)"
  proof (cases rule: codelens_cases[OF td])
    case (1 cl)
    have hv: "i_have st = i_nlen st + i_ndist st" using 1(1) False by (simp add: code_known_def)
    show ?thesis using build_codes_ok[OF g m hv 1(1) _ 1(4)] 1(3) hv by simp
  next
    case (2 cl)
    have "i_lens st ! 256 = 0" using 2(1) False by (auto simp: no_code_def table_sizes_def)
    then show ?thesis using build_codes_eob[OF g m] 2(2) l by simp
  qed
  then show ?thesis using False by (simp add: do_codelens_def)
qed

end
