(* ===== verification/Inflate_Codes.thy ===== *)
theory Inflate_Codes
  imports Inflate_Dynamic
begin

text \<open>The modes that decode literals, lengths and distances.\<close>

section \<open>Entries\<close>

lemma and_f0_64: "op AND 0xf0 = 0 \<Longrightarrow> op AND 64 = (0 :: nat)"
proof -
  assume "op AND 0xf0 = 0"
  moreover have "op AND 64 = (op AND 0xf0) AND 64" by (simp add: and.assoc)
  ultimately show ?thesis by simp
qed

lemma lext_facts: "k < 29 \<Longrightarrow> lext ! k AND 15 = lext ! k - 16 \<and> lext ! k AND 32 = 0 \<and> lext ! k AND 64 = 0 \<and> lext ! k AND 16 = 16 \<and> lext ! k \<noteq> 0
    \<and> lext ! k - 16 \<le> 5 \<and> 1 \<le> lbase ! k"
proof -
  have "list_all (\<lambda>(e, b). e AND 15 = e - 16 \<and> e AND 32 = 0 \<and> e AND 64 = 0 \<and> e AND 16 = 16 \<and> e \<noteq> 0 \<and> e - 16 \<le> 5 \<and> 1 \<le> b) (take 29 (zip lext lbase))"
    by (simp add: lext_def lbase_def)
  moreover assume "k < 29"
  moreover have "length lext = 31" "length lbase = 31" by (simp_all add: lext_def lbase_def)
  ultimately show ?thesis unfolding list_all_length by simp
qed

lemma dext_facts: "k < 30 \<Longrightarrow> dext ! k AND 15 = dext ! k - 16 \<and> dext ! k AND 64 = 0 \<and> dext ! k AND 16 = 16 \<and> dext ! k AND 0xf0 \<noteq> 0
    \<and> dext ! k - 16 \<le> 13 \<and> 1 \<le> dbase ! k \<and> dbase ! k + 2 ^ (dext ! k - 16) \<le> 32769"
proof -
  have "list_all (\<lambda>(e, b). e AND 15 = e - 16 \<and> e AND 64 = 0 \<and> e AND 16 = 16 \<and> e AND 0xf0 \<noteq> 0 \<and> e - 16 \<le> 13 \<and> 1 \<le> b \<and> b + 2 ^ (e - 16) \<le> 32769) (take 30 (zip dext dbase))"
    by (simp add: dext_def dbase_def)
  moreover assume "k < 30"
  moreover have "length dext = 32" "length dbase = 32" by (simp_all add: dext_def dbase_def)
  ultimately show ?thesis unfolding list_all_length by simp
qed

lemma len_entry_cases:
  assumes "ok_entry LENS s b e"
  obtains (lit) "s < 256" "code_op e = 0" "code_val e = s"
  | (eob) "s = 256" "code_op e = 96" "code_val e = 0"
  | (length) "257 \<le> s" "s < 286" "code_op e = lext ! (s - 257)" "code_val e = lbase ! (s - 257)"
  | (none) "286 \<le> s" "code_op e \<noteq> 0" "code_op e AND 64 \<noteq> 0" "code_op e AND 32 = 0" "code_op e AND 16 = 0"
proof (cases "s \<ge> 286")
  case True
  then show thesis using none assms by (simp add: ok_entry_def no_sym_def)
next
  case False
  then have "e = sym_entry LENS s b" using assms by (simp add: ok_entry_def no_sym_def)
  then have e: "e = \<lparr>code_op = sym_op LENS s, code_bits = b, code_val = sym_val LENS s\<rparr>" by (simp add: sym_entry_def)
  consider "s < 256" | "s = 256" | "257 \<le> s" by linarith
  then show thesis
  proof cases
    case 1
    then show thesis using lit e by (simp add: sym_op_def sym_val_def)
  next
    case 2
    then show thesis using eob e by (simp add: sym_op_def sym_val_def)
  next
    case 3
    then show thesis using length e False by (simp add: sym_op_def sym_val_def)
  qed
qed

lemma dist_entry_cases:
  assumes "ok_entry DISTS s b e"
  obtains (dist) "s < 30" "code_op e = dext ! s" "code_val e = dbase ! s"
  | (none) "30 \<le> s" "code_op e AND 64 \<noteq> 0" "code_op e AND 16 = 0"
  using assms by (cases "30 \<le> s") (simp_all add: ok_entry_def no_sym_def sym_entry_def sym_op_def sym_val_def)

section \<open>Frames\<close>

definition code_modes :: "inflate_mode set" where
  "code_modes = {LEN1, LEN, LENEXT, DIST, DISTEXT, MATCH, LIT}"

lemma code_block_modes: "m \<in> code_modes \<Longrightarrow> m \<in> block_modes"
  by (auto simp: code_modes_def block_modes_def)

lemma block_todo_code: "i_mode st \<in> code_modes \<Longrightarrow> block_todo st h bs r \<longleftrightarrow>
    (\<exists>lens dlens. two_tables st lens dlens \<and> code_side st lens dlens \<and> r = finish st (code_rest st lens dlens h bs))"
  unfolding code_modes_def insert_iff empty_iff by (elim disjE) (simp_all add: block_todo_def)

text \<open>The tables stay, too.\<close>

definition cframe :: "inflate_state \<Rightarrow> inflate_state \<Rightarrow> bool" where
  "cframe st x \<longleftrightarrow> frame st x \<and> i_codes x = i_codes st \<and> i_lencode x = i_lencode st \<and> i_distcode x = i_distcode st
     \<and> i_lenbits x = i_lenbits st \<and> i_distbits x = i_distbits st \<and> i_last x = i_last st"

lemma cframe_facts:
  assumes "cframe st x"
  shows "frame st x" "two_tables x = two_tables st" "finish x = finish st" "i_codes x = i_codes st" "out_buf x = out_buf st"
  using assms by (auto simp: cframe_def two_tables_def frame_def fun_eq_iff)

lemma cframe_trans: "cframe st x \<Longrightarrow> cframe x y \<Longrightarrow> cframe st y"
  by (simp add: cframe_def frame_def)

lemma ahead_cframe: "ahead st x \<Longrightarrow> cframe st x"
  by (erule ahead_unfold) (simp add: cframe_def frame_def)

lemma good_code:
  assumes "good st H fut r" "i_mode st \<in> block_modes" "cframe st x" "acc_ok x" "i_mode x \<in> code_modes"
    "two_tables st lens dlens" "code_side x lens dlens" "r = finish st (code_rest x lens dlens (H @ out_buf st) (rem_bits x @ fut))"
  shows "good x H fut r"
proof -
  note c = cframe_facts[OF assms(3)]
  have "block_todo x (H @ out_buf st) (rem_bits x @ fut) r"
    unfolding block_todo_code[OF assms(5)] using assms(6-8) c(2,3) by auto
  then show ?thesis by (intro good_frame[OF assms(1,2) c(1) assms(4) code_block_modes[OF assms(5)]]) (simp_all add: c)
qed

lemma good_code_obtain:
  assumes "good st H fut r" "i_mode st \<in> code_modes"
  obtains lens dlens where "two_tables st lens dlens" "code_side st lens dlens" "r = finish st (code_rest st lens dlens (H @ out_buf st) (rem_bits st @ fut))"
  using assms code_block_modes[OF assms(2)] block_todo_code[OF assms(2)] by (auto simp: good_def)

lemma short_code:
  assumes g: "good st H fut r" "i_mode st \<in> code_modes" and a: "ahead st st'"
    and t: "two_tables st lens dlens" "code_side st' lens dlens" "r = finish st (code_rest st lens dlens (H @ out_buf st) (rem_bits st @ fut))"
    and n: "fut = [] \<Longrightarrow> r = None"
  shows "good st' H fut r \<and> i_mode st' \<noteq> DONE \<and> i_mode st' \<noteq> BAD \<and> (fut = [] \<longrightarrow> r = None)"
proof -
  have rb: "rem_bits st' = rem_bits st" and acc: "acc_ok st'" using a by (simp_all add: ahead_def)
  have m: "i_mode st' \<in> code_modes" "i_mode st' = i_mode st" using g(2) by (rule_tac [!] ahead_unfold[OF a]) simp_all
  have "code_rest st' lens dlens h bs = code_rest st lens dlens h bs" for h bs
    by (rule ahead_unfold[OF a]) (simp add: code_rest_def split: inflate_mode.split)
  then have "good st' H fut r"
    using good_code[OF g(1) code_block_modes[OF g(2)] ahead_cframe[OF a] acc m(1) t(1,2)] t(3) rb by simp
  then show ?thesis using m g(2) n by (auto simp: code_modes_def)
qed

text \<open>The entry of a code is taken.\<close>

lemma take_code_facts:
  assumes "acc_ok x" "code_bits e \<le> i_bits x"
  shows "acc_ok (take_code e x)" "cframe x (take_code e x)" "rem_bits (take_code e x) = rem_bits (DROPBITS (code_bits e) x)"
    "i_bits (take_code e x) = i_bits x - code_bits e" "room (take_code e x) + code_bits e = room x" "i_mode (take_code e x) = i_mode x"
  using drop_rem(2)[OF assms] assms(2)
  by (simp_all add: take_code_def DROPBITS_def acc_ok_def cframe_def frame_def rem_bits_def hold_bits_def room_def)

lemma step_leave: "good st' H fut r \<and> i_mode st' \<noteq> DONE \<and> i_mode st' \<noteq> BAD \<and> (fut = [] \<longrightarrow> r = None) \<Longrightarrow> next_in st' = []
    \<Longrightarrow> step_ok flush st H fut r (Leave st' Z_OK)"
  by (simp add: step_ok_def may_stop_def)

section \<open>Literals and lengths\<close>

lemma len_code_ok:
  assumes g: "good st H fut r" "i_mode st = LEN" and t: "two_tables st lens dlens"
    and r: "r = finish st (decode_data lens dlens (H @ out_buf st) (rem_bits st @ fut))"
    and x: "cframe st x" "acc_ok x" "code_bits e \<le> i_bits x" "i_bits x < code_bits e + 8" "room x - code_bits e < room st" "i_mode x = LEN"
    and e: "ok_entry LENS s (code_bits e) e" and d: "decode_sym lens (rem_bits st @ fut) = Some (s, rem_bits (DROPBITS (code_bits e) x) @ fut)"
  shows "step_ok flush st H fut r (len_code e x)"
proof -
  let ?h = "H @ out_buf st" and ?f = "take_code e x"
  have mb: "i_mode st \<in> block_modes" using g(2) by (simp add: block_modes_def)
  note tc = take_code_facts[OF x(2,3)]
  have cf: "cframe st ?f" using cframe_trans[OF x(1) tc(2)] .
  have rm: "room ?f < room st" and b8: "i_bits ?f < 8" using tc(4,5) x(4,5) by linarith+
  have rr: "r = finish st (if s < 256 then decode_data lens dlens (?h @ [of_nat s]) (rem_bits ?f @ fut)
       else if s = 256 then Some (?h, rem_bits ?f @ fut)
       else if s \<ge> 286 then None
       else lenext_rest lens dlens ?h (lbase ! (s - 257)) (lext ! (s - 257) - 16) (rem_bits ?f @ fut))"
    using r unfolding decode_data_unfold[of lens dlens ?h "rem_bits st @ fut"] d tc(3) by simp
  have upd: "cframe st (?f\<lparr>i_length := l, i_back := bk, i_mode := m, i_extra := ex\<rparr>)" "cframe st (?f\<lparr>i_length := l, i_extra := ex, i_mode := m\<rparr>)"
    "cframe st (?f\<lparr>i_length := l, i_mode := m\<rparr>)" "cframe st (?f\<lparr>i_length := l, i_back := bk, i_mode := m\<rparr>)" "cframe st (?f\<lparr>i_length := l\<rparr>)" for l bk m ex
    using cf by (simp_all add: cframe_def frame_def)
  show ?thesis
  proof (cases rule: len_entry_cases[OF e])
    case 1
    let ?g = "?f\<lparr>i_length := s, i_mode := LIT\<rparr>"
    have "code_side ?g lens dlens" using b8 by (simp add: code_side_def)
    moreover have "r = finish st (code_rest ?g lens dlens ?h (rem_bits ?g @ fut))"
      using rr 1 by (simp add: code_rest_def rem_bits_def hold_bits_def)
    ultimately have "good ?g H fut r" using tc(1) by (intro good_code[OF g(1) mb upd(3) _ _ t]) (simp_all add: acc_ok_def code_modes_def)
    from go_reads[OF this, of st] rm have "step_ok flush st H fut r (Go ?g)" by (simp add: room_def)
    then show ?thesis using 1 by (simp add: len_code_def Let_def)
  next
    case 2
    let ?g = "?f\<lparr>i_length := 0, i_back := -1, i_mode := TYPE0\<rparr>"
    have "block_todo ?g ?h (rem_bits ?g @ fut) r"
      using rr 2(1) b8 cframe_facts(3)[OF cf] by (simp add: block_todo_def rem_bits_def hold_bits_def fun_eq_iff)
    then have "good ?g H fut r"
      using tc(1) cframe_facts[OF upd(4)] by (intro good_frame[OF g(1) mb]) (simp_all add: acc_ok_def block_modes_def)
    from go_reads[OF this, of st] rm have "step_ok flush st H fut r (Go ?g)" by (simp add: room_def)
    then show ?thesis using 2 by (simp add: len_code_def Let_def)
  next
    case 3
    let ?k = "s - 257"
    have k: "?k < 29" using 3 by simp
    note lf = lext_facts[OF k]
    let ?g = "?f\<lparr>i_length := lbase ! ?k, i_extra := lext ! ?k - 16, i_mode := LENEXT\<rparr>"
    have "code_side ?g lens dlens" using b8 lf by (simp add: code_side_def)
    moreover have "r = finish st (code_rest ?g lens dlens ?h (rem_bits ?g @ fut))"
      using rr 3 by (simp add: code_rest_def rem_bits_def hold_bits_def)
    ultimately have "good ?g H fut r" using tc(1) by (intro good_code[OF g(1) mb upd(2) _ _ t]) (simp_all add: acc_ok_def code_modes_def)
    from go_reads[OF this, of st] rm have "step_ok flush st H fut r (Go ?g)" by (simp add: room_def)
    then show ?thesis using 3 lf by (simp add: len_code_def Let_def)
  next
    case 4
    then have "r = None" using rr by simp
    moreover have "acc_ok (?f\<lparr>i_length := code_val e\<rparr>)" "room (?f\<lparr>i_length := code_val e\<rparr>) \<le> room st" using tc(1) rm by (simp_all add: acc_ok_def room_def)
    ultimately have "step_ok flush st H fut r (bad ''invalid literal/length code'' (?f\<lparr>i_length := code_val e\<rparr>))"
      using bad_ok[OF g(1) mb cframe_facts(1)[OF upd(5)]] by simp
    then show ?thesis using 4 by (simp add: len_code_def Let_def)
  qed
qed

text \<open>The slow path of \<open>LEN\<close>.\<close>

definition slow_len :: "inflate_state \<Rightarrow> step" where
  "slow_len st = (case root_loop (i_lencode st) (i_lenbits st) st of Crash \<Rightarrow> Fault | Short st \<Rightarrow> Leave st Z_OK
     | Got st here \<Rightarrow>
       if code_op here \<noteq> 0 \<and> code_op here AND 0xf0 = 0 then
         (case sub_loop (i_lencode st) here st of Crash \<Rightarrow> Fault | Short st \<Rightarrow> Leave st Z_OK
          | Got st here2 \<Rightarrow> len_code here2 (take_code here st))
       else len_code here st)"

lemma two_tables_ahead: "ahead st st' \<Longrightarrow> two_tables st' = two_tables st"
  using cframe_facts(2)[OF ahead_cframe] .

lemma decode_data_none: "decode_sym lens bs = None \<Longrightarrow> decode_data lens dlens h bs = None"
  by (subst decode_data.simps) simp

lemma slow_len_ok:
  assumes g: "good st H fut r" and m: "i_mode st = LEN"
  shows "step_ok flush st H fut r (slow_len st)"
proof -
  let ?h = "H @ out_buf st"
  have cm: "i_mode st \<in> code_modes" using m by (simp add: code_modes_def)
  obtain lens dlens where t: "two_tables st lens dlens" and cs: "code_side st lens dlens"
    and r0: "r = finish st (code_rest st lens dlens ?h (rem_bits st @ fut))"
    by (rule good_code_obtain[OF g cm])
  have r: "r = finish st (decode_data lens dlens ?h (rem_bits st @ fut))" and lz: "lazy lens st"
    using r0 cs m by (simp_all add: code_rest_def code_side_def)
  have tab: "table_ok LENS lens (ptr_tab st (i_lencode st)) (i_lenbits st)" using t by (simp add: two_tables_def)
  have acc: "acc_ok st" by (rule good_acc[OF g])
  have short: "step_ok flush st H fut r (Leave x Z_OK)" if a: "ahead st x" and l: "lazy lens x" and n: "next_in x = []" and d: "decode_sym lens (rem_bits st) = None" for x
  proof (rule step_leave[OF short_code[OF g cm a t _ r0] n])
    show "code_side x lens dlens" using l m frame_ahead_code(5)[OF a] by (simp add: code_side_def)
    show "r = None" if "fut = []" using r that decode_data_none[OF d] by simp
  qed
  show ?thesis
  proof (cases rule: fetch_root[OF tab acc])
    case (1 st')
    then show ?thesis using short[of st'] lz by (simp add: slow_len_def)
  next
    case (2 st')
    have "cframe st st'" "acc_ok st'" "room st' = room st" using 2(2) ahead_cframe ahead_room by (auto simp: ahead_def)
    let ?e = "\<lparr>code_op = 64, code_bits = 1, code_val = 0\<rparr>"
    have "code_bits ?e \<le> i_bits st'" using 2(3) by simp
    note tc = take_code_facts[OF \<open>acc_ok st'\<close> this]
    let ?f = "(take_code ?e st')\<lparr>i_length := 0\<rparr>"
    have "frame st ?f" using cframe_facts(1)[OF cframe_trans[OF \<open>cframe st st'\<close> tc(2)]] by (simp add: frame_def)
    moreover have "acc_ok ?f" "room ?f \<le> room st" using tc(1,5) \<open>room st' = room st\<close> by (simp_all add: acc_ok_def room_def)
    moreover have "r = None" using r decode_data_none[OF 2(5)] by simp
    ultimately have "step_ok flush st H fut r (bad ''invalid literal/length code'' ?f)"
      using bad_ok[OF g code_block_modes[OF cm]] by simp
    then show ?thesis using 2(1) by (simp add: slow_len_def len_code_def Let_def)
  next
    case (3 st' e s)
    have "\<not> is_link e" using 3(8) by (simp add: ok_entry_def)
    moreover have "step_ok flush st H fut r (len_code e st')"
      by (rule len_code_ok[OF g m t r ahead_cframe[OF 3(2)] ahead_acc[OF 3(2)] 3(6) _ _ _ 3(8,9)])
         (use 3(3,5) lz ahead_room[OF 3(2)] frame_ahead_code(5)[OF 3(2)] 3(6) m in \<open>auto simp: room_def\<close>)
    ultimately show ?thesis using 3(1) by (auto simp: slow_len_def is_link_def)
  next
    case (4 st1 e)
    have tab1: "table_ok LENS lens (ptr_tab st1 (i_lencode st)) (i_lenbits st)" using tab frame_ahead_code(6)[OF 4(2)] by simp
    have lc: "i_lencode st1 = i_lencode st" using ahead_cframe[OF 4(2)] by (simp add: cframe_def)
    have e4: "e = ptr_tab st1 (i_lencode st) ! (i_hold st1 mod 2 ^ i_lenbits st)" using 4(4) frame_ahead_code(6)[OF 4(2)] by simp
    have rb1: "rem_bits st1 = rem_bits st" using 4(2) by (simp add: ahead_def)
    have sl: "slow_len st = (case sub_loop (i_lencode st) e st1 of Crash \<Rightarrow> Fault | Short st \<Rightarrow> Leave st Z_OK | Got st here2 \<Rightarrow> len_code here2 (take_code e st))"
      using 4(1,5) lc by (simp add: slow_len_def is_link_def)
    show ?thesis
    proof (cases rule: fetch_sub[OF tab1 ahead_acc[OF 4(2)] e4 4(5,6,7)])
      case (1 st')
      then show ?thesis unfolding sl using short[OF ahead_trans[OF 4(2) 1(2)]] 4(3) lz rb1 by simp
    next
      case (2 st' e' s)
      note a = ahead_trans[OF 4(2) 2(2)]
      have le: "code_bits e \<le> i_bits st'" using 2(6) by simp
      note tc = take_code_facts[OF ahead_acc[OF a] le]
      have "rem_bits (DROPBITS (code_bits e') (take_code e st')) = rem_bits (DROPBITS (code_bits e') (DROPBITS (code_bits e) st'))"
        by (simp add: take_code_def DROPBITS_def rem_bits_def hold_bits_def)
      then have "step_ok flush st H fut r (len_code e' (take_code e st'))"
        by (intro len_code_ok[OF g m t r cframe_trans[OF ahead_cframe[OF a] tc(2)] tc(1) _ _ _ _ 2(8)])
           (use 2(3,5,6,9) 4(3) lz ahead_room[OF a] frame_ahead_code(5)[OF a] tc(4-6) m rb1 in \<open>auto simp: room_def\<close>)
      then show ?thesis unfolding sl using 2(1) by simp
    qed
  qed
qed

section \<open>Distances\<close>

lemma do_lenext_ok:
  assumes g: "good st H fut r" and m: "i_mode st = LENEXT"
  shows "step_ok flush st H fut r (do_lenext st)"
proof -
  let ?h = "H @ out_buf st"
  have cm: "i_mode st \<in> code_modes" using m by (simp add: code_modes_def)
  obtain lens dlens where t: "two_tables st lens dlens" and cs: "code_side st lens dlens"
    and r0: "r = finish st (code_rest st lens dlens ?h (rem_bits st @ fut))"
    by (rule good_code_obtain[OF g cm])
  have r: "r = finish st (lenext_rest lens dlens ?h (i_length st) (i_extra st) (rem_bits st @ fut))"
    and cs': "i_bits st < 8" "i_extra st \<le> 5" "1 \<le> i_length st"
    using r0 cs m by (simp_all add: code_rest_def code_side_def)
  have acc: "acc_ok st" by (rule good_acc[OF g])
  have next_ok: "step_ok flush st H fut r (Go f)"
    if f: "cframe st f" "acc_ok f" "i_bits f < 8" "i_mode f = DIST" "1 \<le> i_length f" "room f \<le> room st"
      "r = finish st (dist_rest lens dlens ?h (i_length f) (rem_bits f @ fut))" for f
  proof -
    have "good f H fut r"
      by (rule good_code[OF g code_block_modes[OF cm] f(1,2) _ t])
         (use f in \<open>simp_all add: code_modes_def code_side_def code_rest_def lazy_small\<close>)
    from go_rank[OF this f(6)] show ?thesis using f(4) m by simp
  qed
  show ?thesis
  proof (cases "i_extra st = 0")
    case True
    let ?f = "st\<lparr>i_was := i_length st, i_mode := DIST\<rparr>"
    have "step_ok flush st H fut r (Go ?f)"
      by (rule next_ok) (use cs' r True acc in \<open>simp_all add: cframe_def frame_def acc_ok_def room_def rem_bits_def hold_bits_def lenext_rest_def take_bits_def\<close>)
    then show ?thesis using True by (simp add: do_lenext_def)
  next
    case False
    show ?thesis unfolding do_lenext_def if_P[OF False]
    proof (rule need_ok[OF acc])
      fix st' assume a: "ahead st st'" and s: "i_bits st' < i_extra st" "next_in st' = []"
      show "good st' H fut r \<and> i_mode st' \<noteq> DONE \<and> i_mode st' \<noteq> BAD \<and> (fut = [] \<longrightarrow> r = None)"
      proof (rule short_code[OF g cm a t _ r0])
        show "code_side st' lens dlens" using s cs' m by (rule_tac ahead_unfold[OF a]) (auto simp: code_side_def)
        have "take_bits (i_extra st) (rem_bits st') = None" by (rule take_none[OF s])
        then show "r = None" if "fut = []" using r that a by (simp add: lenext_rest_def ahead_def)
      qed
    next
      fix st' assume a: "ahead st st'" and s: "i_extra st \<le> i_bits st'" "i_bits st' = i_bits st \<or> i_bits st' < i_extra st + 8"
      have ex: "i_extra st' = i_extra st" "i_length st' = i_length st" by (rule_tac [!] ahead_unfold[OF a]) simp_all
      note tf = take_front[OF ahead_acc[OF a] s(1)]
      let ?f = "((DROPBITS (i_extra st') (st'\<lparr>i_length := i_length st' + BITS (i_extra st') st'\<rparr>))\<lparr>i_back := i_back st' + int (i_extra st')\<rparr>)
          \<lparr>i_was := i_length st' + BITS (i_extra st') st', i_mode := DIST\<rparr>"
      have "step_ok flush st H fut r (Go ?f)"
      proof (rule next_ok)
        show "r = finish st (dist_rest lens dlens ?h (i_length ?f) (rem_bits ?f @ fut))"
        proof -
          have "rem_bits ?f = rem_bits (DROPBITS (i_extra st) st')" "i_length ?f = i_length st + BITS (i_extra st) st'"
            using ex by (simp_all add: DROPBITS_def rem_bits_def hold_bits_def)
          then show ?thesis using r tf(1)[of fut] a by (simp add: lenext_rest_def ahead_def)
        qed
        show "room ?f \<le> room st" using ahead_room[OF a] by (simp add: room_def DROPBITS_def)
      qed (use tf(2) ahead_cframe[OF a] s cs' ex in \<open>auto simp: cframe_def frame_def DROPBITS_def acc_ok_def\<close>)
      then show "step_ok flush st' H fut r (let st = (DROPBITS (i_extra st') (st'\<lparr>i_length := i_length st' + BITS (i_extra st') st'\<rparr>))\<lparr>i_back := i_back st' + int (i_extra st')\<rparr>
         in Go (st\<lparr>i_was := i_length st, i_mode := DIST\<rparr>))"
        unfolding step_ok_ahead[OF a] by (simp add: DROPBITS_def)
    qed (use cs'(2) in simp)
  qed
qed

lemma dist_code_ok:
  assumes g: "good st H fut r" "i_mode st = DIST" and t: "two_tables st lens dlens" and len: "1 \<le> i_length st"
    and r: "r = finish st (dist_rest lens dlens (H @ out_buf st) (i_length st) (rem_bits st @ fut))"
    and x: "cframe st x" "acc_ok x" "code_bits e \<le> i_bits x" "i_bits x < code_bits e + 8" "room x - code_bits e < room st" "i_length x = i_length st"
    and e: "ok_entry DISTS s (code_bits e) e" and d: "decode_sym dlens (rem_bits st @ fut) = Some (s, rem_bits (DROPBITS (code_bits e) x) @ fut)"
  shows "step_ok flush st H fut r (dist_code_entry e x)"
proof -
  let ?h = "H @ out_buf st" and ?f = "take_code e x"
  have mb: "i_mode st \<in> block_modes" using g(2) by (simp add: block_modes_def)
  note tc = take_code_facts[OF x(2,3)]
  have cf: "cframe st ?f" using cframe_trans[OF x(1) tc(2)] .
  have rm: "room ?f < room st" and b8: "i_bits ?f < 8" using tc(4,5) x(4,5) by linarith+
  have rr: "r = finish st (if s \<ge> 30 then None else distext_rest lens dlens ?h (i_length st) (dbase ! s) (dext ! s - 16) (rem_bits ?f @ fut))"
    using r unfolding dist_rest_def d tc(3) by simp
  show ?thesis
  proof (cases rule: dist_entry_cases[OF e])
    case 1
    note df = dext_facts[OF 1(1)]
    let ?g = "?f\<lparr>i_offset := dbase ! s, i_extra := dext ! s - 16, i_mode := DISTEXT\<rparr>"
    have "i_length ?g = i_length st" using x(6) by (simp add: take_code_def DROPBITS_def)
    then have "code_side ?g lens dlens" using b8 df len by (simp add: code_side_def)
    moreover have "r = finish st (code_rest ?g lens dlens ?h (rem_bits ?g @ fut))"
      using rr 1 \<open>i_length ?g = i_length st\<close> by (simp add: code_rest_def rem_bits_def hold_bits_def)
    moreover have "cframe st ?g" using cf by (simp add: cframe_def frame_def)
    ultimately have "good ?g H fut r" using tc(1) by (intro good_code[OF g(1) mb _ _ _ t]) (simp_all add: acc_ok_def code_modes_def)
    from go_reads[OF this, of st] rm have "step_ok flush st H fut r (Go ?g)" by (simp add: room_def)
    then show ?thesis using 1 df by (simp add: dist_code_entry_def Let_def)
  next
    case 2
    then have "r = None" using rr by simp
    then have "step_ok flush st H fut r (bad ''invalid distance code'' ?f)"
      using bad_ok[OF g(1) mb cframe_facts(1)[OF cf] tc(1)] rm by simp
    then show ?thesis using 2 by (simp add: dist_code_entry_def Let_def)
  qed
qed

lemma do_dist_ok:
  assumes g: "good st H fut r" and m: "i_mode st = DIST"
  shows "step_ok flush st H fut r (do_dist st)"
proof -
  let ?h = "H @ out_buf st"
  have cm: "i_mode st \<in> code_modes" using m by (simp add: code_modes_def)
  obtain lens dlens where t: "two_tables st lens dlens" and cs: "code_side st lens dlens"
    and r0: "r = finish st (code_rest st lens dlens ?h (rem_bits st @ fut))"
    by (rule good_code_obtain[OF g cm])
  have r: "r = finish st (dist_rest lens dlens ?h (i_length st) (rem_bits st @ fut))" and lz: "lazy dlens st" and len: "1 \<le> i_length st"
    using r0 cs m by (simp_all add: code_rest_def code_side_def)
  have tab: "table_ok DISTS dlens (ptr_tab st (i_distcode st)) (i_distbits st)" using t by (simp add: two_tables_def)
  have acc: "acc_ok st" by (rule good_acc[OF g])
  have lx: "i_length x = i_length st" if "ahead st x" for x by (rule ahead_unfold[OF that]) simp
  have short: "step_ok flush st H fut r (Leave x Z_OK)" if a: "ahead st x" and l: "lazy dlens x" and n: "next_in x = []" and d: "decode_sym dlens (rem_bits st) = None" for x
  proof (rule step_leave[OF short_code[OF g cm a t _ r0] n])
    show "code_side x lens dlens" using l m frame_ahead_code(5)[OF a] lx[OF a] len by (simp add: code_side_def)
    show "r = None" if "fut = []" using r that d by (simp add: dist_rest_def)
  qed
  show ?thesis
  proof (cases rule: fetch_root[OF tab acc])
    case (1 st')
    then show ?thesis using short[of st'] lz by (simp add: do_dist_def)
  next
    case (2 st')
    let ?e = "\<lparr>code_op = 64, code_bits = 1, code_val = 0\<rparr>"
    have "code_bits ?e \<le> i_bits st'" using 2(3) by simp
    note tc = take_code_facts[OF ahead_acc[OF 2(2)] this]
    have "r = None" using r 2(5) by (simp add: dist_rest_def)
    moreover have "frame st (take_code ?e st')" using cframe_facts(1)[OF cframe_trans[OF ahead_cframe[OF 2(2)] tc(2)]] .
    ultimately have "step_ok flush st H fut r (bad ''invalid distance code'' (take_code ?e st'))"
      using bad_ok[OF g code_block_modes[OF cm] _ tc(1)] tc(5) ahead_room[OF 2(2)] by simp
    then show ?thesis using 2(1) by (simp add: do_dist_def dist_code_entry_def Let_def)
  next
    case (3 st' e s)
    have "code_op e AND 0xf0 \<noteq> 0"
      using dist_entry_cases[OF 3(8)] dext_facts[of s] and_f0_64[of "code_op e"] by metis
    moreover have "step_ok flush st H fut r (dist_code_entry e st')"
      by (rule dist_code_ok[OF g m t len r ahead_cframe[OF 3(2)] ahead_acc[OF 3(2)] 3(6) _ _ lx[OF 3(2)] 3(8,9)])
         (use 3(3,5) lz ahead_room[OF 3(2)] 3(6) in \<open>auto simp: room_def\<close>)
    ultimately show ?thesis using 3(1) by (simp add: do_dist_def)
  next
    case (4 st1 e)
    have tab1: "table_ok DISTS dlens (ptr_tab st1 (i_distcode st)) (i_distbits st)" using tab frame_ahead_code(6)[OF 4(2)] by simp
    have lc: "i_distcode st1 = i_distcode st" using ahead_cframe[OF 4(2)] by (simp add: cframe_def)
    have e4: "e = ptr_tab st1 (i_distcode st) ! (i_hold st1 mod 2 ^ i_distbits st)" using 4(4) frame_ahead_code(6)[OF 4(2)] by simp
    have rb1: "rem_bits st1 = rem_bits st" using 4(2) by (simp add: ahead_def)
    have sl: "do_dist st = (case sub_loop (i_distcode st) e st1 of Crash \<Rightarrow> Fault | Short st \<Rightarrow> Leave st Z_OK | Got st here2 \<Rightarrow> dist_code_entry here2 (take_code e st))"
      using 4(1,5) lc by (simp add: do_dist_def is_link_def)
    show ?thesis
    proof (cases rule: fetch_sub[OF tab1 ahead_acc[OF 4(2)] e4 4(5,6,7)])
      case (1 st')
      then show ?thesis unfolding sl using short[OF ahead_trans[OF 4(2) 1(2)]] 4(3) lz rb1 by simp
    next
      case (2 st' e' s)
      note a = ahead_trans[OF 4(2) 2(2)]
      have le: "code_bits e \<le> i_bits st'" using 2(6) by simp
      note tc = take_code_facts[OF ahead_acc[OF a] le]
      have "rem_bits (DROPBITS (code_bits e') (take_code e st')) = rem_bits (DROPBITS (code_bits e') (DROPBITS (code_bits e) st'))"
        "i_length (take_code e st') = i_length st"
        using lx[OF a] by (simp_all add: take_code_def DROPBITS_def rem_bits_def hold_bits_def)
      then have "step_ok flush st H fut r (dist_code_entry e' (take_code e st'))"
        by (intro dist_code_ok[OF g m t len r cframe_trans[OF ahead_cframe[OF a] tc(2)] tc(1) _ _ _ _ 2(8)])
           (use 2(3,5,6,9) 4(3) lz ahead_room[OF a] tc(4,5) rb1 in \<open>auto simp: room_def\<close>)
      then show ?thesis unfolding sl using 2(1) by simp
    qed
  qed
qed

end
