(* ===== verification/Inflate_Match.thy ===== *)
theory Inflate_Match
  imports Inflate_Codes
begin

text \<open>The modes that write: the extra bits of a distance, the copy of a match, and literals.\<close>

section \<open>The extra bits of a distance\<close>

lemma do_distext_ok:
  assumes g: "good st H fut r" and m: "i_mode st = DISTEXT"
  shows "step_ok flush st H fut r (do_distext st)"
proof -
  let ?h = "H @ out_buf st"
  have cm: "i_mode st \<in> code_modes" using m by (simp add: code_modes_def)
  obtain lens dlens where t: "two_tables st lens dlens" and cs: "code_side st lens dlens"
    and r0: "r = finish st (code_rest st lens dlens ?h (rem_bits st @ fut))"
    by (rule good_code_obtain[OF g cm])
  have r: "r = finish st (distext_rest lens dlens ?h (i_length st) (i_offset st) (i_extra st) (rem_bits st @ fut))"
    and cs': "i_bits st < 8 \<or> i_bits st < i_extra st" "i_extra st \<le> 13" "1 \<le> i_offset st" "i_offset st + 2 ^ i_extra st \<le> 32769" "1 \<le> i_length st"
    using r0 cs m by (simp_all add: code_rest_def code_side_def)
  have acc: "acc_ok st" by (rule good_acc[OF g])
  have next_ok: "step_ok flush st H fut r (Go f)"
    if f: "cframe st f" "acc_ok f" "i_bits f < 8" "i_mode f = MATCH" "1 \<le> i_length f" "1 \<le> i_offset f" "i_offset f \<le> 32768" "room f \<le> room st"
      "r = finish st (match_rest lens dlens ?h (i_length f) (i_offset f) (rem_bits f @ fut))" for f
  proof -
    have "good f H fut r"
      by (rule good_code[OF g code_block_modes[OF cm] f(1,2) _ t])
         (use f in \<open>simp_all add: code_modes_def code_side_def code_rest_def\<close>)
    from go_rank[OF this f(8)] show ?thesis using f(4) m by simp
  qed
  show ?thesis
  proof (cases "i_extra st = 0")
    case True
    have "step_ok flush st H fut r (Go (st\<lparr>i_mode := MATCH\<rparr>))"
      by (rule next_ok) (use cs' r True acc in \<open>simp_all add: cframe_def frame_def acc_ok_def room_def rem_bits_def hold_bits_def distext_rest_def take_bits_def\<close>)
    then show ?thesis using True by (simp add: do_distext_def)
  next
    case False
    show ?thesis unfolding do_distext_def if_P[OF False]
    proof (rule need_ok[OF acc])
      fix st' assume a: "ahead st st'" and s: "i_bits st' < i_extra st" "next_in st' = []"
      show "good st' H fut r \<and> i_mode st' \<noteq> DONE \<and> i_mode st' \<noteq> BAD \<and> (fut = [] \<longrightarrow> r = None)"
      proof (rule short_code[OF g cm a t _ r0])
        show "code_side st' lens dlens" using s cs' m by (rule_tac ahead_unfold[OF a]) (auto simp: code_side_def)
        have "take_bits (i_extra st) (rem_bits st') = None" by (rule take_none[OF s])
        then show "r = None" if "fut = []" using r that a by (simp add: distext_rest_def ahead_def)
      qed
    next
      fix st' assume a: "ahead st st'" and s: "i_extra st \<le> i_bits st'" "i_bits st' = i_bits st \<or> i_bits st' < i_extra st + 8"
      have ex: "i_extra st' = i_extra st" "i_length st' = i_length st" "i_offset st' = i_offset st" by (rule_tac [!] ahead_unfold[OF a]) simp_all
      note tf = take_front[OF ahead_acc[OF a] s(1)]
      let ?f = "(DROPBITS (i_extra st') (st'\<lparr>i_offset := i_offset st' + BITS (i_extra st') st'\<rparr>))\<lparr>i_back := i_back st' + int (i_extra st'), i_mode := MATCH\<rparr>"
      have "step_ok flush st H fut r (Go ?f)"
      proof (rule next_ok)
        have fo: "rem_bits ?f = rem_bits (DROPBITS (i_extra st) st')" "i_length ?f = i_length st" "i_offset ?f = i_offset st + BITS (i_extra st) st'"
          using ex by (simp_all add: DROPBITS_def rem_bits_def hold_bits_def)
        show "r = finish st (match_rest lens dlens ?h (i_length ?f) (i_offset ?f) (rem_bits ?f @ fut))"
          using r tf(1)[of fut] a unfolding fo by (simp add: distext_rest_def ahead_def)
        show "i_offset ?f \<le> 32768" unfolding fo(3) using cs'(4) tf(6) by linarith
        show "1 \<le> i_length ?f" "1 \<le> i_offset ?f" unfolding fo using cs' by simp_all
        show "room ?f \<le> room st" using ahead_room[OF a] by (simp add: room_def DROPBITS_def)
      qed (use tf(2) ahead_cframe[OF a] s cs' ex in \<open>auto simp: cframe_def frame_def DROPBITS_def acc_ok_def\<close>)
      then show "step_ok flush st' H fut r (Go ((DROPBITS (i_extra st') (st'\<lparr>i_offset := i_offset st' + BITS (i_extra st') st'\<rparr>))
         \<lparr>i_back := i_back st' + int (i_extra st'), i_mode := MATCH\<rparr>))"
        unfolding step_ok_ahead[OF a] .
    qed (use cs'(2) in simp)
  qed
qed

section \<open>Literals\<close>

text \<open>Writing in the modes of the codes.\<close>

lemma good_code_output:
  assumes g: "good st H fut r" "i_mode st \<in> code_modes" and t: "two_tables st lens dlens" and b: "i_bits st < 8" and x: "length x \<le> avail_out st"
    and s: "st' = st\<lparr>out_buf := out_buf st @ x, avail_out := avail_out st - length x, i_length := l, i_mode := m\<rparr>"
    and m: "m \<in> code_modes" and side: "code_side st' lens dlens" and r: "r = finish st (code_rest st' lens dlens (H @ out_buf st @ x) (rem_bits st @ fut))"
  shows "good st' H fut r"
proof -
  have rb: "rem_bits st' = rem_bits st" by (simp add: s rem_bits_def hold_bits_def)
  have "two_tables st' lens dlens" using t by (simp add: s two_tables_def)
  moreover have "finish st' = finish st" by (simp add: s)
  moreover have "i_mode st' \<in> code_modes" using m by (simp add: s)
  ultimately have "block_todo st' (H @ out_buf st @ x) (rem_bits st' @ fut) r"
    using block_todo_code[of st'] side r unfolding rb by metis
  then show ?thesis
    by (intro good_output[OF g(1) code_block_modes[OF g(2)] _ x]) (use good_acc[OF g(1)] m code_block_modes in \<open>simp_all add: s frame_def acc_ok_def\<close>)
qed

lemma do_lit_ok:
  assumes g: "good st H fut r" and m: "i_mode st = LIT"
  shows "step_ok flush st H fut r (do_lit st)"
proof -
  let ?h = "H @ out_buf st"
  have cm: "i_mode st \<in> code_modes" using m by (simp add: code_modes_def)
  obtain lens dlens where t: "two_tables st lens dlens" and cs: "code_side st lens dlens"
    and r0: "r = finish st (code_rest st lens dlens ?h (rem_bits st @ fut))"
    by (rule good_code_obtain[OF g cm])
  have r: "r = finish st (decode_data lens dlens (?h @ [of_nat (i_length st)]) (rem_bits st @ fut))" and b: "i_bits st < 8"
    using r0 cs m by (simp_all add: code_rest_def code_side_def)
  show ?thesis
  proof (cases "avail_out st = 0")
    case True
    have "length H + length (out_buf st) < length out" if o: "r = Some (out, bs)" for out bs
    proof -
      obtain o1 b1 where d: "decode_data lens dlens (?h @ [of_nat (i_length st)]) (rem_bits st @ fut) = Some (o1, b1)" "finish st (Some (o1, b1)) = Some (out, bs)"
        using r o by (cases "decode_data lens dlens (?h @ [of_nat (i_length st)]) (rem_bits st @ fut)") auto
      show ?thesis using decode_data_mono[OF d(1)] finish_mono[OF d(2)] by simp
    qed
    then show ?thesis using True g m by (simp add: do_lit_def step_ok_def may_stop_def)
  next
    case False
    let ?f = "st\<lparr>out_buf := out_buf st @ [of_nat (i_length st)], avail_out := avail_out st - 1, i_length := i_length st, i_mode := LEN\<rparr>"
    have "good ?f H fut r"
      by (rule good_code_output[OF g cm t b, of "[of_nat (i_length st)]" ?f LEN "i_length st"]) (use r b False in \<open>simp_all add: code_modes_def code_side_def code_rest_def lazy_small\<close>)
    from go_reads[OF this, of st] show ?thesis using False by (simp add: do_lit_def room_def)
  qed
qed

lemma do_len1_ok:
  assumes g: "good st H fut r" and m: "i_mode st = LEN1"
  shows "step_ok flush st H fut r (Go (st\<lparr>i_mode := LEN\<rparr>))"
proof -
  have cm: "i_mode st \<in> code_modes" using m by (simp add: code_modes_def)
  obtain lens dlens where t: "two_tables st lens dlens" and cs: "code_side st lens dlens"
    and r0: "r = finish st (code_rest st lens dlens (H @ out_buf st) (rem_bits st @ fut))"
    by (rule good_code_obtain[OF g cm])
  have "good (st\<lparr>i_mode := LEN\<rparr>) H fut r"
    by (rule good_code[OF g code_block_modes[OF cm] _ _ _ t])
       (use cs r0 m good_acc[OF g] in \<open>simp_all add: code_modes_def code_side_def code_rest_def lazy_small cframe_def frame_def acc_ok_def\<close>)
  from go_rank[OF this] show ?thesis using m by (simp add: room_def)
qed

section \<open>Matches\<close>

lemma lz_copy_add: "lz_copy out dist (m + n) = lz_copy (lz_copy out dist m) dist n"
  by (induction m arbitrary: out) simp_all

lemma lz_copy_take: "n \<le> dist \<Longrightarrow> dist \<le> length out \<Longrightarrow> lz_copy out dist n = out @ take n (drop (length out - dist) out)"
proof (induction n)
  case (Suc n)
  have e: "lz_copy out dist (Suc n) = lz_copy (lz_copy out dist n) dist 1" using lz_copy_add[of out dist n 1] by simp
  have l: "length (lz_copy out dist n) - dist = length out - dist + n" using Suc.prems by (simp add: lz_copy_length)
  have "lz_copy out dist n ! (length out - dist + n) = out ! (length out - dist + n)"
    using Suc by (simp add: nth_append)
  moreover have "take (Suc n) (drop (length out - dist) out) = take n (drop (length out - dist) out) @ [out ! (length out - dist + n)]"
    using Suc.prems by (simp add: take_Suc_conv_app_nth)
  moreover have "lz_copy out dist n = out @ take n (drop (length out - dist) out)" using Suc by simp
  moreover have "lz_copy (lz_copy out dist n) dist 1 = lz_copy out dist n @ [lz_copy out dist n ! (length out - dist + n)]"
    unfolding l[symmetric] by simp
  ultimately show ?case unfolding e by (simp only: append_assoc)
qed simp

lemma put_match_step:
  assumes "n \<le> len" "1 \<le> dist" "dist \<le> length h"
  shows "match_rest lens dlens h len dist bs = (if n = len then decode_data lens dlens (lz_copy h dist n) bs
    else match_rest lens dlens (lz_copy h dist n) (len - n) dist bs)"
proof -
  have "lz_copy h dist len = lz_copy (lz_copy h dist n) dist (len - n)" using assms(1) lz_copy_add[of h dist n "len - n"] by simp
  moreover have "dist \<le> length (lz_copy h dist n)" using assms(3) by (simp add: lz_copy_length)
  ultimately show ?thesis using assms
    by (cases "n = len") (simp_all only: match_rest_def put_match_def option.case if_True if_False simp_thms diff_self_eq_0 lz_copy.simps)
qed

text \<open>The copy from the output.\<close>

lemma copy_out_lz:
  assumes "1 \<le> dist" "dist \<le> length out"
  shows "\<exists>x. copy_out out dist n = Some (out @ x) \<and> length x = n \<and> lz_copy (H @ out) dist n = H @ out @ x"
  using assms(2)
proof (induction n arbitrary: out)
  case (Suc n)
  let ?b = "out ! (length out - dist)"
  have d: "dist \<le> length (out @ [?b])" using Suc.prems by simp
  obtain x where x: "copy_out (out @ [?b]) dist n = Some ((out @ [?b]) @ x)" "length x = n" "lz_copy (H @ out @ [?b]) dist n = H @ (out @ [?b]) @ x"
    using Suc.IH[OF d] by auto
  have "length (H @ out) - dist = length H + (length out - dist)" using Suc.prems by simp
  then have "(H @ out) ! (length (H @ out) - dist) = ?b" by (simp only: nth_append_length_plus)
  then show ?case using x Suc.prems assms(1) by (intro exI[of _ "?b # x"]) simp
qed simp

text \<open>The copy from the window: \<open>n\<close> bytes from \<open>d\<close> bytes back.\<close>

definition window_from :: "inflate_state \<Rightarrow> nat \<Rightarrow> nat" where
  "window_from st d = (if d > i_wnext st then i_wsize st - (d - i_wnext st) else i_wnext st - d)"

lemma window_copy:
  assumes mem: "win_mem st" and w: "win_hist st H" and d: "1 \<le> d" "d \<le> i_whave st" and n: "n \<le> d" "d > i_wnext st \<longrightarrow> n \<le> d - i_wnext st"
  shows "i_window st = Some (window_of st)" "i_wsize st \<noteq> 0" "d \<le> length H" "d - i_wnext st \<le> i_wsize st" "window_from st d + n \<le> length (window_of st)"
    "take n (drop (window_from st d) (window_of st)) = take n (drop (length H - d) H)"
proof -
  let ?w = "window_of st" and ?s = "i_wsize st" and ?x = "i_wnext st"
  have s0: "?s \<noteq> 0" using w d by (simp add: win_hist_def split: if_splits)
  have win: "i_window st = Some ?w" using mem s0 by (auto simp: win_mem_def window_of_def split: option.splits)
  have l: "length ?w = ?s" "?x < ?s" "i_whave st \<le> ?s" using mem s0 by (auto simp: win_mem_def)
  have wh: "i_whave st = min ?s (length H)" "drop (length H - i_whave st) H = drop (?s - i_whave st) (ring st)"
    using w s0 by (auto simp: win_hist_def)
  have le: "d \<le> length H" "d \<le> ?s" using wh(1) d by simp_all
  have "drop (length H - d) H = drop (i_whave st - d) (drop (length H - i_whave st) H)" using d wh(1) by simp
  also have "\<dots> = drop (?s - d) (ring st)" unfolding wh(2) using d l by simp
  finally have dr: "drop (length H - d) H = drop (?s - d) (ring st)" .
  have "take n (drop (window_from st d) ?w) = take n (drop (?s - d) (ring st)) \<and> window_from st d + n \<le> length ?w"
  proof (cases "d > ?x")
    case True
    have "drop (?s - d) (ring st) = drop (window_from st d) ?w @ take ?x ?w"
      using True le l by (simp add: ring_def window_from_def)
    then show ?thesis using True le l n by (simp add: window_from_def)
  next
    case False
    have "drop (?s - d) (ring st) = drop (window_from st d) (take ?x ?w)"
      using False le l by (simp add: ring_def window_from_def)
    then show ?thesis using False le l n by (simp add: window_from_def drop_take)
  qed
  then show "window_from st d + n \<le> length ?w" "take n (drop (window_from st d) ?w) = take n (drop (length H - d) H)" using dr by simp_all
  show "i_window st = Some ?w" "?s \<noteq> 0" "d \<le> length H" "d - ?x \<le> ?s" using win s0 le by simp_all
qed

text \<open>After the copy of \<open>x\<close>.\<close>

lemma end_match_ok:
  assumes g: "good st H fut r" and m: "i_mode st = MATCH" and t: "two_tables st lens dlens" and b: "i_bits st < 8"
    and r: "r = finish st (match_rest lens dlens (H @ out_buf st) (i_length st) (i_offset st) (rem_bits st @ fut))"
    and d: "1 \<le> i_offset st" "i_offset st \<le> 32768" "i_offset st \<le> length (H @ out_buf st)"
    and x: "1 \<le> length x" "length x \<le> i_length st" "length x \<le> avail_out st" "lz_copy (H @ out_buf st) (i_offset st) (length x) = H @ out_buf st @ x"
  shows "step_ok flush st H fut r (end_match (length x) (Some (out_buf st @ x)) st)"
proof -
  have cm: "i_mode st \<in> code_modes" using m by (simp add: code_modes_def)
  let ?l = "i_length st - length x" and ?m = "if length x = i_length st then LEN else MATCH"
  let ?f = "st\<lparr>out_buf := out_buf st @ x, avail_out := avail_out st - length x, i_length := ?l, i_mode := ?m\<rparr>"
  note st = put_match_step[OF x(2) d(1,3), of lens dlens "rem_bits st @ fut", unfolded x(4)]
  have "good ?f H fut r"
  proof (rule good_code_output[OF g cm t b x(3) refl])
    show "code_side ?f lens dlens" using b d x by (simp add: code_side_def lazy_small Suc_le_eq)
    show "r = finish st (code_rest ?f lens dlens (H @ out_buf st @ x) (rem_bits st @ fut))"
      using r st by (simp add: code_rest_def)
  qed (simp add: code_modes_def)
  moreover have "room ?f < room st" using x by (simp add: room_def)
  moreover have "end_match (length x) (Some (out_buf st @ x)) st = Go ?f" using x(2) m by (auto simp: end_match_def Let_def)
  ultimately show ?thesis using go_reads by metis
qed

lemma do_match_ok:
  assumes g: "good st H fut r" and m: "i_mode st = MATCH"
  shows "step_ok flush st H fut r (do_match st)"
proof -
  let ?h = "H @ out_buf st" and ?o = "i_offset st"
  have cm: "i_mode st \<in> code_modes" using m by (simp add: code_modes_def)
  obtain lens dlens where t: "two_tables st lens dlens" and cs: "code_side st lens dlens"
    and r0: "r = finish st (code_rest st lens dlens ?h (rem_bits st @ fut))"
    by (rule good_code_obtain[OF g cm])
  have r: "r = finish st (match_rest lens dlens ?h (i_length st) ?o (rem_bits st @ fut))" and b: "i_bits st < 8"
    and d: "1 \<le> ?o" "?o \<le> 32768" and len: "1 \<le> i_length st"
    using r0 cs m by (simp_all add: code_rest_def code_side_def)
  have g': "base st H" "win_hist st H" "new_count st = length (out_buf st)" using g cm code_block_modes by (simp_all add: good_def)
  have mem: "win_mem st" and wb: "i_wbits st = 15" and sane: "i_sane st" using g'(1) by (simp_all add: base_def)
  have nc: "i_out st - avail_out st = length (out_buf st)" using g'(3) by (simp add: new_count_def)
  let ?l = "length (out_buf st)"
  note em = end_match_ok[OF g m t b r d]
  show ?thesis
  proof (cases "avail_out st = 0")
    case True
    have "length H + ?l < length out" if o: "r = Some (out, bs)" for out bs
    proof -
      let ?h2 = "lz_copy ?h ?o (i_length st)"
      obtain o1 b1 where p: "decode_data lens dlens ?h2 (rem_bits st @ fut) = Some (o1, b1)" "finish st (Some (o1, b1)) = Some (out, bs)"
        using r o by (auto simp: match_rest_def put_match_def finish_at_def split: option.splits if_splits)
      have "length ?h2 \<le> length out" using decode_data_mono[OF p(1)] finish_mono[OF p(2)] by simp
      then show ?thesis using len by (simp add: lz_copy_length)
    qed
    then show ?thesis using True g m by (simp add: do_match_def step_ok_def may_stop_def)
  next
    case av: False
    show ?thesis
    proof (cases "?o > ?l")
      case False
      let ?n = "min (i_length st) (avail_out st)"
      obtain x where x: "copy_out (out_buf st) ?o ?n = Some (out_buf st @ x)" "length x = ?n" "lz_copy ?h ?o ?n = H @ out_buf st @ x"
        using copy_out_lz[of ?o "out_buf st" ?n H] d False by auto
      have "step_ok flush st H fut r (end_match (length x) (Some (out_buf st @ x)) st)"
        by (rule em) (use x len av False in simp_all)
      moreover have "do_match st = end_match (length x) (Some (out_buf st @ x)) st"
        using x av len False by (auto simp: do_match_def nc Let_def)
      ultimately show ?thesis by simp
    next
      case True
      let ?d = "?o - ?l"
      show ?thesis
      proof (cases "?d > i_whave st")
        case far: True
        have "length H < ?d"
        proof (cases "i_wsize st = 0")
          case True
          then show ?thesis using g'(2) far by (simp add: win_hist_def)
        next
          case False
          have "i_wsize st = 32768" using mem wb False by (simp add: win_mem_def)
          then show ?thesis using g'(2) far d(2) False by (simp add: win_hist_def)
        qed
        then have "\<not> (1 \<le> ?o \<and> ?o \<le> length ?h)" using True by simp
        then have "r = None" using r by (simp add: match_rest_def put_match_def if_not_P del: length_append)
        then have "step_ok flush st H fut r (bad ''invalid distance too far back'' st)"
          using bad_ok[OF g code_block_modes[OF cm]] good_acc[OF g] by (simp add: frame_def)
        then show ?thesis using av True far sane by (simp add: do_match_def nc Let_def)
      next
        case False
        let ?c = "if ?d > i_wnext st then ?d - i_wnext st else ?d"
        define n where "n = min (min ?c (i_length st)) (avail_out st)"
        have dn: "1 \<le> ?d" "?d \<le> i_whave st" "n \<le> ?d" "?d > i_wnext st \<longrightarrow> n \<le> ?d - i_wnext st" "n \<le> i_length st" "n \<le> avail_out st"
          using True False by (auto simp: n_def min_le_iff_disj)
        have n1: "1 \<le> n" using True len av by (auto simp: n_def)
        note w = window_copy[OF mem g'(2) dn(1-4)]
        let ?x = "take n (drop (window_from st ?d) (window_of st))"
        have lx: "length ?x = n" using w(5) by simp
        have lh: "?o \<le> length ?h" using w(3) by simp
        have "n \<le> ?o" using dn(3) by simp
        note lz = lz_copy_take[OF this lh]
        have "drop (length ?h - ?o) ?h = drop (length H - ?d) H @ out_buf st" using True w(3) by simp
        moreover have "take n (drop (length H - ?d) H @ out_buf st) = take n (drop (length H - ?d) H)" using w(3) dn(3) by simp
        ultimately have lz': "lz_copy ?h ?o n = H @ out_buf st @ ?x" unfolding lz w(6) by (simp only: append_assoc)
        have "step_ok flush st H fut r (end_match (length ?x) (Some (out_buf st @ ?x)) st)"
          by (rule em[OF lh]) (simp_all only: lx n1 dn lz')
        moreover have "do_match st = end_match n (Some (out_buf st @ ?x)) st"
        proof -
          have nif: "\<not> (?d > i_wnext st \<and> ?d - i_wnext st > i_wsize st)" "\<not> (n = 0 \<or> window_from st ?d + n > length (window_of st))"
            "\<not> (?d > i_whave st \<and> i_sane st)" "i_offset st > i_out st - avail_out st"
            using w(4,5) n1 False nc True by linarith+
          show ?thesis unfolding do_match_def if_not_P[OF av] Let_def if_P[OF nif(4)] unfolding nc if_not_P[OF nif(3)] w(1) option.case if_not_P[OF nif(1)]
            unfolding window_from_def[symmetric] n_def[symmetric] if_not_P[OF nif(2)] ..
        qed
        ultimately show ?thesis unfolding lx by simp
      qed
    qed
  qed
qed

end
