(* ===== verification/Inflate_Trailer.thy ===== *)
theory Inflate_Trailer
  imports Inflate_Match
begin

text \<open>The modes after the last block, and the step of the whole machine.\<close>

section \<open>The check value\<close>

lemma check_value_Nil: "check_value flags [] = (if flags \<noteq> 0 then crc32 True 0 0 None else adler32 0 None)"
proof -
  have c: "crc32 True 0 0 None = (0 :: uLong)" by (simp add: crc32_def crc32_z_def)
  have a: "adler32 0 None = (1 :: uLong)" by (simp add: adler32_def adler32_z_def)
  show ?thesis unfolding check_value_def crc32_upd_def c a
    using crc64w.upd_Nil[OF crc64w.valid_init] adler64w.upd_Nil[OF adler64w.valid_init] by simp
qed

lemma check_value_append:
  "check_value flags (h @ x) = (if flags \<noteq> 0 then crc32_upd (check_value flags h) x else adler32 (check_value flags h) (Some x))"
proof -
  have c: "crc32 True 0 0 None = (0 :: uLong)" by (simp add: crc32_def crc32_z_def)
  have a: "adler32 0 None = (1 :: uLong)" by (simp add: adler32_def adler32_z_def)
  show ?thesis unfolding check_value_def crc32_upd_def c a
    using crc64w.upd_append[OF crc64w.valid_init] adler64w.upd_append[OF adler64w.valid_init] by simp
qed

lemma check_value_empty: "x = [] \<Longrightarrow> check_value flags (h @ x) = check_value flags h"
  by simp

text \<open>\<open>UPDATE\<close> when there is new output.\<close>

lemma UPDATE_check:
  "i_check st = check_value (i_flags st) h \<Longrightarrow> i_flags st' = i_flags st \<Longrightarrow> UPDATE st' (i_check st) x = check_value (i_flags st) (h @ x)"
  by (simp add: UPDATE_def check_value_append)

section \<open>The trailer\<close>

lemma new_output_all: "new_count st = length (out_buf st) \<Longrightarrow> new_output st = out_buf st"
  by (simp add: new_output_def new_count_def)

text \<open>The state after the accounting in \<open>CHECK\<close>.\<close>

definition counted :: "inflate_state \<Rightarrow> inflate_state" where
  "counted st = (let out = i_out st - avail_out st;
           st = st\<lparr>total_out := total_out st + of_nat out, i_total := i_total st + of_nat out\<rparr>;
           c = UPDATE st (i_check st) (new_output st);
           st = (if i_wrap st AND 4 \<noteq> 0 \<and> out \<noteq> 0 then st\<lparr>z_adler := c, i_check := c\<rparr> else st)
       in st\<lparr>i_out := avail_out st\<rparr>)"

lemma do_check_unfold: "do_check st = (if i_wrap st \<noteq> 0 then need 32 st (\<lambda>st. let st = counted st in
       if i_wrap st AND 4 \<noteq> 0 \<and> (if i_flags st \<noteq> 0 then of_nat (i_hold st) else zswap32 (i_hold st)) \<noteq> i_check st
          then bad ''incorrect data check'' st
          else Go ((INITBITS st)\<lparr>i_mode := LENGTH0\<rparr>))
     else Go (st\<lparr>i_mode := LENGTH0\<rparr>))"
  by (simp only: do_check_def counted_def Let_def)

lemma counted_facts:
  assumes b: "base st H" and n: "new_count st = length (out_buf st)" and w: "i_wrap st \<noteq> 0"
  shows "base (counted st) H" "new_count (counted st) = 0" "i_check (counted st) = check_value (i_flags st) (H @ out_buf st)"
    "rem_bits (counted st) = rem_bits st" "i_bits (counted st) = i_bits st" "i_hold (counted st) = i_hold st" "i_wrap (counted st) = i_wrap st"
    "i_flags (counted st) = i_flags st" "out_buf (counted st) = out_buf st" "room (counted st) = room st" "next_in (counted st) = next_in st"
    "avail_out (counted st) = avail_out st" "i_mode (counted st) = i_mode st"
proof -
  let ?c = "counted st"
  note bs = b[unfolded base_def]
  have w4: "i_wrap st AND 4 \<noteq> 0" using bs w by simp
  have ck: "i_check st = check_value (i_flags st) H" and tot: "i_total st = of_nat (length H)" using bs w n by simp_all
  have nc: "i_out st - avail_out st = length (out_buf st)" using n by (simp add: new_count_def)
  show f: "rem_bits ?c = rem_bits st" "i_bits ?c = i_bits st" "i_hold ?c = i_hold st" "i_wrap ?c = i_wrap st"
    "i_flags ?c = i_flags st" "out_buf ?c = out_buf st" "room ?c = room st" "next_in ?c = next_in st" "avail_out ?c = avail_out st" "i_mode ?c = i_mode st"
    by (simp_all add: counted_def Let_def rem_bits_def hold_bits_def room_def)
  show n0: "new_count ?c = 0" by (simp add: counted_def Let_def new_count_def)
  show ck': "i_check ?c = check_value (i_flags st) (H @ out_buf st)"
  proof (cases "out_buf st = []")
    case True
    then show ?thesis using ck nc by (simp add: counted_def Let_def)
  next
    case False
    let ?s = "st\<lparr>total_out := total_out st + of_nat (length (out_buf st)), i_total := i_total st + of_nat (length (out_buf st))\<rparr>"
    have "i_flags ?s = i_flags st" by simp
    note u = UPDATE_check[OF ck this, of "out_buf st"]
    have "new_output ?s = out_buf st" using nc by (simp add: new_output_def)
    then show ?thesis using u w4 False nc by (simp add: counted_def Let_def)
  qed
  have tot': "i_total ?c = of_nat (length H + length (out_buf st))"
    using tot nc by (simp add: counted_def Let_def)
  have wm: "win_mem ?c = win_mem st" by (simp add: counted_def Let_def win_mem_def window_of_def)
  have "acc_ok ?c" "length (i_lens ?c) = 320" "length (i_work ?c) = 288" "i_wbits ?c = 15" "i_sane ?c" "avail_out ?c \<le> i_out ?c"
    using bs by (simp_all add: counted_def Let_def acc_ok_def)
  moreover have "win_mem ?c" using bs wm by simp
  ultimately show "base ?c H" unfolding base_def using n0 ck' tot' f w4 by simp
qed

lemma trailer_short: "length bs < 32 \<Longrightarrow> w \<noteq> 0 \<Longrightarrow> trailer w f h bs = None"
  by (simp add: trailer_def take_bits_def)

lemma hold_32:
  assumes "acc_ok st" "i_bits st = 32"
  shows "take_bits 32 (rem_bits st @ fut) = Some (i_hold st, bytes_bits (next_in st) @ fut)" "i_hold st < 2 ^ 32"
  using take_rem[OF assms(1), of 32] assms by (simp_all add: acc_ok_def BITS_def DROPBITS_def rem_bits_def hold_bits_def)

lemma good_check_ahead:
  assumes g: "good st H fut r" and m: "i_mode st = CHECK \<or> i_mode st = LENGTH0" and a: "ahead st st'" and b8: "i_bits st' mod 8 = 0"
  shows "good st' H fut r"
proof -
  have f: "i_mode st' = i_mode st" "i_wrap st' = i_wrap st" "i_flags st' = i_flags st" "rem_bits st' = rem_bits st" "acc_ok st'"
    using a by (rule_tac [!] ahead_unfold[OF a]) simp_all
  show ?thesis using g m b8 f frame_facts(1)[OF ahead_frame[OF a] good_base[OF g] f(5)] frame_facts(3,4)[OF ahead_frame[OF a]]
    by (auto simp: good_def block_modes_def)
qed

lemma ahead_mod8:
  assumes "ahead st st'" "i_bits st mod 8 = 0"
  shows "i_bits st' mod 8 = 0"
proof -
  have "i_bits st' + 8 * length (next_in st') = i_bits st + 8 * length (next_in st)" using assms(1) unfolding ahead_def by blast
  then show ?thesis using assms(2) by presburger
qed

lemma do_check_ok:
  assumes g: "good st H fut r" and m: "i_mode st = CHECK"
  shows "step_ok flush st H fut r (do_check st)"
proof -
  let ?h = "H @ out_buf st"
  have b: "base st H" "i_bits st mod 8 = 0" "new_count st = length (out_buf st)"
    and r: "r = trailer (i_wrap st) (i_flags st) ?h (rem_bits st @ fut)" using g m by (simp_all add: good_def block_modes_def)
  have acc: "acc_ok st" by (rule good_acc[OF g])
  show ?thesis
  proof (cases "i_wrap st = 0")
    case True
    let ?f = "st\<lparr>i_mode := LENGTH0\<rparr>"
    have "base ?f H" using frame_facts(1)[of st ?f H] b(1) acc by (simp add: frame_def acc_ok_def)
    then have "good ?f H fut r" using b(2) r True by (simp add: good_def block_modes_def trailer_def length_trailer_def)
    then show ?thesis using go_rank[of ?f H fut r st flush] True m by (simp add: do_check_unfold room_def)
  next
    case False
    show ?thesis unfolding do_check_unfold if_P[OF False]
    proof (rule need_ok[OF acc])
      fix st' assume a: "ahead st st'" and s: "i_bits st' < 32" "next_in st' = []"
      have "length (rem_bits st) < 32" using length_rem[of st'] s a by (simp add: ahead_def)
      then have "fut = [] \<longrightarrow> r = None" using r False trailer_short by simp
      moreover have "i_mode st' = CHECK" by (rule ahead_unfold[OF a]) (simp add: m)
      ultimately show "good st' H fut r \<and> i_mode st' \<noteq> DONE \<and> i_mode st' \<noteq> BAD \<and> (fut = [] \<longrightarrow> r = None)"
        using good_check_ahead[OF g disjI1[OF m] a ahead_mod8[OF a b(2)]] by simp
    next
      fix st' assume a: "ahead st st'" and s: "32 \<le> i_bits st'"
      let ?c = "counted st'"
      have acc': "acc_ok st'" and rb: "rem_bits st' = rem_bits st" using a by (simp_all add: ahead_def)
      have b32: "i_bits st' = 32" using s acc' by (simp add: acc_ok_def)
      note fr = ahead_frame[OF a]
      have b': "base st' H" "new_count st' = length (out_buf st')" "i_wrap st' \<noteq> 0" "i_wrap st' = i_wrap st" "i_flags st' = i_flags st" "out_buf st' = out_buf st"
        using frame_facts(1)[OF fr b(1) acc'] frame_facts(3,4)[OF fr] b(3) False fr by (simp_all add: frame_def)
      note c = counted_facts[OF b'(1-3)]
      note h = hold_32[OF acc' b32]
      have rr: "r = (if (if i_flags st \<noteq> 0 then of_nat (i_hold st') else zswap32 (i_hold st')) = i_check ?c
         then length_trailer (i_wrap st) (i_flags st) ?h (bytes_bits (next_in st') @ fut) else None)"
        using r False h(1)[of fut] rb b' by (simp add: trailer_def c(3))
      have w4: "i_wrap ?c AND 4 \<noteq> 0" using b'(1,3) c(7) by (simp add: base_def)
      have fr_c: "frame ?c (?c\<lparr>msg := ms, i_mode := mo\<rparr>)" "frame ?c ((INITBITS ?c)\<lparr>i_mode := mo\<rparr>)" for ms mo
        by (simp_all add: frame_def INITBITS_def)
      have rm: "room ?c = room st" using c(10) ahead_room[OF a] by simp
      show "step_ok flush st' H fut r (let st = counted st' in
         if i_wrap st AND 4 \<noteq> 0 \<and> (if i_flags st \<noteq> 0 then of_nat (i_hold st) else zswap32 (i_hold st)) \<noteq> i_check st
            then bad ''incorrect data check'' st else Go ((INITBITS st)\<lparr>i_mode := LENGTH0\<rparr>))"
        unfolding step_ok_ahead[OF a] Let_def
      proof (cases "(if i_flags ?c \<noteq> 0 then of_nat (i_hold ?c) else zswap32 (i_hold ?c)) = i_check ?c")
        case True
        let ?f = "(INITBITS ?c)\<lparr>i_mode := LENGTH0\<rparr>"
        have "r = length_trailer (i_wrap st) (i_flags st) ?h (bytes_bits (next_in st') @ fut)"
          using rr True unfolding c(6,8) b'(5) by (simp only: if_True simp_thms)
        moreover have "base ?f H" using frame_facts(1)[OF fr_c(2) c(1)] by (simp add: INITBITS_def acc_ok_def)
        moreover have "new_count ?f = 0" using c(2) by (simp add: new_count_def INITBITS_def)
        ultimately have "good ?f H fut r" using b' c by (simp add: good_def block_modes_def INITBITS_def rem_bits_def hold_bits_def)
        moreover have "room ?f < room st" unfolding rm[symmetric] using b32 c(5) by (simp add: room_def INITBITS_def)
        ultimately show "step_ok flush st H fut r (if i_wrap ?c AND 4 \<noteq> 0 \<and> (if i_flags ?c \<noteq> 0 then of_nat (i_hold ?c) else zswap32 (i_hold ?c)) \<noteq> i_check ?c
            then X else Go ?f)" for X
          using True go_reads by simp
      next
        case False
        let ?f = "?c\<lparr>msg := Some ''incorrect data check'', i_mode := BAD\<rparr>"
        have "r = None" using rr False unfolding c(6,8) b'(5) by (simp only: if_False)
        moreover have "base ?f H" using frame_facts(1)[OF fr_c(1) c(1)] b'(1) c by (simp add: base_def acc_ok_def)
        ultimately have "good ?f H fut r" by (simp add: good_def block_modes_def )
        moreover have "room ?f \<le> room st" unfolding rm[symmetric] by (simp add: room_def)
        ultimately have "step_ok flush st H fut r (bad ''incorrect data check'' ?c)"
          using go_rank[of ?f H fut r st] m by (simp add: bad_def)
        then show "step_ok flush st H fut r (if i_wrap ?c AND 4 \<noteq> 0 \<and> (if i_flags ?c \<noteq> 0 then of_nat (i_hold ?c) else zswap32 (i_hold ?c)) \<noteq> i_check ?c
            then bad ''incorrect data check'' ?c else X)" for X
          using False w4 by simp
      qed
    qed (use b(2) in simp)
  qed
qed

lemma total_matches:
  assumes "n < 2 ^ 32"
  shows "(of_nat n :: uLong) \<noteq> of_nat l AND 0xffffffff \<longleftrightarrow> n \<noteq> l mod 2 ^ 32"
proof -
  have "(of_nat l :: uLong) AND 0xffffffff = take_bit 32 (of_nat l)" by (simp add: take_bit_eq_mask mask_eq_exp_minus_1)
  also have "\<dots> = of_nat (l mod 2 ^ 32)" by (metis of_nat_take_bit take_bit_eq_mod)
  finally have e: "(of_nat l :: uLong) AND 0xffffffff = of_nat (l mod 2 ^ 32)" .
  have "l mod 2 ^ 32 < 2 ^ 64" "n < 2 ^ 64" using assms by (simp_all add: less_trans[OF mod_less_divisor])
  then show ?thesis unfolding e by (auto simp: word_unat_eq_iff unat_of_nat)
qed

end
