(* ===== verification/Inflate_Step_Ok.thy ===== *)
theory Inflate_Step_Ok
  imports Inflate_Trailer
begin

lemma good_done:
  assumes g: "good st H fut r" "frame st st'" "acc_ok st'" "i_mode st' = DONE" "r = Some (H @ out_buf st, rem_bits st' @ fut)"
  shows "good st' H fut r"
  using frame_facts(1)[OF g(2) good_base[OF g(1)] g(3)] frame_facts(4)[OF g(2)] g(4,5) by (simp add: good_def block_modes_def)

lemma do_length_ok:
  assumes g: "good st H fut r" and m: "i_mode st = LENGTH0"
  shows "step_ok flush st H fut r (do_length st)"
proof -
  let ?h = "H @ out_buf st"
  have b: "base st H" "i_bits st mod 8 = 0" and n: "i_wrap st \<noteq> 0 \<Longrightarrow> new_count st = 0"
    and r: "r = length_trailer (i_wrap st) (i_flags st) ?h (rem_bits st @ fut)" using g m by (simp_all add: good_def block_modes_def)
  have acc: "acc_ok st" by (rule good_acc[OF g])
  show ?thesis
  proof (cases "i_wrap st \<noteq> 0 \<and> i_flags st \<noteq> 0")
    case False
    have "good (st\<lparr>i_mode := DONE\<rparr>) H fut r"
      by (rule good_done[OF g]) (use r False acc in \<open>simp_all add: frame_def acc_ok_def length_trailer_def del: de_Morgan_conj\<close>)
    then show ?thesis using go_rank[of "st\<lparr>i_mode := DONE\<rparr>" H fut r st flush] m unfolding do_length_def if_not_P[OF False] by (simp add: room_def)
  next
    case True
    show ?thesis unfolding do_length_def if_P[OF True]
    proof (rule need_ok[OF acc])
      fix st' assume a: "ahead st st'" and s: "i_bits st' < 32" "next_in st' = []"
      have "length (rem_bits st) < 32" using length_rem[of st'] s a by (simp add: ahead_def)
      then have "fut = [] \<longrightarrow> r = None" using r True by (simp add: length_trailer_def take_bits_def)
      moreover have "i_mode st' = LENGTH0" by (rule ahead_unfold[OF a]) (simp add: m)
      ultimately show "good st' H fut r \<and> i_mode st' \<noteq> DONE \<and> i_mode st' \<noteq> BAD \<and> (fut = [] \<longrightarrow> r = None)"
        using good_check_ahead[OF g disjI2[OF m] a ahead_mod8[OF a b(2)]] by simp
    next
      fix st' assume a: "ahead st st'" and s: "32 \<le> i_bits st'"
      have acc': "acc_ok st'" and rb: "rem_bits st' = rem_bits st" using a by (simp_all add: ahead_def)
      have b32: "i_bits st' = 32" using s acc' by (simp add: acc_ok_def)
      note h = hold_32[OF acc' b32]
      note fr = ahead_frame[OF a]
      have rr: "r = (if i_hold st' = length ?h mod 2 ^ 32 then Some (?h, bytes_bits (next_in st') @ fut) else None)"
        using r True h(1)[of fut] rb by (simp add: length_trailer_def)
      have "i_total st' = of_nat (length ?h)" using b(1) n True fr by (simp add: base_def frame_def)
      then have tm: "of_nat (i_hold st') \<noteq> i_total st' AND 0xffffffff \<longleftrightarrow> i_hold st' \<noteq> length ?h mod 2 ^ 32"
        using total_matches[OF h(2), of "length ?h"] by simp
      have rm: "room st' = room st" by (rule ahead_room[OF a])
      show "step_ok flush st' H fut r (if of_nat (i_hold st') \<noteq> i_total st' AND 0xffffffff then bad ''incorrect length check'' st'
         else Go ((INITBITS st')\<lparr>i_mode := DONE\<rparr>))"
        unfolding step_ok_ahead[OF a] tm
      proof (cases "i_hold st' = length ?h mod 2 ^ 32")
        case True
        let ?f = "(INITBITS st')\<lparr>i_mode := DONE\<rparr>"
        have "good ?f H fut r"
          by (rule good_done[OF g]) (use rr True fr in \<open>simp_all add: frame_def INITBITS_def acc_ok_def rem_bits_def hold_bits_def\<close>)
        moreover have "room ?f < room st" unfolding rm[symmetric] using b32 by (simp add: room_def INITBITS_def)
        ultimately show "step_ok flush st H fut r (if i_hold st' \<noteq> length ?h mod 2 ^ 32 then X else Go ?f)" for X
          using True go_reads by simp
      next
        case False
        let ?f = "st'\<lparr>msg := Some ''incorrect length check'', i_mode := BAD\<rparr>"
        have "r = None" using rr False by simp
        then have "good ?f H fut r"
          by (intro good_bad[OF g]) (use fr acc' in \<open>simp_all add: frame_def acc_ok_def \<close>)
        moreover have "room ?f \<le> room st" unfolding rm[symmetric] by (simp add: room_def)
        ultimately have "step_ok flush st H fut r (bad ''incorrect length check'' st')"
          using go_rank[of ?f H fut r st] m by (simp add: bad_def)
        then show "step_ok flush st H fut r (if i_hold st' \<noteq> length ?h mod 2 ^ 32 then bad ''incorrect length check'' st' else X)" for X
          using False by simp
      qed
    qed (use b(2) in simp)
  qed
qed

end
