(* ===== verification/Inflate_Copy.thy ===== *)
theory Inflate_Copy
  imports Inflate_Step_Ok
begin

text \<open>
  Copying a match in the fast loop: whatever the case of window and output, the bytes are those of
  the format's copy of the history.
\<close>

section \<open>Copying byte by byte\<close>

primrec copy_n :: "inflate_state \<Rightarrow> nat \<Rightarrow> copy_src \<times> fast \<Rightarrow> (copy_src \<times> fast) option" where
  "copy_n st 0 x = Some x"
| "copy_n st (Suc n) x = do { x \<leftarrow> copy1 st x; copy_n st n x }"

lemma copy_n_add: "copy_n st (m + n) x = do { x \<leftarrow> copy_n st m x; copy_n st n x }"
  by (induction m arbitrary: x) (simp_all split: bind_splits)

lemma copy_n_3: "3 \<le> n \<Longrightarrow> copy_n st n x = do { x \<leftarrow> copy1 st x; x \<leftarrow> copy1 st x; x \<leftarrow> copy1 st x; copy_n st (n - 3) x }"
proof -
  assume "3 \<le> n"
  then have "n = Suc (Suc (Suc (n - 3)))" by simp
  then have "copy_n st n x = copy_n st (Suc (Suc (Suc (n - 3)))) x" by (rule arg_cong)
  then show ?thesis by (simp only: copy_n.simps)
qed

lemma copy_do_n: "1 \<le> n \<Longrightarrow> copy_do st n x = copy_n st n x"
proof (induction n arbitrary: x)
  case (Suc n)
  show ?case
  proof (cases "n = 0")
    case True
    then show ?thesis by simp
  next
    case False
    then have "copy_do st n y = copy_n st n y" for y using Suc.IH[of y] by simp
    then show ?thesis using False by simp
  qed
qed simp

lemma copy_rest_n: "n \<le> 2 \<Longrightarrow> copy_rest st n x = copy_n st n x"
  by (auto simp: copy_rest_def le_Suc_eq numeral_2_eq_2 split: bind_splits)

lemma copy3_rest_n: "do { (n, x) \<leftarrow> copy3_while st n x; copy_rest st n x } = copy_n st n x"
proof (induction n arbitrary: x rule: less_induct)
  case (less n)
  show ?case
  proof (cases "n > 2")
    case False
    then show ?thesis using copy_rest_n by (subst copy3_while.simps) simp
  next
    case True
    have IH: "do { (n, x) \<leftarrow> copy3_while st (n - 3) x; copy_rest st n x } = copy_n st (n - 3) x" for x
      using less[of "n - 3" x] True by simp
    show ?thesis using True IH by (subst copy3_while.simps) (simp add: copy_n_3 split: bind_splits)
  qed
qed

lemma copy_direct_n: "3 \<le> n \<Longrightarrow> copy_direct st n x = copy_n st n x"
  using copy3_rest_n[of st "n - 3"] by (simp add: copy_direct_def copy_n_3)

text \<open>From the window, and from the output.\<close>

definition add_out :: "fast \<Rightarrow> byte list \<Rightarrow> fast" where
  "add_out f x = f\<lparr>f_out := f_out f @ x\<rparr>"

lemma add_out_fields [simp]: "f_out (add_out f x) = f_out f @ x" "f_in (add_out f x) = f_in f" "f_hold (add_out f x) = f_hold f" "f_bits (add_out f x) = f_bits f"
    "add_out (add_out f x) y = add_out f (x @ y)" "add_out f [] = f"
  by (simp_all add: add_out_def)

definition fits :: "inflate_state \<Rightarrow> fast \<Rightarrow> nat \<Rightarrow> bool" where
  "fits st f n \<longleftrightarrow> length (f_out f) + n \<le> length (out_buf st) + avail_out st"

lemma fits_add: "fits st (add_out f x) n \<longleftrightarrow> fits st f (length x + n)"
  by (simp add: fits_def add.assoc)

lemma fast_put_ok: "fits st f 1 \<Longrightarrow> fast_put st b f = Some (add_out f [b])"
  by (simp add: fast_put_def fits_def add_out_def)

lemma fits_less: "fits st f n \<Longrightarrow> m \<le> n \<Longrightarrow> fits st f m"
  by (simp add: fits_def)

lemma copy_window:
  assumes "i_window st = Some w" "p + n \<le> length w" "fits st f n"
  shows "copy_n st n (From_window p, f) = Some (From_window (p + n), add_out f (take n (drop p w)))"
  using assms(2,3)
proof (induction n arbitrary: p f)
  case (Suc n)
  have p: "p < length w" "p + 1 + n \<le> length w" using Suc.prems by simp_all
  have "fits st f 1" using Suc.prems(2) by (rule fits_less) simp
  then have c: "copy1 st (From_window p, f) = Some (From_window (p + 1), add_out f [w ! p])"
    using p assms(1) by (simp add: copy1_def fast_put_ok)
  have d: "take (Suc n) (drop p w) = w ! p # take n (drop (p + 1) w)"
    unfolding Cons_nth_drop_Suc[OF p(1), symmetric] by simp
  have "fits st (add_out f [w ! p]) n" using Suc.prems(2) by (simp add: fits_add)
  from Suc.IH[OF p(2) this] show ?case unfolding d using c by simp
qed simp

lemma copy_from_out:
  assumes "1 \<le> dist" "dist \<le> length (f_out f)" "fits st f n"
  shows "\<exists>x. copy_n st n (From_out (length (f_out f) - dist), f) = Some (From_out (length (f_out f) - dist + n), add_out f x)
     \<and> length x = n \<and> lz_copy (H @ f_out f) dist n = H @ f_out f @ x"
  using assms(2,3)
proof (induction n arbitrary: f)
  case (Suc n)
  let ?p = "length (f_out f) - dist"
  let ?b = "f_out f ! ?p"
  have p: "?p < length (f_out f)" using Suc.prems assms(1) by simp
  have "fits st f 1" using Suc.prems(2) by (rule fits_less) simp
  then have c: "copy1 st (From_out ?p, f) = Some (From_out (?p + 1), add_out f [?b])"
    using p by (simp add: copy1_def fast_put_ok)
  have l: "length (f_out (add_out f [?b])) - dist = ?p + 1" using Suc.prems(1) by simp
  have "fits st (add_out f [?b]) n" "dist \<le> length (f_out (add_out f [?b]))" using Suc.prems by (simp_all add: fits_add)
  from Suc.IH[OF this(2,1)] obtain x where x: "copy_n st n (From_out (?p + 1), add_out f [?b]) = Some (From_out (?p + 1 + n), add_out f (?b # x))"
    "length x = n" "lz_copy (H @ f_out f @ [?b]) dist n = H @ f_out f @ ?b # x"
    unfolding l by auto
  have "length (H @ f_out f) - dist = length H + ?p" using Suc.prems by simp
  then have "(H @ f_out f) ! (length (H @ f_out f) - dist) = ?b" by (simp only: nth_append_length_plus)
  then show ?case using x c by (intro exI[of _ "?b # x"]) simp
qed (simp add: exI[of _ "[]"])

lemma copy_from_window:
  assumes mem: "win_mem st" and w: "win_hist st H" and l: "length (f_out f) < dist" "dist - length (f_out f) \<le> i_whave st"
    and n: "n \<le> dist - length (f_out f)" "dist - length (f_out f) > i_wnext st \<longrightarrow> n \<le> dist - length (f_out f) - i_wnext st" "fits st f n"
  shows "\<exists>x. copy_n st n (From_window (window_from st (dist - length (f_out f))), f) = Some (From_window (window_from st (dist - length (f_out f)) + n), add_out f x)
     \<and> length x = n \<and> lz_copy (H @ f_out f) dist n = H @ f_out f @ x"
proof -
  let ?d = "dist - length (f_out f)" and ?w = "window_of st"
  have d1: "1 \<le> ?d" using l by simp
  note wc = window_copy[OF mem w d1 l(2) n(1,2)]
  let ?x = "take n (drop (window_from st ?d) ?w)"
  have lh: "dist \<le> length (H @ f_out f)" and nd: "n \<le> dist" using wc(3) n(1) by simp_all
  have "drop (length (H @ f_out f) - dist) (H @ f_out f) = drop (length H - ?d) H @ f_out f" using l wc(3) by simp
  moreover have "take n (drop (length H - ?d) H @ f_out f) = take n (drop (length H - ?d) H)" using wc(3) n(1) by simp
  ultimately have "lz_copy (H @ f_out f) dist n = H @ f_out f @ ?x"
    unfolding lz_copy_take[OF nd lh] wc(6) by (simp only: append_assoc)
  moreover have "length ?x = n" using wc(5) by simp
  ultimately show ?thesis using copy_window[OF wc(1,5) n(3)] by blast
qed

section \<open>A match\<close>

text \<open>The bytes added are those of the copy of \<open>n\<close> bytes from \<open>dist\<close> bytes back.\<close>

definition copied :: "byte list \<Rightarrow> nat \<Rightarrow> nat \<Rightarrow> fast \<Rightarrow> fast \<Rightarrow> bool" where
  "copied H dist n f f' \<longleftrightarrow> (\<exists>x. f' = add_out f x \<and> length x = n \<and> lz_copy (H @ f_out f) dist n = H @ f_out f @ x)"

lemma copied_trans: "copied H dist m f g \<Longrightarrow> copied H dist n g h \<Longrightarrow> copied H dist (m + n) f h"
  unfolding copied_def by (auto simp: lz_copy_add)

lemma copied_length: "copied H dist n f g \<Longrightarrow> length (f_out g) = length (f_out f) + n"
  by (auto simp: copied_def)

lemma copied_fits: "copied H dist n f g \<Longrightarrow> fits st f (n + m) \<Longrightarrow> fits st g m"
  by (auto simp: copied_def fits_add)

lemma copied_out:
  assumes "1 \<le> dist" "dist \<le> length (f_out f)" "fits st f n"
  obtains src f' where "copy_n st n (From_out (length (f_out f) - dist), f) = Some (src, f')" "copied H dist n f f'"
  using copy_from_out[OF assms, of H] unfolding copied_def by blast

lemma copied_window:
  assumes "win_mem st" "win_hist st H" "length (f_out f) < dist" "dist - length (f_out f) \<le> i_whave st"
    "n \<le> dist - length (f_out f)" "dist - length (f_out f) > i_wnext st \<longrightarrow> n \<le> dist - length (f_out f) - i_wnext st" "fits st f n"
    and p: "p = window_from st (dist - length (f_out f))"
  obtains src f' where "copy_n st n (From_window p, f) = Some (src, f')" "copied H dist n f f'"
  using copy_from_window[OF assms(1-7)] unfolding p copied_def by blast

text \<open>The pointer for the rest of the copy, and the copy.\<close>

definition part_rest :: "inflate_state \<Rightarrow> (nat \<times> copy_src \<times> fast) option \<Rightarrow> (copy_src \<times> fast) option" where
  "part_rest st y = do { (n, x) \<leftarrow> y; copy_n st n x }"

text \<open>After the bytes from the window, the copy goes on in the output.\<close>

lemma part_out:
  assumes c: "copied H dist d f g" and d: "length (f_out f) + d = dist" "1 \<le> dist" and f: "fits st f (d + n)"
  obtains src h where "part_rest st (if dist > length (f_out g) then None else Some (n, From_out (length (f_out g) - dist), g)) = Some (src, h)" "copied H dist (d + n) f h"
proof -
  have l: "dist \<le> length (f_out g)" using copied_length[OF c] d by simp
  obtain src h where h: "copy_n st n (From_out (length (f_out g) - dist), g) = Some (src, h)" "copied H dist n g h"
    by (rule copied_out[OF d(2) l copied_fits[OF c f]])
  show thesis using that[OF _ copied_trans[OF c h(2)], of src] h(1) l by (simp add: part_rest_def)
qed

lemma window_part_ok:
  assumes mem: "win_mem st" and w: "win_hist st H" and d: "length (f_out f) < dist" "dist - length (f_out f) \<le> i_whave st"
    and len: "1 \<le> len" "fits st f len"
  obtains src f' where "part_rest st (window_part st (dist - length (f_out f)) dist len f) = Some (src, f')" "copied H dist len f f'"
proof -
  let ?d = "dist - length (f_out f)" and ?x = "i_wnext st" and ?s = "i_wsize st"
  have d1: "1 \<le> ?d" "1 \<le> dist" "length (f_out f) + ?d = dist" using d by simp_all
  note wc = window_copy[OF mem w d1(1) d(2) le0 impI[OF le0]]
  have xs: "?x < ?s" and ds: "?d \<le> ?s" using mem wc(2) d(2) by (auto simp: win_mem_def)
  show thesis
  proof (cases "?d > ?x")
    case False
    have frm: "?x - ?d = window_from st ?d" using False by (simp add: window_from_def)
    have x0: "?x \<noteq> 0" "\<not> ?x < ?d" using False d1 by simp_all
    show thesis
    proof (cases "?d < len")
      case True
      have fd: "fits st f ?d" using len(2) True by (auto intro: fits_less)
      obtain src g where g: "copy_n st ?d (From_window (?x - ?d), f) = Some (src, g)" "copied H dist ?d f g"
        by (rule copied_window[OF mem w d _ _ fd frm]) (use False in simp_all)
      obtain src h where h: "part_rest st (if dist > length (f_out g) then None else Some (len - ?d, From_out (length (f_out g) - dist), g)) = Some (src, h)"
          "copied H dist (?d + (len - ?d)) f h"
        by (rule part_out[OF g(2) d1(3,2), of st "len - ?d"]) (use len True in simp_all)
      show thesis by (rule that[of src h]) (use h g True x0 d1 in \<open>simp_all add: window_part_def copy_do_n del: if_split\<close>)
    next
      case lt: False
      obtain src g where g: "copy_n st len (From_window (?x - ?d), f) = Some (src, g)" "copied H dist len f g"
        by (rule copied_window[OF mem w d _ _ len(2) frm]) (use False lt in simp_all)
      show thesis by (rule that[of src g]) (use g lt x0 in \<open>simp_all add: window_part_def part_rest_def\<close>)
    qed
  next
    case True
    have frm: "?s + ?x - ?d = window_from st ?d" using True ds by (simp add: window_from_def)
    show thesis
    proof (cases "?d - ?x < len")
      case False
      obtain src g where g: "copy_n st len (From_window (?s + ?x - ?d), f) = Some (src, g)" "copied H dist len f g"
        by (rule copied_window[OF mem w d _ _ len(2) frm]) (use False in simp_all)
      show thesis by (rule that[of src g]) (use g False True ds xs in \<open>auto simp: window_part_def part_rest_def Let_def\<close>)
    next
      case lt: True
      have fl: "fits st f (?d - ?x)" using len(2) lt by (auto intro: fits_less)
      obtain src g where g: "copy_n st (?d - ?x) (From_window (?s + ?x - ?d), f) = Some (src, g)" "copied H dist (?d - ?x) f g"
        by (rule copied_window[OF mem w d _ _ fl frm]) (use True in simp_all)
      have lg: "length (f_out g) = dist - ?x" using copied_length[OF g(2)] True d1 by simp
      have g1: "copy_do st (?d - ?x) (From_window (?s + ?x - ?d), f) = Some (src, g)" using g(1) True by (simp add: copy_do_n)
      let ?n = "len - (?d - ?x)"
      have fg: "fits st g ?n" by (rule copied_fits[OF g(2)]) (use len lt in simp)
      show thesis
      proof (cases "?x = 0")
        case x0: True
        obtain src h where h: "part_rest st (if dist > length (f_out g) then None else Some (?n, From_out (length (f_out g) - dist), g)) = Some (src, h)"
            "copied H dist (?d - ?x + ?n) f h"
          by (rule part_out[OF g(2) _ d1(2), of st ?n]) (use len lt d1 x0 in simp_all)
        show thesis by (rule that[of src h]) (use h[unfolded x0 diff_zero] g1[unfolded x0 diff_zero] lt x0 ds in \<open>simp_all del: if_split add: window_part_def\<close>)
      next
        case x1: False
        have dg: "length (f_out g) < dist" "dist - length (f_out g) \<le> i_whave st" "dist - length (f_out g) = ?x" using lg x1 d True by simp_all
        have fr: "0 = window_from st (dist - length (f_out g))" unfolding dg(3) by (simp add: window_from_def)
        have pre: "\<not> ?s + ?x < ?d" using ds by simp
        show thesis
        proof (cases "?x < ?n")
          case False
          obtain src h where h: "copy_n st ?n (From_window 0, g) = Some (src, h)" "copied H dist ?n g h"
            by (rule copied_window[OF mem w dg(1,2) _ _ fg fr]) (use dg(3) False in simp_all)
          have c: "copied H dist (?d - ?x + ?n) f h" by (rule copied_trans[OF g(2) h(2)])
          have "part_rest st (window_part st ?d dist len f) = Some (src, h)"
            unfolding window_part_def if_not_P[OF x1] if_P[OF True] if_not_P[OF pre] Let_def if_P[OF lt] g1
            using False h(1) by (simp add: part_rest_def)
          then show thesis using that c lt by simp
        next
          case n: True
          have fx: "fits st g ?x" by (rule fits_less[OF fg]) (use n in simp)
          obtain src h where h: "copy_n st ?x (From_window 0, g) = Some (src, h)" "copied H dist ?x g h"
            by (rule copied_window[OF mem w dg(1,2) _ _ fx fr]) (use dg(3) in simp_all)
          have c: "copied H dist (?d - ?x + ?x) f h" by (rule copied_trans[OF g(2) h(2)])
          obtain src' k where k: "part_rest st (if dist > length (f_out h) then None else Some (?n - ?x, From_out (length (f_out h) - dist), h)) = Some (src', k)"
            "copied H dist (?d - ?x + ?x + (?n - ?x)) f k"
            by (rule part_out[OF c _ d1(2), of st "?n - ?x"]) (use len lt d1 True n in simp_all)
          have "part_rest st (window_part st ?d dist len f) = Some (src', k)"
            unfolding window_part_def if_not_P[OF x1] if_P[OF True] if_not_P[OF pre] Let_def if_P[OF lt] g1
            using n h(1) k(1) x1 by (simp add: copy_do_n del: if_split)
          moreover have "?d - ?x + ?x + (?n - ?x) = len" using lt n True by simp
          ultimately show thesis using that k(2) by simp
        qed
      qed
    qed
  qed
qed

text \<open>The end of a distance code: the copy is that of the format, or the distance is too far back.\<close>

lemma fast_match_ok:
  assumes mem: "win_mem st" and w: "win_hist st H" and wb: "i_wbits st = 15" "i_sane st" and nc: "new_count st = length (out_buf st)"
    and o: "length (out_buf st) \<le> length (f_out f)" and len: "3 \<le> len" "fits st f len" and dist: "1 \<le> dist" "dist \<le> 32768"
  shows "dist \<le> length (H @ f_out f) \<Longrightarrow> \<exists>f'. fast_match st len dist f = Some (Next f') \<and> copied H dist len f f'"
    and "length (H @ f_out f) < dist \<Longrightarrow> fast_match st len dist f = Some (Halt f BAD (Some ''invalid distance too far back''))"
proof -
  let ?l = "length (f_out f)"
  have op: "?l - length (out_buf st) + (i_out st - avail_out st) = ?l" using o nc by (simp add: new_count_def)
  have wh: "i_whave st \<le> length H" "length H < 32768 \<Longrightarrow> i_whave st = length H" "32768 \<le> length H \<Longrightarrow> i_whave st = 32768"
    using w mem wb(1) by (auto simp: win_hist_def win_mem_def split: if_splits)
  show "\<exists>f'. fast_match st len dist f = Some (Next f') \<and> copied H dist len f f'" if d: "dist \<le> length (H @ f_out f)"
  proof (cases "dist > ?l")
    case False
    then have "dist \<le> ?l" by simp
    then obtain src f' where f': "copy_n st len (From_out (?l - dist), f) = Some (src, f')" "copied H dist len f f'"
      using copied_out[OF dist(1) _ len(2), of H] by blast
    then have "fast_match st len dist f = Some (Next f')"
      using False len(1) unfolding fast_match_def op by (simp add: copy_direct_n)
    then show ?thesis using f'(2) by blast
  next
    case True
    have dw: "dist - ?l \<le> i_whave st" using d wh dist(2) by (cases "length H < 32768") auto
    have l1: "1 \<le> len" using len(1) by simp
    obtain src f' where f': "part_rest st (window_part st (dist - ?l) dist len f) = Some (src, f')" "copied H dist len f f'"
      by (rule window_part_ok[OF mem w True dw l1 len(2)])
    have "do { (n, x) \<leftarrow> window_part st (dist - ?l) dist len f; (n, x) \<leftarrow> copy3_while st n x; copy_rest st n x } = Some (src, f')"
      using f'(1) unfolding part_rest_def copy3_rest_n .
    then obtain n1 x1 n2 x2 where "window_part st (dist - ?l) dist len f = Some (n1, x1)" "copy3_while st n1 x1 = Some (n2, x2)"
        "copy_rest st n2 x2 = Some (src, f')"
      by (cases "window_part st (dist - ?l) dist len f") (auto split: bind_splits prod.splits)
    then have "fast_match st len dist f = Some (Next f')"
      using True dw unfolding fast_match_def op by (simp add: Let_def)
    then show ?thesis using f'(2) by blast
  qed
  show "fast_match st len dist f = Some (Halt f BAD (Some ''invalid distance too far back''))" if d: "length (H @ f_out f) < dist"
  proof -
    have "dist > ?l" "dist - ?l > i_whave st \<and> i_sane st" using d wh(1) wb by simp_all
    then show ?thesis unfolding fast_match_def op by (simp add: Let_def)
  qed
qed

end
