(* ===== verification/Inflate_Fast.thy ===== *)
theory Inflate_Fast
  imports Inflate_Copy
begin

text \<open>
  The fast loop: its rounds decode one symbol each, as the format's decoder does, and never read or
  write out of bounds.  Input and output are sufficient for a round by counting bits.
\<close>

section \<open>The stream of the fast loop\<close>

definition at_fast :: "inflate_state \<Rightarrow> fast \<Rightarrow> inflate_state" where
  "at_fast st f = st\<lparr>next_in := drop (f_in f) (next_in st), i_hold := f_hold f, i_bits := f_bits f\<rparr>"

abbreviation fast_rem :: "inflate_state \<Rightarrow> fast \<Rightarrow> bool list" where
  "fast_rem st f \<equiv> rem_bits (at_fast st f)"

definition fast_ok :: "inflate_state \<Rightarrow> fast \<Rightarrow> bool" where
  "fast_ok st f \<longleftrightarrow> acc_ok (at_fast st f) \<and> f_in f \<le> length (next_in st)"

definition fdrop :: "nat \<Rightarrow> fast \<Rightarrow> fast" where
  "fdrop n f = f\<lparr>f_hold := f_hold f div 2 ^ n, f_bits := f_bits f - n\<rparr>"

lemma fdrop_fields [simp]: "f_in (fdrop n f) = f_in f" "f_out (fdrop n f) = f_out f" "f_bits (fdrop n f) = f_bits f - n"
    "f_hold (fdrop n f) = f_hold f div 2 ^ n"
  by (simp_all add: fdrop_def)

lemma at_fast_fields [simp]: "i_hold (at_fast st f) = f_hold f" "i_bits (at_fast st f) = f_bits f" "next_in (at_fast st f) = drop (f_in f) (next_in st)"
  by (simp_all add: at_fast_def)

lemma at_fast_drop: "at_fast st (fdrop n f) = DROPBITS n (at_fast st f)"
  by (simp add: at_fast_def DROPBITS_def)

lemma fast_drop_ok: "n \<le> f_bits f \<Longrightarrow> fast_drop n f = Some (fdrop n f)"
  by (simp add: fast_drop_def fdrop_def)

lemma fdrop_twice: "fdrop m (fdrop n f) = fdrop (n + m) f"
  by (simp add: fdrop_def power_add div_mult2_eq)

lemma fdrop_rem:
  assumes "fast_ok st f" "n \<le> f_bits f"
  shows "fast_ok st (fdrop n f)" "fast_rem st f = bits_of n (f_hold f) @ fast_rem st (fdrop n f)"
    "take_bits n (fast_rem st f @ fut) = Some (f_hold f mod 2 ^ n, fast_rem st (fdrop n f) @ fut)"
    "length (fast_rem st f) = n + length (fast_rem st (fdrop n f))"
proof -
  have a: "acc_ok (at_fast st f)" and b: "n \<le> i_bits (at_fast st f)" using assms by (simp_all add: fast_ok_def)
  note d = drop_rem[OF a b]
  show "fast_ok st (fdrop n f)" using d(2) assms(1) by (simp add: fast_ok_def at_fast_drop)
  show r: "fast_rem st f = bits_of n (f_hold f) @ fast_rem st (fdrop n f)" using d(1) by (simp add: at_fast_drop)
  show "take_bits n (fast_rem st f @ fut) = Some (f_hold f mod 2 ^ n, fast_rem st (fdrop n f) @ fut)"
    using take_rem[OF a b] by (simp add: at_fast_drop BITS_def)
  show "length (fast_rem st f) = n + length (fast_rem st (fdrop n f))" unfolding r by simp
qed

lemma fast_rem_length: "fast_ok st f \<Longrightarrow> length (fast_rem st f) = f_bits f + 8 * (length (next_in st) - f_in f)"
  by (simp add: length_rem)

text \<open>Reading ahead.\<close>

definition fahead :: "inflate_state \<Rightarrow> fast \<Rightarrow> fast \<Rightarrow> bool" where
  "fahead st f f' \<longleftrightarrow> ahead (at_fast st f) (at_fast st f') \<and> fast_ok st f' \<and> f_out f' = f_out f"

lemma fahead_refl: "fast_ok st f \<Longrightarrow> fahead st f f"
  by (simp add: fahead_def ahead_refl fast_ok_def)

lemma fahead_trans: "fahead st f g \<Longrightarrow> fahead st g h \<Longrightarrow> fahead st f h"
  unfolding fahead_def using ahead_trans by metis

lemma fahead_facts: "fahead st f f' \<Longrightarrow> fast_ok st f' \<and> fast_rem st f' = fast_rem st f \<and> f_out f' = f_out f"
  by (simp add: fahead_def ahead_def)

lemma fast_byte_ok:
  assumes f: "fast_ok st f" "f_bits f \<le> 24" and n: "f_bits f < length (fast_rem st f)"
  obtains f' where "fast_byte st f = Some f'" "fahead st f f'" "f_bits f' = f_bits f + 8"
proof -
  have l: "f_in f < length (next_in st)" using n fast_rem_length[OF f(1)] by simp
  let ?b = "next_in st ! f_in f"
  let ?f = "f\<lparr>f_in := f_in f + 1, f_hold := (f_hold f + unat ?b * 2 ^ f_bits f) mod 2 ^ 64, f_bits := f_bits f + 8\<rparr>"
  have d: "drop (f_in f) (next_in st) = ?b # drop (f_in f + 1) (next_in st)" using Cons_nth_drop_Suc[OF l] by simp
  have "fast_byte st f = Some ?f" using l by (simp add: fast_byte_def)
  moreover have "PULLBYTE (at_fast st f) = Some (at_fast st ?f)"
    unfolding PULLBYTE_def by (simp add: d) (simp add: at_fast_def)
  then have "ahead (at_fast st f) (at_fast st ?f)" by (rule pull_ahead(1)[rotated 2]) (use f in \<open>simp_all add: fast_ok_def\<close>)
  then have "fahead st f ?f" using l by (simp add: fahead_def fast_ok_def ahead_def)
  ultimately show thesis using that by simp
qed

lemma fast_15_ok:
  assumes f: "fast_ok st f" and n: "23 \<le> length (fast_rem st f)"
  obtains f' where "fast_15 st f = Some f'" "fahead st f f'" "15 \<le> f_bits f'"
proof (cases "f_bits f < 15")
  case False
  then show thesis using that[of f] fahead_refl[OF f] by (simp add: fast_15_def)
next
  case True
  obtain g where g: "fast_byte st f = Some g" "fahead st f g" "f_bits g = f_bits f + 8"
    by (rule fast_byte_ok[OF f]) (use True n in simp_all)
  note gf = fahead_facts[OF g(2)]
  obtain h where h: "fast_byte st g = Some h" "fahead st g h" "f_bits h = f_bits g + 8"
    by (rule fast_byte_ok[of st g]) (use True n gf g(3) in simp_all)
  show thesis using that[of h] g h True fahead_trans[OF g(2) h(2)] by (simp add: fast_15_def)
qed

text \<open>The extra bits of a length, and of a distance.\<close>

lemma fast_extra1:
  assumes f: "fast_ok st f" and n: "ex \<le> length (fast_rem st f)" "ex \<le> 8"
  obtains f' where "(if ex \<noteq> 0 \<and> f_bits f < ex then fast_byte st f else Some f) = Some f'" "fahead st f f'" "ex \<le> f_bits f'"
proof (cases "f_bits f < ex")
  case False
  then show thesis using that[of f] fahead_refl[OF f] by simp
next
  case True
  obtain g where g: "fast_byte st f = Some g" "fahead st f g" "f_bits g = f_bits f + 8"
    by (rule fast_byte_ok[OF f]) (use True n in simp_all)
  show thesis using that[of g] g True n by simp
qed

lemma fast_extra2:
  assumes f: "fast_ok st f" and n: "ex \<le> length (fast_rem st f)" "ex \<le> 16"
  obtains f' where "(if f_bits f < ex then do { f \<leftarrow> fast_byte st f; if f_bits f < ex then fast_byte st f else Some f } else Some f) = Some f'"
    "fahead st f f'" "ex \<le> f_bits f'"
proof (cases "f_bits f < ex")
  case False
  then show thesis using that[of f] fahead_refl[OF f] by simp
next
  case True
  obtain g where g: "fast_byte st f = Some g" "fahead st f g" "f_bits g = f_bits f + 8"
    by (rule fast_byte_ok[OF f]) (use True n in simp_all)
  note gf = fahead_facts[OF g(2)]
  show thesis
  proof (cases "f_bits g < ex")
    case False
    then show thesis using that[of g] g True by simp
  next
    case lt: True
    obtain h where h: "fast_byte st g = Some h" "fahead st g h" "f_bits h = f_bits g + 8"
      by (rule fast_byte_ok[of st g]) (use lt n gf in simp_all)
    show thesis using that[of h] g h True lt fahead_trans[OF g(2) h(2)] n by simp
  qed
qed

section \<open>The tables\<close>

lemma lookup_cases:
  assumes tab: "table_ok type lens (ptr_tab st p) root"
  obtains (invalid) "tab_rd st p (t mod 2 ^ root) = Some \<lparr>code_op = 64, code_bits = 1, code_val = 0\<rparr>" "\<forall>s. \<not> sym_matches lens t s"
  | (direct) s e where "sym_matches lens t s" "tab_rd st p (t mod 2 ^ root) = Some e" "ok_entry type s (lens ! s) e"
  | (link) s e e2 where "sym_matches lens t s" "tab_rd st p (t mod 2 ^ root) = Some e" "is_link e" "code_bits e = root" "root < lens ! s"
      "tab_rd st p (code_val e + t div 2 ^ root mod 2 ^ code_op e) = Some e2" "ok_entry type s (lens ! s - root) e2"
proof -
  let ?t = "ptr_tab st p"
  note i = tab[unfolded table_ok_def]
  have "t mod 2 ^ root < 2 ^ root" by simp
  then have ix: "t mod 2 ^ root < length ?t" using i by linarith
  then have e: "tab_rd st p (t mod 2 ^ root) = Some (?t ! (t mod 2 ^ root))" by (simp add: tab_rd_ptr)
  show thesis
  proof (cases "\<exists>s. sym_matches lens t s")
    case False
    then have "?t ! (t mod 2 ^ root) = \<lparr>code_op = 64, code_bits = 1, code_val = 0\<rparr>" using i by blast
    then show thesis using invalid e False by simp
  next
    case True
    then obtain s where m: "sym_matches lens t s" by blast
    have f: "table_finds type lens ?t root t s" using i m by blast
    show thesis
    proof (cases "lens ! s \<le> root")
      case True
      then show thesis using direct[OF m e] f by (simp add: table_finds_def Let_def)
    next
      case False
      let ?e = "?t ! (t mod 2 ^ root)"
      have k: "is_link ?e" "code_bits ?e = root" "code_val ?e + 2 ^ code_op ?e \<le> length ?t"
        "ok_entry type s (lens ! s - root) (?t ! (code_val ?e + t div 2 ^ root mod 2 ^ code_op ?e))"
        using f False by (simp_all add: table_finds_def Let_def)
      have "t div 2 ^ root mod 2 ^ code_op ?e < 2 ^ code_op ?e" by simp
      then have "code_val ?e + t div 2 ^ root mod 2 ^ code_op ?e < length ?t" using k(3) by linarith
      then show thesis using link[OF m e k(1,2) _ _ k(4)] False by (simp add: tab_rd_ptr)
    qed
  qed
qed

lemma link_op:
  assumes "is_link e"
  shows "code_op e \<noteq> 0" "code_op e AND 16 = 0" "code_op e AND 64 = 0"
proof -
  have a: "code_op e AND 0xf0 = 0" using assms by (simp add: is_link_def)
  have "code_op e AND 16 = (code_op e AND 0xf0) AND 16" by (simp add: and.assoc)
  then show "code_op e AND 16 = 0" using a by simp
  show "code_op e \<noteq> 0" "code_op e AND 64 = 0" using assms and_f0_64[OF a] by (simp_all add: is_link_def)
qed

lemma fast_decode:
  assumes tab: "table_ok type lens (ptr_tab st p) root" and f: "fast_ok st f" "15 \<le> f_bits f"
  shows "\<forall>s. \<not> sym_matches lens (f_hold f) s \<Longrightarrow> decode_sym lens (fast_rem st f @ fut) = None"
    and "sym_matches lens (f_hold f) s \<Longrightarrow> 1 \<le> lens ! s \<and> lens ! s \<le> 15 \<and> decode_sym lens (fast_rem st f @ fut) = Some (s, fast_rem st (fdrop (lens ! s) f) @ fut)"
proof -
  have a: "acc_ok (at_fast st f)" using f by (simp add: fast_ok_def)
  show "\<forall>s. \<not> sym_matches lens (f_hold f) s \<Longrightarrow> decode_sym lens (fast_rem st f @ fut) = None"
    by (rule decode_none_invalid[OF tab a]) (use f in simp_all)
  assume m: "sym_matches lens (f_hold f) s"
  then have l: "1 \<le> lens ! s" "lens ! s \<le> 15" using table_ok_kraft[OF tab] by (auto simp: sym_matches_def)
  have "decode_sym lens (fast_rem st f @ fut) = Some (s, rem_bits (DROPBITS (lens ! s) (at_fast st f)) @ fut)"
    by (rule decode_match_sym[OF tab a]) (use m l f in simp_all)
  then show "1 \<le> lens ! s \<and> lens ! s \<le> 15 \<and> decode_sym lens (fast_rem st f @ fut) = Some (s, fast_rem st (fdrop (lens ! s) f) @ fut)"
    using l by (simp add: at_fast_drop)
qed

text \<open>The entry that ends a code, after a link or not.\<close>

lemma dolen_entry:
  assumes tab: "table_ok LENS lens (ptr_tab st (i_lencode st)) (i_lenbits st)" and f: "fast_ok st f" "15 \<le> f_bits f" and m: "sym_matches lens (f_hold f) s"
  obtains e f0 b where "do { here \<leftarrow> tab_rd st (i_lencode st) (f_hold f mod 2 ^ i_lenbits st); dolen st here f } = dolen st e f0"
    "ok_entry LENS s b e" "fast_drop (code_bits e) f0 = Some (fdrop (lens ! s) f)"
proof -
  have l: "lens ! s \<le> 15" using fast_decode(2)[OF tab f m] by blast
  show thesis
  proof (cases rule: lookup_cases[OF tab, of "f_hold f"])
    case 1
    then show thesis using m by blast
  next
    case (2 s' e)
    have "s' = s" by (rule sym_matches_unique[OF tab m 2(1)])
    then have o: "ok_entry LENS s (lens ! s) e" using 2(3) by simp
    then have "code_bits e = lens ! s" by (simp add: ok_entry_def)
    then show thesis using that[OF _ o, of f] 2(2) l f(2) by (simp add: fast_drop_ok)
  next
    case (3 s' e e2)
    let ?r = "i_lenbits st"
    have s: "s' = s" by (rule sym_matches_unique[OF tab m 3(1)])
    have r: "?r \<le> f_bits f" using 3(5) l f(2) s by simp
    have "dolen st e f = dolen st e2 (fdrop ?r f)"
      using link_op[OF 3(3)] 3(4,6) fast_drop_ok[OF r] by (subst dolen.simps) simp
    moreover have "code_bits e2 = lens ! s - ?r" using 3(7) s by (simp add: ok_entry_def)
    then have "fast_drop (code_bits e2) (fdrop ?r f) = Some (fdrop (lens ! s) f)"
      using 3(5) s l f(2) by (simp add: fast_drop_ok fdrop_twice)
    ultimately show thesis using that[OF _ 3(7)[unfolded s], of "fdrop ?r f"] 3(2) by simp
  qed
qed

lemma dodist_entry:
  assumes tab: "table_ok DISTS lens (ptr_tab st (i_distcode st)) (i_distbits st)" and f: "fast_ok st f" "15 \<le> f_bits f" and m: "sym_matches lens (f_hold f) s"
  obtains e f0 b where "do { here \<leftarrow> tab_rd st (i_distcode st) (f_hold f mod 2 ^ i_distbits st); dodist st len here f } = dodist st len e f0"
    "ok_entry DISTS s b e" "fast_drop (code_bits e) f0 = Some (fdrop (lens ! s) f)"
proof -
  have l: "lens ! s \<le> 15" using fast_decode(2)[OF tab f m] by blast
  show thesis
  proof (cases rule: lookup_cases[OF tab, of "f_hold f"])
    case 1
    then show thesis using m by blast
  next
    case (2 s' e)
    have "s' = s" by (rule sym_matches_unique[OF tab m 2(1)])
    then have o: "ok_entry DISTS s (lens ! s) e" using 2(3) by simp
    then have "code_bits e = lens ! s" by (simp add: ok_entry_def)
    then show thesis using that[OF _ o, of f] 2(2) l f(2) by (simp add: fast_drop_ok)
  next
    case (3 s' e e2)
    let ?r = "i_distbits st"
    have s: "s' = s" by (rule sym_matches_unique[OF tab m 3(1)])
    have r: "?r \<le> f_bits f" using 3(5) l f(2) s by simp
    have "dodist st len e f = dodist st len e2 (fdrop ?r f)"
      using link_op[OF 3(3)] 3(4,6) fast_drop_ok[OF r] by (subst dodist.simps) simp
    moreover have "code_bits e2 = lens ! s - ?r" using 3(7) s by (simp add: ok_entry_def)
    then have "fast_drop (code_bits e2) (fdrop ?r f) = Some (fdrop (lens ! s) f)"
      using 3(5) s l f(2) by (simp add: fast_drop_ok fdrop_twice)
    ultimately show thesis using that[OF _ 3(7)[unfolded s], of "fdrop ?r f"] 3(2) by simp
  qed
qed

section \<open>A round\<close>

text \<open>What stays true of the variables: the stream is a rest of the one at entry, and so on.\<close>

definition fast_base :: "inflate_state \<Rightarrow> fast \<Rightarrow> bool" where
  "fast_base st f \<longleftrightarrow> fast_ok st f \<and> (\<exists>x. f_out f = out_buf st @ x) \<and> fits st f 0 \<and> (\<exists>ys. rem_bits st = ys @ fast_rem st f)"

text \<open>So many bytes of this call are used that the whole bytes left over can be given back.\<close>

definition slack :: "inflate_state \<Rightarrow> fast \<Rightarrow> bool" where
  "slack st f \<longleftrightarrow> length (fast_rem st f) < 8 + 8 * length (next_in st)"

lemma fast_base_ahead: "fast_base st f \<Longrightarrow> fahead st f g \<Longrightarrow> fast_base st g"
  using fahead_facts[of st f g] by (simp add: fast_base_def fits_def)

lemma fast_base_drop: "fast_base st f \<Longrightarrow> n \<le> f_bits f \<Longrightarrow> fast_base st (fdrop n f)"
  using fdrop_rem(1,2)[of st f n] unfolding fast_base_def fits_def by (metis append_assoc fdrop_fields(2))

lemma at_fast_add: "at_fast st (add_out f x) = at_fast st f"
  by (simp add: at_fast_def)

lemma fast_base_add: "fast_base st f \<Longrightarrow> fits st f (length x) \<Longrightarrow> fast_base st (add_out f x)"
  by (auto simp: fast_base_def fast_ok_def at_fast_add fits_add)

lemma fast_base_copied: "fast_base st f \<Longrightarrow> copied H dist n f g \<Longrightarrow> fits st f n \<Longrightarrow> fast_base st g \<and> fast_rem st g = fast_rem st f"
  by (auto simp: copied_def at_fast_add intro: fast_base_add)

lemma lazy_first:
  assumes tab: "table_ok type lens tab root" and a: "ahead st st'" and lz: "lazy lens st"
  shows "sym_matches lens (i_hold st') s \<Longrightarrow> i_bits st < lens ! s + 8" "\<forall>s. \<not> sym_matches lens (i_hold st') s \<Longrightarrow> i_bits st < 9"
proof -
  have pre: "sym_matches lens (i_hold st') s \<longleftrightarrow> sym_matches lens (i_hold st) s" if "lens ! s \<le> i_bits st" for s
  proof -
    have "i_hold st' mod 2 ^ i_bits st = i_hold st" using a by (simp add: ahead_def)
    then have "i_hold st' mod 2 ^ (lens ! s) = i_hold st mod 2 ^ (lens ! s)" using that mod_prefix[of "lens ! s" "i_bits st" "i_hold st'"] by simp
    then show ?thesis by (simp add: sym_matches_def)
  qed
  show "i_bits st < lens ! s + 8" if "sym_matches lens (i_hold st') s"
    using pre[of s] that lz by (cases "lens ! s \<le> i_bits st") (auto simp: lazy_at_def)
  show "i_bits st < 9" if no: "\<forall>s. \<not> sym_matches lens (i_hold st') s"
  proof (rule ccontr)
    assume b: "\<not> i_bits st < 9"
    then obtain s where s: "sym_matches lens (i_hold st) s" using lz by (auto simp: lazy_at_def)
    then have "lens ! s \<le> 1" using no_match_short[OF tab no] by (simp add: sym_matches_def)
    then show False using pre[of s] s no b by simp
  qed
qed

lemma slack_first:
  assumes tab: "table_ok type lens tab root" and f: "fast_ok st f" "slack st f \<or> f_in f = 0 \<and> lazy lens (at_fast st f)" and a: "fahead st f g"
    and n: "n \<le> f_bits g" "1 \<le> n" and m: "sym_matches lens (f_hold g) s \<and> n = lens ! s \<or> (\<forall>s. \<not> sym_matches lens (f_hold g) s)"
  shows "slack st (fdrop n g)"
proof -
  have g: "fast_ok st g" "fast_rem st g = fast_rem st f" using fahead_facts[OF a] by simp_all
  have l: "length (fast_rem st f) = n + length (fast_rem st (fdrop n g))" using fdrop_rem(4)[OF g(1) n(1)] g(2) by simp
  show ?thesis
  proof (cases "slack st f")
    case True
    then show ?thesis using l by (simp add: slack_def)
  next
    case False
    then have z: "f_in f = 0" "lazy lens (at_fast st f)" using f(2) by simp_all
    have "ahead (at_fast st f) (at_fast st g)" using a by (simp add: fahead_def)
    note lf = lazy_first[OF tab this z(2)]
    have "f_bits f < n + 8" using lf(1)[of s] lf(2) m n(2) by auto
    then show ?thesis using l fast_rem_length[OF f(1)] z(1) by (simp add: slack_def)
  qed
qed

text \<open>The state after a round, or at the end of the loop.\<close>

definition fast_result :: "inflate_state \<Rightarrow> byte list \<Rightarrow> bool list \<Rightarrow> (byte list \<times> bool list) option \<Rightarrow> nat list \<Rightarrow> nat list
    \<Rightarrow> fast \<Rightarrow> inflate_mode \<Rightarrow> string option \<Rightarrow> bool" where
  "fast_result st H fut r lens dlens f m t \<longleftrightarrow> fast_base st f \<and> slack st f \<and>
     (m = LEN \<and> t = None \<and> r = finish st (decode_data lens dlens (H @ f_out f) (fast_rem st f @ fut))
      \<or> m = TYPE0 \<and> t = None \<and> r = finish st (Some (H @ f_out f, fast_rem st f @ fut))
      \<or> m = BAD \<and> t \<noteq> None \<and> r = None)"

definition round_ok :: "inflate_state \<Rightarrow> byte list \<Rightarrow> bool list \<Rightarrow> (byte list \<times> bool list) option \<Rightarrow> nat list \<Rightarrow> nat list
    \<Rightarrow> fast \<Rightarrow> round option \<Rightarrow> bool" where
  "round_ok st H fut r lens dlens f x \<longleftrightarrow> (case x of None \<Rightarrow> False
     | Some (Next g) \<Rightarrow> fast_result st H fut r lens dlens g LEN None \<and> length (fast_rem st g) < length (fast_rem st f)
     | Some (Halt g m t) \<Rightarrow> fast_result st H fut r lens dlens g m t \<and> length (fast_rem st g) < length (fast_rem st f))"

lemma slack_less: "slack st f \<Longrightarrow> length (fast_rem st g) \<le> length (fast_rem st f) \<Longrightarrow> slack st g"
  by (simp add: slack_def)

text \<open>From the distance on.\<close>

lemma dodist_ok:
  assumes env: "win_mem st" "win_hist st H" "i_wbits st = 15" "i_sane st" "new_count st = length (out_buf st)"
    and tab: "table_ok DISTS dlens (ptr_tab st (i_distcode st)) (i_distbits st)"
    and f: "fast_base st f" "slack st f" "28 \<le> length (fast_rem st f)" "15 \<le> f_bits f" "length (fast_rem st f) < length (fast_rem st f0)"
    and len: "3 \<le> len" "fits st f len" and r: "r = finish st (dist_rest lens dlens (H @ f_out f) len (fast_rem st f @ fut))"
  shows "round_ok st H fut r lens dlens f0 (do { here \<leftarrow> tab_rd st (i_distcode st) (f_hold f mod 2 ^ i_distbits st); dodist st len here f })"
proof -
  have ok: "fast_ok st f" using f(1) by (simp add: fast_base_def)
  show ?thesis
  proof (cases "\<exists>s. sym_matches dlens (f_hold f) s")
    case False
    then have no: "\<forall>s. \<not> sym_matches dlens (f_hold f) s" by blast
    obtain e: "tab_rd st (i_distcode st) (f_hold f mod 2 ^ i_distbits st) = Some \<lparr>code_op = 64, code_bits = 1, code_val = 0\<rparr>"
      using lookup_cases[OF tab, of "f_hold f"] no by metis
    have "r = None" using r fast_decode(1)[OF tab ok f(4) no] by (simp add: dist_rest_def)
    moreover have "1 \<le> f_bits f" using f(4) by simp
    note fdrop_rem(4)[OF ok this] fast_base_drop[OF f(1) this]
    ultimately show ?thesis using e f by (simp add: round_ok_def fast_result_def dodist.simps fast_drop_ok slack_def)
  next
    case True
    then obtain s where m: "sym_matches dlens (f_hold f) s" by blast
    note dec = fast_decode(2)[OF tab ok f(4) m, of fut]
    let ?g = "fdrop (dlens ! s) f"
    have lb: "dlens ! s \<le> f_bits f" using dec f(4) by simp
    note dr = fdrop_rem[OF ok lb]
    have g: "fast_base st ?g" by (rule fast_base_drop[OF f(1) lb])
    have lg: "length (fast_rem st ?g) < length (fast_rem st f)" "13 \<le> length (fast_rem st ?g)" using dr(4) dec f(3) by simp_all
    obtain e f1 b where e: "do { here \<leftarrow> tab_rd st (i_distcode st) (f_hold f mod 2 ^ i_distbits st); dodist st len here f } = dodist st len e f1"
      "ok_entry DISTS s b e" "fast_drop (code_bits e) f1 = Some ?g" by (rule dodist_entry[OF tab ok f(4) m])
    have rr: "r = finish st (if s \<ge> 30 then None else distext_rest lens dlens (H @ f_out f) len (dbase ! s) (dext ! s - 16) (fast_rem st ?g @ fut))"
      using r dec unfolding dist_rest_def by simp
    show ?thesis unfolding e(1)
    proof (cases rule: dist_entry_cases[OF e(2)])
      case 2
      then have "r = None" using rr by simp
      then show "round_ok st H fut r lens dlens f0 (dodist st len e f1)"
        using 2 e(3) g slack_less[OF f(2), of ?g] lg f(5) by (subst dodist.simps) (simp add: round_ok_def fast_result_def)
    next
      case 1
      note df = dext_facts[OF 1(1)]
      let ?ex = "dext ! s - 16"
      have exl: "?ex \<le> length (fast_rem st ?g)" "?ex \<le> 16" using df lg(2) by linarith+
      obtain h where h: "(if f_bits ?g < ?ex then do { f \<leftarrow> fast_byte st ?g; if f_bits f < ?ex then fast_byte st f else Some f } else Some ?g) = Some h"
        "fahead st ?g h" "?ex \<le> f_bits h" by (rule fast_extra2[OF dr(1) exl])
      note hf = fahead_facts[OF h(2)]
      let ?k = "fdrop ?ex h" and ?dist = "dbase ! s + f_hold h mod 2 ^ ?ex"
      note dk = fdrop_rem[OF conjunct1[OF hf] h(3)]
      have k: "fast_base st ?k" by (rule fast_base_drop[OF fast_base_ahead[OF g h(2)] h(3)])
      have fo: "f_out ?k = f_out f" using hf by simp
      have sl: "slack st ?k" "length (fast_rem st ?k) < length (fast_rem st f0)"
        using slack_less[OF f(2), of ?k] dk(4) hf lg(1) f(5) by simp_all
      have r2: "r = finish st (match_rest lens dlens (H @ f_out f) len ?dist (fast_rem st ?k @ fut))"
        using rr 1(1) dk(3)[of fut] hf by (simp add: distext_rest_def)
      have "f_hold h mod 2 ^ ?ex < 2 ^ ?ex" by simp
      then have dist: "1 \<le> ?dist" "?dist \<le> 32768" using df by linarith+
      have ol: "length (out_buf st) \<le> length (f_out ?k)" using k by (auto simp: fast_base_def)
      have fk: "fits st ?k len" using len(2) fo by (simp add: fits_def)
      note fm = fast_match_ok[OF env ol len(1) fk dist]
      have dd: "dodist st len e f1 = fast_match st len ?dist ?k"
        using 1 df e(3) h(1) fast_drop_ok[OF h(3)] by (subst dodist.simps) (simp add: Let_def)
      show "round_ok st H fut r lens dlens f0 (dodist st len e f1)" unfolding dd
      proof (cases "?dist \<le> length (H @ f_out ?k)")
        case True
        obtain f' where f': "fast_match st len ?dist ?k = Some (Next f')" "copied H ?dist len ?k f'" using fm(1)[OF True] by blast
        note fb = fast_base_copied[OF k f'(2) fk]
        have "put_match (H @ f_out f) len ?dist = Some (H @ f_out f')"
          using True dist f'(2) fo by (auto simp: put_match_def copied_def)
        then have "r = finish st (decode_data lens dlens (H @ f_out f') (fast_rem st f' @ fut))"
          using r2 fb by (simp add: match_rest_def)
        then show "round_ok st H fut r lens dlens f0 (fast_match st len ?dist ?k)"
          using f'(1) fb sl by (simp add: round_ok_def fast_result_def slack_def)
      next
        case False
        then have "put_match (H @ f_out f) len ?dist = None" using fo by (simp add: put_match_def)
        then have "r = None" using r2 by (simp add: match_rest_def)
        then show "round_ok st H fut r lens dlens f0 (fast_match st len ?dist ?k)"
          using fm(2) False k sl by (simp add: round_ok_def fast_result_def)
      qed
    qed
  qed
qed

text \<open>From the length's extra bits on.\<close>

lemma lext_range15: "k < 29 \<Longrightarrow> 3 \<le> lbase ! k \<and> lbase ! k + 2 ^ (lext ! k - 16) \<le> 259"
proof -
  have "list_all (\<lambda>(e, b). 3 \<le> b \<and> b + 2 ^ (e - 16) \<le> 259) (take 29 (zip lext lbase))"
    by (simp add: lext_def lbase_def)
  moreover assume "k < 29"
  moreover have "length lext = 31" "length lbase = 31" by (simp_all add: lext_def lbase_def)
  ultimately show ?thesis unfolding list_all_length by simp
qed

lemma fast_round_ok:
  assumes env: "win_mem st" "win_hist st H" "i_wbits st = 15" "i_sane st" "new_count st = length (out_buf st)"
    and t: "two_tables st lens dlens"
    and f: "fast_base st f" "slack st f \<or> f_in f = 0 \<and> lazy lens (at_fast st f)" "48 \<le> length (fast_rem st f)" "fits st f 258"
    and r: "r = finish st (decode_data lens dlens (H @ f_out f) (fast_rem st f @ fut))"
  shows "round_ok st H fut r lens dlens f (fast_round st f)"
proof -
  have tab: "table_ok LENS lens (ptr_tab st (i_lencode st)) (i_lenbits st)" and dtab: "table_ok DISTS dlens (ptr_tab st (i_distcode st)) (i_distbits st)"
    using t by (simp_all add: two_tables_def)
  have ok0: "fast_ok st f" using f(1) by (simp add: fast_base_def)
  obtain f1 where f1: "fast_15 st f = Some f1" "fahead st f f1" "15 \<le> f_bits f1" by (rule fast_15_ok[OF ok0]) (use f(3) in simp)
  have a1: "fast_ok st f1" "fast_rem st f1 = fast_rem st f" "f_out f1 = f_out f" using fahead_facts[OF f1(2)] by simp_all
  have b1: "fast_base st f1" by (rule fast_base_ahead[OF f(1) f1(2)])
  have rd: "fast_round st f = do { here \<leftarrow> tab_rd st (i_lencode st) (f_hold f1 mod 2 ^ i_lenbits st); dolen st here f1 }"
    using f1(1) by (simp add: fast_round_def)
  show ?thesis
  proof (cases "\<exists>s. sym_matches lens (f_hold f1) s")
    case False
    then have no: "\<forall>s. \<not> sym_matches lens (f_hold f1) s" by blast
    obtain e: "tab_rd st (i_lencode st) (f_hold f1 mod 2 ^ i_lenbits st) = Some \<lparr>code_op = 64, code_bits = 1, code_val = 0\<rparr>"
      using lookup_cases[OF tab, of "f_hold f1"] no by metis
    have one: "1 \<le> f_bits f1" using f1(3) by simp
    have "slack st (fdrop 1 f1)" by (rule slack_first[OF tab ok0 f(2) f1(2) one]) (use no in simp_all)
    moreover have "r = None" using r fast_decode(1)[OF tab a1(1) f1(3) no] a1(2) decode_data_none by simp
    moreover note fdrop_rem(4)[OF a1(1) one] fast_base_drop[OF b1 one]
    ultimately show ?thesis unfolding rd using e one a1(2) by (simp add: round_ok_def fast_result_def dolen.simps fast_drop_ok)
  next
    case True
    then obtain s where m: "sym_matches lens (f_hold f1) s" by blast
    note dec = fast_decode(2)[OF tab a1(1) f1(3) m, of fut]
    let ?g = "fdrop (lens ! s) f1"
    have lb: "lens ! s \<le> f_bits f1" using dec f1(3) by simp
    note dr = fdrop_rem[OF a1(1) lb]
    have g: "fast_base st ?g" by (rule fast_base_drop[OF b1 lb])
    have lg: "length (fast_rem st ?g) < length (fast_rem st f)" "33 \<le> length (fast_rem st ?g)" using dr(4) dec f(3) a1(2) by simp_all
    have sg: "slack st ?g" by (rule slack_first[OF tab ok0 f(2) f1(2) lb, of s]) (use m dec in simp_all)
    obtain e f0 b where e: "do { here \<leftarrow> tab_rd st (i_lencode st) (f_hold f1 mod 2 ^ i_lenbits st); dolen st here f1 } = dolen st e f0"
      "ok_entry LENS s b e" "fast_drop (code_bits e) f0 = Some ?g" by (rule dolen_entry[OF tab a1(1) f1(3) m])
    have rr: "r = finish st (if s < 256 then decode_data lens dlens ((H @ f_out f) @ [of_nat s]) (fast_rem st ?g @ fut)
       else if s = 256 then Some (H @ f_out f, fast_rem st ?g @ fut)
       else if s \<ge> 286 then None
       else lenext_rest lens dlens (H @ f_out f) (lbase ! (s - 257)) (lext ! (s - 257) - 16) (fast_rem st ?g @ fut))"
      using r dec unfolding decode_data_unfold[of lens dlens "H @ f_out f"] a1(2)[symmetric] by simp
    show ?thesis unfolding rd e(1)
    proof (cases rule: len_entry_cases[OF e(2)])
      case 1
      have fo: "fits st ?g 1" using fits_less[OF f(4), of 1] a1(3) by (simp add: fits_def)
      let ?h = "add_out ?g [of_nat s]"
      have "fast_base st ?h" by (rule fast_base_add[OF g]) (use fo in simp)
      then show "round_ok st H fut r lens dlens f (dolen st e f0)"
        using 1 e(3) rr fast_put_ok[OF fo] lg sg a1(3) by (subst dolen.simps) (simp add: round_ok_def fast_result_def at_fast_add slack_def)
    next
      case 2
      then show "round_ok st H fut r lens dlens f (dolen st e f0)"
        using e(3) rr g lg sg a1(3) by (subst dolen.simps) (simp add: round_ok_def fast_result_def)
    next
      case 4
      then have "r = None" using rr by simp
      then show "round_ok st H fut r lens dlens f (dolen st e f0)"
        using 4 e(3) g lg sg by (subst dolen.simps) (simp add: round_ok_def fast_result_def)
    next
      case 3
      let ?k = "s - 257"
      have k: "?k < 29" using 3 by simp
      note lf = lext_facts[OF k] and lr = lext_range15[OF k]
      obtain ex where ex: "ex = lext ! ?k - 16" by blast
      have exl: "ex \<le> length (fast_rem st ?g)" "ex \<le> 8" "ex \<le> 5" using lf lg(2) unfolding ex by linarith+
      obtain h where h: "(if ex \<noteq> 0 \<and> f_bits ?g < ex then fast_byte st ?g else Some ?g) = Some h" "fahead st ?g h" "ex \<le> f_bits h"
        by (rule fast_extra1[OF dr(1) exl(1,2)])
      note hf = fahead_facts[OF h(2)]
      let ?k2 = "fdrop ex h" and ?len = "lbase ! ?k + f_hold h mod 2 ^ ex"
      note dk = fdrop_rem[OF conjunct1[OF hf] h(3)]
      have k2: "fast_base st ?k2" by (rule fast_base_drop[OF fast_base_ahead[OF g h(2)] h(3)])
      have lk: "length (fast_rem st ?k2) \<le> length (fast_rem st ?g)" "28 \<le> length (fast_rem st ?k2)" using dk(4) hf lg exl(3) by auto
      obtain f3 where f3: "fast_15 st ?k2 = Some f3" "fahead st ?k2 f3" "15 \<le> f_bits f3" by (rule fast_15_ok[OF dk(1)]) (use lk(2) in simp)
      have a3: "fast_rem st f3 = fast_rem st ?k2" "f_out f3 = f_out f" using fahead_facts[OF f3(2)] hf a1(3) by simp_all
      have "f_hold h mod 2 ^ ex < 2 ^ ex" by simp
      then have len: "3 \<le> ?len" "?len \<le> 258" using lr unfolding ex by linarith+
      have r2: "r = finish st (dist_rest lens dlens (H @ f_out f3) ?len (fast_rem st f3 @ fut))"
        using rr 3(1,2) dk(3)[of fut] hf a3 unfolding ex[symmetric] by (simp add: lenext_rest_def)
      have fl: "fits st f3 ?len" using fits_less[OF f(4) len(2)] a3(2) by (simp add: fits_def)
      have s3: "slack st f3" "28 \<le> length (fast_rem st f3)" "length (fast_rem st f3) < length (fast_rem st f)"
        using slack_less[OF sg, of f3] a3(1) lk lg by simp_all
      note dd = dodist_ok[OF env dtab fast_base_ahead[OF k2 f3(2)] s3(1,2) f3(3) s3(3) len(1) fl r2]
      have op: "code_op e \<noteq> 0" "code_op e AND 16 \<noteq> 0" "code_op e AND 15 = ex" using 3(3) lf ex by simp_all
      have "dolen st e f0 = do { here \<leftarrow> tab_rd st (i_distcode st) (f_hold f3 mod 2 ^ i_distbits st); dodist st ?len here f3 }"
        using 3(4) e(3) h(1) fast_drop_ok[OF h(3)] f3(1) op by (subst dolen.simps) (simp add: Let_def)
      then show "round_ok st H fut r lens dlens f (dolen st e f0)" using dd by simp
    qed
  qed
qed

section \<open>The loop\<close>

lemma fast_loop_ok:
  assumes env: "win_mem st" "win_hist st H" "i_wbits st = 15" "i_sane st" "new_count st = length (out_buf st)"
    and t: "two_tables st lens dlens"
    and f: "fast_base st f" "slack st f \<or> f_in f = 0 \<and> lazy lens (at_fast st f)" "f_in f + 6 \<le> length (next_in st)" "fits st f 258"
    and r: "r = finish st (decode_data lens dlens (H @ f_out f) (fast_rem st f @ fut))"
  obtains g m tx where "fast_loop st f = Some (g, m, tx)" "fast_result st H fut r lens dlens g m tx" "length (fast_rem st g) < length (fast_rem st f)"
  using f r
proof (induction "length (fast_rem st f)" arbitrary: f thesis rule: less_induct)
  case less
  have "fast_ok st f" using less.prems(2) by (simp add: fast_base_def)
  then have l48: "48 \<le> length (fast_rem st f)" using less.prems(4) by (simp add: fast_rem_length)
  note ro = fast_round_ok[OF env t less.prems(2,3) l48 less.prems(5,6)]
  obtain x where x: "fast_round st f = Some x" using ro by (cases "fast_round st f") (simp_all add: round_ok_def)
  show ?case
  proof (cases x)
    case (Halt g m tx)
    then have "fast_loop st f = Some (g, m, tx)" using x by (subst fast_loop.simps) simp
    then show ?thesis using less.prems(1) ro x Halt by (simp add: round_ok_def)
  next
    case (Next g)
    have g: "fast_result st H fut r lens dlens g LEN None" "length (fast_rem st g) < length (fast_rem st f)" using ro x Next by (simp_all add: round_ok_def)
    show ?thesis
    proof (cases "f_in g + 5 < length (next_in st) \<and> length (f_out g) + 257 < length (out_buf st) + avail_out st")
      case False
      have "fast_loop st f = Some (g, LEN, None)"
        by (subst fast_loop.simps) (simp only: x Next bind.bind_lunit round.case if_not_P[OF False])
      then show ?thesis using less.prems(1) g by blast
    next
      case True
      have e: "fast_loop st f = fast_loop st g"
        by (subst fast_loop.simps) (simp only: x Next bind.bind_lunit round.case if_P[OF True])
      have g': "fast_base st g" "slack st g \<or> f_in g = 0 \<and> lazy lens (at_fast st g)" "f_in g + 6 \<le> length (next_in st)" "fits st g 258"
        "r = finish st (decode_data lens dlens (H @ f_out g) (fast_rem st g @ fut))"
        using g(1) True by (auto simp: fast_result_def fits_def)
      show ?thesis
        by (rule less.hyps[OF g(2) _ g']) (use less.prems(1) e g(2) in \<open>auto intro: less_trans\<close>)
    qed
  qed
qed

text \<open>Giving back the whole bytes that are left in the accumulator.\<close>

lemma give_back:
  assumes b: "fast_base st f" and s: "slack st f"
  shows "f_bits f div 8 \<le> f_in f"
    and "rem_bits (st\<lparr>next_in := drop (f_in f - f_bits f div 8) (next_in st), i_hold := f_hold f mod 2 ^ (f_bits f - 8 * (f_bits f div 8)), i_bits := f_bits f - 8 * (f_bits f div 8)\<rparr>)
      = fast_rem st f"
proof -
  let ?n = "length (next_in st)" and ?k = "f_bits f div 8"
  have ok: "fast_ok st f" using b by (simp add: fast_base_def)
  have fi: "f_in f \<le> ?n" using ok by (simp add: fast_ok_def)
  have "f_bits f < 8 + 8 * f_in f" using s fast_rem_length[OF ok] fi by (simp add: slack_def)
  then show k: "?k \<le> f_in f" by linarith
  let ?m = "f_bits f - 8 * ?k" and ?i = "drop (f_in f - ?k) (next_in st)"
  have mb: "?m \<le> f_bits f" by simp
  note d = fdrop_rem[OF ok mb]
  obtain ys where ys: "rem_bits st = ys @ fast_rem st f" using b by (auto simp: fast_base_def)
  let ?y = "bytes_bits (take (f_in f - ?k) (next_in st))"
  have sp: "bytes_bits (next_in st) = ?y @ bytes_bits ?i"
    by (simp add: bytes_bits_def flip: append_assoc concat_append map_append)
  have l: "length (bytes_bits ?i) = length (fast_rem st (fdrop ?m f))"
  proof -
    have "f_bits f = ?m + 8 * ?k" by simp
    moreover have "8 * (?n - (f_in f - ?k)) = 8 * (?n - f_in f) + 8 * ?k" using k fi by arith
    moreover have "length (bytes_bits ?i) = 8 * (?n - (f_in f - ?k))" by simp
    ultimately show ?thesis using d(4) fast_rem_length[OF ok] by linarith
  qed
  have "(hold_bits st @ ?y) @ bytes_bits ?i = (ys @ bits_of ?m (f_hold f)) @ fast_rem st (fdrop ?m f)"
    using ys unfolding rem_bits_def[of st] sp d(2) by simp
  then have "bytes_bits ?i = fast_rem st (fdrop ?m f)" using l by (metis append_eq_append_conv)
  then show "rem_bits (st\<lparr>next_in := ?i, i_hold := f_hold f mod 2 ^ ?m, i_bits := ?m\<rparr>) = fast_rem st f"
    using d(2) by (simp add: rem_bits_def[of "st\<lparr>next_in := ?i, i_hold := f_hold f mod 2 ^ ?m, i_bits := ?m\<rparr>"] hold_bits_def bits_of_mod)
qed

section \<open>The mode LEN\<close>

lemma base_output:
  assumes b: "base st H" and n: "new_count st = length (out_buf st)" and x: "length x \<le> avail_out st"
  shows "base (st\<lparr>out_buf := out_buf st @ x, avail_out := avail_out st - length x\<rparr>) H"
proof -
  let ?s = "st\<lparr>out_buf := out_buf st @ x, avail_out := avail_out st - length x\<rparr>"
  have "avail_out st \<le> i_out st" using b by (simp add: base_def)
  then have nc: "new_count ?s = length (out_buf ?s)" and "avail_out ?s \<le> i_out ?s" using n x by (simp_all add: new_count_def)
  moreover have "win_mem ?s = win_mem st" by (simp add: win_mem_def window_of_def)
  ultimately show ?thesis using b n unfolding base_def by (simp add: acc_ok_def)
qed

lemma fast_len_ok:
  assumes g: "good st H fut r" and m: "i_mode st = LEN" and sz: "6 \<le> length (next_in st)" "258 \<le> avail_out st"
  obtains st' where "inflate_fast st = Some st'"
    "step_ok flush st H fut r (Go (if i_mode st' = TYPE0 then st'\<lparr>i_back := -1\<rparr> else st'))"
proof -
  have cm: "i_mode st \<in> code_modes" using m by (simp add: code_modes_def)
  obtain lens dlens where t: "two_tables st lens dlens" and cs: "code_side st lens dlens"
    and r0: "r = finish st (code_rest st lens dlens (H @ out_buf st) (rem_bits st @ fut))"
    by (rule good_code_obtain[OF g cm])
  have bs: "base st H" "win_hist st H" "new_count st = length (out_buf st)" "length (i_codes st) = ENOUGH" using g cm code_block_modes by (simp_all add: good_def)
  have acc: "acc_ok st" and mem: "win_mem st" and wb: "i_wbits st = 15" "i_sane st" using bs(1) by (simp_all add: base_def)
  let ?f = "\<lparr>f_in = 0, f_hold = i_hold st, f_bits = i_bits st, f_out = out_buf st\<rparr>"
  have af: "at_fast st ?f = st" by (simp add: at_fast_def)
  have f: "fast_base st ?f" using acc by (simp add: fast_base_def fast_ok_def af fits_def)
  have lz: "slack st ?f \<or> f_in ?f = 0 \<and> lazy lens (at_fast st ?f)" using cs m by (simp add: af code_side_def)
  have rr: "r = finish st (decode_data lens dlens (H @ f_out ?f) (fast_rem st ?f @ fut))" using r0 m by (simp add: af code_rest_def)
  obtain k mo tx where k: "fast_loop st ?f = Some (k, mo, tx)" "fast_result st H fut r lens dlens k mo tx" "length (fast_rem st k) < length (fast_rem st ?f)"
    by (rule fast_loop_ok[OF mem bs(2) wb bs(3) t f lz _ _ rr]) (use sz in \<open>simp_all add: fits_def\<close>)
  have kb: "fast_base st k" "slack st k" using k(2) by (simp_all add: fast_result_def)
  note gb = give_back[OF kb]
  let ?n = "f_bits k div 8"
  obtain x where x: "f_out k = out_buf st @ x" "length x \<le> avail_out st" using kb(1) by (auto simp: fast_base_def fits_def)
  let ?s = "st\<lparr>next_in := drop (f_in k - ?n) (next_in st), out_buf := f_out k,
         avail_out := length (out_buf st) + avail_out st - length (f_out k),
         i_hold := f_hold k mod 2 ^ (f_bits k - 8 * ?n), i_bits := f_bits k - 8 * ?n, i_mode := mo, msg := (if tx = None then msg st else tx)\<rparr>"
  have fast: "inflate_fast st = Some ?s" unfolding inflate_fast_def k(1) using gb(1) by (simp add: Let_def)
  let ?o = "st\<lparr>out_buf := out_buf st @ x, avail_out := avail_out st - length x\<rparr>"
  have b8: "f_bits k - 8 * ?n < 8" by simp
  have rb: "rem_bits ?s = fast_rem st k" using gb(2) by (simp add: rem_bits_def hold_bits_def)
  have rem: "room ?s < room st"
  proof -
    have "i_bits ?s + 8 * length (next_in ?s) = length (rem_bits ?s)" by (simp add: length_rem)
    also have "\<dots> < length (rem_bits st)" using k(3) unfolding rb af .
    also have "\<dots> = i_bits st + 8 * length (next_in st)" by (rule length_rem)
    finally have "i_bits ?s + 8 * length (next_in ?s) < i_bits st + 8 * length (next_in st)" .
    moreover have "avail_out ?s \<le> avail_out st" using x by simp
    ultimately show ?thesis unfolding room_def by (rule add_less_le_mono)
  qed
  define u where "u = (if i_mode ?s = TYPE0 then ?s\<lparr>i_back := -1\<rparr> else ?s)"
  have u: "u = ?s\<lparr>i_back := (if mo = TYPE0 then -1 else i_back st)\<rparr>" by (simp add: u_def)
  have u1: "room u = room ?s" "rem_bits u = rem_bits ?s" by (simp_all add: u room_def rem_bits_def hold_bits_def)
  have fr_u: "frame ?o u" using x by (simp add: u frame_def)
  have acc_u: "acc_ok u" by (simp add: u acc_ok_def)
  have tt_u: "two_tables u = two_tables st" by (simp add: u two_tables_def fun_eq_iff)
  have fi_u: "finish u = finish st" by (simp add: u)
  have o_u: "i_mode u = mo" "i_codes u = i_codes st" "i_bits u < 8" "msg u = (if tx = None then msg st else tx)" using b8 by (simp_all add: u)
  note t' = fr_u acc_u trans[OF u1(2) rb] o_u(1) rem[unfolded u1(1)[symmetric]] o_u(2,3) tt_u fi_u o_u(4)
  have out: "H @ out_buf st @ x = H @ f_out k" using x by simp
  have "good u H fut r"
  proof (cases "mo = BAD")
    case True
    have "base u H" using frame_facts(1)[OF t'(1) base_output[OF bs(1,3) x(2)] t'(2)] .
    then show ?thesis using k(2) t'(4) True by (simp add: good_def block_modes_def fast_result_def)
  next
    case False
    have mm: "mo = LEN \<or> mo = TYPE0" using k(2) False by (auto simp: fast_result_def)
    have "block_todo u (H @ out_buf st @ x) (rem_bits u @ fut) r"
    proof (cases "mo = LEN")
      case True
      then have ml: "i_mode u = LEN" using t'(4) by simp
      then have cmt: "i_mode u \<in> code_modes" by (simp add: code_modes_def)
      have "code_side u lens dlens" unfolding code_side_def ml using t'(7) by (simp add: lazy_small)
      moreover have "r = finish u (code_rest u lens dlens (H @ out_buf st @ x) (rem_bits u @ fut))"
        using k(2) True unfolding t'(3,9) out code_rest_def ml by (simp add: fast_result_def)
      moreover have "two_tables u lens dlens" unfolding t'(8) by (rule t)
      ultimately show ?thesis using block_todo_code[OF cmt] by blast
    next
      case False
      then have ml: "i_mode u = TYPE0" using t'(4) mm by simp
      show ?thesis unfolding block_todo_def ml t'(3,9) out using k(2) False mm t'(7) by (auto simp: fast_result_def)
    qed
    moreover have "i_mode u \<in> block_modes" using mm t'(4) by (auto simp: block_modes_def)
    ultimately show ?thesis using t'(6) by (intro good_output[OF g code_block_modes[OF cm] t'(1) x(2) t'(2)]) simp_all
  qed
  then show thesis using that[OF fast] go_reads t'(5) unfolding u_def by blast
qed

lemma do_len_ok:
  assumes g: "good st H fut r" and m: "i_mode st = LEN"
  shows "step_ok flush st H fut r (do_len st)"
proof (cases "length (next_in st) \<ge> 6 \<and> avail_out st \<ge> 258")
  case True
  then obtain st' where "inflate_fast st = Some st'" "step_ok flush st H fut r (Go (if i_mode st' = TYPE0 then st'\<lparr>i_back := -1\<rparr> else st'))"
    using fast_len_ok[OF g m] by blast
  then show ?thesis unfolding do_len_def if_P[OF True] by simp
next
  case False
  let ?s = "st\<lparr>i_back := 0\<rparr>"
  have cm: "i_mode st \<in> code_modes" using m by (simp add: code_modes_def)
  obtain lens dlens where t: "two_tables st lens dlens" and cs: "code_side st lens dlens"
    and r0: "r = finish st (code_rest st lens dlens (H @ out_buf st) (rem_bits st @ fut))"
    by (rule good_code_obtain[OF g cm])
  have "good ?s H fut r"
    by (rule good_code[OF g code_block_modes[OF cm] _ _ _ t])
       (use cs r0 m good_acc[OF g] in \<open>simp_all add: cframe_def frame_def acc_ok_def code_modes_def code_side_def code_rest_def rem_bits_def hold_bits_def\<close>)
  then have "step_ok flush ?s H fut r (slow_len ?s)" using slow_len_ok m by simp
  moreover have "do_len st = slow_len ?s" unfolding do_len_def if_not_P[OF False] slow_len_def by simp
  ultimately show ?thesis using step_ok_mono[of ?s st] by (simp add: room_def)
qed

section \<open>The step\<close>

lemma inflate_step_ok:
  assumes g: "good st H fut r" and fut: "length fut mod 8 = 0"
  shows "step_ok flush st H fut r (inflate_step flush st)"
proof -
  have "i_mode st \<in> block_modes \<or> i_mode st \<in> {CHECK, LENGTH0, DONE, BAD}"
    using g by (auto simp: good_def split: if_splits inflate_mode.splits)
  then consider "i_mode st \<in> {TYPE0, TYPEDO, STORED, COPY1, COPY, TABLE, LENLENS, CODELENS}" | "i_mode st \<in> code_modes" | "i_mode st \<in> {CHECK, LENGTH0, DONE, BAD}"
    by (auto simp: block_modes_def code_modes_def)
  then show ?thesis
  proof cases
    case 1
    then show ?thesis unfolding insert_iff empty_iff
      by (elim disjE) (simp_all add: inflate_step_def do_type_ok[OF g _ fut] do_typedo_ok[OF g _ fut] do_stored_ok[OF g _ fut]
          do_copy1_ok[OF g] do_copy_ok[OF g] do_table_ok[OF g] do_lenlens_ok[OF g] do_codelens_ok[OF g])
  next
    case 2
    then show ?thesis unfolding code_modes_def insert_iff empty_iff
      by (elim disjE) (simp_all add: inflate_step_def do_len1_ok[OF g] do_len_ok[OF g] do_lenext_ok[OF g] do_dist_ok[OF g]
          do_distext_ok[OF g] do_match_ok[OF g] do_lit_ok[OF g])
  next
    case 3
    then show ?thesis unfolding insert_iff empty_iff
    proof (elim disjE)
      assume "i_mode st = CHECK"
      then show ?thesis by (simp add: inflate_step_def do_check_ok[OF g])
    next
      assume "i_mode st = LENGTH0"
      then show ?thesis by (simp add: inflate_step_def do_length_ok[OF g])
    qed (use g in \<open>simp_all add: inflate_step_def step_ok_def\<close>)
  qed
qed

end
