(* ===== verification/Inflate_Window.thy ===== *)
theory Inflate_Window
  imports Inflate_Fast
begin

text \<open>
  The sliding window between the calls of \<open>inflate\<close>: it is a ring buffer, and \<open>updatewindow\<close> appends
  the new output to the history that it holds.
\<close>

section \<open>The ring\<close>

definition same_but_window :: "inflate_state \<Rightarrow> inflate_state \<Rightarrow> bool" where
  "same_but_window st st' \<longleftrightarrow> st'\<lparr>i_window := None, i_wsize := 0, i_wnext := 0, i_whave := 0\<rparr> = st\<lparr>i_window := None, i_wsize := 0, i_wnext := 0, i_whave := 0\<rparr>"

lemma same_but_window_update:
  "same_but_window st st" "same_but_window st u \<Longrightarrow> same_but_window st (u\<lparr>i_window := w\<rparr>)" "same_but_window st u \<Longrightarrow> same_but_window st (u\<lparr>i_wsize := s\<rparr>)"
  "same_but_window st u \<Longrightarrow> same_but_window st (u\<lparr>i_wnext := n\<rparr>)" "same_but_window st u \<Longrightarrow> same_but_window st (u\<lparr>i_whave := h\<rparr>)"
  by (simp_all add: same_but_window_def)

text \<open>What \<open>updatewindow\<close> does to the ring of size \<open>s\<close>, for at most \<open>s\<close> bytes.\<close>

definition advanced :: "byte list \<Rightarrow> nat \<Rightarrow> byte list \<Rightarrow> byte list \<Rightarrow> nat \<Rightarrow> bool" where
  "advanced w n data w' n' \<longleftrightarrow> length w' = length w \<and> n' < length w
     \<and> drop n' w' @ take n' w' = drop (length data) (drop n w @ take n w) @ data"

lemma advance_all: "length data = length w \<Longrightarrow> 0 < length w \<Longrightarrow> advanced w n data data 0"
  by (simp add: advanced_def)

lemma advance_part:
  assumes "n + length data \<le> length w" "n < length w"
  shows "advanced w n data (take n w @ data @ drop (n + length data) w) (if n + length data = length w then 0 else n + length data)"
  using assms by (auto simp: advanced_def min_absorb1 min_absorb2 add.commute)

lemma advance_wrap:
  assumes n: "n < length w" and c: "length data < length w" and d: "d = length w - n" "d < length data"
  shows "advanced w n data (drop d data @ drop (length data - d) (take n w @ take d data)) (length data - d)"
proof -
  let ?c = "length data" and ?w1 = "take n w @ take d data"
  have l: "length ?w1 = length w" "?c - d \<le> n" using n c d by simp_all
  have "drop ?c (drop n w @ take n w) = drop (?c - d) (take n w)" using d n by simp
  moreover have "drop (?c - d) ?w1 = drop (?c - d) (take n w) @ take d data" using l(2) n by simp
  ultimately show ?thesis using l d n unfolding advanced_def by simp
qed

text \<open>The last \<open>k\<close> bytes of the ring are then those of the longer history.\<close>

lemma advanced_hist:
  assumes a: "advanced w n data w' n'" and H: "drop (length H - k) H = drop (length w - k) (drop n w @ take n w)" "k \<le> length H" "k \<le> length w" "n < length w"
    and c: "length data \<le> length w" and k': "k' \<le> k + length data" "k' \<le> length w"
  shows "drop (length (H @ data) - k') (H @ data) = drop (length w - k') (drop n' w' @ take n' w')"
proof -
  define r where "r = drop n w @ take n w"
  have lr: "length r = length w" using H(4) by (simp add: r_def)
  have suf: "drop (length (xs @ ys) - k') (xs @ ys) = drop (k + length ys - k') (drop (length xs - k) xs @ ys)" if "k' \<le> k + length ys" "k \<le> length xs" for xs ys :: "byte list"
    using that by (cases "k' \<le> length ys") (auto simp: add.commute)
  have "drop (length (H @ data) - k') (H @ data) = drop (k + length data - k') (drop (length w - k) r @ data)"
    unfolding suf[OF k'(1) H(2)] H(1) r_def ..
  also have "\<dots> = drop (length (r @ data) - k') (r @ data)"
    using suf[of data r] k'(1) H(3) unfolding lr by simp
  also have "\<dots> = drop (length w - k') (drop (length data) r @ data)"
    using c lr k'(2) by (cases "k' \<le> length data") auto
  finally show ?thesis using a unfolding advanced_def r_def by simp
qed

section \<open>updatewindow\<close>

text \<open>The state with its window allocated.\<close>

definition with_window :: "byte list option \<Rightarrow> inflate_state \<Rightarrow> inflate_state" where
  "with_window alloc st = (let st = (if i_window st = None then st\<lparr>i_window := alloc\<rparr> else st) in
     if i_wsize st = 0 then st\<lparr>i_wsize := 2 ^ i_wbits st, i_wnext := 0, i_whave := 0\<rparr> else st)"

definition alloc_ok :: "byte list option \<Rightarrow> inflate_state \<Rightarrow> bool" where
  "alloc_ok alloc st \<longleftrightarrow> (\<exists>w. alloc = Some w \<and> length w = 2 ^ i_wbits st)"

lemma with_window_facts:
  assumes "win_mem st" "alloc_ok alloc st"
  defines "u \<equiv> with_window alloc st"
  shows "i_window u = Some (window_of u)" "length (window_of u) = i_wsize u" "i_wsize u = 2 ^ i_wbits st" "i_wnext u < i_wsize u" "i_whave u \<le> i_wsize u"
    "i_whave u < i_wsize u \<longrightarrow> i_wnext u = i_whave u" "same_but_window st u" "win_hist st H \<Longrightarrow> win_hist u H"
proof -
  obtain w where w: "alloc = Some w" "length w = 2 ^ i_wbits st" using assms(2) by (auto simp: alloc_ok_def)
  show sb: "same_but_window st u"
    by (simp add: u_def with_window_def Let_def same_but_window_update)
  show "i_window u = Some (window_of u)" "length (window_of u) = i_wsize u" "i_wsize u = 2 ^ i_wbits st" "i_wnext u < i_wsize u" "i_whave u \<le> i_wsize u"
    "i_whave u < i_wsize u \<longrightarrow> i_wnext u = i_whave u"
    using assms(1) w by (auto simp: u_def with_window_def win_mem_def window_of_def Let_def split: option.splits)
  show "win_hist u H" if "win_hist st H"
  proof (cases "i_wsize st = 0")
    case True
    then show ?thesis using that w using assms(1) by (auto simp: u_def with_window_def win_hist_def win_mem_def ring_def window_of_def Let_def)
  next
    case False
    then have w1: "i_window st \<noteq> None" using assms(1) by (simp add: win_mem_def)
    have "u = st" unfolding u_def with_window_def Let_def if_not_P[OF w1] if_not_P[OF False] ..
    then show ?thesis using that by simp
  qed
qed

lemma updatewindow_unfold:
  assumes "i_window (with_window alloc st) = Some window"
  shows "updatewindow alloc data st = (let u = with_window alloc st; copy = length data in
           if copy \<ge> i_wsize u then do {
             w \<leftarrow> memcpy window 0 (drop (copy - i_wsize u) data) (i_wsize u);
             Some (0, u\<lparr>i_window := Some w, i_wnext := 0, i_whave := i_wsize u\<rparr>) }
           else do {
             let dist = (if i_wsize u - i_wnext u > copy then copy else i_wsize u - i_wnext u);
             w \<leftarrow> memcpy window (i_wnext u) data dist;
             if copy - dist \<noteq> 0 then do {
               w \<leftarrow> memcpy w 0 (drop dist data) (copy - dist);
               Some (0, u\<lparr>i_window := Some w, i_wnext := copy - dist, i_whave := i_wsize u\<rparr>) }
             else Some (0, u\<lparr>i_window := Some w,
               i_wnext := (if i_wnext u + dist = i_wsize u then 0 else i_wnext u + dist),
               i_whave := (if i_whave u < i_wsize u then i_whave u + dist else i_whave u)\<rparr>) })"
proof -
  let ?s = "if i_window st = None then st\<lparr>i_window := alloc\<rparr> else st"
  have "i_window ?s = Some window" using assms by (auto simp: with_window_def Let_def split: if_splits)
  then show ?thesis unfolding updatewindow_def with_window_def Let_def by (simp only: option.case)
qed

text \<open>The result in every case.\<close>

lemma updatewindow_cases:
  assumes mem: "win_mem st" and al: "alloc_ok alloc st"
  defines "u \<equiv> with_window alloc st"
  obtains w n h where "updatewindow alloc data st = Some (0, u\<lparr>i_window := Some w, i_wnext := n, i_whave := h\<rparr>)"
    "length data \<le> i_wsize u \<longrightarrow> advanced (window_of u) (i_wnext u) data w n"
    "i_wsize u < length data \<longrightarrow> w = drop (length data - i_wsize u) data \<and> n = 0"
    "length w = i_wsize u" "n < i_wsize u" "h \<le> i_wsize u" "h < i_wsize u \<longrightarrow> n = h" "h = min (i_wsize u) (i_whave u + length data)"
proof -
  note f = with_window_facts[OF mem al, folded u_def]
  let ?w = "window_of u" and ?s = "i_wsize u" and ?n = "i_wnext u" and ?c = "length data"
  note uw = updatewindow_unfold[of alloc st ?w data, folded u_def, OF f(1), unfolded Let_def]
  have s0: "0 < ?s" using f(3) by simp
  show thesis
  proof (cases "?c \<ge> ?s")
    case True
    let ?d = "drop (?c - ?s) data"
    have "memcpy ?w 0 ?d ?s = Some ?d" using f(2) True by (simp add: memcpy_def)
    then have "updatewindow alloc data st = Some (0, u\<lparr>i_window := Some ?d, i_wnext := 0, i_whave := ?s\<rparr>)"
      unfolding uw if_P[OF True] by simp
    moreover have "?c \<le> ?s \<longrightarrow> advanced ?w ?n data ?d 0" using advance_all[of data ?w ?n] f(2) True s0 by auto
    ultimately show thesis using that[where w = ?d and n = 0 and h = ?s] True s0 by simp
  next
    case False
    note i = if_not_P[OF False]
    show thesis
    proof (cases "?c \<le> ?s - ?n")
      case True
      let ?d = "if ?s - ?n > ?c then ?c else ?s - ?n"
      have d: "?d = ?c" using True by auto
      have ln: "?n + ?c \<le> length ?w" "?n < length ?w" using True f(2,4) by simp_all
      let ?w1 = "take ?n ?w @ data @ drop (?n + ?c) ?w"
      have "memcpy ?w ?n data ?c = Some ?w1" using ln by (simp add: memcpy_def)
      then have "updatewindow alloc data st = Some (0, u\<lparr>i_window := Some ?w1, i_wnext := (if ?n + ?c = ?s then 0 else ?n + ?c),
            i_whave := (if i_whave u < ?s then i_whave u + ?c else i_whave u)\<rparr>)"
        unfolding uw i d by simp
      then show thesis using that[OF _ impI[OF advance_part[OF ln, unfolded f(2)]]] False ln f(2,5,6)
        by (cases "i_whave u < ?s") auto
    next
      case gt: False
      let ?d = "?s - ?n"
      have "\<not> ?d > ?c" using gt by simp
      note d = if_not_P[OF this]
      have ln: "?n < length ?w" "?c < length ?w" "?d = length ?w - ?n" "?d < ?c" using gt False f(2,4) by simp_all
      let ?w1 = "take ?n ?w @ take ?d data"
      have "memcpy ?w ?n data ?d = Some ?w1" using ln by (simp add: memcpy_def)
      moreover have "memcpy ?w1 0 (drop ?d data) (?c - ?d) = Some (drop ?d data @ drop (?c - ?d) ?w1)"
        using ln by (auto simp: memcpy_def)
      ultimately have "updatewindow alloc data st = Some (0, u\<lparr>i_window := Some (drop ?d data @ drop (?c - ?d) ?w1), i_wnext := ?c - ?d, i_whave := ?s\<rparr>)"
        unfolding uw i d using ln(4) by simp
      moreover note adv = advance_wrap[OF ln]
      moreover have "?s \<le> i_whave u + ?c" using f(6) gt by (cases "i_whave u < ?s") auto
      ultimately show thesis using that[where w = "drop ?d data @ drop (?c - ?d) ?w1" and n = "?c - ?d" and h = ?s] False adv f(2)
        by (simp add: advanced_def)
    qed
  qed
qed

lemma updatewindow_ok:
  assumes mem: "win_mem st" and al: "alloc_ok alloc st"
  obtains st' where "updatewindow alloc data st = Some (0, st')" "same_but_window st st'" "win_mem st'" "i_wsize st' \<noteq> 0"
    "\<And>H. win_hist st H \<Longrightarrow> win_hist st' (H @ data)"
proof -
  let ?u = "with_window alloc st"
  note f = with_window_facts[OF mem al]
  obtain w n h where r: "updatewindow alloc data st = Some (0, ?u\<lparr>i_window := Some w, i_wnext := n, i_whave := h\<rparr>)"
    "length data \<le> i_wsize ?u \<longrightarrow> advanced (window_of ?u) (i_wnext ?u) data w n"
    "i_wsize ?u < length data \<longrightarrow> w = drop (length data - i_wsize ?u) data \<and> n = 0"
    "length w = i_wsize ?u" "n < i_wsize ?u" "h \<le> i_wsize ?u" "h < i_wsize ?u \<longrightarrow> n = h" "h = min (i_wsize ?u) (i_whave ?u + length data)"
    by (rule updatewindow_cases[OF mem al])
  let ?s = "i_wsize ?u" and ?t = "?u\<lparr>i_window := Some w, i_wnext := n, i_whave := h\<rparr>"
  have sb: "same_but_window st ?t" using f(7) by (simp add: same_but_window_update)
  have wb: "i_wbits ?t = i_wbits st" by (simp add: with_window_def Let_def)
  have m: "win_mem ?t" using r(4-7) f(3) wb by (simp add: win_mem_def window_of_def)
  have s0: "?s \<noteq> 0" using f(3) by simp
  have h: "win_hist ?t (H @ data)" if "win_hist st H" for H
  proof -
    have wu: "win_hist ?u H" by (rule f(8)[OF that])
    note k = this[unfolded win_hist_def if_not_P[OF s0], THEN conjunct1] this[unfolded win_hist_def if_not_P[OF s0], THEN conjunct2]
    have hh: "h = min ?s (length (H @ data))" using r(8) k(1) by simp
    have rg: "ring ?t = drop n w @ take n w" by (simp add: ring_def window_of_def)
    have "drop (length (H @ data) - h) (H @ data) = drop (?s - h) (ring ?t)"
    proof (cases "length data \<le> ?s")
      case True
      have a: "advanced (window_of ?u) (i_wnext ?u) data w n" using r(2) True by simp
      show ?thesis unfolding rg
        by (rule advanced_hist[OF a, of H "i_whave ?u", unfolded f(2)]) (use k f(4,5) r(6,8) True in \<open>simp_all add: ring_def\<close>)
    next
      case False
      then show ?thesis unfolding rg using r(3) hh by simp
    qed
    then show ?thesis using hh s0 by (simp add: win_hist_def)
  qed
  show thesis by (rule that[OF r(1) sb m _ h]) (use s0 in simp_all)
qed

end
