(* ===== verification/Inflate_Space.thy ===== *)
theory Inflate_Space
  imports Inflate_Window
begin

text \<open>
  The output space: whatever the input and the state, every step of \<open>inflate\<close> takes from \<open>avail_out\<close>
  what it writes.  A write beyond the space is an access out of bounds, without a result; that there is
  none from any state that calls reach is part of \<open>Inflate_Correct\<close>.
\<close>

definition space_of :: "inflate_state \<Rightarrow> nat" where
  "space_of st = length (out_buf st) + avail_out st"

definition keeps_space :: "inflate_state \<Rightarrow> step \<Rightarrow> bool" where
  "keeps_space st x \<longleftrightarrow> (case x of Go s \<Rightarrow> space_of s = space_of st | Leave s _ \<Rightarrow> space_of s = space_of st
     | Return s _ \<Rightarrow> space_of s = space_of st | Fault \<Rightarrow> True)"

lemma keeps_simps [simp]: "keeps_space st (Go s) = (space_of s = space_of st)" "keeps_space st (Leave s k) = (space_of s = space_of st)"
    "keeps_space st (Return s k) = (space_of s = space_of st)" "keeps_space st Fault"
  by (simp_all add: keeps_space_def)

lemma space_PULLBYTE: "PULLBYTE st = Some s \<Longrightarrow> space_of s = space_of st"
  by (auto simp: PULLBYTE_def space_of_def split: list.splits)

lemma space_NEEDBITS [simp]: "space_of (NEEDBITS n st) = space_of st"
  by (induction n st rule: NEEDBITS.induct) (subst NEEDBITS.simps, auto dest: space_PULLBYTE split: option.splits)

lemma space_updates [simp]:
  "space_of (DROPBITS n st) = space_of st" "space_of (INITBITS st) = space_of st" "space_of (BYTEBITS st) = space_of st"
  "space_of (take_code e st) = space_of st" "space_of (fixedtables st) = space_of st"
  by (simp_all add: space_of_def DROPBITS_def INITBITS_def BYTEBITS_def take_code_def fixedtables_def)

lemma space_fields [simp]:
  "space_of (st\<lparr>next_in := a\<rparr>) = space_of st" "space_of (st\<lparr>total_out := b\<rparr>) = space_of st" "space_of (st\<lparr>msg := c\<rparr>) = space_of st"
  "space_of (st\<lparr>z_adler := d\<rparr>) = space_of st" "space_of (st\<lparr>i_out := e\<rparr>) = space_of st" "space_of (st\<lparr>i_mode := f\<rparr>) = space_of st"
  "space_of (st\<lparr>i_last := g\<rparr>) = space_of st" "space_of (st\<lparr>i_flags := h\<rparr>) = space_of st" "space_of (st\<lparr>i_dmax := i\<rparr>) = space_of st"
  "space_of (st\<lparr>i_check := j\<rparr>) = space_of st" "space_of (st\<lparr>i_total := k\<rparr>) = space_of st" "space_of (st\<lparr>i_head := l\<rparr>) = space_of st"
  "space_of (st\<lparr>i_wbits := m\<rparr>) = space_of st" "space_of (st\<lparr>i_hold := n\<rparr>) = space_of st" "space_of (st\<lparr>i_bits := o'\<rparr>) = space_of st"
  "space_of (st\<lparr>i_length := p\<rparr>) = space_of st" "space_of (st\<lparr>i_offset := q\<rparr>) = space_of st" "space_of (st\<lparr>i_extra := r\<rparr>) = space_of st"
  "space_of (st\<lparr>i_lencode := s\<rparr>) = space_of st" "space_of (st\<lparr>i_distcode := t\<rparr>) = space_of st" "space_of (st\<lparr>i_lenbits := u\<rparr>) = space_of st"
  "space_of (st\<lparr>i_distbits := v\<rparr>) = space_of st" "space_of (st\<lparr>i_ncode := w\<rparr>) = space_of st" "space_of (st\<lparr>i_nlen := x\<rparr>) = space_of st"
  "space_of (st\<lparr>i_ndist := y\<rparr>) = space_of st" "space_of (st\<lparr>i_have := z\<rparr>) = space_of st" "space_of (st\<lparr>i_next := aa\<rparr>) = space_of st"
  "space_of (st\<lparr>i_lens := bb\<rparr>) = space_of st" "space_of (st\<lparr>i_codes := cc\<rparr>) = space_of st" "space_of (st\<lparr>i_back := dd\<rparr>) = space_of st"
  "space_of (st\<lparr>i_was := ee\<rparr>) = space_of st"
  by (simp_all add: space_of_def)

lemma space_need: "(\<And>s. space_of s = space_of st \<Longrightarrow> keeps_space st (k s)) \<Longrightarrow> keeps_space st (need n st k)"
  by (simp add: need_def Let_def)

lemma keeps_bad [simp]: "keeps_space st (bad m s) = (space_of s = space_of st)"
  by (simp add: bad_def)

lemma keeps_trans: "keeps_space s x \<Longrightarrow> space_of s = space_of st \<Longrightarrow> keeps_space st x"
  by (simp add: keeps_space_def split: step.splits)

section \<open>The tables\<close>

definition fetch_space :: "inflate_state \<Rightarrow> fetch \<Rightarrow> bool" where
  "fetch_space st x \<longleftrightarrow> (case x of Crash \<Rightarrow> True | Short s \<Rightarrow> space_of s = space_of st | Got s e \<Rightarrow> space_of s = space_of st)"

lemma fetch_space_simps [simp]: "fetch_space st Crash" "fetch_space st (Short s) = (space_of s = space_of st)" "fetch_space st (Got s e) = (space_of s = space_of st)"
  by (simp_all add: fetch_space_def)

lemma fetch_space_trans: "fetch_space s x \<Longrightarrow> space_of s = space_of st \<Longrightarrow> fetch_space st x"
  by (simp add: fetch_space_def split: fetch.splits)

lemma space_root_loop: "fetch_space st (root_loop p nb st)"
proof (induction p nb st rule: root_loop.induct)
  case (1 p nb st)
  show ?case
  proof (cases "tab_rd st p (BITS nb st)")
    case (Some e)
    then show ?thesis
      using fetch_space_trans[OF 1[OF Some] space_PULLBYTE] by (subst root_loop.simps) (auto split: option.split)
  qed (subst root_loop.simps, simp)
qed

lemma space_sub_loop: "fetch_space st (sub_loop p e st)"
proof (induction p e st rule: sub_loop.induct)
  case (1 p e st)
  show ?case
  proof (cases "tab_rd st p (code_val e + BITS (code_bits e + code_op e) st div 2 ^ code_bits e)")
    case (Some e')
    then show ?thesis
      using fetch_space_trans[OF 1[OF Some] space_PULLBYTE] by (subst sub_loop.simps) (auto split: option.split)
  qed (subst sub_loop.simps, simp)
qed

lemma space_fill_lens: "fill_lens n l st = Some s \<Longrightarrow> space_of s = space_of st"
  by (induction n l st arbitrary: s rule: fill_lens.induct) (auto split: bind_splits)

lemma space_table: "call_inflate_table ty lens b st = Some (ret, bits, s) \<Longrightarrow> space_of s = space_of st"
  by (auto simp: call_inflate_table_def split: bind_splits prod.splits)

section \<open>The fast loop\<close>

definition within :: "inflate_state \<Rightarrow> fast \<Rightarrow> bool" where
  "within st f \<longleftrightarrow> length (out_buf st) \<le> length (f_out f) \<and> length (f_out f) \<le> space_of st"

definition round_within :: "inflate_state \<Rightarrow> round option \<Rightarrow> bool" where
  "round_within st x \<longleftrightarrow> (case x of None \<Rightarrow> True | Some (Next f) \<Rightarrow> within st f | Some (Halt f m t) \<Rightarrow> within st f)"

lemma within_byte: "fast_byte st f = Some g \<Longrightarrow> within st f \<Longrightarrow> within st g"
  by (auto simp: fast_byte_def within_def split: bind_splits)

lemma within_15: "fast_15 st f = Some g \<Longrightarrow> within st f \<Longrightarrow> within st g"
  by (auto simp: fast_15_def split: if_splits bind_splits dest: within_byte)

lemma within_drop: "fast_drop n f = Some g \<Longrightarrow> within st f \<Longrightarrow> within st g"
  by (auto simp: fast_drop_def within_def split: if_splits)

lemma within_put: "fast_put st b f = Some g \<Longrightarrow> within st f \<Longrightarrow> within st g"
  by (auto simp: fast_put_def within_def space_of_def split: if_splits)

lemma within_copy1: "copy1 st (src, f) = Some (src', g) \<Longrightarrow> within st f \<Longrightarrow> within st g"
  by (auto simp: copy1_def split: bind_splits dest: within_put)

lemma within_copy_n: "copy_n st n (src, f) = Some (src', g) \<Longrightarrow> within st f \<Longrightarrow> within st g"
  by (induction n arbitrary: src f) (auto split: bind_splits dest: within_copy1)

lemma within_copy_do: "copy_do st n (src, f) = Some (src', g) \<Longrightarrow> within st f \<Longrightarrow> within st g"
  by (cases n) (simp, metis copy_do_n within_copy_n Suc_leI zero_less_Suc One_nat_def)

lemma within_part: "window_part st op dist len f = Some (n, src, g) \<Longrightarrow> within st f \<Longrightarrow> within st g"
  by (auto simp: window_part_def Let_def split: if_splits bind_splits) (blast intro: within_copy_do)+

lemma within_match:
  assumes "within st f"
  shows "round_within st (fast_match st len dist f)"
proof -
  have c3: "within st h" if "do { (n, x) \<leftarrow> copy3_while st n x; copy_rest st n x } = Some (src, h)" "within st (snd x)" for n x src h
    using that unfolding copy3_rest_n by (cases x) (auto dest: within_copy_n)
  have d: "within st h" if "copy_direct st n (p, f) = Some (src, h)" for n p src h
  proof -
    have "3 \<le> n" using that by (auto simp: copy_direct_def split: if_splits)
    then show ?thesis using that assms by (auto simp: copy_direct_n dest: within_copy_n)
  qed
  have w: "within st h" if "window_part st op dist len f = Some (n, x)" "copy3_while st n x = Some (m, y)" "copy_rest st m y = Some (src, h)" for op n x m y src h
  proof -
    have "within st (snd x)" using within_part[of st op dist len f n "fst x" "snd x"] that(1) assms by simp
    then show ?thesis using c3[of n x src h] that(2,3) by simp
  qed
  show ?thesis using assms d w unfolding fast_match_def round_within_def Let_def
    by (fastforce split: if_splits bind_splits)
qed

definition result_within :: "inflate_state \<Rightarrow> round \<Rightarrow> bool" where
  "result_within st r \<longleftrightarrow> (case r of Next f \<Rightarrow> within st f | Halt f m t \<Rightarrow> within st f)"

lemma result_within_simps [simp]: "result_within st (Next f) = within st f" "result_within st (Halt f m t) = within st f"
  by (simp_all add: result_within_def)

lemma round_within_Some [simp]: "round_within st (Some r) = result_within st r"
  by (simp add: round_within_def result_within_def split: round.split)

lemma within_match_Some: "fast_match st len dist f = Some r \<Longrightarrow> within st f \<Longrightarrow> result_within st r"
  using within_match[of st f len dist] by simp

lemma within_dodist: "dodist st len e f = Some r \<Longrightarrow> within st f \<longrightarrow> result_within st r"
proof (induction rule: dodist.raw_induct[rotated, consumes 1])
  case (1 dodist st len e f r)
  note h = 1
  show ?case
  proof
    assume w: "within st f"
    obtain g where g: "fast_drop (code_bits e) f = Some g" using h(2) by (auto split: bind_splits)
    have wg: "within st g" by (rule within_drop[OF g w])
    consider "code_op e AND 16 \<noteq> 0" | "code_op e AND 16 = 0" "code_op e AND 64 = 0" | "code_op e AND 16 = 0" "code_op e AND 64 \<noteq> 0" by blast
    then show "result_within st r"
    proof cases
      case 1
      then show ?thesis using h(2) g wg
        by (auto simp: Let_def split: bind_splits if_splits dest!: within_match_Some) (metis within_drop within_byte)+
    next
      case 2
      then show ?thesis using h(2) g wg h(1) by (auto split: bind_splits)
    next
      case 3
      then show ?thesis using h(2) g wg by (auto split: bind_splits)
    qed
  qed
qed

lemma within_dolen: "dolen st e f = Some r \<Longrightarrow> within st f \<longrightarrow> result_within st r"
proof (induction rule: dolen.raw_induct[rotated, consumes 1])
  case (1 dolen st e f r)
  note h = 1
  show ?case
  proof
    assume w: "within st f"
    obtain g where g: "fast_drop (code_bits e) f = Some g" using h(2) by (auto split: bind_splits)
    have wg: "within st g" by (rule within_drop[OF g w])
    consider "code_op e = 0" | "code_op e \<noteq> 0" "code_op e AND 16 \<noteq> 0" | "code_op e \<noteq> 0" "code_op e AND 16 = 0" "code_op e AND 64 = 0"
      | "code_op e \<noteq> 0" "code_op e AND 16 = 0" "code_op e AND 64 \<noteq> 0" by blast
    then show "result_within st r"
    proof cases
      case 1
      then show ?thesis using h(2) g wg by (auto split: bind_splits intro: within_put)
    next
      case 2
      obtain x y z here len where x: "(if code_op e AND 15 \<noteq> 0 \<and> f_bits g < code_op e AND 15 then fast_byte st g else Some g) = Some x"
          "fast_drop (code_op e AND 15) x = Some y" "fast_15 st y = Some z" "dodist st len here z = Some r"
        using h(2) g 2 by (auto simp: Let_def split: bind_splits)
      have "within st x" using x(1) wg by (auto split: if_splits intro: within_byte)
      then show ?thesis using within_dodist[OF x(4)] within_15[OF x(3) within_drop[OF x(2)]] by simp
    next
      case 3
      then show ?thesis using h(2) g wg h(1) by (auto split: bind_splits)
    next
      case 4
      then show ?thesis using h(2) g wg by (auto split: bind_splits if_splits)
    qed
  qed
qed

lemma within_round: "fast_round st f = Some r \<Longrightarrow> within st f \<Longrightarrow> result_within st r"
  by (auto simp: fast_round_def split: bind_splits dest: within_dolen within_15)

lemma within_loop: "fast_loop st f = Some x \<Longrightarrow> within st f \<longrightarrow> within st (fst x)"
proof (induction rule: fast_loop.raw_induct[rotated, consumes 1])
  case (1 fast_loop st f x)
  then show ?case
    by (cases x) (auto split: bind_splits round.splits if_splits dest!: within_round)
qed

lemma space_inflate_fast: "inflate_fast st = Some s \<Longrightarrow> space_of s = space_of st"
proof -
  assume a: "inflate_fast st = Some s"
  let ?f = "\<lparr>f_in = 0, f_hold = i_hold st, f_bits = i_bits st, f_out = out_buf st\<rparr>"
  obtain g m t where g: "fast_loop st ?f = Some (g, m, t)" "s = st\<lparr>next_in := drop (f_in g - f_bits g div 8) (next_in st), out_buf := f_out g,
         avail_out := length (out_buf st) + avail_out st - length (f_out g),
         i_hold := f_hold g mod 2 ^ (f_bits g - 8 * (f_bits g div 8)), i_bits := f_bits g - 8 * (f_bits g div 8),
         i_mode := m, msg := (if t = None then msg st else t)\<rparr>"
    using a by (auto simp: inflate_fast_def Let_def split: bind_splits if_splits)
  have "within st ?f" by (simp add: within_def space_of_def)
  then have "within st g" using within_loop[OF g(1)] by simp
  then show ?thesis unfolding g(2) by (simp add: within_def space_of_def)
qed

section \<open>The steps\<close>

lemma space_headers: "keeps_space st (do_head st)" "keeps_space st (do_flags st)" "keeps_space st (do_time st)" "keeps_space st (do_os st)"
    "keeps_space st (do_exlen st)" "keeps_space st (do_hcrc st)" "keeps_space st (do_dictid st)" "keeps_space st (do_dict st)"
  by (auto simp: do_head_def do_flags_def do_time_def do_os_def do_exlen_def do_hcrc_def do_dictid_def do_dict_def end_header_def Let_def intro!: space_need)

lemma space_extra: "keeps_space st (do_extra st)" "keeps_space st (do_name st)" "keeps_space st (do_comment st)"
  by (auto simp: do_extra_def do_name_def do_comment_def end_string_def Let_def split: option.split)

lemma space_blocks: "keeps_space st (do_typedo flush st)" "keeps_space st (do_table st)"
  by (auto simp: do_typedo_def do_table_def Let_def intro!: space_need)

lemma space_stored: "keeps_space st (do_stored flush st)"
  unfolding do_stored_def
  by (rule keeps_trans[of "BYTEBITS st"], rule space_need) (simp_all add: Let_def)

lemma space_type: "keeps_space st (do_type flush st)"
  by (simp add: do_type_def space_blocks)

lemma space_copy: "keeps_space st (do_copy st)"
  by (auto simp: do_copy_def Let_def space_of_def min_def)

lemma space_lenlens: "keeps_space st (do_lenlens st)"
  by (auto simp: do_lenlens_def Let_def intro!: space_need split: option.split prod.split dest!: space_table)

lemma space_put_lens: "keeps_space st (put_lens len copy st)"
  by (auto simp: put_lens_def split: option.split dest: space_fill_lens)

lemma space_code_len: "keeps_space st (code_len here st)"
  by (auto simp: code_len_def Let_def intro!: space_need keeps_trans[OF space_put_lens] split: option.split)

lemma space_build_codes: "keeps_space st (build_codes flush st)"
  by (auto simp: build_codes_def Let_def split: option.split prod.split dest!: space_table)

lemma space_codelens: "keeps_space st (do_codelens flush st)"
proof -
  have "keeps_space st (case root_loop (i_lencode st) (i_lenbits st) st of Crash \<Rightarrow> Fault | Short st \<Rightarrow> Leave st Z_OK | Got st here \<Rightarrow> code_len here st)"
    using space_root_loop[of st "i_lencode st" "i_lenbits st"] by (auto split: fetch.split intro: keeps_trans[OF space_code_len])
  then show ?thesis using space_build_codes by (simp add: do_codelens_def)
qed

lemma space_entry: "keeps_space st (len_code e st)" "keeps_space st (dist_code_entry e st)"
  by (auto simp: len_code_def dist_code_entry_def Let_def)

lemma space_two_levels:
  assumes "\<And>s e. space_of s = space_of st \<Longrightarrow> keeps_space st (k e s)" "space_of u = space_of st"
  shows "keeps_space st (case root_loop p nb u of Crash \<Rightarrow> Fault | Short s \<Rightarrow> Leave s Z_OK
     | Got s here \<Rightarrow> if c here then (case sub_loop (p' s) here s of Crash \<Rightarrow> Fault | Short s \<Rightarrow> Leave s Z_OK
          | Got s here2 \<Rightarrow> k here2 (take_code here s)) else k here s)"
proof (cases "root_loop p nb u")
  case (Short s)
  then show ?thesis using space_root_loop[of u p nb] assms(2) by simp
next
  case (Got s here)
  have s: "space_of s = space_of st" using space_root_loop[of u p nb] assms(2) Got by simp
  have f: "fetch_space s (sub_loop (p' s) here s)" by (rule space_sub_loop)
  have "keeps_space st (case sub_loop (p' s) here s of Crash \<Rightarrow> Fault | Short s \<Rightarrow> Leave s Z_OK | Got s here2 \<Rightarrow> k here2 (take_code here s))"
    using f s assms(1) by (cases "sub_loop (p' s) here s") simp_all
  then show ?thesis using Got assms(1)[OF s] by simp
qed simp

lemma space_len: "keeps_space st (do_len st)"
proof (cases "length (next_in st) \<ge> 6 \<and> avail_out st \<ge> 258")
  case True
  have "keeps_space st (case inflate_fast st of None \<Rightarrow> Fault | Some st \<Rightarrow> Go (if i_mode st = TYPE0 then st\<lparr>i_back := -1\<rparr> else st))"
    using space_inflate_fast[of st] by (auto split: option.split)
  then show ?thesis unfolding do_len_def if_P[OF True] .
next
  case False
  show ?thesis unfolding do_len_def if_not_P[OF False]
    by (rule space_two_levels[where k = len_code and c = "\<lambda>here. code_op here \<noteq> 0 \<and> code_op here AND 0xf0 = 0"])
       (simp_all add: keeps_trans[OF space_entry(1)])
qed

lemma space_dist: "keeps_space st (do_dist st)"
  unfolding do_dist_def
  by (rule space_two_levels[where k = dist_code_entry and c = "\<lambda>here. code_op here AND 0xf0 = 0"])
     (simp_all add: keeps_trans[OF space_entry(2)])

lemma space_ext: "keeps_space st (do_lenext st)" "keeps_space st (do_distext st)"
  by (auto simp: do_lenext_def do_distext_def Let_def intro!: space_need)

lemma length_copy_out: "copy_out out off n = Some out' \<Longrightarrow> length out' = length out + n"
  by (induction out off n arbitrary: out' rule: copy_out.induct) (auto split: bind_splits if_splits)

lemma space_end_match: "n \<le> avail_out st \<Longrightarrow> (\<And>o'. out = Some o' \<Longrightarrow> length o' = length (out_buf st) + n) \<Longrightarrow> keeps_space st (end_match n out st)"
  by (auto simp: end_match_def Let_def space_of_def split: option.split)

lemma space_match: "keeps_space st (do_match st)"
proof (cases "i_offset st > i_out st - avail_out st")
  case True
  define d where "d = i_offset st - (i_out st - avail_out st)"
  have m: "keeps_space st (if n = 0 \<or> p + n > length w then Fault else end_match n (Some (out_buf st @ take n (drop p w))) st)"
    if "n \<le> avail_out st" for n p w
  proof (cases "n = 0 \<or> p + n > length w")
    case False
    then have "length (take n (drop p w)) = n" by (auto simp: min_def)
    then have "keeps_space st (end_match n (Some (out_buf st @ take n (drop p w))) st)" using that by (intro space_end_match) auto
    then show ?thesis using False by simp
  qed simp
  have n: "min x (avail_out st) \<le> avail_out st" for x by simp
  show ?thesis unfolding do_match_def Let_def if_P[OF True] d_def[symmetric]
    using m[OF n] by (cases "i_window st") simp_all
next
  case False
  have "keeps_space st (end_match n (copy_out (out_buf st) off n) st)" if "n \<le> avail_out st" for n off
    using that length_copy_out by (intro space_end_match) auto
  then show ?thesis unfolding do_match_def Let_def if_not_P[OF False] by simp
qed

lemma space_lit: "keeps_space st (do_lit st)"
  by (auto simp: do_lit_def space_of_def)

lemma space_trailer: "keeps_space st (do_check st)" "keeps_space st (do_length st)"
  by (auto simp: do_check_def do_length_def Let_def intro!: space_need)

lemma inflate_step_space: "keeps_space st (inflate_step flush st)"
  by (cases "i_mode st") (simp_all add: inflate_step_def space_headers space_extra space_blocks space_stored space_type space_copy space_lenlens
      space_codelens space_len space_dist space_ext space_match space_lit space_trailer)

lemma inflate_loop_space_aux: "inflate_loop flush st = Some x \<Longrightarrow> space_of (fst x) = space_of st"
proof (induction rule: inflate_loop.raw_induct[rotated, consumes 1])
  case (1 inflate_loop flush st x)
  then show ?case using inflate_step_space[of st flush] by (auto simp: keeps_space_def split: step.splits)
qed

lemma inflate_loop_space: "inflate_loop flush st = Some (s, ret, leave) \<Longrightarrow> space_of s = space_of st"
  using inflate_loop_space_aux[of flush st "(s, ret, leave)"] by simp

end
