(* ===== verification/Inflate_Run.thy ===== *)
theory Inflate_Run
  imports Inflate_Space
begin

text \<open>
  Whole calls of \<open>inflate\<close>: the loop returns, what follows \<open>inf_leave\<close> makes the state ready for the next
  call, and any sequence of calls decodes the stream of all their input.
\<close>

section \<open>The loop\<close>

definition outcome :: "nat \<Rightarrow> inflate_state \<Rightarrow> byte list \<Rightarrow> bool list \<Rightarrow> (byte list \<times> bool list) option \<Rightarrow> int \<Rightarrow> bool" where
  "outcome flush st H fut r ret \<longleftrightarrow> ret = Z_OK \<and> i_mode st \<noteq> DONE \<and> i_mode st \<noteq> BAD \<and> may_stop flush st H fut r
     \<or> ret = Z_STREAM_END \<and> i_mode st = DONE \<or> ret = Z_DATA_ERROR \<and> i_mode st = BAD"

text \<open>Every step that goes on leaves less work, so that the loop returns.\<close>

lemma inflate_loop_ok:
  assumes "good st H fut r" and fut: "length fut mod 8 = 0"
  obtains st' ret where "inflate_loop flush st = Some (st', ret, True)" "good st' H fut r" "outcome flush st' H fut r ret"
  using assms(1)
proof (induction "work_left st" arbitrary: st thesis rule: less_induct)
  case less
  note so = inflate_step_ok[OF less.prems(2) fut, of flush]
  show ?case
  proof (cases "inflate_step flush st")
    case (Go st1)
    then have g: "good st1 H fut r" "work_left st1 < work_left st" using so by (simp_all add: step_ok_def)
    have e: "inflate_loop flush st = inflate_loop flush st1" using Go by (subst inflate_loop.simps) simp
    show ?thesis by (rule less.hyps[OF g(2) _ g(1)]) (use less.prems(1) e in simp)
  next
    case (Leave st1 ret)
    then have "inflate_loop flush st = Some (st1, ret, True)" by (subst inflate_loop.simps) simp
    then show ?thesis using less.prems(1) so Leave by (simp add: step_ok_def outcome_def)
  qed (use so in \<open>simp_all add: step_ok_def\<close>)
qed

section \<open>Between the calls\<close>

text \<open>The state without input and output, and when it is ready for the stream to go on.\<close>

definition idle :: "inflate_state \<Rightarrow> inflate_state" where
  "idle st = st\<lparr>next_in := [], out_buf := [], avail_out := 0, i_out := 0\<rparr>"

lemma block_todo_cong:
  assumes "i_mode u = i_mode st" "i_bits u = i_bits st" "i_hold u = i_hold st" "i_last u = i_last st" "i_wrap u = i_wrap st" "i_flags u = i_flags st"
    "i_length u = i_length st" "i_offset u = i_offset st" "i_extra u = i_extra st" "i_nlen u = i_nlen st" "i_ndist u = i_ndist st" "i_ncode u = i_ncode st"
    "i_have u = i_have st" "i_lens u = i_lens st" "i_lencode u = i_lencode st" "i_distcode u = i_distcode st" "i_lenbits u = i_lenbits st"
    "i_distbits u = i_distbits st" "i_codes u = i_codes st"
  shows "block_todo u h bs r = block_todo st h bs r"
proof -
  have t: "two_tables u = two_tables st" "clens_so_far u = clens_so_far st" "code_rest u = code_rest st" "code_side u = code_side st"
    by (intro ext; unfold two_tables_def clens_so_far_def code_rest_def code_side_def assms; rule refl)+
  have s: "table_sizes u = table_sizes st" unfolding table_sizes_def assms ..
  have c: "codelens_todo u h bs r = codelens_todo st h bs r" unfolding codelens_todo_def t s assms ..
  show ?thesis unfolding block_todo_def t s c assms ..
qed

lemma todo_update [simp]:
  "block_todo (st\<lparr>next_in := a\<rparr>) h bs r = block_todo st h bs r" "block_todo (st\<lparr>out_buf := b\<rparr>) h bs r = block_todo st h bs r"
  "block_todo (st\<lparr>avail_out := c\<rparr>) h bs r = block_todo st h bs r" "block_todo (st\<lparr>i_out := d\<rparr>) h bs r = block_todo st h bs r"
  "block_todo (st\<lparr>i_window := e\<rparr>) h bs r = block_todo st h bs r" "block_todo (st\<lparr>i_wsize := f\<rparr>) h bs r = block_todo st h bs r"
  "block_todo (st\<lparr>i_wnext := g\<rparr>) h bs r = block_todo st h bs r" "block_todo (st\<lparr>i_whave := i\<rparr>) h bs r = block_todo st h bs r"
  "block_todo (st\<lparr>total_in := j\<rparr>) h bs r = block_todo st h bs r" "block_todo (st\<lparr>total_out := k\<rparr>) h bs r = block_todo st h bs r"
  "block_todo (st\<lparr>i_total := l\<rparr>) h bs r = block_todo st h bs r" "block_todo (st\<lparr>z_adler := m\<rparr>) h bs r = block_todo st h bs r"
  "block_todo (st\<lparr>i_check := n\<rparr>) h bs r = block_todo st h bs r" "block_todo (st\<lparr>z_data_type := p\<rparr>) h bs r = block_todo st h bs r"
  by (rule block_todo_cong; simp)+

lemma same_but_window_facts:
  assumes "same_but_window st u"
  shows "block_todo u h bs r = block_todo st h bs r" "i_mode u = i_mode st" "i_bits u = i_bits st" "i_hold u = i_hold st" "next_in u = next_in st"
    "out_buf u = out_buf st" "avail_out u = avail_out st" "i_out u = i_out st" "i_lens u = i_lens st" "i_work u = i_work st" "i_wbits u = i_wbits st"
    "i_sane u = i_sane st" "i_wrap u = i_wrap st" "i_flags u = i_flags st" "i_check u = i_check st" "i_total u = i_total st" "i_codes u = i_codes st" "msg u = msg st"
proof -
  let ?e = "\<lambda>u. u\<lparr>i_window := None, i_wsize := 0, i_wnext := 0, i_whave := 0\<rparr>"
  have e: "?e u = ?e st" using assms unfolding same_but_window_def .
  have "block_todo (?e u) h bs r = block_todo (?e st) h bs r" unfolding e ..
  then show "block_todo u h bs r = block_todo st h bs r" by simp
  show "i_mode u = i_mode st" "i_bits u = i_bits st" "i_hold u = i_hold st" "next_in u = next_in st"
    "out_buf u = out_buf st" "avail_out u = avail_out st" "i_out u = i_out st" "i_lens u = i_lens st" "i_work u = i_work st" "i_wbits u = i_wbits st"
    "i_sane u = i_sane st" "i_wrap u = i_wrap st" "i_flags u = i_flags st" "i_check u = i_check st" "i_total u = i_total st" "i_codes u = i_codes st" "msg u = msg st"
    using arg_cong[OF e, of i_mode] arg_cong[OF e, of i_bits] arg_cong[OF e, of i_hold] arg_cong[OF e, of next_in] arg_cong[OF e, of out_buf]
      arg_cong[OF e, of avail_out] arg_cong[OF e, of i_out] arg_cong[OF e, of i_lens] arg_cong[OF e, of i_work] arg_cong[OF e, of i_wbits]
      arg_cong[OF e, of i_sane] arg_cong[OF e, of i_wrap] arg_cong[OF e, of i_flags] arg_cong[OF e, of i_check] arg_cong[OF e, of i_total]
      arg_cong[OF e, of i_codes] arg_cong[OF e, of msg] by simp_all
qed

text \<open>The accounting at the end of a call.\<close>

definition accounted :: "nat \<Rightarrow> inflate_state \<Rightarrow> inflate_state" where
  "accounted inp st = (let
       inp = inp - length (next_in st);
       out = i_out st - avail_out st;
       st = st\<lparr>total_in := total_in st + of_nat inp, total_out := total_out st + of_nat out, i_total := i_total st + of_nat out\<rparr>;
       c = UPDATE st (i_check st) (new_output st);
       st = (if i_wrap st AND 4 \<noteq> 0 \<and> out \<noteq> 0 then st\<lparr>z_adler := c, i_check := c\<rparr> else st)
     in st\<lparr>z_data_type := i_bits st + (if i_last st \<noteq> 0 then 64 else 0) + (if i_mode st = TYPE0 then 128 else 0)
                    + (if i_mode st = LEN1 \<or> i_mode st = COPY1 then 256 else 0)\<rparr>)"

definition keep_window :: "nat \<Rightarrow> inflate_state \<Rightarrow> bool" where
  "keep_window flush st \<longleftrightarrow> i_wsize st \<noteq> 0 \<or> i_out st \<noteq> avail_out st \<and> i_mode st < BAD \<and> (i_mode st < CHECK \<or> flush \<noteq> Z_FINISH)"

lemma inf_leave_unfold: "inf_leave alloc flush inp ret st = do {
     (err, st) \<leftarrow> (if keep_window flush st then updatewindow alloc (new_output st) st else Some (0, st));
     if err \<noteq> 0 then Some (Z_MEM_ERROR, st\<lparr>i_mode := MEM\<rparr>)
     else Some (if (inp - length (next_in st) = 0 \<and> i_out st - avail_out st = 0 \<or> flush = Z_FINISH) \<and> ret = Z_OK then Z_BUF_ERROR else ret, accounted inp st) }"
  unfolding inf_leave_def keep_window_def accounted_def Let_def ..

lemma accounted_facts:
  "i_mode (accounted n st) = i_mode st" "i_bits (accounted n st) = i_bits st" "i_hold (accounted n st) = i_hold st"
  "i_lens (accounted n st) = i_lens st" "i_work (accounted n st) = i_work st" "i_wbits (accounted n st) = i_wbits st" "i_sane (accounted n st) = i_sane st"
  "i_wrap (accounted n st) = i_wrap st" "i_flags (accounted n st) = i_flags st" "i_codes (accounted n st) = i_codes st" "msg (accounted n st) = msg st"
  "i_window (accounted n st) = i_window st" "i_wsize (accounted n st) = i_wsize st" "i_wnext (accounted n st) = i_wnext st" "i_whave (accounted n st) = i_whave st"
  "out_buf (accounted n st) = out_buf st" "next_in (accounted n st) = next_in st" "avail_out (accounted n st) = avail_out st" "i_out (accounted n st) = i_out st"
  "block_todo (accounted n st) h bs r = block_todo st h bs r"
  "i_total (accounted n st) = i_total st + of_nat (new_count st)"
  by (simp_all add: accounted_def Let_def new_count_def)

lemma accounted_check:
  assumes "i_check st = check_value (i_flags st) (take (length H + length (out_buf st) - new_count st) (H @ out_buf st))" "new_count st \<le> length (out_buf st)" "i_wrap st AND 4 \<noteq> 0"
  shows "i_check (accounted n st) = check_value (i_flags st) (H @ out_buf st)"
proof -
  let ?out = "i_out st - avail_out st" and ?k = "length (out_buf st) - new_count st"
  have t: "take (length H + length (out_buf st) - new_count st) (H @ out_buf st) = H @ take ?k (out_buf st)" using assms(2) by simp
  have no: "new_output st = drop ?k (out_buf st)" by (simp add: new_output_def new_count_def)
  show ?thesis
  proof (cases "?out = 0")
    case True
    then have "?k = length (out_buf st)" by (simp add: new_count_def)
    then show ?thesis using assms(1) True t by (simp add: accounted_def Let_def)
  next
    case False
    let ?s = "st\<lparr>total_in := total_in st + of_nat (n - length (next_in st)), total_out := total_out st + of_nat ?out, i_total := i_total st + of_nat ?out\<rparr>"
    have "i_flags ?s = i_flags st" by simp
    note u = UPDATE_check[OF assms(1)[unfolded t] this, of "new_output st"]
    have "(H @ take ?k (out_buf st)) @ new_output st = H @ out_buf st" unfolding no by simp
    moreover have "new_output ?s = new_output st" by (simp add: new_output_def)
    ultimately show ?thesis using u assms(3) False by (simp add: accounted_def Let_def)
  qed
qed

definition ready :: "inflate_state \<Rightarrow> byte list \<Rightarrow> bool list \<Rightarrow> (byte list \<times> bool list) option \<Rightarrow> bool" where
  "ready st H fut r \<longleftrightarrow> good (idle st) H fut r"

lemma block_mode_less: "m \<in> block_modes \<Longrightarrow> m < CHECK \<and> m < BAD"
  by (auto simp: block_modes_def less_inflate_mode_def)

lemma inf_leave_ok:
  assumes g: "good st H fut r" and al: "alloc_ok alloc st"
  obtains st' where "inf_leave alloc flush inp ret st
      = Some (if (inp - length (next_in st) = 0 \<and> i_out st - avail_out st = 0 \<or> flush = Z_FINISH) \<and> ret = Z_OK then Z_BUF_ERROR else ret, st')"
    "ready st' (H @ out_buf st) (bytes_bits (next_in st) @ fut) r" "out_buf st' = out_buf st" "next_in st' = next_in st" "avail_out st' = avail_out st"
    "i_mode st' = i_mode st" "rem_bits st' = rem_bits st" "msg st' = msg st" "i_wbits st' = i_wbits st"
proof -
  note b = good_base[OF g, unfolded base_def]
  have mem: "win_mem st" and nc: "new_count st \<le> length (out_buf st)" using b by blast+
  obtain u where u: "(if keep_window flush st then updatewindow alloc (new_output st) st else Some (0, st)) = Some (0, u)" "same_but_window st u" "win_mem u"
      "i_mode st \<in> block_modes \<Longrightarrow> win_hist u (H @ out_buf st)"
  proof (cases "keep_window flush st")
    case True
    obtain u where u: "updatewindow alloc (new_output st) st = Some (0, u)" "same_but_window st u" "win_mem u" "i_wsize u \<noteq> 0"
        "\<And>H. win_hist st H \<Longrightarrow> win_hist u (H @ new_output st)"
      using updatewindow_ok[OF mem al, of "new_output st"] by metis
    have "win_hist u (H @ out_buf st)" if "i_mode st \<in> block_modes"
      using u(5)[of H] g that new_output_all[of st] by (simp add: good_def)
    then show thesis using that[of u] u True by simp
  next
    case False
    have "win_hist st (H @ out_buf st)" if m: "i_mode st \<in> block_modes"
    proof -
      have "i_out st = avail_out st" using False block_mode_less[OF m] by (auto simp: keep_window_def)
      then have "out_buf st = []" using g m by (simp add: good_def new_count_def)
      then show ?thesis using g m by (simp add: good_def)
    qed
    then show thesis using that[of st] False mem by (simp add: same_but_window_update)
  qed
  note s = same_but_window_facts[OF u(2)]
  let ?t = "accounted inp u" and ?H = "H @ out_buf st"
  note a = accounted_facts[of inp u]
  have r: "inf_leave alloc flush inp ret st
      = Some (if (inp - length (next_in st) = 0 \<and> i_out st - avail_out st = 0 \<or> flush = Z_FINISH) \<and> ret = Z_OK then Z_BUF_ERROR else ret, ?t)"
    unfolding inf_leave_unfold u(1) using s by simp
  have rb: "rem_bits ?t = rem_bits st" "rem_bits (idle ?t) @ bytes_bits (next_in st) @ fut = rem_bits st @ fut"
    using s a by (simp_all add: rem_bits_def hold_bits_def idle_def bytes_bits_def)
  have ncu: "new_count u = new_count st" using s by (simp add: new_count_def)
  have ck: "i_check ?t = check_value (i_flags st) ?H" if w: "i_wrap st \<noteq> 0"
    using accounted_check[of u H inp] b w ncu s by simp
  have lk: "(of_nat (length H + length (out_buf st) - new_count st) :: uLong) + of_nat (new_count st) = of_nat (length H + length (out_buf st))"
    using nc by (simp flip: of_nat_add)
  have "win_mem (idle ?t)" using u(3) a s by (simp add: win_mem_def window_of_def idle_def)
  moreover have "acc_ok (idle ?t)" using b a s by (simp add: acc_ok_def idle_def)
  ultimately have bt: "base (idle ?t) ?H"
    using b ck lk a s ncu unfolding base_def by (simp add: idle_def new_count_def)
  have bl: "block_todo (idle ?t) h bs x = block_todo st h bs x" for h bs x using s a by (simp add: idle_def)
  have wh: "win_hist (idle ?t) ?H = win_hist u ?H" using a by (simp add: win_hist_def ring_def window_of_def idle_def)
  have f: "i_mode (idle ?t) = i_mode st" "out_buf (idle ?t) = []" "new_count (idle ?t) = 0" "i_codes (idle ?t) = i_codes st" "i_bits (idle ?t) = i_bits st"
    "i_wrap (idle ?t) = i_wrap st" "i_flags (idle ?t) = i_flags st" "msg (idle ?t) = msg st"
    using a s by (simp_all add: idle_def new_count_def)
  have "good (idle ?t) ?H (bytes_bits (next_in st) @ fut) r"
  proof (cases "i_mode st \<in> block_modes")
    case True
    then show ?thesis using g bt u(4) unfolding good_def f rb(2) bl wh by simp
  next
    case False
    then show ?thesis using g bt unfolding good_def f rb(2) by (cases "i_mode st") (simp_all add: f)
  qed
  then show thesis using that[OF r] rb(1) a s by (simp add: ready_def)
qed

text \<open>The start of a call.\<close>

definition started :: "byte list \<Rightarrow> nat \<Rightarrow> inflate_state \<Rightarrow> inflate_state" where
  "started inp space st = (let st = (if i_mode st = TYPE0 then st\<lparr>i_mode := TYPEDO\<rparr> else st) in st\<lparr>next_in := inp, out_buf := [], avail_out := space, i_out := space\<rparr>)"

lemma started_ok:
  assumes "ready st H (bytes_bits inp @ fut) r"
  shows "good (started inp space st) H fut r"
proof -
  let ?i = "idle st" and ?s = "started inp space st"
  note g = assms[unfolded ready_def]
  have f: "i_mode ?s = (if i_mode st = TYPE0 then TYPEDO else i_mode st)" "i_mode ?i = i_mode st" "out_buf ?s = []" "new_count ?s = 0" "new_count ?i = 0" "out_buf ?i = []"
    "i_codes ?s = i_codes ?i" "i_bits ?s = i_bits ?i" "i_wrap ?s = i_wrap ?i" "i_flags ?s = i_flags ?i" "msg ?s = msg ?i"
    by (simp_all add: started_def idle_def new_count_def Let_def)
  have rb: "rem_bits ?s @ fut = rem_bits ?i @ bytes_bits inp @ fut"
    by (simp add: rem_bits_def hold_bits_def started_def idle_def Let_def bytes_bits_def)
  have "win_mem ?s = win_mem ?i" "acc_ok ?s = acc_ok ?i" by (simp_all add: win_mem_def window_of_def acc_ok_def started_def idle_def Let_def)
  moreover have "i_lens ?s = i_lens ?i" "i_work ?s = i_work ?i" "i_wbits ?s = i_wbits ?i" "i_sane ?s = i_sane ?i" "avail_out ?s \<le> i_out ?s" "i_check ?s = i_check ?i" "i_total ?s = i_total ?i"
    by (simp_all add: started_def idle_def Let_def)
  ultimately have b: "base ?s H" using good_base[OF g] f unfolding base_def by simp
  have wh: "win_hist ?s H = win_hist ?i H" by (simp add: win_hist_def ring_def window_of_def started_def idle_def Let_def)
  have bl: "block_todo ?s h bs x = block_todo ?i h bs x" for h bs x
    by (cases "i_mode st = TYPE0") (simp_all add: started_def idle_def Let_def, simp add: block_todo_def)
  have m: "i_mode ?s \<in> block_modes \<longleftrightarrow> i_mode ?i \<in> block_modes" using f(1,2) by (auto simp: block_modes_def)
  show ?thesis
  proof (cases "i_mode ?i \<in> block_modes")
    case True
    then show ?thesis using g b m unfolding good_def f(3-11) rb wh bl by simp
  next
    case False
    then have "i_mode ?s = i_mode ?i" using f(1,2) by (auto simp: block_modes_def)
    then show ?thesis using g b False unfolding good_def f(3-11) rb by (cases "i_mode ?i") (simp_all add: f(11))
  qed
qed

end
