(* ===== verification/Inflate_Api.thy ===== *)
theory Inflate_Api
  imports Inflate
begin

text \<open>
  The other functions of \<open>inflate.c\<close>.  A stream argument is \<open>None\<close> when it does not pass
  \<open>inflateStateCheck\<close>: a null pointer, missing allocation functions or no state.  Every function
  returns its result and the stream.
\<close>

section \<open>Initialization and reset\<close>

definition inflateStateCheck :: "inflate_state option \<Rightarrow> bool" where
  "inflateStateCheck strm \<longleftrightarrow> strm = None"

definition reset_keep :: "inflate_state \<Rightarrow> inflate_state" where
  "reset_keep st =
     (let st = st\<lparr>total_in := 0, total_out := 0, i_total := 0, msg := None\<rparr>;
          st = (if i_wrap st \<noteq> 0 then st\<lparr>z_adler := of_nat (i_wrap st AND 1)\<rparr> else st)
      in st\<lparr>i_mode := HEAD, i_last := 0, i_havedict := 0, i_dmax := 32768, i_head := None, i_hold := 0, i_bits := 0,
            i_lencode := Codes 0, i_distcode := Codes 0, i_next := 0, i_sane := True, i_back := -1\<rparr>)"

definition inflateResetKeep :: "inflate_state option \<Rightarrow> int \<times> inflate_state option" where
  "inflateResetKeep strm = (if inflateStateCheck strm then (Z_STREAM_ERROR, strm) else (Z_OK, map_option reset_keep strm))"

definition inflateReset :: "inflate_state option \<Rightarrow> int \<times> inflate_state option" where
  "inflateReset strm = (if inflateStateCheck strm then (Z_STREAM_ERROR, strm)
     else inflateResetKeep (map_option (\<lambda>st. st\<lparr>i_wsize := 0, i_whave := 0, i_wnext := 0\<rparr>) strm))"

text \<open>\<open>wrap\<close> and the number of bits that \<open>windowBits\<close> asks for.\<close>

definition window_request :: "int \<Rightarrow> int \<times> int" where
  "window_request windowBits =
     (if windowBits < 0 then (0, - windowBits)
      else (drop_bit 4 windowBits + 5, if windowBits < 48 then windowBits AND 15 else windowBits))"

definition inflateReset2 :: "int \<Rightarrow> inflate_state option \<Rightarrow> int \<times> inflate_state option" where
  "inflateReset2 windowBits strm = (case strm of None \<Rightarrow> (Z_STREAM_ERROR, None)
     | Some st \<Rightarrow>
       (let (wrap, windowBits) = window_request windowBits in
        if windowBits \<noteq> 0 \<and> (windowBits < 8 \<or> windowBits > 15) then (Z_STREAM_ERROR, Some st)
        else
          let st = (if i_window st \<noteq> None \<and> int (i_wbits st) \<noteq> windowBits then st\<lparr>i_window := None\<rparr> else st)
          in inflateReset (Some (st\<lparr>i_wrap := nat wrap, i_wbits := nat windowBits\<rparr>))))"

text \<open>
  \<open>inflateInit2_\<close>: \<open>version_ok\<close> is the check of the version and of the size of the structure, \<open>there\<close> tells
  whether \<open>strm\<close> is not null, and \<open>mem\<close> is the new memory for the state (its contents are arbitrary), or
  \<open>None\<close>.  Where the application gave no allocation functions, the code uses its own.
\<close>

definition inflateInit2 :: "bool \<Rightarrow> bool \<Rightarrow> inflate_state option \<Rightarrow> int \<Rightarrow> int \<times> inflate_state option" where
  "inflateInit2 version_ok there mem windowBits =
     (if \<not> version_ok then (Z_VERSION_ERROR, None)
      else if \<not> there then (Z_STREAM_ERROR, None)
      else case mem of None \<Rightarrow> (Z_MEM_ERROR, None)
      | Some st \<Rightarrow>
        (case inflateReset2 windowBits (Some (st\<lparr>msg := None, i_window := None, i_mode := HEAD\<rparr>)) of
           (ret, strm) \<Rightarrow> if ret \<noteq> Z_OK then (ret, None) else (ret, strm)))"

definition DEF_WBITS :: int where
  "DEF_WBITS = 15"

definition inflateInit :: "bool \<Rightarrow> bool \<Rightarrow> inflate_state option \<Rightarrow> int \<times> inflate_state option" where
  "inflateInit version_ok there mem = inflateInit2 version_ok there mem DEF_WBITS"

definition inflatePrime :: "int \<Rightarrow> int \<Rightarrow> inflate_state option \<Rightarrow> int \<times> inflate_state option" where
  "inflatePrime bits val strm = (case strm of None \<Rightarrow> (Z_STREAM_ERROR, None)
     | Some st \<Rightarrow>
       if bits < 0 then (Z_OK, Some (st\<lparr>i_hold := 0, i_bits := 0\<rparr>))
       else if bits > 16 \<or> int (i_bits st) + bits > 32 then (Z_STREAM_ERROR, Some st)
       else (Z_OK, Some (st\<lparr>i_hold := i_hold st + nat (val AND (2 ^ nat bits - 1)) * 2 ^ i_bits st mod 2 ^ 32, i_bits := i_bits st + nat bits\<rparr>)))"

definition inflateEnd :: "inflate_state option \<Rightarrow> int \<times> inflate_state option" where
  "inflateEnd strm = (if inflateStateCheck strm then (Z_STREAM_ERROR, strm) else (Z_OK, None))"

section \<open>Dictionaries and headers\<close>

text \<open>The dictionary is copied to \<open>dict\<close>, a buffer of the application, unless that is null.\<close>

definition inflateGetDictionary :: "inflate_state option \<Rightarrow> byte list option \<Rightarrow> (int \<times> byte list option \<times> nat) option" where
  "inflateGetDictionary strm dict = (case strm of None \<Rightarrow> Some (Z_STREAM_ERROR, dict, 0)
     | Some st \<Rightarrow>
       if i_whave st \<noteq> 0 \<and> dict \<noteq> None then do {
         d \<leftarrow> dict;
         w \<leftarrow> i_window st;
         d \<leftarrow> (if i_whave st < i_wnext st then None else memcpy d 0 (drop (i_wnext st) w) (i_whave st - i_wnext st));
         d \<leftarrow> memcpy d (i_whave st - i_wnext st) w (i_wnext st);
         Some (Z_OK, Some d, i_whave st) }
       else Some (Z_OK, dict, i_whave st))"

definition inflateSetDictionary :: "byte list option \<Rightarrow> inflate_state option \<Rightarrow> byte list \<Rightarrow> (int \<times> inflate_state option) option" where
  "inflateSetDictionary alloc strm dict = (case strm of None \<Rightarrow> Some (Z_STREAM_ERROR, None)
     | Some st \<Rightarrow>
       if i_wrap st \<noteq> 0 \<and> i_mode st \<noteq> DICT then Some (Z_STREAM_ERROR, Some st)
       else if i_mode st = DICT \<and> adler32 (adler32 0 None) (Some dict) \<noteq> i_check st then Some (Z_DATA_ERROR, Some st)
       else do {
         (ret, st) \<leftarrow> updatewindow alloc dict st;
         Some (if ret \<noteq> 0 then (Z_MEM_ERROR, Some (st\<lparr>i_mode := MEM\<rparr>)) else (Z_OK, Some (st\<lparr>i_havedict := 1\<rparr>))) })"

definition inflateGetHeader :: "inflate_state option \<Rightarrow> gz_header \<Rightarrow> int \<times> inflate_state option" where
  "inflateGetHeader strm hdr = (case strm of None \<Rightarrow> (Z_STREAM_ERROR, None)
     | Some st \<Rightarrow> if i_wrap st AND 2 = 0 then (Z_STREAM_ERROR, Some st) else (Z_OK, Some (st\<lparr>i_head := Some (hdr\<lparr>h_done := 0\<rparr>)\<rparr>)))"

section \<open>Synchronization\<close>

text \<open>\<open>syncsearch\<close>: the new number of bytes of the pattern found, and how many bytes were read.\<close>

fun syncsearch :: "nat \<Rightarrow> byte list \<Rightarrow> nat \<times> nat" where
  "syncsearch got [] = (got, 0)"
| "syncsearch got (b # bs) =
     (if got < 4 then
        let got = (if b = (if got < 2 then 0 else 0xff) then got + 1 else if b \<noteq> 0 then 0 else 4 - got);
            (got, n) = syncsearch got bs
        in (got, n + 1)
      else (got, 0))"

text \<open>\<open>while (state->bits >= 8) { buf[len++] = hold; hold >>= 8; bits -= 8; }\<close>, with \<open>buf[4]\<close>.\<close>

function hold_bytes :: "inflate_state \<Rightarrow> byte list \<Rightarrow> (inflate_state \<times> byte list) option" where
  "hold_bytes st buf = (if i_bits st \<ge> 8 then
       (if length buf < 4 then hold_bytes (st\<lparr>i_hold := i_hold st div 2 ^ 8, i_bits := i_bits st - 8\<rparr>) (buf @ [of_nat (i_hold st)]) else None)
     else Some (st, buf))"
  by pat_completeness auto
termination by (relation "measure (\<lambda>(st, buf). i_bits st)") auto

declare hold_bytes.simps [simp del]

definition inflateSync :: "inflate_state option \<Rightarrow> byte list \<Rightarrow> (int \<times> inflate_state option) option" where
  "inflateSync strm inp = (case strm of None \<Rightarrow> Some (Z_STREAM_ERROR, None)
     | Some st \<Rightarrow>
       if inp = [] \<and> i_bits st < 8 then Some (Z_BUF_ERROR, Some st)
       else do {
         st \<leftarrow> (if i_mode st \<noteq> SYNC then do {
             (st, buf) \<leftarrow> hold_bytes (st\<lparr>i_mode := SYNC, i_hold := (i_hold st * 2 ^ (i_bits st mod 8)) mod 2 ^ 64,
               i_bits := i_bits st - i_bits st mod 8\<rparr>) [];
             Some (st\<lparr>i_have := fst (syncsearch 0 buf)\<rparr>) }
           else Some st);
         let (got, len) = syncsearch (i_have st) inp;
         let st = st\<lparr>i_have := got, next_in := drop len inp, total_in := total_in st + of_nat len\<rparr>;
         if got \<noteq> 4 then Some (Z_DATA_ERROR, Some st)
         else Some (Z_OK, map_option (\<lambda>r. r\<lparr>total_in := total_in st, total_out := total_out st, i_mode := TYPE0\<rparr>)
           (snd (inflateReset (Some st)))) })"

definition inflateSyncPoint :: "inflate_state option \<Rightarrow> int" where
  "inflateSyncPoint strm = (case strm of None \<Rightarrow> Z_STREAM_ERROR
     | Some st \<Rightarrow> if i_mode st = STORED \<and> i_bits st = 0 then 1 else 0)"

section \<open>Copying and inspecting\<close>

text \<open>
  \<open>inflateCopy\<close>: \<open>mem\<close> and \<open>wmem\<close> tell whether the two allocations succeed, the second of them made only
  for an existing window.  Pointers into \<open>codes\<close> are offsets in the model, so that they keep their meaning.
\<close>

definition inflateCopy :: "bool \<Rightarrow> bool \<Rightarrow> inflate_state option \<Rightarrow> int \<times> inflate_state option" where
  "inflateCopy mem wmem source = (case source of None \<Rightarrow> (Z_STREAM_ERROR, None)
     | Some st \<Rightarrow>
       if \<not> mem then (Z_MEM_ERROR, None)
       else if i_window st \<noteq> None \<and> \<not> wmem then (Z_MEM_ERROR, None)
       else (Z_OK, Some (st\<lparr>i_window := map_option (take (2 ^ i_wbits st)) (i_window st)\<rparr>)))"

definition inflateUndermine :: "inflate_state option \<Rightarrow> int \<times> inflate_state option" where
  "inflateUndermine strm = (case strm of None \<Rightarrow> (Z_STREAM_ERROR, None) | Some st \<Rightarrow> (Z_DATA_ERROR, Some (st\<lparr>i_sane := True\<rparr>)))"

definition inflateValidate :: "bool \<Rightarrow> inflate_state option \<Rightarrow> int \<times> inflate_state option" where
  "inflateValidate check strm = (case strm of None \<Rightarrow> (Z_STREAM_ERROR, None)
     | Some st \<Rightarrow> (Z_OK, Some (st\<lparr>i_wrap := (if check then i_wrap st OR 4 else i_wrap st - (i_wrap st AND 4))\<rparr>)))"

definition inflateMark :: "inflate_state option \<Rightarrow> int" where
  "inflateMark strm = (case strm of None \<Rightarrow> - (2 ^ 16)
     | Some st \<Rightarrow> i_back st * 2 ^ 16 + (if i_mode st = COPY then int (i_length st)
         else if i_mode st = MATCH then int (i_was st) - int (i_length st) else 0))"

definition inflateCodesUsed :: "inflate_state option \<Rightarrow> uLong" where
  "inflateCodesUsed strm = (case strm of None \<Rightarrow> -1 | Some st \<Rightarrow> of_nat (i_next st))"

end
