(* ===== verification/Inflate_Stream.thy ===== *)
theory Inflate_Stream
  imports Inflate_Run Inflate_Api
begin

text \<open>
  Streams: the zlib header, and sequences of calls from the state that \<open>inflateInit2\<close> makes.  The
  theorems relate their output to the decoder of the format.
\<close>

section \<open>Streams\<close>

text \<open>The header of two bytes (RFC 1950), the blocks and the check value.\<close>

definition zlib_stream :: "bool list \<Rightarrow> (byte list \<times> bool list) option" where
  "zlib_stream bs = do {
     (h, bs) \<leftarrow> take_bits 16 bs;
     if (h mod 256 * 256 + h div 256) mod 31 \<noteq> 0 \<or> h mod 16 \<noteq> 8 \<or> 7 < h div 16 mod 16 then None
     else do { (out, bs) \<leftarrow> decode_blocks [] bs; trailer 5 0 out bs } }"

definition stream :: "nat \<Rightarrow> bool list \<Rightarrow> (byte list \<times> bool list) option" where
  "stream wrap bs = (if wrap = 0 then decode_blocks [] bs else zlib_stream bs)"

text \<open>The stream does not ask for a preset dictionary.\<close>

definition no_dict :: "nat \<Rightarrow> bool list \<Rightarrow> bool" where
  "no_dict wrap bs \<longleftrightarrow> wrap = 0 \<or> (case take_bits 16 bs of None \<Rightarrow> True | Some (h, _) \<Rightarrow> h div 16 AND 0x200 = 0)"

lemma finish_at_start: "finish_at 0 0 f (Some ([], bs)) = decode_blocks [] bs"
  "finish_at 0 5 0 (Some ([], bs)) = do { (out, bs) \<leftarrow> decode_blocks [] bs; trailer 5 0 out bs }"
  by (simp_all add: finish_at_def trailer_def[of 0] split: option.split)

section \<open>The state at the start\<close>

definition fresh :: "inflate_state \<Rightarrow> bool" where
  "fresh st \<longleftrightarrow> i_mode st = HEAD \<and> (i_wrap st = 0 \<or> i_wrap st = 5) \<and> i_wbits st = 15 \<and> i_sane st
     \<and> length (i_lens st) = 320 \<and> length (i_work st) = 288 \<and> length (i_codes st) = ENOUGH \<and> i_wsize st = 0 \<and> i_whave st = 0
     \<and> i_last st = 0 \<and> i_total st = 0 \<and> (i_window st \<noteq> None \<longrightarrow> length (window_of st) = 2 ^ 15)
     \<and> acc_ok st \<and> i_bits st \<le> 8 \<and> i_bits st mod 8 = 0 \<and> (i_wrap st = 0 \<longrightarrow> i_bits st = 0)"

text \<open>The state after a wrong header.\<close>

definition dead :: "inflate_state \<Rightarrow> bool" where
  "dead st \<longleftrightarrow> i_mode st = BAD \<and> i_wsize st = 0 \<and> i_wbits st = 15"

definition ready_or_new :: "inflate_state \<Rightarrow> byte list \<Rightarrow> bool list \<Rightarrow> (byte list \<times> bool list) option \<Rightarrow> bool" where
  "ready_or_new st H fut r \<longleftrightarrow> ready st H fut r \<and> i_wbits st = 15
     \<or> H = [] \<and> fresh st \<and> r = stream (i_wrap st) (hold_bits st @ fut) \<and> no_dict (i_wrap st) (hold_bits st @ fut)
     \<or> H = [] \<and> dead st \<and> r = None"

text \<open>What a call of \<open>inflate\<close> tells about the stream.\<close>

definition call_result :: "nat \<Rightarrow> inflate_state \<Rightarrow> byte list \<Rightarrow> bool list \<Rightarrow> (byte list \<times> bool list) option \<Rightarrow> int \<Rightarrow> bool" where
  "call_result flush st H fut r ret \<longleftrightarrow> (ret = Z_OK \<or> ret = Z_BUF_ERROR) \<and> may_stop flush st H fut r \<and> i_mode st \<noteq> BAD
     \<or> ret = Z_STREAM_END \<and> r = Some (H @ out_buf st, rem_bits st @ fut)
     \<or> ret = Z_DATA_ERROR \<and> r = None"

definition window_mem :: "byte list option \<Rightarrow> bool" where
  "window_mem alloc \<longleftrightarrow> (\<exists>w. alloc = Some w \<and> length w = 32768)"

lemma window_mem_alloc: "window_mem alloc \<Longrightarrow> i_wbits st = 15 \<Longrightarrow> alloc_ok alloc st"
  by (simp add: window_mem_def alloc_ok_def)

lemma inflate_unfold: "inflate alloc flush inp space st = do {
     (st, ret, leave) \<leftarrow> inflate_loop flush (started inp space st);
     if leave then inf_leave alloc flush (length inp) ret st else Some (ret, st) }"
  by (simp add: inflate_def started_def Let_def)

text \<open>From a good state on.\<close>

lemma loop_call:
  assumes g: "good st H fut r" "i_wbits st = 15" and mem: "window_mem alloc" and fut: "length fut mod 8 = 0"
    and e: "inflate_loop flush (started inp space st0) = inflate_loop flush st"
  shows "\<exists>ret st'. inflate alloc flush inp space st0 = Some (ret, st') \<and> ready_or_new st' (H @ out_buf st') (bytes_bits (next_in st') @ fut) r
     \<and> call_result flush st' H fut r ret"
proof -
  obtain s k where k: "inflate_loop flush st = Some (s, k, True)" "good s H fut r" "outcome flush s H fut r k" by (rule inflate_loop_ok[OF g(1) fut])
  have wb: "i_wbits s = 15" using k(2) by (simp add: good_def base_def)
  obtain s' where s': "inf_leave alloc flush (length inp) k s
      = Some (if (length inp - length (next_in s) = 0 \<and> i_out s - avail_out s = 0 \<or> flush = Z_FINISH) \<and> k = Z_OK then Z_BUF_ERROR else k, s')"
    "ready s' (H @ out_buf s) (bytes_bits (next_in s) @ fut) r" "out_buf s' = out_buf s" "next_in s' = next_in s" "avail_out s' = avail_out s"
    "i_mode s' = i_mode s" "rem_bits s' = rem_bits s" "msg s' = msg s" "i_wbits s' = i_wbits s"
    by (rule inf_leave_ok[OF k(2) window_mem_alloc[OF mem wb]])
  let ?c = "if (length inp - length (next_in s) = 0 \<and> i_out s - avail_out s = 0 \<or> flush = Z_FINISH) \<and> k = Z_OK then Z_BUF_ERROR else k"
  have "inflate alloc flush inp space st0 = Some (?c, s')" unfolding inflate_unfold e using k(1) s'(1) by simp
  moreover have "ready_or_new s' (H @ out_buf s') (bytes_bits (next_in s') @ fut) r" using s' wb by (simp add: ready_or_new_def)
  moreover have "call_result flush s' H fut r ?c"
    using k(2,3) s' unfolding outcome_def call_result_def
    by (auto simp: good_def block_modes_def may_stop_def return_codes)
  ultimately show ?thesis by blast
qed

text \<open>A call that leaves before there is any output.\<close>

lemma early_leave:
  assumes "inflate_loop flush (started inp space st0) = Some (s, k, True)" "i_wsize s = 0" "i_out s = avail_out s"
  shows "\<exists>ret st'. inflate alloc flush inp space st0 = Some (ret, st') \<and> st' = accounted (length inp) s
     \<and> (ret = k \<or> k = Z_OK \<and> ret = Z_BUF_ERROR)"
proof -
  have nk: "\<not> keep_window flush s" using assms(2,3) by (simp add: keep_window_def)
  have e: "inflate alloc flush inp space st0 = inf_leave alloc flush (length inp) k s" unfolding inflate_unfold assms(1) by simp
  show ?thesis unfolding e inf_leave_unfold if_not_P[OF nk] by auto
qed

lemma fresh_accounted:
  assumes "fresh s" "i_out s = avail_out s"
  shows "fresh (accounted n s)" "hold_bits (accounted n s) = hold_bits s"
proof -
  have "i_last (accounted n s) = i_last s" by (simp add: accounted_def Let_def)
  then show "fresh (accounted n s)" "hold_bits (accounted n s) = hold_bits s"
    using assms by (simp_all add: fresh_def accounted_facts acc_ok_def window_of_def hold_bits_def new_count_def)
qed

section \<open>The header\<close>

lemma fresh_started: "fresh st \<Longrightarrow> fresh (started inp space st)"
  by (simp add: fresh_def started_def Let_def acc_ok_def window_of_def)

lemma fresh_good:
  assumes f: "fresh st" and s: "i_mode s = TYPEDO \<or> i_mode s = TYPE0" "s = st\<lparr>next_in := a, i_hold := b, i_bits := c, i_mode := m, i_flags := d, i_head := gh, i_dmax := dm, z_adler := e, i_check := ck\<rparr>"
    and o: "out_buf st = []" "i_out st = avail_out st" and acc: "acc_ok s" "i_bits s < 8" and ck: "i_wrap st \<noteq> 0 \<longrightarrow> ck = check_value d []"
    and r: "r = finish_at 0 (i_wrap st) d (Some ([], rem_bits s @ fut))"
  shows "good s [] fut r"
proof -
  have "win_mem s" using f by (simp add: fresh_def win_mem_def window_of_def s(2))
  moreover have "win_hist s []" using f by (simp add: fresh_def win_hist_def s(2))
  moreover have "block_todo s [] (rem_bits s @ fut) r" using s(1) r acc(2) f by (auto simp: block_todo_def s(2) fresh_def)
  moreover have "i_mode s \<in> block_modes" using s(1) by (auto simp: block_modes_def)
  moreover have w: "i_wrap st \<noteq> 0 \<longrightarrow> i_wrap st AND 4 \<noteq> 0" using f by (auto simp: fresh_def)
  moreover have "base s []" unfolding base_def using f acc(1) \<open>win_mem s\<close> o ck w by (simp add: s(2) fresh_def new_count_def)
  ultimately show ?thesis using f o by (simp add: good_def s(2) fresh_def new_count_def)
qed

text \<open>The first step.\<close>

lemma head_raw:
  assumes f: "fresh st" "i_wrap st = 0" and o: "out_buf st = []" "i_out st = avail_out st"
  shows "inflate_step flush st = Go (st\<lparr>i_mode := TYPEDO\<rparr>)" "good (st\<lparr>i_mode := TYPEDO\<rparr>) [] fut (stream 0 (rem_bits st @ fut))"
proof -
  show "inflate_step flush st = Go (st\<lparr>i_mode := TYPEDO\<rparr>)" using f by (simp add: inflate_step_def do_head_def fresh_def)
  show "good (st\<lparr>i_mode := TYPEDO\<rparr>) [] fut (stream 0 (rem_bits st @ fut))"
    by (rule fresh_good[OF f(1) _ _ o, where a = "next_in st" and b = "i_hold st" and c = "i_bits st" and m = TYPEDO and d = "i_flags st" and gh = "i_head st"
          and dm = "i_dmax st" and e = "z_adler st" and ck = "i_check st"])
       (use f in \<open>auto simp: fresh_def acc_ok_def stream_def finish_at_start\<close>)
qed

definition head_case :: "inflate_state \<Rightarrow> bool list \<Rightarrow> (byte list \<times> bool list) option \<Rightarrow> step \<Rightarrow> bool" where
  "head_case st fut r x \<longleftrightarrow> (case x of
       Go s \<Rightarrow> good s [] fut r \<or> dead s \<and> r = None \<and> out_buf s = [] \<and> i_out s = avail_out s
     | Leave s k \<Rightarrow> k = Z_OK \<and> fresh s \<and> i_wrap s = i_wrap st \<and> rem_bits s = rem_bits st \<and> next_in s = [] \<and> (fut = [] \<longrightarrow> r = None) \<and> out_buf s = [] \<and> i_out s = avail_out s
     | _ \<Rightarrow> False)"

lemma fresh_ahead:
  assumes f: "fresh st" "i_wrap st \<noteq> 0" and a: "ahead st st'" and b: "i_bits st' \<le> 8"
  shows "fresh st'"
proof -
  have "i_bits st' mod 8 = 0" by (rule ahead_mod8[OF a]) (use f in \<open>simp add: fresh_def\<close>)
  then show ?thesis using f b by (rule_tac ahead_unfold[OF a]) (auto simp: fresh_def window_of_def)
qed

text \<open>What \<open>HEAD\<close> does once there are two bytes.\<close>

definition zlib_head :: "inflate_state \<Rightarrow> step" where
  "zlib_head st = (let st = st\<lparr>i_flags := 0\<rparr>;
           st = st\<lparr>i_head := map_option (\<lambda>h. h\<lparr>h_done := -1\<rparr>) (i_head st)\<rparr>
       in if (BITS 8 st * 2 ^ 8 + i_hold st div 2 ^ 8) mod 31 \<noteq> 0 then bad ''incorrect header check'' st
          else if BITS 4 st \<noteq> Z_DEFLATED then bad ''unknown compression method'' st
          else
            let st = DROPBITS 4 st;
                len = BITS 4 st + 8
            in if len > 15 then bad ''invalid window size'' st
               else Go (INITBITS (st\<lparr>i_dmax := 2 ^ len, z_adler := adler32 0 None, i_check := adler32 0 None,
                             i_mode := (if i_hold st AND 0x200 \<noteq> 0 then DICTID else TYPE0)\<rparr>)))"

lemma need_cong: "k (NEEDBITS n st) = k' (NEEDBITS n st) \<Longrightarrow> need n st k = need n st k'"
  by (simp add: need_def Let_def)

lemma do_head_zlib:
  assumes a: "i_wrap st = 5" "i_wbits st = 15" and acc: "acc_ok st"
  shows "do_head st = need 16 st zlib_head"
proof -
  let ?s = "NEEDBITS 16 st"
  have ah: "ahead st ?s" using NEEDBITS_ahead[OF acc, of 16] by simp
  have s: "i_wrap ?s = 5" "i_wbits ?s = 15" using a by (rule_tac [!] ahead_unfold[OF ah]) simp_all
  have w: "i_wrap st \<noteq> 0" using a by simp
  show ?thesis unfolding do_head_def if_not_P[OF w]
    by (rule need_cong) (simp add: s zlib_head_def Let_def DROPBITS_def)
qed

lemma head_zlib:
  assumes f: "fresh st" "i_wrap st = 5" and o: "out_buf st = []" "i_out st = avail_out st" and nd: "no_dict 5 (rem_bits st @ fut)"
  shows "head_case st fut (stream 5 (rem_bits st @ fut)) (inflate_step flush st)"
proof -
  let ?r = "stream 5 (rem_bits st @ fut)"
  have acc: "acc_ok st" and b: "i_bits st \<le> 8" "i_bits st mod 8 = 0" and wb: "i_wbits st = 15" and w0: "i_wrap st \<noteq> 0" using f by (simp_all add: fresh_def)
  let ?s = "NEEDBITS 16 st"
  have n16: "(16::nat) \<le> 25 \<or> (16::nat) \<le> 32 \<and> i_bits st mod 8 = 0" by simp
  note nb = NEEDBITS_ahead[OF acc n16]
  have a: "ahead st ?s" using nb by blast
  have acc': "acc_ok ?s" and rb: "rem_bits ?s = rem_bits st" using a by (simp_all add: ahead_def)
  have ao: "out_buf ?s = []" "i_out ?s = avail_out ?s" "i_wrap ?s = 5" using o f by (rule_tac [!] ahead_unfold[OF a]) simp_all
  have st: "inflate_step flush st = (if 16 \<le> i_bits ?s then zlib_head ?s else Leave ?s Z_OK)"
    using f do_head_zlib[OF f(2) wb acc] by (simp add: inflate_step_def fresh_def need_def Let_def)
  show ?thesis
  proof (cases "16 \<le> i_bits ?s")
    case False
    have "i_bits ?s mod 8 = 0" by (rule ahead_mod8[OF a b(2)])
    then have "i_bits ?s \<le> 8" using False by presburger
    then have "fresh ?s" by (rule fresh_ahead[OF f(1) w0 a])
    moreover have nx: "next_in ?s = []" using nb False by simp
    moreover have "?r = None" if "fut = []"
    proof -
      have "length (rem_bits st) < 16" using length_rem[of ?s] rb nx False by simp
      then show ?thesis using that by (simp add: stream_def zlib_stream_def take_bits_def)
    qed
    ultimately show ?thesis unfolding st using False rb ao f(2) by (simp add: head_case_def)
  next
    case True
    have "i_bits ?s mod 8 = 0" by (rule ahead_mod8[OF a b(2)])
    moreover have "i_bits ?s < 24" using nb True b(1) by auto
    ultimately have b16: "i_bits ?s = 16" using True by presburger
    let ?h = "i_hold ?s"
    have h16: "?h < 2 ^ 16" using acc' b16 by (simp add: acc_ok_def)
    have t: "take_bits 16 (rem_bits st @ fut) = Some (?h, bytes_bits (next_in ?s) @ fut)"
      using take_rem[OF acc', of 16] b16 h16 rb by (simp add: BITS_def DROPBITS_def rem_bits_def[of "?s\<lparr>i_hold := a, i_bits := b\<rparr>" for a b] hold_bits_def)
    have nd': "?h div 16 AND 0x200 = 0" using nd t by (simp add: no_dict_def)
    have fs: "fresh (?s\<lparr>i_hold := 0, i_bits := 0\<rparr>)" using f(1) by (rule_tac ahead_unfold[OF a]) (simp add: fresh_def acc_ok_def window_of_def)
    obtain i hh bb where es: "?s = st\<lparr>next_in := i, i_hold := hh, i_bits := bb\<rparr>" using ahead_unfold[OF a] by metis
    have rr: "?r = (if (?h mod 256 * 256 + ?h div 256) mod 31 \<noteq> 0 \<or> ?h mod 16 \<noteq> 8 \<or> 7 < ?h div 16 mod 16 then None
      else finish_at 0 5 0 (Some ([], bytes_bits (next_in ?s) @ fut)))"
      using t by (simp add: stream_def zlib_stream_def finish_at_start)
    have "head_case st fut ?r (zlib_head ?s)"
    proof (cases "(?h mod 256 * 256 + ?h div 256) mod 31 \<noteq> 0 \<or> ?h mod 16 \<noteq> 8 \<or> 7 < ?h div 16 mod 16")
      case True
      then have "?r = None" using rr by simp
      then show ?thesis using True ao f(1) unfolding zlib_head_def
        by (auto simp: head_case_def bad_def Let_def dead_def BITS_def DROPBITS_def Z_DEFLATED_def es fresh_def)
    next
      case False
      let ?g = "?s\<lparr>i_hold := 0, i_bits := 0, i_mode := TYPE0, i_flags := 0, i_head := map_option (\<lambda>h. h\<lparr>h_done := -1\<rparr>) (i_head ?s),
          i_dmax := 2 ^ (?h div 16 mod 16 + 8), z_adler := adler32 0 None, i_check := adler32 0 None\<rparr>"
      have z: "zlib_head ?s = Go ?g"
        using False nd' by (simp add: zlib_head_def Let_def BITS_def DROPBITS_def INITBITS_def Z_DEFLATED_def)
      have "rem_bits ?g = bytes_bits (next_in ?s)" by (simp add: rem_bits_def hold_bits_def)
      then have "?r = finish_at 0 (i_wrap st) 0 (Some ([], rem_bits ?g @ fut))" using rr False f(2) by simp
      then have "good ?g [] fut ?r"
        by (intro fresh_good[OF f(1) _ _ o, where a = i and b = 0 and c = 0 and m = TYPE0 and d = 0 and gh = "map_option (\<lambda>h. h\<lparr>h_done := -1\<rparr>) (i_head ?s)"
              and dm = "2 ^ (?h div 16 mod 16 + 8)" and e = "adler32 0 None" and ck = "adler32 0 None"])
           (simp_all add: acc_ok_def check_value_Nil es)
      then show ?thesis unfolding z by (simp add: head_case_def)
    qed
    then show ?thesis unfolding st using True by simp
  qed
qed

end
