(* ===== verification/Inflate_Prefix.thy ===== *)
theory Inflate_Prefix
  imports Inflate_Stream "HOL-Library.Sublist"
begin

text \<open>
  Decoding only appends: what \<open>inflate\<close> has written at any time is the beginning of what the decoder
  gives for the whole stream.
\<close>

lemma lz_copy_prefix: "prefix out (lz_copy out dist n)"
proof (induction n arbitrary: out)
  case (Suc n)
  have "prefix out (out @ [out ! (length out - dist)])" by simp
  from prefix_order.trans[OF this Suc.IH] show ?case by simp
qed simp

lemma put_match_prefix: "put_match out len dist = Some out' \<Longrightarrow> prefix out out'"
  by (auto simp: put_match_def lz_copy_prefix split: if_splits)

lemma decode_data_prefix: "decode_data lens dlens out bs = Some (out', bs') \<Longrightarrow> prefix out out'"
proof (induction "length bs" arbitrary: out bs rule: less_induct)
  case less
  obtain s b where b: "decode_sym lens bs = Some (s, b)"
    using less.prems by (subst (asm) decode_data.simps) (auto split: option.splits)
  note l = decode_sym_less[OF b]
  consider "s < 256" | "s = 256" | "s > 256" by linarith
  then show ?case
  proof cases
    case 1
    then have "decode_data lens dlens (out @ [of_nat s]) b = Some (out', bs')"
      using less.prems b by (subst (asm) decode_data.simps) simp
    from less.hyps[OF l this] show ?thesis by (rule append_prefixD)
  next
    case 2
    then show ?thesis using less.prems b by (subst (asm) decode_data.simps) simp
  next
    case 3
    obtain len dist b2 o2 where m: "decode_match dlens s b = Some (len, dist, b2)" "put_match out len dist = Some o2" "decode_data lens dlens o2 b2 = Some (out', bs')"
      using less.prems b 3 by (subst (asm) decode_data.simps) (auto split: option.splits)
    have "length b2 < length bs" using decode_match_less[OF m(1)] l by simp
    from less.hyps[OF this m(3)] show ?thesis using prefix_order.trans[OF put_match_prefix[OF m(2)]] by simp
  qed
qed

lemma decode_stored_prefix: "decode_stored out bs = Some (out', bs') \<Longrightarrow> prefix out out'"
  by (auto simp: decode_stored_def Let_def split: bind_splits if_splits)

lemma decode_block_prefix: "decode_block out bs = Some (final, out', bs') \<Longrightarrow> prefix out out'"
  by (auto simp: decode_block_def split: bind_splits if_splits dest!: decode_data_prefix decode_stored_prefix)

lemma decode_blocks_prefix: "decode_blocks out bs = Some (out', bs') \<Longrightarrow> prefix out out'"
proof (induction "length bs" arbitrary: out bs rule: less_induct)
  case less
  obtain l o1 b1 where b: "decode_block out bs = Some (l, o1, b1)"
    using less.prems by (subst (asm) decode_blocks.simps) (auto split: option.splits)
  show ?case
  proof (cases "l = 0")
    case True
    then have "decode_blocks o1 b1 = Some (out', bs')" using less.prems b by (subst (asm) decode_blocks.simps) simp
    from less.hyps[OF decode_block_less[OF b] this] show ?thesis using prefix_order.trans[OF decode_block_prefix[OF b]] by simp
  next
    case False
    then show ?thesis using less.prems b decode_block_prefix[OF b] by (subst (asm) decode_blocks.simps) simp
  qed
qed

lemma finish_prefix: "finish_at l w f x = Some (out, bs) \<Longrightarrow> \<exists>h b. x = Some (h, b) \<and> prefix h out"
  by (auto simp: finish_at_def split: if_splits option.splits dest!: trailer_data decode_blocks_prefix)

text \<open>The rest of a block, in every mode.\<close>

lemma rest_prefix:
  "copy_stored n h bs = Some (out, b) \<Longrightarrow> prefix h out"
  "lens_rest n h x = Some (out, b) \<Longrightarrow> prefix h out"
  "clens_rest n d h y = Some (out, b) \<Longrightarrow> prefix h out"
  "trees_rest h bs = Some (out, b) \<Longrightarrow> prefix h out"
  "match_rest lens dlens h len dist bs = Some (out, b) \<Longrightarrow> prefix h out"
  "distext_rest lens dlens h len dist ex bs = Some (out, b) \<Longrightarrow> prefix h out"
  "dist_rest lens dlens h len bs = Some (out, b) \<Longrightarrow> prefix h out"
  "lenext_rest lens dlens h len ex bs = Some (out, b) \<Longrightarrow> prefix h out"
  by (auto simp: copy_stored_def lens_rest_def clens_rest_def trees_rest_def match_rest_def distext_rest_def dist_rest_def lenext_rest_def
      split: if_splits option.splits bind_splits dest!: decode_data_prefix put_match_prefix)
    (use prefix_order.trans in blast)+

lemma code_rest_prefix: "code_rest st lens dlens h bs = Some (out, b) \<Longrightarrow> prefix h out"
  by (auto simp: code_rest_def split: inflate_mode.splits dest: rest_prefix decode_data_prefix append_prefixD)

lemma block_todo_prefix:
  assumes t: "block_todo st h bs r" and r: "r = Some (out, b)"
  shows "prefix h out"
proof -
  have f: "r = finish st x \<Longrightarrow> (\<And>o1 b1. x = Some (o1, b1) \<Longrightarrow> prefix h o1) \<Longrightarrow> prefix h out" for x
    using finish_prefix[of "i_last st" "i_wrap st" "i_flags st" x out b] r by (auto intro: prefix_order.trans)
  have c: "codelens_todo st h bs r \<Longrightarrow> prefix h out"
    using f r by (auto simp: codelens_todo_def split: if_splits dest: rest_prefix)
  show ?thesis using t c unfolding block_todo_def
    by (cases "i_mode st") (auto intro: f dest: rest_prefix decode_stored_prefix code_rest_prefix)
qed

lemma good_prefix:
  assumes g: "good st H fut (Some (out, bs))" and m: "i_mode st \<noteq> BAD"
  shows "prefix (H @ out_buf st) out"
  using g m block_todo_prefix[OF _ refl] unfolding good_def
  by (cases "i_mode st") (auto split: if_splits dest: trailer_data[OF sym] simp: length_trailer_def split: bind_splits)

lemma ready_prefix:
  assumes "ready_or_new st H fut (Some (out, bs))" and "i_mode st \<noteq> BAD"
  shows "prefix H out"
  using assms good_prefix[of "idle st" H fut out bs] unfolding ready_or_new_def ready_def by (auto simp: idle_def)

end
