(* ===== verification/Inflate_Correct.thy ===== *)
theory Inflate_Correct
  imports Inflate_Prefix
begin

text \<open>
  The correctness of \<open>inflate\<close>: for any input, cut into any calls, it never accesses memory out of
  bounds, always returns, and decodes as the decoder of the format does.
\<close>

section \<open>One call\<close>

lemma ready_mode: "ready st H fut r \<Longrightarrow> i_mode st \<noteq> HEAD"
  by (auto simp: ready_def good_def block_modes_def idle_def)

lemma dead_call:
  assumes "dead st"
  shows "\<exists>st'. inflate alloc flush inp space st = Some (Z_DATA_ERROR, st') \<and> dead st' \<and> out_buf st' = []"
proof -
  let ?s = "started inp space st"
  have s: "inflate_step flush ?s = Leave ?s Z_DATA_ERROR" "i_wsize ?s = 0" "i_out ?s = avail_out ?s" "out_buf ?s = []"
    using assms by (simp_all add: inflate_step_def dead_def started_def Let_def)
  have "inflate_loop flush ?s = Some (?s, Z_DATA_ERROR, True)" using s(1) by (subst inflate_loop.simps) simp
  from early_leave[OF this s(2,3)] show ?thesis
    using assms s by (auto simp: return_codes dead_def accounted_facts started_def Let_def)
qed

lemma fresh_call:
  assumes f: "fresh st" and mem: "window_mem alloc" and fut: "length fut mod 8 = 0"
    and r: "r = stream (i_wrap st) (hold_bits st @ bytes_bits inp @ fut)" and nd: "no_dict (i_wrap st) (hold_bits st @ bytes_bits inp @ fut)"
  shows "\<exists>ret st'. inflate alloc flush inp space st = Some (ret, st') \<and> ready_or_new st' (out_buf st') (bytes_bits (next_in st') @ fut) r
     \<and> call_result flush st' [] fut r ret"
proof -
  let ?s = "started inp space st"
  have fs: "fresh ?s" and s: "out_buf ?s = []" "i_out ?s = avail_out ?s" "i_wrap ?s = i_wrap st" "next_in ?s = inp"
    using fresh_started[OF f] by (simp_all add: started_def Let_def)
  have rb: "rem_bits ?s @ fut = hold_bits st @ bytes_bits inp @ fut" by (simp add: rem_bits_def hold_bits_def started_def Let_def)
  show ?thesis
  proof (cases "i_wrap st = 0")
    case True
    have w0: "i_wrap ?s = 0" using True s by simp
    note h = head_raw[OF fs w0 s(1,2)]
    let ?t = "?s\<lparr>i_mode := TYPEDO\<rparr>"
    have e: "inflate_loop flush ?s = inflate_loop flush ?t" using h(1)[of flush] by (subst inflate_loop.simps) simp
    have "good ?t [] fut r" using h(2)[of fut] unfolding rb r True .
    moreover have "i_wbits ?t = 15" using fs by (simp add: fresh_def)
    ultimately show ?thesis using loop_call[OF _ _ mem fut e, of "[]" r] by simp
  next
    case False
    then have w: "i_wrap st = 5" "i_wrap ?s = 5" using f s by (simp_all add: fresh_def)
    have nd': "no_dict 5 (rem_bits ?s @ fut)" using nd w unfolding rb by simp
    have hc: "head_case ?s fut r (inflate_step flush ?s)" using head_zlib[OF fs w(2) s(1,2) nd', of flush] r w unfolding rb by simp
    show ?thesis
    proof (cases "inflate_step flush ?s")
      case (Go t)
      have e: "inflate_loop flush ?s = inflate_loop flush t" using Go by (subst inflate_loop.simps) simp
      consider "good t [] fut r" | "dead t" "r = None" "out_buf t = []" "i_out t = avail_out t" using hc Go by (auto simp: head_case_def)
      then show ?thesis
      proof cases
        case 1
        moreover have "i_wbits t = 15" using 1 by (simp add: good_def base_def)
        ultimately show ?thesis using loop_call[OF _ _ mem fut e, of "[]" r] by simp
      next
        case 2
        have "inflate_step flush t = Leave t Z_DATA_ERROR" using 2(1) by (simp add: inflate_step_def dead_def)
        then have "inflate_loop flush ?s = Some (t, Z_DATA_ERROR, True)" unfolding e by (subst inflate_loop.simps) simp
        from early_leave[OF this _ 2(4)] show ?thesis
          using 2 by (auto simp: return_codes dead_def accounted_facts ready_or_new_def call_result_def )
      qed
    next
      case (Leave t k)
      have t: "k = Z_OK" "fresh t" "i_wrap t = 5" "rem_bits t = rem_bits ?s" "next_in t = []" "fut = [] \<longrightarrow> r = None" "out_buf t = []" "i_out t = avail_out t"
        using hc Leave w by (simp_all add: head_case_def)
      have "inflate_loop flush ?s = Some (t, Z_OK, True)" using Leave t(1) by (subst inflate_loop.simps) simp
      from early_leave[OF this _ t(8)] obtain ret where ret: "inflate alloc flush inp space st = Some (ret, accounted (length inp) t)"
        "ret = Z_OK \<or> ret = Z_BUF_ERROR" using t(2) by (auto simp: fresh_def)
      note fa = fresh_accounted[OF t(2,8), of "length inp"]
      have "hold_bits t = rem_bits ?s" using t(4,5) by (simp add: rem_bits_def bytes_bits_def)
      then have "hold_bits (accounted (length inp) t) @ fut = hold_bits st @ bytes_bits inp @ fut" using fa(2) rb by simp
      then have "ready_or_new (accounted (length inp) t) [] (bytes_bits [] @ fut) r"
        using fa(1) r nd w t(3) by (simp add: ready_or_new_def accounted_facts bytes_bits_def)
      moreover have "i_mode (accounted (length inp) t) \<noteq> BAD" using t(2) by (simp add: fresh_def accounted_facts)
      ultimately have "ready_or_new (accounted (length inp) t) [] (bytes_bits [] @ fut) r"
        "call_result flush (accounted (length inp) t) [] fut r ret"
        using ret(2) t by (auto simp: call_result_def may_stop_def accounted_facts)
      then show ?thesis using ret(1) t by (auto simp: accounted_facts)
    qed (use hc in \<open>simp_all add: head_case_def\<close>)
  qed
qed

lemma inflate_call:
  assumes r: "ready_or_new st H (bytes_bits inp @ fut) r" and mem: "window_mem alloc" and fut: "length fut mod 8 = 0"
  shows "\<exists>ret st'. inflate alloc flush inp space st = Some (ret, st') \<and> ready_or_new st' (H @ out_buf st') (bytes_bits (next_in st') @ fut) r
     \<and> call_result flush st' H fut r ret"
  using r unfolding ready_or_new_def[of st]
proof (elim disjE)
  assume a: "ready st H (bytes_bits inp @ fut) r \<and> i_wbits st = 15"
  have g: "good (started inp space st) H fut r" using started_ok a by blast
  have "i_wbits (started inp space st) = 15" using a by (simp add: started_def Let_def)
  from loop_call[OF g this mem fut refl] show ?thesis .
next
  assume a: "H = [] \<and> fresh st \<and> r = stream (i_wrap st) (hold_bits st @ bytes_bits inp @ fut) \<and> no_dict (i_wrap st) (hold_bits st @ bytes_bits inp @ fut)"
  show ?thesis using fresh_call[of st alloc fut r inp flush space] a mem fut by simp
next
  assume a: "H = [] \<and> dead st \<and> r = None"
  show ?thesis using dead_call[of st alloc flush inp space] a by (auto simp: ready_or_new_def call_result_def )
qed

lemma inflate_space: "inflate alloc flush inp space st = Some (ret, st') \<Longrightarrow> length (out_buf st') + avail_out st' = space"
proof -
  assume a: "inflate alloc flush inp space st = Some (ret, st')"
  obtain s k l where s: "inflate_loop flush (started inp space st) = Some (s, k, l)"
    "(if l then inf_leave alloc flush (length inp) k s else Some (k, s)) = Some (ret, st')"
    using a unfolding inflate_unfold by (auto split: bind_splits)
  have "space_of s = space" using inflate_loop_space[OF s(1)] by (simp add: space_of_def started_def Let_def)
  moreover have "out_buf st' = out_buf s \<and> avail_out st' = avail_out s"
  proof (cases l)
    case True
    have u: "out_buf u = out_buf s \<and> avail_out u = avail_out s" if "updatewindow alloc (new_output s) s = Some (err, u)" for err u
      using that by (auto simp: updatewindow_def Let_def split: option.splits if_splits bind_splits)
    show ?thesis using s(2) True u unfolding inf_leave_unfold
      by (auto simp: accounted_facts split: if_splits bind_splits)
  next
    case False
    then show ?thesis using s(2) by simp
  qed
  ultimately show ?thesis by (simp add: space_of_def)
qed

section \<open>Sequences of calls\<close>

text \<open>
  The application calls \<open>inflate\<close> with more input and with space until it returns something other than
  \<open>Z_OK\<close> or \<open>Z_BUF_ERROR\<close>; input that a call left comes first in the next one.  The result is the last
  code, all output, the rest of the chunks and the state.
\<close>

fun inflate_calls :: "byte list option \<Rightarrow> (nat \<times> byte list \<times> nat) list \<Rightarrow> inflate_state \<Rightarrow> byte list
    \<Rightarrow> (int \<times> byte list \<times> byte list \<times> inflate_state) option" where
  "inflate_calls alloc [] st out = Some (Z_OK, out, [], st)"
| "inflate_calls alloc ((flush, chunk, space) # cs) st out = do {
     (ret, st) \<leftarrow> inflate alloc flush (next_in st @ chunk) space st;
     let out = out @ out_buf st;
     if ret = Z_OK \<or> ret = Z_BUF_ERROR then inflate_calls alloc cs st out
     else Some (ret, out, concat (map (fst \<circ> snd) cs), st) }"

definition all_input :: "(nat \<times> byte list \<times> nat) list \<Rightarrow> byte list" where
  "all_input cs = concat (map (fst \<circ> snd) cs)"

lemma all_input_Cons [simp]: "all_input ((f, c, n) # cs) = c @ all_input cs" "all_input [] = []"
  by (simp_all add: all_input_def)

lemma inflate_calls_append:
  "inflate_calls alloc cs st H = Some (Z_OK, out, rest, st') \<Longrightarrow> inflate_calls alloc (cs @ ds) st H = inflate_calls alloc ds st' out"
  by (induction cs arbitrary: st H) (auto simp: Let_def split: bind_splits if_splits)

lemma inflate_calls_ok:
  assumes "ready_or_new st H (bytes_bits (next_in st @ all_input cs)) r" and mem: "window_mem alloc" and nb: "i_mode st \<noteq> BAD"
  shows "\<exists>ret out rest st'. inflate_calls alloc cs st H = Some (ret, out, rest, st')
     \<and> ready_or_new st' out (bytes_bits (next_in st' @ rest)) r
     \<and> (ret = Z_OK \<and> i_mode st' \<noteq> BAD \<or> ret = Z_STREAM_END \<and> r = Some (out, rem_bits st' @ bytes_bits rest) \<or> ret = Z_DATA_ERROR \<and> r = None)
     \<and> (ret = Z_OK \<and> cs \<noteq> [] \<and> r \<noteq> None \<longrightarrow> (\<exists>(flush, _, space)\<in>set cs. flush = Z_BLOCK \<or> flush = Z_TREES \<or> space < length (fst (the r))))"
  using assms(1) nb
proof (induction cs arbitrary: st H)
  case Nil
  then show ?case by simp
next
  case (Cons c cs)
  obtain flush chunk space where c: "c = (flush, chunk, space)" by (cases c)
  let ?inp = "next_in st @ chunk" and ?fut = "bytes_bits (all_input cs)"
  have bb: "bytes_bits (a @ b) = bytes_bits a @ bytes_bits b" for a b by (simp add: bytes_bits_def)
  have r0: "ready_or_new st H (bytes_bits ?inp @ ?fut) r" using Cons.prems(1) by (simp add: c bb)
  have fut: "length ?fut mod 8 = 0" by simp
  obtain ret st1 where s: "inflate alloc flush ?inp space st = Some (ret, st1)" "ready_or_new st1 (H @ out_buf st1) (bytes_bits (next_in st1) @ ?fut) r"
    "call_result flush st1 H ?fut r ret" using inflate_call[OF r0 mem fut] by blast
  show ?case
  proof (cases "ret = Z_OK \<or> ret = Z_BUF_ERROR")
    case False
    have "inflate_calls alloc (c # cs) st H = Some (ret, H @ out_buf st1, all_input cs, st1)" using s(1) False by (simp add: c all_input_def)
    moreover have "ready_or_new st1 (H @ out_buf st1) (bytes_bits (next_in st1 @ all_input cs)) r" using s(2) by (simp add: bb)
    moreover have "ret = Z_STREAM_END \<and> r = Some (H @ out_buf st1, rem_bits st1 @ ?fut) \<or> ret = Z_DATA_ERROR \<and> r = None"
      using s(3) False by (simp add: call_result_def)
    ultimately show ?thesis using False by (intro exI[of _ ret] exI[of _ "H @ out_buf st1"] exI[of _ "all_input cs"] exI[of _ st1]) simp
  next
    case True
    have e: "inflate_calls alloc (c # cs) st H = inflate_calls alloc cs st1 (H @ out_buf st1)" using s(1) True by (simp add: c)
    have a: "ready_or_new st1 (H @ out_buf st1) (bytes_bits (next_in st1 @ all_input cs)) r" using s(2) by (simp add: bb)
    have b: "i_mode st1 \<noteq> BAD" using s(3) True by (auto simp: call_result_def return_codes)
    from Cons.IH[OF a b] obtain k out rest st' where k: "inflate_calls alloc cs st1 (H @ out_buf st1) = Some (k, out, rest, st')"
      "ready_or_new st' out (bytes_bits (next_in st' @ rest)) r"
      "k = Z_OK \<and> i_mode st' \<noteq> BAD \<or> k = Z_STREAM_END \<and> r = Some (out, rem_bits st' @ bytes_bits rest) \<or> k = Z_DATA_ERROR \<and> r = None"
      "k = Z_OK \<and> cs \<noteq> [] \<and> r \<noteq> None \<longrightarrow> (\<exists>(flush, _, space)\<in>set cs. flush = Z_BLOCK \<or> flush = Z_TREES \<or> space < length (fst (the r)))" by blast
    have "flush = Z_BLOCK \<or> flush = Z_TREES \<or> space < length (fst (the r))" if "cs = []" "r \<noteq> None"
    proof -
      have ms: "may_stop flush st1 H ?fut r" using s(3) True by (auto simp: call_result_def return_codes)
      have "space < length out" if "avail_out st1 = 0" "r = Some (out, bs)" "length H + length (out_buf st1) < length out" for out bs
        using inflate_space[OF s(1)] that by simp
      then show ?thesis using ms that by (auto simp: may_stop_def)
    qed
    then have "k = Z_OK \<and> c # cs \<noteq> [] \<and> r \<noteq> None \<longrightarrow> (\<exists>(flush, _, space)\<in>set (c # cs). flush = Z_BLOCK \<or> flush = Z_TREES \<or> space < length (fst (the r)))"
      using k(4) by (cases "cs = []") (auto simp: c)
    then show ?thesis unfolding e using k(1-3) by (intro exI[of _ k] exI[of _ out] exI[of _ rest] exI[of _ st']) simp
  qed
qed

end
