(* ===== verification/Inflate_Api_Ok.thy ===== *)
theory Inflate_Api_Ok
  imports Inflate_Window Inflate_Api "HOL-Library.Sublist"
begin

text \<open>
  The other functions of \<open>inflate.c\<close>: which arguments they accept, the dictionary, the search for a
  synchronization point, and the bits given by \<open>inflatePrime\<close>.
\<close>

section \<open>Initialization\<close>

text \<open>The values of \<open>windowBits\<close> for raw, zlib, gzip and automatically detected streams.\<close>

definition valid_window :: "int \<Rightarrow> bool" where
  "valid_window w \<longleftrightarrow> w \<in> {-15..-8} \<or> w \<in> {0, 16, 32} \<or> w \<in> {8..15} \<or> w \<in> {24..31} \<or> w \<in> {40..47}"

lemma and_15: "(w::int) AND 15 = w mod 16"
  using take_bit_eq_mask[of 4 w] by (simp add: take_bit_eq_mod mask_eq_exp_minus_1)

lemma window_request_valid:
  assumes "window_request w = (wrap, b)"
  shows "b \<noteq> 0 \<and> (b < 8 \<or> b > 15) \<longleftrightarrow> \<not> valid_window w"
proof (cases "w < 0 \<or> 48 \<le> w")
  case True
  then show ?thesis using assms by (auto simp: window_request_def valid_window_def)
next
  case False
  then have w: "0 \<le> w" "w < 48" by simp_all
  then have b: "b = w mod 16" using assms by (simp add: window_request_def and_15)
  consider "w < 16" | "16 \<le> w" "w < 32" | "32 \<le> w" using w by linarith
  then show ?thesis
  proof cases
    case 1
    then have "b = w" using b w by simp
    then show ?thesis using 1 w by (auto simp: valid_window_def)
  next
    case 2
    have "b = w - 16" using 2 b by presburger
    then have b: "b = w - 16" "0 \<le> b" "b < 16" using 2 by simp_all
    then have "valid_window w \<longleftrightarrow> b = 0 \<or> 8 \<le> b" using 2 unfolding valid_window_def by auto
    then show ?thesis using b by auto
  next
    case 3
    have "b = w - 32" using 3 b w by presburger
    then have b: "b = w - 32" "0 \<le> b" "b < 16" using 3 w by simp_all
    then have "valid_window w \<longleftrightarrow> b = 0 \<or> 8 \<le> b" using 3 unfolding valid_window_def by auto
    then show ?thesis using b by auto
  qed
qed

text \<open>The error for the first test that fails, in the order of the code.\<close>

definition init_error :: "bool \<Rightarrow> bool \<Rightarrow> inflate_state option \<Rightarrow> int" where
  "init_error version_ok there mem =
     (if \<not> version_ok then Z_VERSION_ERROR else if \<not> there then Z_STREAM_ERROR else if mem = None then Z_MEM_ERROR else Z_STREAM_ERROR)"

text \<open>
  C24: \<open>inflateInit2_\<close> returns \<open>Z_OK\<close> and a stream at the start, without a window, a message or bits, exactly
  when the version fits, the stream and the memory are there and \<open>windowBits\<close> is one of the documented
  values; otherwise it returns the error for the first of these that fails, and no state.
\<close>

theorem inflateInit2_result:
  "inflateInit2 version_ok there mem windowBits = (ret, strm) \<Longrightarrow>
     (ret = Z_OK \<longleftrightarrow> version_ok \<and> there \<and> mem \<noteq> None \<and> valid_window windowBits)
     \<and> (case strm of None \<Rightarrow> ret = init_error version_ok there mem
        | Some st \<Rightarrow> ret = Z_OK \<and> i_mode st = HEAD \<and> i_window st = None \<and> i_wsize st = 0 \<and> i_whave st = 0 \<and> i_bits st = 0 \<and> i_hold st = 0
            \<and> msg st = None \<and> i_sane st \<and> (i_wbits st = 0 \<or> 8 \<le> i_wbits st \<and> i_wbits st \<le> 15))"
proof -
  assume a: "inflateInit2 version_ok there mem windowBits = (ret, strm)"
  obtain wrap b where w: "window_request windowBits = (wrap, b)" by (cases "window_request windowBits")
  note v = window_request_valid[OF w]
  show ?thesis
  proof (cases "version_ok \<and> there \<and> mem \<noteq> None")
    case True
    then obtain m where m: "version_ok" "there" "mem = Some m" by auto
    show ?thesis
    proof (cases "valid_window windowBits")
      case True
      then show ?thesis using a m w v
        by (auto simp: inflateInit2_def inflateReset2_def inflateReset_def inflateStateCheck_def inflateResetKeep_def reset_keep_def Let_def return_codes)
    next
      case False
      then show ?thesis using a m w v by (auto simp: inflateInit2_def inflateReset2_def init_error_def return_codes)
    qed
  next
    case False
    then show ?thesis using a by (auto simp: inflateInit2_def init_error_def return_codes split: option.splits)
  qed
qed

text \<open>A memory for the state: its size and contents do not matter here.\<close>

definition blank_state :: inflate_state where
  "blank_state = \<lparr>next_in = [], out_buf = [], avail_out = 0, total_in = 3, total_out = 3, msg = None, z_adler = 0, z_data_type = 0, i_out = 0,
     i_mode = MEM, i_last = 0, i_wrap = 0, i_havedict = 0, i_flags = 0, i_dmax = 0, i_check = 0, i_total = 0, i_head = None, i_wbits = 0,
     i_wsize = 4, i_whave = 4, i_wnext = 0, i_window = None, i_hold = 7, i_bits = 3, i_length = 0, i_offset = 0, i_extra = 0,
     i_lencode = Lenfix, i_distcode = Distfix, i_lenbits = 0, i_distbits = 0, i_ncode = 0, i_nlen = 0, i_ndist = 0, i_have = 0, i_next = 0,
     i_lens = [], i_work = [], i_codes = [], i_sane = False, i_back = 0, i_was = 0\<rparr>"

theorem inflateInit2_result_witness:
  "fst (inflateInit2 True True (Some blank_state) 15) = Z_OK \<and> fst (inflateInit2 True True (Some blank_state) 7) = Z_STREAM_ERROR
     \<and> fst (inflateInit2 True True None 7) = Z_MEM_ERROR \<and> fst (inflateInit2 True False None 7) = Z_STREAM_ERROR
     \<and> fst (inflateInit2 False False None 7) = Z_VERSION_ERROR"
proof -
  have r: "(fst (inflateInit2 v t m w) = Z_OK \<longleftrightarrow> v \<and> t \<and> m \<noteq> None \<and> valid_window w)
      \<and> (fst (inflateInit2 v t m w) \<noteq> Z_OK \<longrightarrow> fst (inflateInit2 v t m w) = init_error v t m)" for v t m w
  proof (cases "snd (inflateInit2 v t m w)")
    case None
    then have "inflateInit2 v t m w = (fst (inflateInit2 v t m w), None)" by (metis prod.collapse)
    from inflateInit2_result[OF this] show ?thesis unfolding option.case by blast
  next
    case (Some st)
    then have "inflateInit2 v t m w = (fst (inflateInit2 v t m w), Some st)" by (metis prod.collapse)
    from inflateInit2_result[OF this] show ?thesis unfolding option.case by blast
  qed
  have "valid_window 15" "\<not> valid_window 7" by (simp_all add: valid_window_def)
  then show ?thesis using r[of True True "Some blank_state" 15] r[of True True "Some blank_state" 7] r[of True True None 7] r[of True False None 7] r[of False False None 7]
    by (simp add: init_error_def)
qed

section \<open>The window and the dictionary\<close>

text \<open>
  C23: whatever has been written before, \<open>updatewindow\<close> succeeds when its memory is there, changes nothing
  but the window, and leaves in the circular window, in the order of time, the last bytes of all output.
\<close>

theorem updatewindow_keeps_last:
  assumes "win_mem st" "alloc_ok alloc st" "win_hist st hist"
  shows "\<exists>st'. updatewindow alloc data st = Some (0, st') \<and> same_but_window st st' \<and> win_mem st'
     \<and> i_whave st' = min (2 ^ i_wbits st) (length (hist @ data))
     \<and> drop (length (hist @ data) - i_whave st') (hist @ data) = drop (2 ^ i_wbits st - i_whave st') (ring st')"
proof -
  obtain st' where s: "updatewindow alloc data st = Some (0, st')" "same_but_window st st'" "win_mem st'" "i_wsize st' \<noteq> 0"
    "\<And>H. win_hist st H \<Longrightarrow> win_hist st' (H @ data)" by (rule updatewindow_ok[OF assms(1,2), where data = data]) (rule that; assumption)
  have "i_wbits st' = i_wbits st" using arg_cong[OF s(2)[unfolded same_but_window_def], of i_wbits] by simp
  then have w: "i_wsize st' = 2 ^ i_wbits st" using s(3,4) by (simp add: win_mem_def)
  show ?thesis using s(1-3) s(5)[OF assms(3)] s(4) w by (auto simp: win_hist_def)
qed

definition sample_window :: inflate_state where
  "sample_window = \<lparr>next_in = [], out_buf = [], avail_out = 0, total_in = 0, total_out = 0, msg = None, z_adler = 0, z_data_type = 2, i_out = 0,
     i_mode = TYPE0, i_last = 0, i_wrap = 0, i_havedict = 0, i_flags = 0, i_dmax = 0, i_check = 0, i_total = 0, i_head = None, i_wbits = 1,
     i_wsize = 2, i_whave = 2, i_wnext = 1, i_window = Some [30, 20], i_hold = 0, i_bits = 0, i_length = 0, i_offset = 0, i_extra = 0,
     i_lencode = Lenfix, i_distcode = Distfix, i_lenbits = 0, i_distbits = 0, i_ncode = 0, i_nlen = 0, i_ndist = 0, i_have = 0, i_next = 0,
     i_lens = [], i_work = [], i_codes = [], i_sane = True, i_back = 0, i_was = 0\<rparr>"

lemma sample_window_ok: "win_mem sample_window" "win_hist sample_window [10, 20, 30]" "alloc_ok (Some [0, 0]) sample_window"
  by (simp_all add: win_mem_def win_hist_def ring_def window_of_def alloc_ok_def) (simp_all add: sample_window_def)

theorem updatewindow_keeps_last_witness:
  "\<exists>st'. updatewindow (Some [0, 0]) [40] sample_window = Some (0, st') \<and> i_whave st' = 2 \<and> ring st' = [30, 40]"
  using updatewindow_keeps_last[OF sample_window_ok(1,3,2), of "[40]"] by (auto simp: sample_window_def)

text \<open>
  C26: \<open>inflateGetDictionary\<close> copies the window in the order of time: the last bytes of all output, at most
  \<open>1 << wbits\<close>, when the buffer of the application has room for them; the rest of the buffer stays.
\<close>

theorem inflateGetDictionary_correct:
  assumes "win_mem st" "win_hist st hist" "i_whave st \<le> length buf"
  shows "inflateGetDictionary (Some st) (Some buf)
     = Some (Z_OK, Some (drop (length hist - i_whave st) hist @ drop (i_whave st) buf), i_whave st)"
proof (cases "i_whave st = 0")
  case True
  then show ?thesis using assms by (auto simp: inflateGetDictionary_def win_hist_def split: if_splits)
next
  case False
  then have s0: "i_wsize st \<noteq> 0" using assms(2) by (auto simp: win_hist_def split: if_splits)
  obtain w where w: "i_window st = Some w" "window_of st = w" "length w = i_wsize st" "i_wnext st < i_wsize st" "i_whave st \<le> i_wsize st"
    "i_whave st < i_wsize st \<longrightarrow> i_wnext st = i_whave st" using assms(1) s0 by (auto simp: win_mem_def window_of_def)
  have wn: "i_wnext st \<le> i_whave st" using w(4-6) by (cases "i_whave st < i_wsize st") simp_all
  have h: "drop (length hist - i_whave st) hist = drop (i_wsize st - i_whave st) (ring st)" using assms(2)[unfolded win_hist_def if_not_P[OF s0]] by blast
  let ?k = "i_whave st - i_wnext st"
  have a: "memcpy buf 0 (drop (i_wnext st) w) ?k = Some (take ?k (drop (i_wnext st) w) @ drop ?k buf)"
    using assms(3) w diff_le_mono[OF w(5), of "i_wnext st"] by (simp add: memcpy_def)
  have b: "memcpy (take ?k (drop (i_wnext st) w) @ drop ?k buf) ?k w (i_wnext st)
      = Some (take ?k (drop (i_wnext st) w) @ take (i_wnext st) w @ drop (i_whave st) buf)"
    using assms(3) w wn by (simp add: memcpy_def)
  have "take ?k (drop (i_wnext st) w) @ take (i_wnext st) w = drop (i_wsize st - i_whave st) (ring st)"
    using w by (cases "i_whave st < i_wsize st") (simp_all add: ring_def)
  then show ?thesis using a b w(1) False wn h by (simp add: inflateGetDictionary_def)
qed

theorem inflateGetDictionary_correct_witness: "inflateGetDictionary (Some sample_window) (Some [1, 2, 3]) = Some (Z_OK, Some [20, 30, 3], 2)"
  using inflateGetDictionary_correct[OF sample_window_ok(1,2), of "[1, 2, 3]"] by (simp add: sample_window_def)

section \<open>Synchronization\<close>

definition sync_pattern :: "byte list" where
  "sync_pattern = [0, 0, 0xff, 0xff]"

text \<open>\<open>got\<close> is the length of the longest beginning of the pattern that ends the bytes read, newest first in \<open>r\<close>.\<close>

definition overlap :: "nat \<Rightarrow> byte list \<Rightarrow> bool" where
  "overlap got r \<longleftrightarrow> got \<le> 4 \<and> prefix (rev (take got sync_pattern)) r
     \<and> (\<forall>k\<in>{1, 2, 3, 4}. prefix (rev (take k sync_pattern)) r \<longrightarrow> k \<le> got)"

lemma overlap_step:
  assumes "overlap got r" "got < 4"
  shows "overlap (if b = (if got < 2 then 0 else 0xff) then got + 1 else if b \<noteq> 0 then 0 else 4 - got) (b # r)"
proof -
  have "got = 0 \<or> got = 1 \<or> got = 2 \<or> got = 3" using assms(2) by linarith
  then show ?thesis using assms(1)
    by (elim disjE; cases r; cases "tl r"; cases "tl (tl r)") (auto simp: overlap_def sync_pattern_def)
qed

lemma overlap_4: "overlap got r \<Longrightarrow> got = 4 \<longleftrightarrow> prefix (rev sync_pattern) r"
  by (auto simp: overlap_def sync_pattern_def)

lemma overlap_le: "overlap got r \<Longrightarrow> got \<le> 4"
  by (simp add: overlap_def)

lemma syncsearch_overlap:
  assumes "overlap got r" "syncsearch got bs = (got', n)"
  shows "n \<le> length bs \<and> overlap got' (rev (take n bs) @ r) \<and> (got' \<noteq> 4 \<longrightarrow> n = length bs)
    \<and> (\<forall>m<n. \<not> prefix (rev sync_pattern) (rev (take m bs) @ r))"
  using assms
proof (induction bs arbitrary: got r n)
  case (Cons b bs)
  show ?case
  proof (cases "got < 4")
    case True
    let ?g = "if b = (if got < 2 then 0 else 0xff) then got + 1 else if b \<noteq> 0 then 0 else 4 - got"
    obtain k where k: "syncsearch ?g bs = (got', k)" "n = k + 1"
      using Cons.prems(2) True by (auto simp: Let_def split: prod.splits simp del: if_split if_split_asm)
    note ih = Cons.IH[OF overlap_step[OF Cons.prems(1) True, of b] k(1)]
    have "\<not> prefix (rev sync_pattern) (rev (take m (b # bs)) @ r)" if "m < n" for m
      using ih k(2) that overlap_4[OF Cons.prems(1)] True by (cases m) auto
    then show ?thesis using ih k(2) by simp
  next
    case False
    then show ?thesis using Cons.prems overlap_le[OF Cons.prems(1)] by simp
  qed
qed simp

text \<open>
  C25: \<open>syncsearch\<close> reads up to and including the first occurrence of the pattern 0, 0, 0xff, 0xff, or else
  all input, and the input may be cut into calls: a call that continues an earlier one with its number of
  bytes found ends with the same number, and stops at the same byte, as one call on all the input does.
\<close>

theorem syncsearch_correct:
  assumes "syncsearch 0 bs = (got, n)"
  shows "n \<le> length bs \<and> (got = 4 \<longrightarrow> suffix sync_pattern (take n bs)) \<and> (got \<noteq> 4 \<longrightarrow> n = length bs \<and> \<not> suffix sync_pattern bs)
    \<and> (\<forall>m<n. \<not> suffix sync_pattern (take m bs))
    \<and> syncsearch 0 (take n bs @ ys) = (fst (syncsearch got ys), n + snd (syncsearch got ys))"
proof -
  have o: "overlap 0 []" by (simp add: overlap_def sync_pattern_def)
  note s = syncsearch_overlap[OF o assms]
  have e: "prefix (rev sync_pattern) (rev xs) \<longleftrightarrow> suffix sync_pattern xs" for xs by (simp add: suffix_to_prefix)
  have app: "syncsearch g (xs @ ys) = (case syncsearch g xs of (h, k) \<Rightarrow>
      if h < 4 then (fst (syncsearch h ys), snd (syncsearch h ys) + k) else (h, k))" if "g \<le> 4" for g xs
    using that
  proof (induction xs arbitrary: g)
    case Nil
    then show ?case by (cases ys) (auto simp: Let_def)
  next
    case (Cons b xs)
    then show ?case by (auto simp: Let_def split: prod.splits)
  qed
  have t: "syncsearch g (take k xs) = (h, k)" if "g \<le> 4" "syncsearch g xs = (h, k)" for g h k xs
    using that
  proof (induction xs arbitrary: g k)
    case (Cons b xs)
    then show ?case by (auto simp: Let_def split: prod.splits if_splits)
  qed simp
  have g: "syncsearch 0 (take n bs) = (got, n)" by (rule t[OF _ assms]) simp
  have "overlap got (rev (take n bs))" using s by simp
  note ov = overlap_4[OF this] overlap_le[OF this]
  have f4: "syncsearch 4 ys = (4, 0)" by (cases ys) simp_all
  have a: "syncsearch 0 (take n bs @ ys) = (fst (syncsearch got ys), n + snd (syncsearch got ys))"
  proof (cases "got = 4")
    case True
    then show ?thesis using app[of 0 "take n bs"] unfolding g True f4 by simp
  next
    case False
    then have "got < 4" using ov(2) by simp
    then show ?thesis using app[of 0 "take n bs"] unfolding g by simp
  qed
  have b: "\<forall>m<n. \<not> suffix sync_pattern (take m bs)" "n \<le> length bs" "got \<noteq> 4 \<longrightarrow> n = length bs" using s unfolding append_Nil2 e by blast+
  have c: "got = 4 \<longleftrightarrow> suffix sync_pattern (take n bs)" using ov(1) unfolding e .
  have "\<not> suffix sync_pattern bs" if "got \<noteq> 4" using b(3) c that by simp
  then show ?thesis using a b c by blast
qed

theorem syncsearch_correct_witness:
  "suffix sync_pattern (take 6 [7, 0, 0, 0, 0xff, 0xff, 9 :: byte]) \<and> syncsearch 0 ([7, 0, 0] @ [0, 0xff, 0xff, 9]) = (4, 3 + 3)"
proof -
  have "syncsearch 0 [7, 0, 0, 0, 0xff, 0xff, 9] = (4, 6)" by simp
  note a = syncsearch_correct[OF this]
  have "syncsearch 0 [7, 0, 0] = (2, 3)" by simp
  note b = syncsearch_correct[OF this, of "[0, 0xff, 0xff, 9]"]
  have "syncsearch 2 [0, 0xff, 0xff, 9] = (4, 3)" by simp
  then show ?thesis using a b by simp
qed

text \<open>
  The first search, in the bit buffer: \<open>inflateSync\<close> moves the buffer up by the bits before the next byte
  boundary, where it would have to drop them.  Here the buffer holds one bit and then the bytes 0, 0, 0xff,
  and the input continues with 0xff, but the pattern is not found.
\<close>

lemma inflateSync_shifts_up:
  "\<exists>st. inflateSync (Some (sample_window\<lparr>i_hold := 0xff0000 * 2, i_bits := 25\<rparr>)) [0xff] = Some (Z_DATA_ERROR, Some st)"
  "fst (syncsearch 0 ([0, 0, 0xff] @ [0xff])) = 4"
proof -
  have h: "hold_bytes (sample_window\<lparr>i_mode := SYNC, i_hold := 0xff0000 * 4, i_bits := 24\<rparr>) []
      = Some (sample_window\<lparr>i_mode := SYNC, i_hold := 3, i_bits := 0\<rparr>, [0, 0, 0xfc])"
    by (simp add: hold_bytes.simps[of "_\<lparr>i_bits := b\<rparr>" for b] hold_bytes.simps)
  show "\<exists>st. inflateSync (Some (sample_window\<lparr>i_hold := 0xff0000 * 2, i_bits := 25\<rparr>)) [0xff] = Some (Z_DATA_ERROR, Some st)"
    using h by (simp add: inflateSync_def) (simp add: sample_window_def)
qed simp

section \<open>Bits before the input\<close>

text \<open>
  C27: \<open>inflatePrime\<close> with bits that fit appends them to the bit buffer, where \<open>inflate\<close> reads them before
  the input, and keeps the buffer clean above them; with a negative number it empties the buffer; otherwise
  it returns \<open>Z_STREAM_ERROR\<close> and changes nothing.  (No bits for a full buffer of 32 bits make the code
  shift an \<open>int\<close> by 32 places, which C leaves undefined; the model adds nothing then.)
\<close>

theorem inflatePrime_correct:
  assumes "acc_ok st" "inflatePrime bits val (Some st) = (ret, Some st')"
  shows "(if bits < 0 then ret = Z_OK \<and> rem_bits st' = bytes_bits (next_in st)
     else if bits > 16 \<or> int (i_bits st) + bits > 32 then ret = Z_STREAM_ERROR \<and> st' = st
     else ret = Z_OK \<and> rem_bits st' = hold_bits st @ bits_of (nat bits) (nat (val mod 2 ^ nat bits)) @ bytes_bits (next_in st)) \<and> acc_ok st'"
proof -
  consider "bits < 0" | "0 \<le> bits" "bits > 16 \<or> int (i_bits st) + bits > 32" | "0 \<le> bits" "bits \<le> 16" "int (i_bits st) + bits \<le> 32" by linarith
  then show ?thesis
  proof cases
    case 1
    then show ?thesis using assms by (auto simp: inflatePrime_def rem_bits_def hold_bits_def acc_ok_def)
  next
    case 2
    then show ?thesis using assms by (auto simp: inflatePrime_def)
  next
    case 3
    let ?n = "nat bits" and ?v = "nat (val mod 2 ^ nat bits)" and ?b = "i_bits st"
    have n: "?b + ?n \<le> 32" using 3 by linarith
    have v: "val AND (2 ^ ?n - 1) = val mod 2 ^ ?n" by (simp add: take_bit_eq_mask[symmetric] take_bit_eq_mod mask_eq_exp_minus_1[symmetric])
    have vl: "?v < 2 ^ ?n" by (simp add: nat_less_iff)
    have "?v * 2 ^ ?b < 2 ^ ?n * 2 ^ ?b" using vl by simp
    also have "\<dots> \<le> 2 ^ 32" using power_increasing[OF n, of "2 :: nat"] by (simp add: power_add[symmetric] add.commute)
    finally have small: "?v * 2 ^ ?b < 2 ^ 32" .
    have h: "i_hold st < 2 ^ ?b" using assms(1) by (simp add: acc_ok_def)
    have e: "ret = Z_OK" "st' = st\<lparr>i_hold := i_hold st + ?v * 2 ^ ?b, i_bits := ?b + ?n\<rparr>"
      using assms(2) 3 v small by (auto simp: inflatePrime_def)
    have "i_hold st + ?v * 2 ^ ?b < 2 ^ ?b + ?v * 2 ^ ?b" using h by simp
    also have "\<dots> = (?v + 1) * 2 ^ ?b" by simp
    also have "\<dots> \<le> 2 ^ ?n * 2 ^ ?b" using vl unfolding Suc_eq_plus1[symmetric] by (intro mult_right_mono Suc_leI) simp_all
    finally have "acc_ok st'" using n by (simp add: e acc_ok_def power_add mult.commute)
    moreover have "bits_of (?b + ?n) (i_hold st + ?v * 2 ^ ?b) = bits_of ?b (i_hold st) @ bits_of ?n ?v"
      using bits_of_append[of ?b ?n "i_hold st + ?v * 2 ^ ?b"] bits_of_mod[of ?b "i_hold st + ?v * 2 ^ ?b"] bits_of_mod[of ?b "i_hold st"] h by simp
    ultimately show ?thesis using 3 e(1) by (simp add: e(2) rem_bits_def hold_bits_def)
  qed
qed

theorem inflatePrime_correct_witness: "\<exists>st'. inflatePrime 3 13 (Some sample_window) = (Z_OK, Some st') \<and> rem_bits st' = [True, False, True]"
proof -
  obtain st' where s: "inflatePrime 3 13 (Some sample_window) = (Z_OK, Some st')" by (simp add: inflatePrime_def sample_window_def)
  have "acc_ok sample_window" by (simp add: acc_ok_def sample_window_def)
  from inflatePrime_correct[OF this s] have "rem_bits st' = [True, False, True]"
    by (simp add: hold_bits_def bytes_bits_def bits_of_def bit_0 bit_Suc upt_rec sample_window_def)
  then show ?thesis using s by simp
qed

section \<open>The extra field\<close>

text \<open>
  The copy of the extra field stays inside the application's buffer only while what was copied before fits:
  when an earlier part already passed \<open>extra_max\<close>, the room left is computed as a 32 bit difference below
  zero, and the next part is written past the end.
\<close>

lemma copy_extra_overrun:
  assumes "h_extra h = Some buf" "length buf = h_extra_max h" "h_extra_max h < h_extra_len h - slen" "slen \<le> h_extra_len h"
    and "h_extra_len h - slen + copy < 2 ^ 32"
  shows "copy_extra slen copy inp h = None"
proof -
  let ?len = "h_extra_len h - slen"
  have l: "(h_extra_len h + 2 ^ 32 - slen) mod 2 ^ 32 = ?len" using assms(4,5) by (simp add: mod_if le_mod_geq)
  have "?len + copy > h_extra_max h" using assms(3) by simp
  then show ?thesis using assms l by (simp add: copy_extra_def memcpy_def Let_def)
qed

lemma copy_extra_fits:
  assumes "h_extra h = Some buf" "length buf = h_extra_max h" "h_extra_len h - slen \<le> h_extra_max h" "slen \<le> h_extra_len h"
    and "h_extra_len h - slen + copy < 2 ^ 32" "copy \<le> length inp" "h_extra_max h < 2 ^ 32"
  shows "\<exists>buf'. copy_extra slen copy inp h = Some (h\<lparr>h_extra := Some buf'\<rparr>) \<and> length buf' = h_extra_max h"
proof -
  let ?len = "h_extra_len h - slen"
  have l: "(h_extra_len h + 2 ^ 32 - slen) mod 2 ^ 32 = ?len" using assms(4,5) by (simp add: mod_if le_mod_geq)
  have a: "h_extra_max h + 2 ^ 32 - ?len = (h_extra_max h - ?len) + 2 ^ 32" using assms(3) by linarith
  have b: "h_extra_max h - ?len < 2 ^ 32" using assms(7) by linarith
  have e: "(h_extra_max h + 2 ^ 32 - ?len) mod 2 ^ 32 = h_extra_max h - ?len" unfolding a mod_add_self2 by (rule mod_less[OF b])
  have m: "(?len + copy) mod 2 ^ 32 = ?len + copy" using assms(5) by simp
  define k where "k = h_extra_len h - slen"
  define n where "n = (if k + copy > h_extra_max h then h_extra_max h - k else copy)"
  have n: "k + n \<le> length buf" "n \<le> length inp" using assms(2,3,6) by (auto simp: n_def k_def[symmetric])
  have "copy_extra slen copy inp h = do { buf \<leftarrow> memcpy buf k inp n; Some (h\<lparr>h_extra := Some buf\<rparr>) }"
    unfolding copy_extra_def assms(1) l m e Let_def option.case by (simp only: n_def k_def)
  then show ?thesis using n assms(2)
    by (intro exI[of _ "take k buf @ take n inp @ drop (k + n) buf"]) (simp add: memcpy_def)
qed

end
