(* ===== verification/Inflate_Properties.thy ===== *)
theory Inflate_Properties
  imports Inflate_Correct Inflate_Api_Ok Block_Writer
begin

text \<open>
  The properties of \<open>inflate\<close>, from \<open>inflateInit2\<close> on and together with the block writer.
\<close>

section \<open>Initialization\<close>

text \<open>The arrays inside the structure that \<open>inflateInit2_\<close> allocates; their contents are arbitrary.\<close>

definition state_arrays :: "inflate_state \<Rightarrow> bool" where
  "state_arrays st \<longleftrightarrow> length (i_lens st) = 320 \<and> length (i_work st) = 288 \<and> length (i_codes st) = ENOUGH"

text \<open>The format that \<open>windowBits\<close> selects.\<close>

definition init_wrap :: "int \<Rightarrow> nat" where
  "init_wrap windowBits = (if windowBits < 0 then 0 else 5)"

lemma init_fresh:
  assumes "state_arrays mem" "windowBits = 15 \<or> windowBits = -15" "inflateInit2 True True (Some mem) windowBits = (ret, strm)"
  shows "\<exists>st. ret = Z_OK \<and> strm = Some st \<and> fresh st \<and> i_wrap st = init_wrap windowBits \<and> i_bits st = 0 \<and> next_in st = next_in mem
     \<and> msg st = None"
  using assms
  by (auto simp: inflateInit2_def inflateReset2_def window_request_def inflateReset_def inflateStateCheck_def inflateResetKeep_def reset_keep_def
      state_arrays_def fresh_def acc_ok_def init_wrap_def return_codes Let_def)

lemma init_ready:
  assumes "state_arrays mem" "windowBits = 15 \<or> windowBits = -15" "inflateInit2 True True (Some mem) windowBits = (ret, Some st)"
    and "no_dict (init_wrap windowBits) fut"
  shows "ready_or_new (st\<lparr>next_in := inp\<rparr>) [] fut (stream (init_wrap windowBits) fut)"
proof -
  have f: "fresh st" "i_wrap st = init_wrap windowBits" "i_bits st = 0" using init_fresh[OF assms(1-3)] by auto
  have "fresh (st\<lparr>next_in := inp\<rparr>)" using f(1) by (simp add: fresh_def acc_ok_def window_of_def)
  moreover have "hold_bits st = []" using f(3) by (simp add: hold_bits_def bits_of_def)
  ultimately show ?thesis using f(2) assms(4) by (simp add: ready_or_new_def hold_bits_def)
qed

section \<open>Calls from the initialization on\<close>

lemma inflate_calls_spec:
  assumes "state_arrays mem" "windowBits = 15 \<or> windowBits = -15" "inflateInit2 True True (Some mem) windowBits = (Z_OK, Some st)"
    and nd: "no_dict (init_wrap windowBits) (bytes_bits (all_input cs))" and mem: "window_mem alloc"
    and r: "r = stream (init_wrap windowBits) (bytes_bits (all_input cs))"
  shows "\<exists>ret out rest st'. inflate_calls alloc cs (st\<lparr>next_in := []\<rparr>) [] = Some (ret, out, rest, st')
     \<and> (ret = Z_OK \<and> (\<forall>o1 bs. r = Some (o1, bs) \<longrightarrow> prefix out o1)
        \<or> ret = Z_STREAM_END \<and> r = Some (out, rem_bits st' @ bytes_bits rest)
        \<or> ret = Z_DATA_ERROR \<and> r = None)
     \<and> (ret = Z_OK \<and> cs \<noteq> [] \<and> r \<noteq> None \<longrightarrow> (\<exists>(flush, _, space)\<in>set cs. flush = Z_BLOCK \<or> flush = Z_TREES \<or> space < length (fst (the r))))"
proof -
  let ?st = "st\<lparr>next_in := []\<rparr>"
  have a: "ready_or_new ?st [] (bytes_bits (next_in ?st @ all_input cs)) r" using init_ready[OF assms(1-3) nd, of "[]"] r by simp
  have b: "i_mode ?st \<noteq> BAD" using init_fresh[OF assms(1-3)] by (auto simp: fresh_def)
  from inflate_calls_ok[OF a mem b] obtain ret out rest st' where c: "inflate_calls alloc cs ?st [] = Some (ret, out, rest, st')"
    "ready_or_new st' out (bytes_bits (next_in st' @ rest)) r"
    "ret = Z_OK \<and> i_mode st' \<noteq> BAD \<or> ret = Z_STREAM_END \<and> r = Some (out, rem_bits st' @ bytes_bits rest) \<or> ret = Z_DATA_ERROR \<and> r = None"
    "ret = Z_OK \<and> cs \<noteq> [] \<and> r \<noteq> None \<longrightarrow> (\<exists>(flush, _, space)\<in>set cs. flush = Z_BLOCK \<or> flush = Z_TREES \<or> space < length (fst (the r)))"
    by blast
  have p: "prefix out o1" if "r = Some (o1, bs)" "i_mode st' \<noteq> BAD" for o1 bs
    using ready_prefix[of st' out _ o1 bs] c(2) that by blast
  from c(3) have "ret = Z_OK \<and> (\<forall>o1 bs. r = Some (o1, bs) \<longrightarrow> prefix out o1)
      \<or> ret = Z_STREAM_END \<and> r = Some (out, rem_bits st' @ bytes_bits rest) \<or> ret = Z_DATA_ERROR \<and> r = None"
    using p by (elim disjE conjE) simp_all
  then show ?thesis using c(1,4) by (intro exI[of _ ret] exI[of _ out] exI[of _ rest] exI[of _ st'] conjI)
qed

text \<open>
  What has been written so far is right whatever the rest of the input will be: the calls go on with it.
\<close>

lemma inflate_calls_prefix:
  assumes "state_arrays mem" "windowBits = 15 \<or> windowBits = -15" "inflateInit2 True True (Some mem) windowBits = (Z_OK, Some st)"
    and nd: "no_dict (init_wrap windowBits) (bytes_bits (all_input cs @ later))" and mem: "window_mem alloc"
    and c: "inflate_calls alloc cs (st\<lparr>next_in := []\<rparr>) [] = Some (Z_OK, out, rest, st1)"
    and r: "stream (init_wrap windowBits) (bytes_bits (all_input cs @ later)) = Some (o1, bs)"
  shows "prefix out o1"
proof -
  let ?cs = "cs @ [(0, later, 0)]"
  have a: "all_input ?cs = all_input cs @ later" by (simp add: all_input_def)
  from inflate_calls_spec[OF assms(1-3) _ mem refl, of ?cs] nd
  obtain ret out' rest' st' where d: "inflate_calls alloc ?cs (st\<lparr>next_in := []\<rparr>) [] = Some (ret, out', rest', st')"
    "ret = Z_OK \<and> prefix out' o1 \<or> ret = Z_STREAM_END \<and> o1 = out'" unfolding a r by auto
  have "inflate_calls alloc [(0, later, 0)] st1 out = Some (ret, out', rest', st')" using d(1) inflate_calls_append[OF c] by simp
  then have "prefix out out'" by (auto simp: Let_def split: bind_splits if_splits)
  then show ?thesis using d(2) by (auto intro: prefix_order.trans)
qed

text \<open>
  C1: from \<open>inflateInit2\<close> with \<open>windowBits\<close> 15 (zlib format) or -15 (raw) on, any input that does not ask for
  a preset dictionary, cut into any calls of \<open>inflate\<close> with any space, is decoded without an access out
  of bounds, and every call returns.  When the calls end with \<open>Z_STREAM_END\<close>, the
  decoder of the format accepts the stream with exactly their output, and the input left is what
  follows the stream; as long as they return \<open>Z_OK\<close>, the output is the beginning of the decoder's, for
  whatever input comes later; they
  end with \<open>Z_DATA_ERROR\<close> only for a stream that the decoder rejects, and with no other code.
\<close>

theorem inflate_calls_correct:
  assumes "state_arrays mem" "windowBits = 15 \<or> windowBits = -15" "inflateInit2 True True (Some mem) windowBits = (Z_OK, Some st)"
    and "no_dict (init_wrap windowBits) (bytes_bits (all_input cs))" "window_mem alloc"
    and "r = stream (init_wrap windowBits) (bytes_bits (all_input cs))"
  shows "\<exists>ret out rest st'. inflate_calls alloc cs (st\<lparr>next_in := []\<rparr>) [] = Some (ret, out, rest, st')
     \<and> (ret = Z_OK \<and> (\<forall>later o1 bs. no_dict (init_wrap windowBits) (bytes_bits (all_input cs @ later))
            \<longrightarrow> stream (init_wrap windowBits) (bytes_bits (all_input cs @ later)) = Some (o1, bs) \<longrightarrow> prefix out o1)
        \<or> ret = Z_STREAM_END \<and> r = Some (out, rem_bits st' @ bytes_bits rest)
        \<or> ret = Z_DATA_ERROR \<and> r = None)"
proof -
  obtain ret out rest st' where c: "inflate_calls alloc cs (st\<lparr>next_in := []\<rparr>) [] = Some (ret, out, rest, st')"
    "ret = Z_OK \<or> ret = Z_STREAM_END \<and> r = Some (out, rem_bits st' @ bytes_bits rest) \<or> ret = Z_DATA_ERROR \<and> r = None"
    using inflate_calls_spec[OF assms] by blast
  have "prefix out o1" if "ret = Z_OK" "no_dict (init_wrap windowBits) (bytes_bits (all_input cs @ later))"
    "stream (init_wrap windowBits) (bytes_bits (all_input cs @ later)) = Some (o1, bs)" for later o1 bs
    using inflate_calls_prefix[OF assms(1-3) that(2) assms(5) _ that(3)] c(1) that(1) by blast
  then show ?thesis using c by blast
qed

text \<open>Memory for a state, and the raw stream of one stored block with the byte 97.\<close>

definition sample_memory :: inflate_state where
  "sample_memory = \<lparr>next_in = [], out_buf = [], avail_out = 0, total_in = 7, total_out = 7, msg = None, z_adler = 7, z_data_type = 2, i_out = 0,
     i_mode = SYNC, i_last = 1, i_wrap = 3, i_havedict = 1, i_flags = 1, i_dmax = 5, i_check = 9, i_total = 8, i_head = None, i_wbits = 9,
     i_wsize = 5, i_whave = 5, i_wnext = 5, i_window = None, i_hold = 77, i_bits = 90, i_length = 3, i_offset = 3, i_extra = 3,
     i_lencode = Lenfix, i_distcode = Distfix, i_lenbits = 3, i_distbits = 3, i_ncode = 3, i_nlen = 3, i_ndist = 3, i_have = 3, i_next = 3,
     i_lens = replicate 320 9, i_work = replicate 288 9, i_codes = replicate ENOUGH \<lparr>code_op = 1, code_bits = 1, code_val = 1\<rparr>,
     i_sane = False, i_back = 4, i_was = 4\<rparr>"

lemma sample_memory_arrays: "state_arrays sample_memory"
  by (simp add: state_arrays_def sample_memory_def)

definition sample_raw :: "byte list" where
  "sample_raw = [1, 1, 0, 254, 255, 97]"

lemma sample_raw_bits: "bytes_bits sample_raw = map (\<lambda>n. n = (1::nat)) [1,0,0,0,0,0,0,0, 1,0,0,0,0,0,0,0, 0,0,0,0,0,0,0,0, 0,1,1,1,1,1,1,1, 1,1,1,1,1,1,1,1, 1,0,0,0,0,1,1,0]"
  by (simp add: sample_raw_def bytes_bits_def byte_bits_def upt_rec)

lemma sample_raw_stream: "stream 0 (bytes_bits sample_raw) = Some ([97], [])"
  unfolding sample_raw_bits by (simp add: stream_def decode_blocks.simps decode_block_def take_bits_def decode_stored_def)

definition sample_inflate :: inflate_state where
  "sample_inflate = the (snd (inflateInit2 True True (Some sample_memory) (-15)))"

lemma sample_inflate_init: "inflateInit2 True True (Some sample_memory) (-15) = (Z_OK, Some sample_inflate)"
  using init_fresh[OF sample_memory_arrays, of "-15"] by (cases "inflateInit2 True True (Some sample_memory) (-15)") (auto simp: sample_inflate_def)

definition sample_calls :: "(nat \<times> byte list \<times> nat) list" where
  "sample_calls = [(0, [1, 1], 10), (0, [0, 254, 255], 10), (0, [97], 10)]"

lemma sample_calls_stream: "stream (init_wrap (-15)) (bytes_bits (all_input sample_calls)) = Some ([97], [])"
  using sample_raw_stream by (simp add: init_wrap_def sample_calls_def sample_raw_def)

lemma sample_calls_facts: "no_dict (init_wrap (-15)) bs" "window_mem (Some (replicate 32768 0))" "sample_calls \<noteq> []"
  "\<forall>c\<in>set sample_calls. fst c \<noteq> Z_BLOCK \<and> fst c \<noteq> Z_TREES \<and> length [97::byte] \<le> snd (snd c)"
  by (auto simp: init_wrap_def no_dict_def window_mem_def sample_calls_def flush_values)

theorem inflate_calls_correct_witness:
  "\<exists>ret out rest st'. inflate_calls (Some (replicate 32768 0)) sample_calls (sample_inflate\<lparr>next_in := []\<rparr>) [] = Some (ret, out, rest, st')
     \<and> (ret = Z_OK \<and> prefix out [97] \<or> ret = Z_STREAM_END \<and> out = [97])"
proof -
  note w = inflate_calls_correct[OF sample_memory_arrays _ sample_inflate_init sample_calls_facts(1,2) sample_calls_stream[symmetric]]
  obtain ret out rest st' where c: "inflate_calls (Some (replicate 32768 0)) sample_calls (sample_inflate\<lparr>next_in := []\<rparr>) [] = Some (ret, out, rest, st')"
    "ret = Z_OK \<and> (\<forall>later o1 bs. no_dict (init_wrap (-15)) (bytes_bits (all_input sample_calls @ later))
            \<longrightarrow> stream (init_wrap (-15)) (bytes_bits (all_input sample_calls @ later)) = Some (o1, bs) \<longrightarrow> prefix out o1)
      \<or> ret = Z_STREAM_END \<and> out = [97] \<or> False" using w by auto
  have z: "stream (init_wrap (-15)) (bytes_bits (all_input sample_calls @ [])) = Some ([97], [])" using sample_calls_stream by simp
  have "prefix out [97]" if "ret = Z_OK"
  proof -
    have "ret \<noteq> Z_STREAM_END" using that by (simp add: return_codes)
    then show ?thesis using c(2) z sample_calls_facts(1) by blast
  qed
  then show ?thesis using c by blast
qed

text \<open>
  C3: when the decoder of the format accepts the stream, calls with all the input and with enough space
  reach its end: they return \<open>Z_STREAM_END\<close> with all of its output, and leave exactly the input that
  follows the stream.
\<close>

theorem inflate_calls_complete:
  assumes "state_arrays mem" "windowBits = 15 \<or> windowBits = -15" "inflateInit2 True True (Some mem) windowBits = (Z_OK, Some st)"
    and "no_dict (init_wrap windowBits) (bytes_bits (all_input cs))" "window_mem alloc"
    and "stream (init_wrap windowBits) (bytes_bits (all_input cs)) = Some (data, bs)"
    and "cs \<noteq> []" "\<forall>c\<in>set cs. fst c \<noteq> Z_BLOCK \<and> fst c \<noteq> Z_TREES \<and> length data \<le> snd (snd c)"
  shows "\<exists>ret out rest st'. inflate_calls alloc cs (st\<lparr>next_in := []\<rparr>) [] = Some (ret, out, rest, st')
     \<and> ret = Z_STREAM_END \<and> out = data \<and> rem_bits st' @ bytes_bits rest = bs"
proof -
  define r where "r = Some (data, bs)"
  have "r = stream (init_wrap windowBits) (bytes_bits (all_input cs))" using assms(6) by (simp add: r_def)
  from inflate_calls_spec[OF assms(1-5) this] obtain ret out rest st' where c: "inflate_calls alloc cs (st\<lparr>next_in := []\<rparr>) [] = Some (ret, out, rest, st')"
    "ret = Z_OK \<and> (\<forall>o1 bs. r = Some (o1, bs) \<longrightarrow> prefix out o1)
      \<or> ret = Z_STREAM_END \<and> r = Some (out, rem_bits st' @ bytes_bits rest) \<or> ret = Z_DATA_ERROR \<and> r = None"
    "ret = Z_OK \<and> cs \<noteq> [] \<and> r \<noteq> None \<longrightarrow> (\<exists>(flush, _, space)\<in>set cs. flush = Z_BLOCK \<or> flush = Z_TREES \<or> space < length (fst (the r)))"
    by blast
  have "ret \<noteq> Z_OK"
  proof
    assume "ret = Z_OK"
    then obtain flush inp space where "(flush, inp, space) \<in> set cs" "flush = Z_BLOCK \<or> flush = Z_TREES \<or> space < length data"
      using c(3) assms(7) by (auto simp: r_def)
    then show False using bspec[OF assms(8)] by fastforce
  qed
  then have "ret = Z_STREAM_END \<and> out = data \<and> rem_bits st' @ bytes_bits rest = bs"
    using c(2) by (auto simp: r_def)
  then show ?thesis using c(1) by blast
qed

theorem inflate_calls_complete_witness:
  "\<exists>ret out rest st'. inflate_calls (Some (replicate 32768 0)) sample_calls (sample_inflate\<lparr>next_in := []\<rparr>) [] = Some (ret, out, rest, st')
     \<and> ret = Z_STREAM_END \<and> out = [97] \<and> rem_bits st' @ bytes_bits rest = []"
  using inflate_calls_complete[OF sample_memory_arrays _ sample_inflate_init sample_calls_facts(1,2) sample_calls_stream sample_calls_facts(3,4)] by auto




section \<open>What the block writer writes\<close>

lemma flush_last_valid:
  assumes "tr_flush_block s buf stored_len 1 = Some s'"
  shows "bi_valid s' = 0"
proof -
  obtain u where "s' = bi_windup u" using assms by (auto simp: tr_flush_block_def Let_def split: bind_splits)
  then show ?thesis by (simp add: bi_windup_def Let_def)
qed

lemma flush_last_stream:
  assumes "trees_inv s" "bit_inv s" "lz_syms [] (block_syms s) = Some out" "out_bits s = []"
    and "\<And>b. buf = Some b \<Longrightarrow> stored_len < 65536 \<and> stored_len \<le> length b \<and> out = take stored_len b"
  shows "\<exists>s'. tr_flush_block s buf stored_len 1 = Some s' \<and> stream 0 (bytes_bits (pending_buf s')) = Some (out, [])"
proof -
  obtain s' bs where s': "tr_flush_block s buf stored_len 1 = Some s'" "block_of (length (out_bits s)) [] 1 out bs"
    "out_bits s' = out_bits s @ bs @ replicate (pad_len (length (out_bits s @ bs))) False"
    using tr_flush_block_spec[OF assms(1,2) _ assms(3), of 1 buf stored_len] assms(5) by auto
  have o: "out_bits s' = bytes_bits (pending_buf s')" using flush_last_valid[OF s'(1)] by (simp add: out_bits_def)
  let ?pad = "replicate (pad_len (length bs)) False"
  have e: "bytes_bits (pending_buf s') = bs @ ?pad" using o s'(3) assms(4) by simp
  have m: "(length bs + length ?pad) mod 8 = 0" using arg_cong[OF e, of length] by (metis length_append length_bytes_bits mod_mult_self1_is_0)
  have "decode_block [] (bs @ ?pad) = Some (1, out, ?pad)" using s'(2) m assms(4) by (simp add: block_of_def)
  moreover have "length ?pad < 8" by (simp add: pad_len_def)
  ultimately have "stream 0 (bs @ ?pad) = Some (out, [])" by (simp add: stream_def decode_blocks.simps)
  then show ?thesis using s'(1) e by auto
qed

text \<open>
  C2: \<open>inflate\<close> inverts the block writer: what \<open>_tr_flush_block\<close> writes as the last block at the start of
  a stream, given to \<open>inflate\<close> with enough space, gives the data of the block and \<open>Z_STREAM_END\<close>,
  whichever encoding the writer chose.
\<close>

theorem flush_inflate_roundtrip:
  assumes "trees_inv s" "bit_inv s" "lz_syms [] (block_syms s) = Some data" "out_bits s = []"
    and "\<And>b. buf = Some b \<Longrightarrow> stored_len < 65536 \<and> stored_len \<le> length b \<and> data = take stored_len b"
    and "state_arrays mem" "inflateInit2 True True (Some mem) (-15) = (Z_OK, Some st)" "window_mem alloc" "length data \<le> space"
  shows "\<exists>s' ret out rest st'. tr_flush_block s buf stored_len 1 = Some s'
     \<and> inflate_calls alloc [(Z_FINISH, pending_buf s', space)] (st\<lparr>next_in := []\<rparr>) [] = Some (ret, out, rest, st')
     \<and> ret = Z_STREAM_END \<and> out = data \<and> rem_bits st' = []"
proof -
  obtain s' where s': "tr_flush_block s buf stored_len 1 = Some s'" "stream 0 (bytes_bits (pending_buf s')) = Some (data, [])"
    using flush_last_stream[OF assms(1-5)] by blast
  let ?cs = "[(Z_FINISH, pending_buf s', space)]"
  have st: "stream (init_wrap (-15)) (bytes_bits (all_input ?cs)) = Some (data, [])" "no_dict (init_wrap (-15)) (bytes_bits (all_input ?cs))"
    using s'(2) by (simp_all add: init_wrap_def no_dict_def)
  from inflate_calls_spec[OF assms(6) _ assms(7) st(2) assms(8) st(1)[symmetric]]
  obtain ret out rest st' where c: "inflate_calls alloc ?cs (st\<lparr>next_in := []\<rparr>) [] = Some (ret, out, rest, st')"
    "ret = Z_OK \<and> (\<forall>o1 bs'. Some (data, []) = Some (o1, bs') \<longrightarrow> prefix out o1)
      \<or> ret = Z_STREAM_END \<and> Some (data, []) = Some (out, rem_bits st' @ bytes_bits rest) \<or> ret = Z_DATA_ERROR \<and> Some (data, []) = None"
    "ret = Z_OK \<longrightarrow> space < length data" by (auto simp: Z_FINISH_def Z_BLOCK_def Z_TREES_def)
  then show ?thesis using s'(1) assms(9) by auto
qed

theorem flush_inflate_roundtrip_witness:
  "\<exists>s' ret out rest st'. tr_flush_block sample_state (Some [97, 97, 97, 97]) 4 1 = Some s'
     \<and> inflate_calls (Some (replicate 32768 0)) [(Z_FINISH, pending_buf s', 4)] (sample_inflate\<lparr>next_in := []\<rparr>) [] = Some (ret, out, rest, st')
     \<and> ret = Z_STREAM_END \<and> out = [97, 97, 97, 97] \<and> rem_bits st' = []"
  using flush_inflate_roundtrip[OF sample_inv(1,2) sample_data sample_inv(3) _ sample_memory_arrays sample_inflate_init,
      of "Some [97, 97, 97, 97]" 4 "Some (replicate 32768 0)" 4] by (fastforce simp: window_mem_def)

section \<open>Errors in the header\<close>

lemma needbits_two:
  assumes "i_bits st = 0" "i_hold st = 0" "next_in st = b0 # b1 # inp"
  shows "NEEDBITS 16 st = st\<lparr>next_in := inp, i_hold := unat b0 + unat b1 * 256, i_bits := 16\<rparr>"
proof -
  have "unat b0 + unat b1 * 256 < 2 ^ 64" "unat b0 < 2 ^ 64" using byte_unat_less[of b0] byte_unat_less[of b1] by simp_all
  then show ?thesis using assms by (simp add: NEEDBITS.simps[of 16] PULLBYTE_def)
qed

text \<open>The message for the two bytes of a wrong header, in the order of the tests.\<close>

definition header_error :: "byte \<Rightarrow> byte \<Rightarrow> string option" where
  "header_error b0 b1 = (if (unat b0 * 256 + unat b1) mod 31 \<noteq> 0 then Some ''incorrect header check''
     else if unat b0 mod 16 \<noteq> 8 then Some ''unknown compression method''
     else if unat b0 div 16 > 7 then Some ''invalid window size'' else None)"

lemma zlib_head_errors:
  assumes "i_hold s = unat b0 + unat b1 * 256" "header_error b0 b1 = Some m"
  shows "\<exists>t. zlib_head s = Go t \<and> i_mode t = BAD \<and> msg t = Some m \<and> i_wsize t = i_wsize s \<and> i_out t = i_out s \<and> avail_out t = avail_out s \<and> out_buf t = out_buf s"
proof -
  have b: "unat b0 < 256" "unat b1 < 256" by (rule byte_unat_less)+
  have v: "(unat b0 + unat b1 * 256) mod 256 = unat b0" "(unat b0 + unat b1 * 256) div 256 = unat b1" using b by simp_all
  have n: "(unat b0 + unat b1 * 256) mod 16 = unat b0 mod 16" using mod_mult_self2[of "unat b0" 16 "16 * unat b1"] by (simp add: mult.commute)
  have e: "(x + y * 256) div 16 = x div 16 + 16 * y" for x y :: nat using div_mult_self1[of 16 x "16 * y"] by (simp add: mult.commute)
  have d: "(unat b0 + unat b1 * 256) div 16 mod 16 = unat b0 div 16" using b unfolding e by simp
  define h where "h = i_hold s"
  have h: "h mod 256 = unat b0" "h div 256 = unat b1" "h mod 16 = unat b0 mod 16" "h div 16 mod 16 = unat b0 div 16"
    using v n d unfolding h_def assms(1) by blast+
  define x where "x = unat b0 div 16"
  note defs = zlib_head_def Let_def bad_def BITS_def DROPBITS_def Z_DEFLATED_def
  consider "(unat b0 * 256 + unat b1) mod 31 \<noteq> 0" "m = ''incorrect header check''"
    | "(unat b0 * 256 + unat b1) mod 31 = 0" "unat b0 mod 16 \<noteq> 8" "m = ''unknown compression method''"
    | "(unat b0 * 256 + unat b1) mod 31 = 0" "unat b0 mod 16 = 8" "7 < x" "m = ''invalid window size''"
    using assms(2) by (auto simp: header_error_def x_def split: if_splits)
  then show ?thesis
    by cases (simp_all add: defs h_def[symmetric] h x_def[symmetric])
qed

text \<open>
  C21: after \<open>inflateInit\<close>, a zlib stream whose two header bytes are wrong makes the first call of \<open>inflate\<close>
  return \<open>Z_DATA_ERROR\<close> without any output, with the message for the first test that fails: the check
  bits, the method, the window size.
\<close>

theorem inflate_header_errors:
  assumes "state_arrays mem" "inflateInit True True (Some mem) = (Z_OK, Some st)" and "header_error b0 b1 = Some m"
  shows "\<exists>st'. inflate alloc flush (b0 # b1 # inp) space st = Some (Z_DATA_ERROR, st') \<and> msg st' = Some m \<and> out_buf st' = [] \<and> i_mode st' = BAD"
proof -
  have i: "inflateInit2 True True (Some mem) 15 = (Z_OK, Some st)" using assms(2) by (simp add: inflateInit_def DEF_WBITS_def)
  have f: "fresh st" "i_wrap st = 5" "i_bits st = 0" using init_fresh[OF assms(1) _ i] by (auto simp: init_wrap_def)
  let ?s = "started (b0 # b1 # inp) space st"
  have s: "i_bits ?s = 0" "i_hold ?s = 0" "next_in ?s = b0 # b1 # inp" "i_wrap ?s = 5" "i_wbits ?s = 15" "acc_ok ?s" "i_mode ?s = HEAD"
    "i_wsize ?s = 0" "i_out ?s = avail_out ?s" "out_buf ?s = []"
    using f by (simp_all add: started_def Let_def fresh_def acc_ok_def)
  note nb = needbits_two[OF s(1-3)]
  have "inflate_step flush ?s = zlib_head (NEEDBITS 16 ?s)" using do_head_zlib[OF s(4-6)] s(7) nb by (simp add: inflate_step_def need_def Let_def)
  moreover obtain t where t: "zlib_head (NEEDBITS 16 ?s) = Go t" "i_mode t = BAD" "msg t = Some m" "i_wsize t = 0" "i_out t = avail_out t" "out_buf t = []"
    using zlib_head_errors[OF _ assms(3), of "NEEDBITS 16 ?s"] nb s(8-10) by auto
  ultimately have "inflate_loop flush ?s = inflate_loop flush t" by (subst inflate_loop.simps) simp
  moreover have "inflate_loop flush t = Some (t, Z_DATA_ERROR, True)" using t(2) by (subst inflate_loop.simps) (simp add: inflate_step_def)
  ultimately have l: "inflate_loop flush ?s = Some (t, Z_DATA_ERROR, True)" by simp
  from early_leave[OF l t(4,5)] show ?thesis using t by (auto simp: return_codes accounted_facts)
qed

theorem inflate_header_errors_witness:
  "\<exists>st st'. inflateInit True True (Some sample_memory) = (Z_OK, Some st)
     \<and> inflate None 0 [0x79, 0x9c] 0 st = Some (Z_DATA_ERROR, st') \<and> msg st' = Some ''incorrect header check''"
proof -
  obtain st where st: "inflateInit True True (Some sample_memory) = (Z_OK, Some st)"
    using init_fresh[OF sample_memory_arrays, of 15] by (cases "inflateInit2 True True (Some sample_memory) 15") (auto simp: inflateInit_def DEF_WBITS_def)
  have "header_error 0x79 0x9c = Some ''incorrect header check''" by (simp add: header_error_def)
  from inflate_header_errors[OF sample_memory_arrays st this] st show ?thesis by blast
qed

section \<open>The fixed tables\<close>

text \<open>
  C22: whatever the next bits are, the tables of \<open>inffixed.h\<close> give for them what the canonical codes of the
  fixed block type give: the entry of the symbol whose code the bits begin with, or the mark of an
  invalid code for the symbols the format excludes.
\<close>

theorem fixed_tables_decode:
  "(\<exists>s<288. t mod 2 ^ (static_lens ! s) = canon_code static_lens s
      \<and> lenfix ! (t mod 2 ^ 9) = (if s < 286 then sym_entry LENS s (static_lens ! s) else \<lparr>code_op = 64, code_bits = static_lens ! s, code_val = 0\<rparr>))
   \<and> (\<exists>s<32. t mod 2 ^ 5 = canon_code fixed_dlens s
      \<and> distfix ! (t mod 2 ^ 5) = (if s < 30 then sym_entry DISTS s 5 else \<lparr>code_op = 64, code_bits = 5, code_val = 0\<rparr>))"
proof
  obtain s where s: "s < length static_lens" "static_lens ! s \<noteq> 0" "t mod 2 ^ (static_lens ! s) = canon_code static_lens s"
    using canon_code_total[OF static_lens_kraft(2) static_kraft] by blast
  have "s < 288" using s(1) by (simp add: length_static_lens)
  from lenfix_nth[OF this s(3)] this s(3) show "\<exists>s<288. t mod 2 ^ (static_lens ! s) = canon_code static_lens s
      \<and> lenfix ! (t mod 2 ^ 9) = (if s < 286 then sym_entry LENS s (static_lens ! s) else \<lparr>code_op = 64, code_bits = static_lens ! s, code_val = 0\<rparr>)"
    by (intro exI[of _ s]) (simp add: fixed_entry_def no_sym_def)
next
  obtain s where s: "s < length fixed_dlens" "fixed_dlens ! s \<noteq> 0" "t mod 2 ^ (fixed_dlens ! s) = canon_code fixed_dlens s"
    using canon_code_total[OF fixed_dlens_kraft(2) fixed_dlens_kraft(1)] by blast
  have l: "s < 32" "fixed_dlens ! s = 5" using s(1) by (simp_all add: fixed_dlens_def)
  have "rbits 5 (t mod 32) = s" using s(3) l fixed_canon[OF l(1)] rbits_twice[of 5 s] by simp
  then have "distfix ! (t mod 32) = fixed_entry DISTS s 5" by (simp add: distfix_entries)
  then show "\<exists>s<32. t mod 2 ^ 5 = canon_code fixed_dlens s
      \<and> distfix ! (t mod 2 ^ 5) = (if s < 30 then sym_entry DISTS s 5 else \<lparr>code_op = 64, code_bits = 5, code_val = 0\<rparr>)"
    using s(3) l by (intro exI[of _ s]) (simp add: fixed_entry_def no_sym_def)
qed

end
