(* ===== verification/Spec2Isabelle.thy ===== *)
theory Spec2Isabelle
  imports Adler32 Crc32_Table Inflate_Properties
begin

text \<open>
  Verification library for the C code of AWS, the Ada Web Server.

  The server is written in Ada; the C code it carries is the compression library zlib 1.2.11, which it
  links for its compressed streams (src/include/zlib), and small wrappers.  This library models zlib.

  \<^bold>\<open>The program.\<close>  \<open>deflate\<close> (deflate.c) reads the input of the application into a window, finds matches
  and hands literals and matches to trees.c, which builds Huffman trees and writes blocks of bits.
  \<open>inflate\<close> (inflate.c) is a state machine over a bit accumulator that reads such blocks, with tables
  built by inftrees.c and an inner loop in inffast.c, and keeps the last output in a circular window.
  adler32.c and crc32.c compute the check values of both directions.

  \<^bold>\<open>Theories, in the order of the imports.\<close>
  \<^item> \<open>Zlib_Prelude\<close>: types of bytes and words, shared lemmas.  \<open>Zlib_H\<close>: the constants of zlib.h.
  \<^item> \<open>Checksum\<close>: the contract of a running checksum and of its combination, as locales; interpreted by
    \<open>Adler32\<close> (adler32.c) and \<open>Crc32\<close> (crc32.c).  \<open>Crc32_Table\<close>: the tables of crc32.h are those that
    \<open>make_crc_table\<close> generates.
  \<^item> \<open>Canonical\<close>: the canonical prefix code of a list of lengths, the specification shared by
    compressor and decompressor.
  \<^item> \<open>Inftrees\<close>: \<open>inflate_table\<close> of inftrees.c, and that its tables decode the canonical code.
    \<open>Inftrees_Enough\<close>: \<open>ENOUGH\<close> is enough for every set of lengths that \<open>inflate\<close> builds a table for, so that
    the result of \<open>inflate_table\<close> is determined by whether the lengths are a code.
  \<^item> \<open>Bit_Output\<close>: the bit buffer of trees.c.  \<open>Trees_Tables\<close>: trees.h, the static tables and the code
    generation of trees.c.
  \<^item> \<open>Checked_Memory\<close>: array accesses and loops that fail when out of bounds.
  \<^item> \<open>Priority_Queue\<close>, \<open>Tree_Build\<close>, \<open>Tree_Lengths\<close>: the construction of Huffman trees in trees.c.
  \<^item> \<open>Trees\<close>: the block writer of trees.c.
  \<^item> \<open>Deflate_Format\<close>: a decoder of the format (RFC 1951) on lists of bits, the specification of both
    directions.  \<open>Block_Data\<close>, \<open>Block_Trees\<close>, \<open>Block_Writer\<close>: what trees.c writes decodes to the data it
    was given.
  \<^item> \<open>Inffixed\<close>, \<open>Inflate_State\<close>, \<open>Inffast\<close>, \<open>Inflate\<close>, \<open>Inflate_Api\<close>: inffixed.h, inflate.h, inffast.c and
    inflate.c, one definition for every \<open>case\<close> of the state machine.
  \<^item> \<open>Inflate_Bits\<close>: the accumulator and the table lookups read what the bit decoder reads.
    \<open>Inflate_Fixed\<close>: the fixed tables.  \<open>Inflate_Spec\<close>, \<open>Inflate_Inv\<close>: for every mode, what the decoder still
    has to do, and the invariant that this gives the result for the whole stream.
  \<^item> \<open>Inflate_Steps\<close>, \<open>Inflate_Dynamic\<close>, \<open>Inflate_Codes\<close>, \<open>Inflate_Match\<close>, \<open>Inflate_Trailer\<close>,
    \<open>Inflate_Step_Ok\<close>, \<open>Inflate_Copy\<close>, \<open>Inflate_Fast\<close>: every step of the machine, and \<open>inflate_fast\<close>, keeps
    the invariant and does some of the work left.
  \<^item> \<open>Inflate_Window\<close>: \<open>updatewindow\<close> keeps the last bytes.  \<open>Inflate_Space\<close>: what a step
    writes it takes from the space.  \<open>Inflate_Run\<close>: the loop returns.  \<open>Inflate_Stream\<close>, \<open>Inflate_Prefix\<close>,
    \<open>Inflate_Correct\<close>: headers, trailers, and sequences of calls.  \<open>Inflate_Api_Ok\<close>: the other functions.
    \<open>Inflate_Properties\<close>: the properties of \<open>inflate\<close> and its composition with the block writer.

  \<^bold>\<open>Conventions.\<close>  A result \<open>None\<close> (or \<open>Fault\<close> in the step functions of \<open>inflate\<close>) is an access out of bounds
  or a loop that does not return, so that theorems that give \<open>Some\<close> also state memory safety and
  termination.  An \<open>unsigned long\<close> has 64 bits, an \<open>unsigned\<close> 32, a \<open>ush\<close> 16.  The stream of the application
  and the state behind it are one record; its output is the list of bytes written by the current call.
  The results of allocations are parameters.  Loops without a structural measure are
  \<open>partial_function\<close>s or functions with their own termination proof; no fuel is used.

  \<^bold>\<open>Bounds.\<close>  The refinement of \<open>inflate\<close> is for \<open>windowBits\<close> 15 (zlib) and -15 (raw) without a preset
  dictionary; gzip headers are modelled but not part of the refinement.  The errors that the refinement allows
  are those of the format's decoder: in particular no valid dynamic block is refused for want of room
  in \<open>codes\<close>.  \<open>inflate\<close> is called with non-null \<open>next_in\<close> and \<open>next_out\<close> and with a valid state, so that the test at
  its entry is left out.

  \<^bold>\<open>Not modelled.\<close>  gz*.c (files of the operating system), infback.c (a second copy of the decoder behind
  callbacks, not linked by the server), zutil.c, the wrappers around sockets, OpenSSL and GnuTLS (one-line
  calls of code outside the repository), the generator of the configuration and the demonstrations.
  In trees.c, \<open>l_buf\<close> and \<open>d_buf\<close> are arrays of their own instead of the end of \<open>pending_buf\<close>, and that the
  pending output fits in its buffer is an assumption of the code that is not proved.
\<close>

end
